(* ===== verification/Prelude.thy ===== *)
theory Prelude
  imports Main "HOL-Library.Char_ord" "HOL-Library.List_Lexorder" "HOL-Library.Sublist"
begin

text \<open>
  The vocabulary every component shares.

  \<^item> \<^bold>\<open>Strings.\<close> A Rust \<^verbatim>\<open>String\<close> is modelled by its UTF-8 bytes, as a HOL
    \<^typ>\<open>string\<close> (a list of 8-bit characters). Everything the program does to strings
    (comparison, equality, splitting at \<^verbatim>\<open>.\<close>, replacing, searching for ASCII
    patterns) is a byte operation in UTF-8, and Rust's \<^verbatim>\<open>Ord\<close> on strings is the
    bytewise lexicographic order, which \<^verbatim>\<open>List_Lexorder\<close> and \<^verbatim>\<open>Char_ord\<close> provide.
  \<^item> \<^bold>\<open>Results.\<close> \<^verbatim>\<open>Result<T, E>\<close> is the sum \<open>'e + 'a\<close>, \<^const>\<open>Inl\<close> for the error;
    \<open>res_bind\<close> is the \<^verbatim>\<open>?\<close> operator and \<open>res_map\<close> is
    \<^verbatim>\<open>collect::<Result<Vec<_>, _>>()\<close>: it stops at the first error.
  \<^item> \<^bold>\<open>BTreeMap and BTreeSet.\<close> A \<^verbatim>\<open>BTreeMap\<close> is the list of its entries in key order
    (so that iteration is the list), a \<^verbatim>\<open>BTreeSet\<close> the sorted list of its elements.
    The locale \<open>ordered_map\<close> states what clients rely on and is interpreted on
    these operations.
\<close>

named_theorems res_simps \<open>evaluation of the result combinators\<close>
named_theorems bt_simps \<open>lookup laws of the ordered maps and sets\<close>

section \<open>Results\<close>

type_synonym ('e, 'a) result = "'e + 'a"

definition res_bind :: "('e, 'a) result \<Rightarrow> ('a \<Rightarrow> ('e, 'b) result) \<Rightarrow> ('e, 'b) result" where
  "res_bind r f = (case r of Inl e \<Rightarrow> Inl e | Inr x \<Rightarrow> f x)"

definition map_err :: "('e \<Rightarrow> 'f) \<Rightarrow> ('e, 'a) result \<Rightarrow> ('f, 'a) result" where
  "map_err g r = (case r of Inl e \<Rightarrow> Inl (g e) | Inr x \<Rightarrow> Inr x)"

definition ok_or :: "'e \<Rightarrow> 'a option \<Rightarrow> ('e, 'a) result" where
  "ok_or e o' = (case o' of None \<Rightarrow> Inl e | Some x \<Rightarrow> Inr x)"

fun res_map :: "('a \<Rightarrow> ('e, 'b) result) \<Rightarrow> 'a list \<Rightarrow> ('e, 'b list) result" where
  "res_map f [] = Inr []"
| "res_map f (x # xs) = res_bind (f x) (\<lambda>y. res_bind (res_map f xs) (\<lambda>ys. Inr (y # ys)))"

fun res_fold :: "('a \<Rightarrow> 's \<Rightarrow> ('e, 's) result) \<Rightarrow> 'a list \<Rightarrow> 's \<Rightarrow> ('e, 's) result" where
  "res_fold f [] s = Inr s"
| "res_fold f (x # xs) s = res_bind (f x s) (res_fold f xs)"

lemma res_bind_Inl [simp, res_simps]: "res_bind (Inl e) f = Inl e"
  by (simp add: res_bind_def)

lemma res_bind_Inr [simp, res_simps]: "res_bind (Inr x) f = f x"
  by (simp add: res_bind_def)

lemma res_bind_eq_Inr [simp]: "res_bind r f = Inr y \<longleftrightarrow> (\<exists>x. r = Inr x \<and> f x = Inr y)"
  by (cases r) auto

lemma res_bind_eq_Inl:
  "res_bind r f = Inl e \<longleftrightarrow> r = Inl e \<or> (\<exists>x. r = Inr x \<and> f x = Inl e)"
  by (cases r) auto

lemma map_err_simps [simp, res_simps]:
  "map_err g (Inl e) = Inl (g e)" "map_err g (Inr x) = Inr x"
  by (simp_all add: map_err_def)

lemma map_err_eq_Inr [simp]: "map_err g r = Inr x \<longleftrightarrow> r = Inr x"
  by (cases r) auto

lemma map_err_eq_Inl: "map_err g r = Inl f \<longleftrightarrow> (\<exists>e. r = Inl e \<and> f = g e)"
  by (cases r) auto

lemma ok_or_simps [simp, res_simps]: "ok_or e None = Inl e" "ok_or e (Some x) = Inr x"
  by (simp_all add: ok_or_def)

lemma ok_or_eq_Inr [simp]: "ok_or e o' = Inr x \<longleftrightarrow> o' = Some x"
  by (cases o') auto

lemma res_bind_cong [fundef_cong]:
  "r = r' \<Longrightarrow> (\<And>x. r' = Inr x \<Longrightarrow> f x = g x) \<Longrightarrow> res_bind r f = res_bind r' g"
  by (cases r) auto

lemma res_map_cong [fundef_cong]:
  "xs = ys \<Longrightarrow> (\<And>x. x \<in> set ys \<Longrightarrow> f x = g x) \<Longrightarrow> res_map f xs = res_map g ys"
proof (induction ys arbitrary: xs)
  case (Cons y ys)
  then show ?case by (auto simp: res_bind_def)
qed simp

lemma res_map_Inr_iff:
  "res_map f xs = Inr ys \<longleftrightarrow> list_all2 (\<lambda>x y. f x = Inr y) xs ys"
  by (induction xs arbitrary: ys) (auto simp: list_all2_Cons1)

lemma res_map_Inr_map: "(\<And>x. x \<in> set xs \<Longrightarrow> f x = Inr (g x)) \<Longrightarrow> res_map f xs = Inr (map g xs)"
  by (induction xs) auto

lemma res_map_length: "res_map f xs = Inr ys \<Longrightarrow> length ys = length xs"
  by (simp add: res_map_Inr_iff list_all2_lengthD)

lemma res_map_Inl: "res_map f xs = Inl e \<Longrightarrow> \<exists>x \<in> set xs. f x = Inl e"
  by (induction xs) (auto simp: res_bind_eq_Inl)

lemma res_map_ok_iff: "(\<exists>ys. res_map f xs = Inr ys) \<longleftrightarrow> (\<forall>x \<in> set xs. \<exists>y. f x = Inr y)"
  by (induction xs) auto

lemma res_fold_append:
  "res_fold f (xs @ ys) s = res_bind (res_fold f xs s) (res_fold f ys)"
  by (induction xs arbitrary: s) (auto simp: res_bind_def split: sum.splits)

lemma res_fold_invariant:
  assumes "res_fold f xs s = Inr t" and "P s"
    and "\<And>x s s'. x \<in> set xs \<Longrightarrow> P s \<Longrightarrow> f x s = Inr s' \<Longrightarrow> P s'"
  shows "P t"
  using assms
proof (induction xs arbitrary: s)
  case (Cons x xs)
  then obtain s' where "f x s = Inr s'" "res_fold f xs s' = Inr t" by auto
  with Cons show ?case by (metis list.set_intros(1) list.set_intros(2))
qed simp

section \<open>BTreeMap\<close>

type_synonym ('k, 'v) btree = "('k \<times> 'v) list"

definition bt_ok :: "('k::linorder, 'v) btree \<Rightarrow> bool" where
  "bt_ok m \<longleftrightarrow> sorted_wrt (<) (map fst m)"

abbreviation bt_get :: "('k, 'v) btree \<Rightarrow> 'k \<Rightarrow> 'v option" where
  "bt_get \<equiv> map_of"

abbreviation bt_keys :: "('k, 'v) btree \<Rightarrow> 'k list" where
  "bt_keys m \<equiv> map fst m"

definition bt_mem :: "'k \<Rightarrow> ('k, 'v) btree \<Rightarrow> bool" where
  "bt_mem k m \<longleftrightarrow> map_of m k \<noteq> None"

fun bt_insert :: "'k::linorder \<Rightarrow> 'v \<Rightarrow> ('k, 'v) btree \<Rightarrow> ('k, 'v) btree" where
  "bt_insert k v [] = [(k, v)]"
| "bt_insert k v ((k', v') # m) =
     (if k < k' then (k, v) # (k', v') # m
      else if k = k' then (k, v) # m else (k', v') # bt_insert k v m)"

definition bt_remove :: "'k \<Rightarrow> ('k, 'v) btree \<Rightarrow> ('k, 'v) btree" where
  "bt_remove k m = filter (\<lambda>(k', _). k' \<noteq> k) m"

definition bt_filter :: "('k \<Rightarrow> bool) \<Rightarrow> ('k, 'v) btree \<Rightarrow> ('k, 'v) btree" where
  "bt_filter P m = filter (\<lambda>(k, _). P k) m"

definition bt_of_list :: "('k::linorder \<times> 'v) list \<Rightarrow> ('k, 'v) btree" where
  "bt_of_list kvs = foldl (\<lambda>m (k, v). bt_insert k v m) [] kvs"

text \<open>\<^verbatim>\<open>get_mut\<close> followed by an assignment, and \<^verbatim>\<open>entry(k).or_default().push(x)\<close>.\<close>

fun bt_set :: "'k \<Rightarrow> 'v \<Rightarrow> ('k, 'v) btree \<Rightarrow> ('k, 'v) btree" where
  "bt_set k v [] = []"
| "bt_set k v ((k', v') # m) = (if k = k' then (k, v) # m else (k', v') # bt_set k v m)"

definition get_list :: "('k, 'v list) btree \<Rightarrow> 'k \<Rightarrow> 'v list" where
  "get_list m k = (case map_of m k of None \<Rightarrow> [] | Some xs \<Rightarrow> xs)"

definition bt_push :: "'k::linorder \<Rightarrow> 'v \<Rightarrow> ('k, 'v list) btree \<Rightarrow> ('k, 'v list) btree" where
  "bt_push k x m = bt_insert k (get_list m k @ [x]) m"

lemma img_fst: "(a, b) \<in> S \<Longrightarrow> a \<in> fst ` S"
  by force

lemma bt_ok_Nil [simp]: "bt_ok []"
  by (simp add: bt_ok_def)

lemma bt_ok_distinct: "bt_ok m \<Longrightarrow> distinct (map fst m)"
  by (simp add: bt_ok_def strict_sorted_iff)

lemma bt_ok_Cons: "bt_ok ((k, v) # m) \<longleftrightarrow> bt_ok m \<and> (\<forall>k' \<in> fst ` set m. k < k')"
  by (auto simp: bt_ok_def)

lemma bt_mem_iff [bt_simps]: "bt_mem k m \<longleftrightarrow> k \<in> fst ` set m"
  by (auto simp: bt_mem_def map_of_eq_None_iff)

lemma bt_get_insert [simp, bt_simps]:
  "map_of (bt_insert k v m) k' = (if k' = k then Some v else map_of m k')"
  by (induction k v m rule: bt_insert.induct) auto

lemma fst_set_bt_insert [simp, bt_simps]:
  "fst ` set (bt_insert k v m) = insert k (fst ` set m)"
  by (induction k v m rule: bt_insert.induct) auto

lemma set_bt_insert_subset: "set (bt_insert k v m) \<subseteq> insert (k, v) (set m)"
  by (induction k v m rule: bt_insert.induct) auto

lemma bt_ok_insert [simp, bt_simps]: "bt_ok m \<Longrightarrow> bt_ok (bt_insert k v m)"
proof (induction k v m rule: bt_insert.induct)
  case (2 k v k' v' m)
  then show ?case by (auto simp: bt_ok_Cons)
qed (simp add: bt_ok_def)

lemma bt_get_remove [simp, bt_simps]:
  "map_of (bt_remove k m) k' = (if k' = k then None else map_of m k')"
  by (induction m) (auto simp: bt_remove_def)

lemma fst_set_bt_remove [simp, bt_simps]: "fst ` set (bt_remove k m) = fst ` set m - {k}"
  by (auto simp: bt_remove_def image_iff)

lemma bt_ok_remove [simp, bt_simps]: "bt_ok m \<Longrightarrow> bt_ok (bt_remove k m)"
  by (induction m) (auto simp: bt_remove_def bt_ok_Cons)

lemma bt_get_filter [simp, bt_simps]:
  "map_of (bt_filter P m) k = (if P k then map_of m k else None)"
  by (induction m) (auto simp: bt_filter_def)

lemma fst_set_bt_filter [simp, bt_simps]: "fst ` set (bt_filter P m) = {k \<in> fst ` set m. P k}"
  by (auto simp: bt_filter_def image_iff)

lemma bt_ok_filter [simp, bt_simps]: "bt_ok m \<Longrightarrow> bt_ok (bt_filter P m)"
  by (induction m) (auto simp: bt_filter_def bt_ok_Cons)

lemma keys_bt_filter: "map fst (bt_filter P m) = filter P (map fst m)"
  by (induction m) (auto simp: bt_filter_def)

lemma bt_get_set [simp, bt_simps]:
  "map_of (bt_set k v m) k' = (if k' = k \<and> k \<in> fst ` set m then Some v else map_of m k')"
proof (induction k v m rule: bt_set.induct)
  case (2 k v k'' v' m)
  then show ?case by (cases "k = k''"; cases "k' = k"; simp)
qed simp

lemma keys_bt_set [simp, bt_simps]: "map fst (bt_set k v m) = map fst m"
  by (induction k v m rule: bt_set.induct) auto

lemma fst_set_bt_set [simp, bt_simps]: "fst ` set (bt_set k v m) = fst ` set m"
  by (metis keys_bt_set list.set_map)

lemma bt_ok_set [simp, bt_simps]: "bt_ok (bt_set k v m) = bt_ok m"
  by (simp add: bt_ok_def)

lemma sum_bt_set:
  "map_of m k = Some (Suc n) \<Longrightarrow> Suc (sum_list (map snd (bt_set k n m))) = sum_list (map snd m)"
  by (induction m) auto

lemma get_list_push [simp, bt_simps]:
  "get_list (bt_push k x m) k' = (if k' = k then get_list m k @ [x] else get_list m k')"
  by (simp add: get_list_def bt_push_def)

lemma get_list_Nil [simp]: "get_list [] k = []"
  by (simp add: get_list_def)

lemma bt_ok_push [simp, bt_simps]: "bt_ok m \<Longrightarrow> bt_ok (bt_push k x m)"
  by (simp add: bt_push_def)

lemma fst_set_bt_push [simp, bt_simps]: "fst ` set (bt_push k x m) = insert k (fst ` set m)"
  by (simp add: bt_push_def)

text \<open>Two ordered maps with the same lookups are the same list of entries.\<close>

lemma bt_ok_ext:
  assumes "bt_ok m" "bt_ok n" "\<And>k. map_of m k = map_of n k"
  shows "m = n"
proof -
  have d: "distinct (map fst m)" "distinct (map fst n)"
    using assms bt_ok_distinct by blast+
  have "set m = set n"
    using map_of_inject_set [OF d] assms(3) by blast
  moreover have "sorted_wrt (\<lambda>x y. fst x < fst y) m" "sorted_wrt (\<lambda>x y. fst x < fst y) n"
    using assms(1,2) by (simp_all add: bt_ok_def sorted_wrt_map)
  ultimately show ?thesis
  proof (induction m arbitrary: n)
    case (Cons x m)
    then obtain y n' where n: "n = y # n'" by (cases n) auto
    have "x = y"
    proof (rule ccontr)
      assume "x \<noteq> y"
      with Cons.prems n have "x \<in> set n'" "y \<in> set m" by auto
      with Cons.prems n show False by fastforce
    qed
    moreover from Cons.prems n this have "set m = set n'"
      by fastforce
    ultimately show ?case using Cons n by simp
  qed simp
qed

text \<open>\<^verbatim>\<open>collect()\<close> into a map keeps the last value of a key.\<close>

lemma bt_of_list_aux:
  "map_of (foldl (\<lambda>m (k, v). bt_insert k v m) m kvs) k =
     (case map_of (rev kvs) k of None \<Rightarrow> map_of m k | Some v \<Rightarrow> Some v)"
  by (induction kvs rule: rev_induct) auto

lemma bt_get_of_list: "map_of (bt_of_list kvs) k = map_of (rev kvs) k"
  by (simp add: bt_of_list_def bt_of_list_aux split: option.split)

lemma bt_get_of_list_distinct:
  "distinct (map fst kvs) \<Longrightarrow> map_of (bt_of_list kvs) k = map_of kvs k"
proof -
  assume d: "distinct (map fst kvs)"
  then have "distinct (map fst (rev kvs))" by (simp add: rev_map [symmetric])
  with d have "map_of (rev kvs) = map_of kvs"
    by (simp add: map_of_inject_set)
  then show ?thesis by (simp add: bt_get_of_list)
qed

lemma fst_set_bt_of_list [simp]: "fst ` set (bt_of_list kvs) = fst ` set kvs"
proof -
  have "fst ` set (foldl (\<lambda>m (k, v). bt_insert k v m) m kvs) = fst ` set m \<union> fst ` set kvs" for m
  proof (induction kvs arbitrary: m)
    case (Cons kv kvs)
    then show ?case by (cases kv) (simp del: fst_set_bt_insert add: fst_set_bt_insert)
  qed simp
  then show ?thesis by (simp add: bt_of_list_def)
qed

lemma bt_ok_of_list [simp]: "bt_ok (bt_of_list kvs)"
proof -
  have "bt_ok m \<Longrightarrow> bt_ok (foldl (\<lambda>m (k, v). bt_insert k v m) m kvs)" for m
    by (induction kvs arbitrary: m) auto
  then show ?thesis by (simp add: bt_of_list_def)
qed

text \<open>What the program's modules rely on when they use an ordered map.\<close>

locale ordered_map =
  fixes lookup :: "'m \<Rightarrow> 'k \<Rightarrow> 'v option"
    and update :: "'k \<Rightarrow> 'v \<Rightarrow> 'm \<Rightarrow> 'm"
    and delete :: "'k \<Rightarrow> 'm \<Rightarrow> 'm"
    and invar :: "'m \<Rightarrow> bool"
  assumes lookup_update: "lookup (update k v m) k' = (if k' = k then Some v else lookup m k')"
    and lookup_delete: "lookup (delete k m) k' = (if k' = k then None else lookup m k')"
    and invar_update: "invar m \<Longrightarrow> invar (update k v m)"
    and invar_delete: "invar m \<Longrightarrow> invar (delete k m)"
begin

lemma delete_after_update: "lookup (delete k (update k v m)) k' = lookup (delete k m) k'"
  by (simp add: lookup_update lookup_delete)

lemma update_shadows: "lookup (update k v (update k w m)) k' = lookup (update k v m) k'"
  by (simp add: lookup_update)

end

interpretation btree_map: ordered_map map_of bt_insert bt_remove bt_ok
  by unfold_locales auto

section \<open>BTreeSet\<close>

type_synonym 'a bset = "'a list"

definition bs_ok :: "'a::linorder bset \<Rightarrow> bool" where
  "bs_ok s \<longleftrightarrow> sorted_wrt (<) s"

fun bs_insert :: "'a::linorder \<Rightarrow> 'a bset \<Rightarrow> 'a bset" where
  "bs_insert x [] = [x]"
| "bs_insert x (y # ys) = (if x < y then x # y # ys else if x = y then y # ys else y # bs_insert x ys)"

definition bs_of_list :: "'a::linorder list \<Rightarrow> 'a bset" where
  "bs_of_list xs = foldl (\<lambda>s x. bs_insert x s) [] xs"

definition bs_union :: "'a::linorder bset \<Rightarrow> 'a bset \<Rightarrow> 'a bset" where
  "bs_union s t = foldl (\<lambda>s x. bs_insert x s) s t"

definition bs_remove :: "'a \<Rightarrow> 'a bset \<Rightarrow> 'a bset" where
  "bs_remove x s = filter (\<lambda>y. y \<noteq> x) s"

definition bs_disjoint :: "'a bset \<Rightarrow> 'a bset \<Rightarrow> bool" where
  "bs_disjoint s t \<longleftrightarrow> (\<forall>x \<in> set s. x \<notin> set t)"

lemma length_bs_insert: "length (bs_insert x s) \<le> Suc (length s)"
  by (induction x s rule: bs_insert.induct) auto

lemma set_bs_insert [simp, bt_simps]: "set (bs_insert x s) = insert x (set s)"
  by (induction x s rule: bs_insert.induct) auto

lemma bs_ok_insert [simp, bt_simps]: "bs_ok s \<Longrightarrow> bs_ok (bs_insert x s)"
  by (induction x s rule: bs_insert.induct) (auto simp: bs_ok_def)

lemma bs_foldl: "set (foldl (\<lambda>s x. bs_insert x s) s xs) = set s \<union> set xs"
  "bs_ok s \<Longrightarrow> bs_ok (foldl (\<lambda>s x. bs_insert x s) s xs)"
  by (induction xs arbitrary: s) auto

lemma set_bs_of_list [simp, bt_simps]: "set (bs_of_list xs) = set xs"
  by (simp add: bs_of_list_def bs_foldl)

lemma bs_ok_of_list [simp, bt_simps]: "bs_ok (bs_of_list xs)"
  unfolding bs_of_list_def by (rule bs_foldl) (simp add: bs_ok_def)

lemma set_bs_union [simp, bt_simps]: "set (bs_union s t) = set s \<union> set t"
  by (simp add: bs_union_def bs_foldl)

lemma bs_ok_union [simp, bt_simps]: "bs_ok s \<Longrightarrow> bs_ok (bs_union s t)"
  by (simp add: bs_union_def bs_foldl)

lemma set_bs_remove [simp, bt_simps]: "set (bs_remove x s) = set s - {x}"
  by (auto simp: bs_remove_def)

lemma bs_ok_remove [simp, bt_simps]: "bs_ok s \<Longrightarrow> bs_ok (bs_remove x s)"
  by (simp add: bs_remove_def bs_ok_def sorted_wrt_filter)

lemma bs_ok_distinct: "bs_ok s \<Longrightarrow> distinct s"
  by (simp add: bs_ok_def strict_sorted_iff)

lemma bs_ok_Cons: "bs_ok (x # s) \<longleftrightarrow> bs_ok s \<and> (\<forall>y \<in> set s. x < y)"
  by (auto simp: bs_ok_def)

lemma bs_disjoint_iff [bt_simps]: "bs_disjoint s t \<longleftrightarrow> set s \<inter> set t = {}"
  by (auto simp: bs_disjoint_def)

lemma bs_disjoint_sym: "bs_disjoint s t \<longleftrightarrow> bs_disjoint t s"
  by (auto simp: bs_disjoint_iff)

lemma bs_ok_ext: "bs_ok s \<Longrightarrow> bs_ok t \<Longrightarrow> set s = set t \<Longrightarrow> s = t"
  by (simp add: bs_ok_def strict_sorted_equal)

lemma bs_ok_keys: "bt_ok m \<Longrightarrow> bs_ok (map fst m)"
  by (simp add: bt_ok_def bs_ok_def)

lemma bs_ok_insert_eq: "bs_ok s \<Longrightarrow> x \<in> set s \<Longrightarrow> bs_insert x s = s"
  by (rule bs_ok_ext) auto

end
