(* ===== verification/Text.thy ===== *)
theory Text
  imports Prelude
begin

text \<open>
  The string operations of Rust's standard library the program uses, on UTF-8 bytes:
  \<^verbatim>\<open>split\<close>, \<^verbatim>\<open>replace\<close>, \<^verbatim>\<open>contains\<close>, \<^verbatim>\<open>join\<close>, decimal formatting and
  \<^verbatim>\<open>parse::<usize>()\<close> (64-bit targets), and the \<^verbatim>\<open>chars().take(n)\<close> of a UTF-8 string.
\<close>

section \<open>Splitting and joining\<close>

fun split_on :: "char \<Rightarrow> string \<Rightarrow> string list" where
  "split_on c [] = [[]]"
| "split_on c (x # xs) =
     (if x = c then [] # split_on c xs
      else (case split_on c xs of [] \<Rightarrow> [[x]] | p # ps \<Rightarrow> (x # p) # ps))"

fun join_with :: "string \<Rightarrow> string list \<Rightarrow> string" where
  "join_with sep [] = []"
| "join_with sep [x] = x"
| "join_with sep (x # y # xs) = x @ sep @ join_with sep (y # xs)"

lemma split_on_ne [simp]: "split_on c s \<noteq> []"
  by (induction s) (auto split: list.splits)

lemma split_on_no_sep: "c \<notin> set s \<Longrightarrow> split_on c s = [s]"
  by (induction s) auto

lemma split_on_append_sep: "c \<notin> set p \<Longrightarrow> split_on c (p @ c # s) = p # split_on c s"
  by (induction p) auto

lemma split_on_parts: "p \<in> set (split_on c s) \<Longrightarrow> c \<notin> set p"
  by (induction s arbitrary: p) (auto split: if_splits list.splits)

lemma split_on_join:
  "xs \<noteq> [] \<Longrightarrow> \<forall>x \<in> set xs. c \<notin> set x \<Longrightarrow> split_on c (join_with [c] xs) = xs"
  by (induction "[c]" xs rule: join_with.induct) (auto simp: split_on_no_sep split_on_append_sep)

lemma join_split_on: "join_with [c] (split_on c s) = s"
proof (induction s)
  case (Cons x s)
  obtain p ps where "split_on c s = p # ps"
    by (meson neq_Nil_conv split_on_ne)
  with Cons show ?case by (cases ps) auto
qed simp

section \<open>Replacing and searching\<close>

definition replace_char :: "char \<Rightarrow> string \<Rightarrow> string \<Rightarrow> string" where
  "replace_char c r s = concat (map (\<lambda>x. if x = c then r else [x]) s)"

fun replace_pair :: "char \<Rightarrow> char \<Rightarrow> string \<Rightarrow> string \<Rightarrow> string" where
  "replace_pair a b r (x # y # s) =
     (if x = a \<and> y = b then r @ replace_pair a b r s else x # replace_pair a b r (y # s))"
| "replace_pair a b r s = s"

fun str_contains :: "string \<Rightarrow> string \<Rightarrow> bool" where
  "str_contains needle [] = (needle = [])"
| "str_contains needle (x # xs) = (prefix needle (x # xs) \<or> str_contains needle xs)"

lemma replace_pair_Cons_neq [simp]:
  "x \<noteq> a \<Longrightarrow> replace_pair a b r (x # s) = x # replace_pair a b r s"
  by (cases s) auto

lemma replace_pair_no_first: "a \<notin> set s \<Longrightarrow> replace_pair a b r s = s"
  by (induction s) auto

lemma str_contains_iff: "str_contains needle s \<longleftrightarrow> (\<exists>p q. s = p @ needle @ q)"
proof (induction s)
  case (Cons x xs)
  have "(\<exists>p q. x # xs = p @ needle @ q) \<longleftrightarrow>
        prefix needle (x # xs) \<or> (\<exists>p q. xs = p @ needle @ q)"
    by (auto simp: Cons_eq_append_conv prefix_def)
  with Cons show ?case by simp
qed auto

section \<open>Decimal numbers\<close>

definition digit_char :: "nat \<Rightarrow> char" where
  "digit_char d = ''0123456789'' ! d"

fun dec :: "nat \<Rightarrow> string" where
  "dec n = (if n < 10 then [digit_char n] else dec (n div 10) @ [digit_char (n mod 10)])"

declare dec.simps [simp del]

definition digit_val :: "char \<Rightarrow> nat option" where
  "digit_val c = (let n = of_char c :: nat in if 48 \<le> n \<and> n \<le> 57 then Some (n - 48) else None)"

fun parse_digits :: "nat \<Rightarrow> string \<Rightarrow> nat option" where
  "parse_digits acc [] = Some acc"
| "parse_digits acc (c # cs) =
     (case digit_val c of None \<Rightarrow> None | Some d \<Rightarrow> parse_digits (10 * acc + d) cs)"

definition usize_max :: nat where
  "usize_max = 2 ^ 64 - 1"

text \<open>
  \<^verbatim>\<open>str::parse::<usize>()\<close>: an optional leading \<^verbatim>\<open>+\<close>, at least one digit, and a value that
  fits 64 bits.
\<close>

definition parse_usize :: "string \<Rightarrow> nat option" where
  "parse_usize s =
     (let ds = (case s of [] \<Rightarrow> [] | c # cs \<Rightarrow> if c = CHR ''+'' then cs else s)
      in if ds = [] then None
         else (case parse_digits 0 ds of
                 None \<Rightarrow> None
               | Some n \<Rightarrow> if n \<le> usize_max then Some n else None))"

lemma lt10_cases: "(d::nat) < 10 \<longleftrightarrow> d \<in> {0, 1, 2, 3, 4, 5, 6, 7, 8, 9}"
  by auto

lemma digit_val_digit_char [simp]: "d < 10 \<Longrightarrow> digit_val (digit_char d) = Some d"
  unfolding lt10_cases by (auto simp: digit_char_def digit_val_def)

lemma digit_char_inj: "d < 10 \<Longrightarrow> e < 10 \<Longrightarrow> digit_char d = digit_char e \<Longrightarrow> d = e"
  by (metis digit_val_digit_char option.inject)

lemma digit_char_in: "d < 10 \<Longrightarrow> digit_char d \<in> set ''0123456789''"
  unfolding digit_char_def by (rule nth_mem) simp

lemma dec_ne [simp]: "dec n \<noteq> []"
  by (subst dec.simps) simp

lemma set_dec: "set (dec n) \<subseteq> set ''0123456789''"
proof (induction n rule: dec.induct)
  case (1 n)
  show ?case
  proof (cases "n < 10")
    case True
    then show ?thesis by (subst dec.simps) (use digit_char_in in auto)
  next
    case False
    with 1 show ?thesis by (subst dec.simps) (use digit_char_in [of "n mod 10"] in auto)
  qed
qed

lemma parse_digits_append:
  "parse_digits acc (xs @ ys) =
     (case parse_digits acc xs of None \<Rightarrow> None | Some n \<Rightarrow> parse_digits n ys)"
  by (induction xs arbitrary: acc) (auto split: option.splits)

lemma parse_digits_dec: "parse_digits 0 (dec n) = Some n"
proof (induction n rule: dec.induct)
  case (1 n)
  show ?case
  proof (cases "n < 10")
    case True
    then show ?thesis by (subst dec.simps) simp
  next
    case False
    with 1 show ?thesis by (subst dec.simps) (simp add: parse_digits_append)
  qed
qed

lemma dec_inj: "dec m = dec n \<Longrightarrow> m = n"
  by (metis option.inject parse_digits_dec)

lemma hd_dec_not_plus: "hd (dec n) \<noteq> CHR ''+''"
proof -
  have "hd (dec n) \<in> set ''0123456789''"
    using set_dec [of n] hd_in_set [OF dec_ne] by blast
  then show ?thesis by auto
qed

text \<open>The round trip the fan-out dispatcher relies on: an index printed and read back.\<close>

lemma parse_usize_dec: "n \<le> usize_max \<Longrightarrow> parse_usize (dec n) = Some n"
  using hd_dec_not_plus [of n] parse_digits_dec [of n]
  by (auto simp: parse_usize_def split: list.splits)

lemma parse_usize_bound: "parse_usize s = Some n \<Longrightarrow> n \<le> usize_max"
  by (auto simp: parse_usize_def Let_def split: if_splits option.splits list.splits)

lemma no_dot_dec: "CHR ''.'' \<notin> set (dec n)"
  using set_dec [of n] by auto

section \<open>UTF-8 characters\<close>

definition is_continuation :: "char \<Rightarrow> bool" where
  "is_continuation b \<longleftrightarrow> (let n = of_char b :: nat in 128 \<le> n \<and> n < 192)"

fun take_chars :: "nat \<Rightarrow> string \<Rightarrow> string" where
  "take_chars 0 bs = []"
| "take_chars (Suc n) [] = []"
| "take_chars (Suc n) (b # bs) =
     b # takeWhile is_continuation bs @ take_chars n (dropWhile is_continuation bs)"

definition char_count :: "string \<Rightarrow> nat" where
  "char_count s = length (filter (\<lambda>b. \<not> is_continuation b) s)"

lemma prefix_take_chars: "prefix (take_chars n s) s"
proof (induction n s rule: take_chars.induct)
  case (3 n b bs)
  then show ?case
    by (metis append_Cons prefix_Cons same_prefix_prefix takeWhile_dropWhile_id take_chars.simps(3))
qed auto

lemma filter_takeWhile_cont: "filter (\<lambda>b. \<not> P b) (takeWhile P bs) = []"
  by (induction bs) auto

lemma char_count_take_chars: "char_count (take_chars n s) \<le> n"
  by (induction n s rule: take_chars.induct)
    (auto simp: char_count_def filter_takeWhile_cont)

end
