(* ===== verification/Json.thy ===== *)
theory Json
  imports Text "HOL-Library.Word"
begin

text \<open>
  \<^verbatim>\<open>serde_json::Value\<close> and the canonical serialisation of
  \<^verbatim>\<open>tool-compiler-ir/src/canonical.rs\<close>.

  Objects are ordered maps (serde\_json without \<^verbatim>\<open>preserve_order\<close>, as in
  \<^verbatim>\<open>Cargo.lock\<close>): the entry list of a well-formed object is in strictly increasing key
  order. Numbers follow serde\_json's three representations; a float is carried by the
  text it is printed as (its shortest rendering, which always holds a \<^verbatim>\<open>.\<close> or an
  \<^verbatim>\<open>e\<close>), which is all the program does with it.
\<close>

section \<open>Values\<close>

datatype jnum = PosInt "64 word" | NegInt "64 word" | Float string

datatype json =
    JNull
  | JBool bool
  | JNum jnum
  | JStr string
  | JArr "json list"
  | JObj "(string \<times> json) list"

lemma json_member_size [termination_simp]:
  "(k, v) \<in> set kvs \<Longrightarrow> size v < Suc (size_list (size_prod (\<lambda>_. 0) size) kvs)"
  by (induction kvs) auto

lemma json_member_size' [termination_simp]:
  "kv \<in> set kvs \<Longrightarrow> size (snd kv) < Suc (size_list (size_prod (\<lambda>_. 0) size) kvs)"
  by (cases kv) (auto dest: json_member_size)

lemma json_induct [case_names JNull JBool JNum JStr JArr JObj]:
  assumes "P JNull" "\<And>b. P (JBool b)" "\<And>n. P (JNum n)" "\<And>s. P (JStr s)"
    and "\<And>xs. (\<And>x. x \<in> set xs \<Longrightarrow> P x) \<Longrightarrow> P (JArr xs)"
    and "\<And>kvs. (\<And>k v. (k, v) \<in> set kvs \<Longrightarrow> P v) \<Longrightarrow> P (JObj kvs)"
  shows "P j"
proof (induction j)
  case (JObj kvs)
  show ?case by (rule assms(6)) (use JObj in \<open>force simp: prod_set_simps\<close>)
qed (use assms in auto)

text \<open>\<^verbatim>\<open>Value::get(key)\<close>: a member of an object, nothing for any other value.\<close>

definition json_get :: "json \<Rightarrow> string \<Rightarrow> json option" where
  "json_get v k = (case v of JObj kvs \<Rightarrow> map_of kvs k | _ \<Rightarrow> None)"

definition as_str :: "json \<Rightarrow> string option" where
  "as_str v = (case v of JStr s \<Rightarrow> Some s | _ \<Rightarrow> None)"

definition as_array :: "json \<Rightarrow> json list option" where
  "as_array v = (case v of JArr xs \<Rightarrow> Some xs | _ \<Rightarrow> None)"

definition as_u64 :: "json \<Rightarrow> nat option" where
  "as_u64 v = (case v of JNum (PosInt w) \<Rightarrow> Some (unat w) | _ \<Rightarrow> None)"

definition as_bool :: "json \<Rightarrow> bool option" where
  "as_bool v = (case v of JBool b \<Rightarrow> Some b | _ \<Rightarrow> None)"

definition as_i64 :: "json \<Rightarrow> int option" where
  "as_i64 v = (case v of
      JNum (PosInt w) \<Rightarrow> if uint w < 2 ^ 63 then Some (uint w) else None
    | JNum (NegInt w) \<Rightarrow> Some (sint w)
    | _ \<Rightarrow> None)"

definition json_int :: "int \<Rightarrow> json" where
  "json_int i = JNum (if i \<ge> 0 then PosInt (of_int i) else NegInt (of_int i))"

text \<open>The object \<^verbatim>\<open>{ key: value }\<close> and the pattern that matches it.\<close>

definition singleton_obj :: "(string \<times> json) list \<Rightarrow> string \<Rightarrow> json option" where
  "singleton_obj kvs key = (if length kvs = 1 then map_of kvs key else None)"

lemma singleton_obj_iff: "singleton_obj kvs key = Some v \<longleftrightarrow> kvs = [(key, v)]"
  by (auto simp: singleton_obj_def length_Suc_conv split: if_splits)

definition json_num :: "nat \<Rightarrow> json" where
  "json_num n = JNum (PosInt (of_nat n))"

section \<open>Well-formed values\<close>

definition number_chars :: string where
  "number_chars = ''0123456789+-.eE''"

definition wf_num :: "jnum \<Rightarrow> bool" where
  "wf_num n = (case n of
      PosInt w \<Rightarrow> True
    | NegInt w \<Rightarrow> sint w < 0
    | Float s \<Rightarrow> s \<noteq> [] \<and> set s \<subseteq> set number_chars \<and> (CHR ''.'' \<in> set s \<or> CHR ''e'' \<in> set s))"

fun wf_json :: "json \<Rightarrow> bool" where
  "wf_json (JNum n) = wf_num n"
| "wf_json (JArr xs) = (\<forall>x \<in> set xs. wf_json x)"
| "wf_json (JObj kvs) = (bt_ok kvs \<and> (\<forall>kv \<in> set kvs. wf_json (snd kv)))"
| "wf_json v = True"

section \<open>Canonical serialisation\<close>

definition num_to_string :: "jnum \<Rightarrow> string" where
  "num_to_string n = (case n of
      PosInt w \<Rightarrow> dec (unat w)
    | NegInt w \<Rightarrow> (if sint w < 0 then ''-'' @ dec (nat (- sint w)) else dec (nat (sint w)))
    | Float s \<Rightarrow> s)"

definition hex_digit :: "nat \<Rightarrow> char" where
  "hex_digit d = ''0123456789abcdef'' ! d"

definition escape_json_char :: "char \<Rightarrow> string" where
  "escape_json_char c =
     (if c = CHR 0x22 then [CHR 0x5C, CHR 0x22]
      else if c = CHR 0x5C then [CHR 0x5C, CHR 0x5C]
      else if c = CHR 0x08 then [CHR 0x5C, CHR ''b'']
      else if c = CHR 0x0C then [CHR 0x5C, CHR ''f'']
      else if c = CHR 0x0A then [CHR 0x5C, CHR ''n'']
      else if c = CHR 0x0D then [CHR 0x5C, CHR ''r'']
      else if c = CHR 0x09 then [CHR 0x5C, CHR ''t'']
      else if (of_char c :: nat) < 32
      then [CHR 0x5C, CHR ''u'', CHR ''0'', CHR ''0'',
            hex_digit (of_char c div 16), hex_digit (of_char c mod 16)]
      else [c])"

definition write_json_string :: "string \<Rightarrow> string" where
  "write_json_string s = CHR 0x22 # concat (map escape_json_char s) @ [CHR 0x22]"

fun canonical_json_string :: "json \<Rightarrow> string" where
  "canonical_json_string JNull = ''null''"
| "canonical_json_string (JBool b) = (if b then ''true'' else ''false'')"
| "canonical_json_string (JNum n) = num_to_string n"
| "canonical_json_string (JStr s) = write_json_string s"
| "canonical_json_string (JArr xs) =
     ''['' @ join_with '','' (map (\<lambda>x. canonical_json_string x) xs) @ '']''"
| "canonical_json_string (JObj kvs) =
     ''{'' @ join_with '',''
       (map (\<lambda>(k, t). write_json_string k @ '':'' @ t)
         (sort_key fst (map (\<lambda>kv. (fst kv, canonical_json_string (snd kv))) kvs))) @ ''}''"

text \<open>The compact \<^verbatim>\<open>Display\<close> of a \<^verbatim>\<open>Value\<close>: entries in map order.\<close>

fun json_to_string :: "json \<Rightarrow> string" where
  "json_to_string JNull = ''null''"
| "json_to_string (JBool b) = (if b then ''true'' else ''false'')"
| "json_to_string (JNum n) = num_to_string n"
| "json_to_string (JStr s) = write_json_string s"
| "json_to_string (JArr xs) = ''['' @ join_with '','' (map (\<lambda>x. json_to_string x) xs) @ '']''"
| "json_to_string (JObj kvs) =
     ''{'' @ join_with '',''
       (map (\<lambda>(k, t). write_json_string k @ '':'' @ t)
         (map (\<lambda>kv. (fst kv, json_to_string (snd kv))) kvs)) @ ''}''"

lemma sort_key_sorted_id: "sorted (map f xs) \<Longrightarrow> sort_key f xs = xs"
  by (induction xs) (auto simp: insort_is_Cons)

lemma canonical_eq_display: "wf_json v \<Longrightarrow> canonical_json_string v = json_to_string v"
proof (induction v rule: json_induct)
  case (JArr xs)
  then show ?case by (auto cong: map_cong)
next
  case (JObj kvs)
  let ?f = "\<lambda>kv. (fst kv, canonical_json_string (snd kv))"
  have "sorted (map fst (map ?f kvs))"
    using JObj.prems by (simp add: bt_ok_def comp_def strict_sorted_imp_sorted)
  then have "sort_key fst (map ?f kvs) = map ?f kvs" by (rule sort_key_sorted_id)
  moreover have "map ?f kvs = map (\<lambda>kv. (fst kv, json_to_string (snd kv))) kvs"
    using JObj by (intro map_cong) force+
  ultimately show ?case
    unfolding canonical_json_string.simps json_to_string.simps by (simp only:)
qed auto

section \<open>The canonical form determines the value\<close>

text \<open>
  The encoding is prefix-free up to number characters: two encodings followed by anything
  that does not continue a number can only agree if the values do. This is what makes the
  canonical string usable as a cache key and as a deduplication key.
\<close>

definition tail_ok :: "string \<Rightarrow> bool" where
  "tail_ok r \<longleftrightarrow> (r = [] \<or> hd r \<notin> set number_chars)"

lemma tail_ok_simps [simp]:
  "tail_ok []" "tail_ok (CHR '','' # r)" "tail_ok (CHR '']'' # r)" "tail_ok (CHR ''}'' # r)"
  by (simp_all add: tail_ok_def number_chars_def)

lemma hex_digit_inj: "a < 16 \<Longrightarrow> b < 16 \<Longrightarrow> hex_digit a = hex_digit b \<Longrightarrow> a = b"
proof -
  assume ab: "a < 16" "b < 16" "hex_digit a = hex_digit b"
  have "distinct ''0123456789abcdef''" by simp
  from nth_eq_iff_index_eq [OF this, of a b] ab show "a = b"
    by (simp add: hex_digit_def)
qed

lemma hex_pair_inj:
  assumes "m < 256" "n < 256" "hex_digit (m div 16) = hex_digit (n div 16)"
    "hex_digit (m mod 16) = hex_digit (n mod 16)"
  shows "m = (n::nat)"
proof -
  have "m div 16 = n div 16"
    by (rule hex_digit_inj) (use assms in auto)
  moreover have "m mod 16 = n mod 16"
    by (rule hex_digit_inj) (use assms in auto)
  ultimately show ?thesis by (metis div_mult_mod_eq)
qed

lemma escape_json_char_inj:
  "escape_json_char c @ r = escape_json_char d @ r' \<Longrightarrow> c = d \<and> r = r'"
proof -
  assume e: "escape_json_char c @ r = escape_json_char d @ r'"
  have h: "(of_char c :: nat) = of_char d" if
      "hex_digit (of_char c div 16) = hex_digit (of_char d div 16)"
      "hex_digit (of_char c mod 16) = hex_digit (of_char d mod 16)"
    by (rule hex_pair_inj) (use that in auto)
  then show ?thesis
    using e unfolding escape_json_char_def by (auto split: if_splits)
qed

lemma escape_json_char_hd: "escape_json_char c \<noteq> [] \<and> hd (escape_json_char c) \<noteq> CHR 0x22"
  by (auto simp: escape_json_char_def)

lemma escape_concat_inj:
  "concat (map escape_json_char s) @ CHR 0x22 # r = concat (map escape_json_char t) @ CHR 0x22 # r'
   \<Longrightarrow> s = t \<and> r = r'"
proof (induction s arbitrary: t)
  case Nil
  then show ?case
  proof (cases t)
    case (Cons d t')
    with Nil escape_json_char_hd [of d] show ?thesis
      by (cases "escape_json_char d") auto
  qed simp
next
  case (Cons c s)
  show ?case
  proof (cases t)
    case Nil
    with Cons.prems escape_json_char_hd [of c] show ?thesis
      by (cases "escape_json_char c") auto
  next
    case (Cons d t')
    with Cons.prems have "escape_json_char c @ (concat (map escape_json_char s) @ CHR 0x22 # r)
        = escape_json_char d @ (concat (map escape_json_char t') @ CHR 0x22 # r')" by simp
    from escape_json_char_inj [OF this] Cons.IH [of t'] Cons show ?thesis by simp
  qed
qed

lemma write_json_string_inj:
  "write_json_string s @ r = write_json_string t @ r' \<Longrightarrow> s = t \<and> r = r'"
  using escape_concat_inj [of s r t r'] by (simp add: write_json_string_def)

lemma dec_not_special [simp]:
  "CHR ''.'' \<notin> set (dec n)" "CHR ''e'' \<notin> set (dec n)" "CHR ''-'' \<notin> set (dec n)"
  using set_dec [of n] by auto

lemma dec_ne_minus [simp]: "dec n \<noteq> CHR ''-'' # s"
proof
  assume "dec n = CHR ''-'' # s"
  then have "CHR ''-'' \<in> set (dec n)" by simp
  then show False by simp
qed

lemmas minus_ne_dec [simp] = dec_ne_minus [symmetric]

lemma dec_eq_iff [simp]: "dec m = dec n \<longleftrightarrow> m = n"
  using dec_inj by blast

lemma set_dec_number_chars: "set (dec n) \<subseteq> set number_chars"
  by (rule subset_trans [OF set_dec]) (simp add: number_chars_def)

lemma set_num_to_string: "wf_num n \<Longrightarrow> set (num_to_string n) \<subseteq> set number_chars"
proof (cases n)
  case (NegInt w)
  have "CHR ''-'' \<in> set number_chars" by (simp add: number_chars_def)
  then show ?thesis using set_dec_number_chars NegInt by (auto simp: num_to_string_def)
qed (use set_dec_number_chars in \<open>auto simp: num_to_string_def wf_num_def\<close>)

lemma num_to_string_ne: "wf_num n \<Longrightarrow> num_to_string n \<noteq> []"
  by (auto simp: num_to_string_def wf_num_def split: jnum.splits)

lemma num_to_string_inj:
  assumes "wf_num m" "wf_num n" "num_to_string m = num_to_string n"
  shows "m = n"
proof (cases m)
  case (PosInt w)
  with assms show ?thesis
    by (cases n) (auto simp: num_to_string_def wf_num_def intro: word_unat_eq_iff [THEN iffD2])
next
  case (NegInt w)
  show ?thesis
  proof (cases n)
    case (NegInt w')
    with assms \<open>m = NegInt w\<close> have "nat (- sint w) = nat (- sint w')" "sint w < 0" "sint w' < 0"
      by (auto simp: num_to_string_def wf_num_def)
    then have "sint w = sint w'" by linarith
    with NegInt \<open>m = NegInt w\<close> show ?thesis by (simp add: signed_word_eqI)
  qed (use assms NegInt in \<open>auto simp: num_to_string_def wf_num_def\<close>)
next
  case (Float s)
  with assms show ?thesis
    by (cases n) (auto simp: num_to_string_def wf_num_def split: if_splits)
qed

lemma number_tail_inj:
  assumes "set a \<subseteq> set number_chars" "set b \<subseteq> set number_chars" "tail_ok r" "tail_ok r'"
    and "a @ r = b @ r'"
  shows "a = b \<and> r = r'"
proof -
  let ?P = "\<lambda>c. c \<in> set number_chars"
  have tw: "takeWhile ?P (x @ y) = x \<and> dropWhile ?P (x @ y) = y"
    if "set x \<subseteq> set number_chars" "tail_ok y" for x y
    using that by (cases y) (auto simp: tail_ok_def takeWhile_append dropWhile_append)
  show ?thesis using tw [OF assms(1,3)] tw [OF assms(2,4)] assms(5) by metis
qed

lemma join_with_Cons_tail:
  "join_with sep (x # xs) @ r = x @ (if xs = [] then r else sep @ join_with sep xs @ r)"
  by (cases xs) auto

text \<open>Comma-separated sequences of prefix-free encodings are prefix-free.\<close>

definition join_tail :: "char \<Rightarrow> ('a \<Rightarrow> string) \<Rightarrow> 'a list \<Rightarrow> string \<Rightarrow> string" where
  "join_tail c enc xs r =
     (if xs = [] then c # r else '','' @ join_with '','' (map enc xs) @ c # r)"

lemma join_Cons_tail:
  "join_with '','' (map enc (x # xs)) @ c # r = enc x @ join_tail c enc xs r"
  by (cases xs) (auto simp: join_tail_def)

lemma join_tail_eqD:
  "c \<noteq> CHR '','' \<Longrightarrow> join_tail c enc xs r = join_tail c enc ys r' \<Longrightarrow>
   join_with '','' (map enc xs) @ c # r = join_with '','' (map enc ys) @ c # r'"
  by (auto simp: join_tail_def split: if_splits)

lemma join_hd_neq:
  "enc x \<noteq> [] \<Longrightarrow> hd (enc x) \<noteq> c \<Longrightarrow> join_with '','' (map enc (x # xs)) @ c # r \<noteq> c # r'"
  unfolding join_Cons_tail by (cases "enc x") auto

lemma join_prefix_free:
  assumes pf: "\<And>x y r r'. x \<in> set xs \<Longrightarrow> y \<in> set ys \<Longrightarrow> tail_ok r \<Longrightarrow> tail_ok r' \<Longrightarrow>
      enc x @ r = enc y @ r' \<Longrightarrow> x = y \<and> r = r'"
    and hd: "\<And>x. x \<in> set xs \<union> set ys \<Longrightarrow> enc x \<noteq> [] \<and> hd (enc x) \<noteq> c"
    and c: "c \<noteq> CHR '',''" "\<And>r. tail_ok (c # r)"
    and eq: "join_with '','' (map enc xs) @ c # r = join_with '','' (map enc ys) @ c # r'"
  shows "xs = ys \<and> r = r'"
  using pf hd eq
proof (induction xs arbitrary: ys)
  case Nil
  show ?case
  proof (cases ys)
    case (Cons y ys')
    with Nil(2) [of y] Nil(3) join_hd_neq [of enc y c ys' r' r] show ?thesis by auto
  qed (use Nil in simp)
next
  case (Cons x xs)
  show ?case
  proof (cases ys)
    case Nil
    with Cons.prems(2) [of x] Cons.prems(3) join_hd_neq [of enc x c xs r r'] show ?thesis
      by (simp del: list.map(2))
  next
    case ys: (Cons y ys')
    have "enc x @ join_tail c enc xs r = enc y @ join_tail c enc ys' r'"
      using Cons.prems(3) unfolding ys join_Cons_tail .
    moreover have "tail_ok (join_tail c enc zs q)" for zs q
      using c by (auto simp: join_tail_def)
    ultimately have xy: "x = y" and t: "join_tail c enc xs r = join_tail c enc ys' r'"
      using Cons.prems(1) [of x y "join_tail c enc xs r" "join_tail c enc ys' r'"] ys by simp_all
    have "xs = ys' \<and> r = r'"
    proof (rule Cons.IH)
      show "x' = y' \<and> q = q'" if "x' \<in> set xs" "y' \<in> set ys'" "tail_ok q" "tail_ok q'"
        "enc x' @ q = enc y' @ q'" for x' y' q q'
        by (rule Cons.prems(1)) (use that ys in auto)
      show "enc z \<noteq> [] \<and> hd (enc z) \<noteq> c" if "z \<in> set xs \<union> set ys'" for z
        by (rule Cons.prems(2)) (use that ys in auto)
      show "join_with '','' (map enc xs) @ c # r = join_with '','' (map enc ys') @ c # r'"
        by (rule join_tail_eqD [OF c(1) t])
    qed
    with xy ys show ?thesis by simp
  qed
qed

text \<open>The main result: the canonical form determines the value.\<close>

definition json_head :: "char \<Rightarrow> bool" where
  "json_head c \<longleftrightarrow> c \<in> set ''ntf[{'' \<or> c = CHR 0x22 \<or> c \<in> set number_chars"

lemma canonical_head:
  "wf_json v \<Longrightarrow> canonical_json_string v \<noteq> [] \<and> json_head (hd (canonical_json_string v))"
proof (cases v)
  case (JNum n)
  moreover assume "wf_json v"
  ultimately have "num_to_string n \<noteq> []" "hd (num_to_string n) \<in> set number_chars"
    using num_to_string_ne set_num_to_string by (auto, meson hd_in_set subsetD)
  with JNum show ?thesis by (simp add: json_head_def)
qed (auto simp: json_head_def write_json_string_def)

lemma json_head_closing: "json_head c \<Longrightarrow> c \<noteq> CHR '']'' \<and> c \<noteq> CHR ''}''"
  by (auto simp: json_head_def number_chars_def)

definition write_member :: "string \<times> json \<Rightarrow> string" where
  "write_member kv = write_json_string (fst kv) @ '':'' @ json_to_string (snd kv)"

lemma json_to_string_obj:
  "json_to_string (JObj kvs) = ''{'' @ join_with '','' (map write_member kvs) @ ''}''"
  by (simp add: write_member_def [abs_def] comp_def)

lemma json_to_string_arr:
  "json_to_string (JArr xs) @ r = ''['' @ join_with '','' (map json_to_string xs) @ CHR '']'' # r"
  by simp

lemma json_head_num: "wf_num n \<Longrightarrow> num_to_string n @ r = c # s \<Longrightarrow> c \<in> set number_chars"
  using num_to_string_ne [of n] set_num_to_string [of n] by (cases "num_to_string n") auto

lemma json_head_cases [simp]:
  "CHR ''n'' \<notin> set number_chars" "CHR ''t'' \<notin> set number_chars" "CHR ''f'' \<notin> set number_chars"
  "CHR ''['' \<notin> set number_chars" "CHR ''{'' \<notin> set number_chars" "CHR 0x22 \<notin> set number_chars"
  by (simp_all add: number_chars_def)

text \<open>The leading character tells the kinds of value apart.\<close>

fun json_kind :: "json \<Rightarrow> char" where
  "json_kind JNull = CHR ''n''"
| "json_kind (JBool b) = (if b then CHR ''t'' else CHR ''f'')"
| "json_kind (JNum n) = CHR ''0''"
| "json_kind (JStr s) = CHR 0x22"
| "json_kind (JArr xs) = CHR ''[''"
| "json_kind (JObj kvs) = CHR ''{''"

definition kind_of_char :: "char \<Rightarrow> char" where
  "kind_of_char c = (if c \<in> set number_chars then CHR ''0'' else c)"

lemma json_kind_hd:
  assumes "wf_json v"
  shows "json_to_string v \<noteq> [] \<and> kind_of_char (hd (json_to_string v)) = json_kind v"
proof (cases v)
  case (JNum n)
  with assms have "num_to_string n \<noteq> []" "set (num_to_string n) \<subseteq> set number_chars"
    using num_to_string_ne set_num_to_string by auto
  then have "hd (num_to_string n) \<in> set number_chars" by (meson hd_in_set subsetD)
  with JNum \<open>num_to_string n \<noteq> []\<close> show ?thesis by (auto simp: kind_of_char_def)
qed (auto simp: write_json_string_def kind_of_char_def)

lemma json_kind_eq:
  assumes "wf_json v" "wf_json w" "json_to_string v @ r = json_to_string w @ r'"
  shows "json_kind v = json_kind w"
  using json_kind_hd [OF assms(1)] json_kind_hd [OF assms(2)] assms(3)
  by (metis hd_append2)

lemma json_head_not_closing:
  assumes "wf_json v"
  shows "json_to_string v \<noteq> [] \<and> hd (json_to_string v) \<noteq> CHR '']'' \<and> hd (json_to_string v) \<noteq> CHR ''}''"
proof -
  have "kind_of_char CHR '']'' = CHR '']''" "kind_of_char CHR ''}'' = CHR ''}''"
    by (simp_all add: kind_of_char_def number_chars_def)
  moreover have "json_kind v \<noteq> CHR '']''" "json_kind v \<noteq> CHR ''}''"
    by (cases v; simp)+
  ultimately show ?thesis using json_kind_hd [OF assms] by metis
qed

lemma json_to_string_prefix_free:
  "wf_json v \<Longrightarrow> wf_json w \<Longrightarrow> tail_ok r \<Longrightarrow> tail_ok r' \<Longrightarrow>
   json_to_string v @ r = json_to_string w @ r' \<Longrightarrow> v = w \<and> r = r'"
proof (induction v arbitrary: w r r' rule: json_induct)
  case JNull
  then show ?case using json_kind_eq [OF JNull(1,2,5)] by (cases w) (auto split: if_splits)
next
  case (JBool b)
  then show ?case using json_kind_eq [OF JBool(1,2,5)] by (cases w) (auto split: if_splits)
next
  case (JNum n)
  then obtain m where w: "w = JNum m"
    using json_kind_eq [OF JNum(1,2,5)] by (cases w) (auto split: if_splits)
  have "num_to_string n = num_to_string m \<and> r = r'"
    by (rule number_tail_inj) (use JNum w set_num_to_string in auto)
  with JNum w show ?case by (auto dest: num_to_string_inj)
next
  case (JStr s)
  then obtain t where w: "w = JStr t"
    using json_kind_eq [OF JStr(1,2,5)] by (cases w) (auto split: if_splits)
  with JStr(5) write_json_string_inj [of s r t r'] show ?case by simp
next
  case (JArr xs)
  then obtain ys where w: "w = JArr ys"
    using json_kind_eq [OF JArr(2,3,6)] by (cases w) (auto split: if_splits)
  have "xs = ys \<and> r = r'"
  proof (rule join_prefix_free [where enc = json_to_string and c = "CHR '']''"])
    show "x = y \<and> q = q'" if "x \<in> set xs" "y \<in> set ys" "tail_ok q" "tail_ok q'"
      "json_to_string x @ q = json_to_string y @ q'" for x y q q'
      by (rule JArr.IH) (use that JArr.prems w in auto)
    show "json_to_string z \<noteq> [] \<and> hd (json_to_string z) \<noteq> CHR '']''" if "z \<in> set xs \<union> set ys" for z
      using that json_head_not_closing [of z] JArr.prems w by auto
  qed (use JArr.prems(5) w in \<open>simp_all only: json_to_string_arr append_Cons append_Nil list.inject tail_ok_simps, simp_all\<close>)
  with w show ?case by simp
next
  case (JObj kvs)
  then obtain ys where w: "w = JObj ys"
    using json_kind_eq [OF JObj(2,3,6)] by (cases w) (auto split: if_splits)
  have "kvs = ys \<and> r = r'"
  proof (rule join_prefix_free [where enc = write_member and c = "CHR ''}''"])
    show "x = y \<and> q = q'" if xy: "x \<in> set kvs" "y \<in> set ys" "tail_ok q" "tail_ok q'"
      and e: "write_member x @ q = write_member y @ q'" for x y q q'
    proof -
      have "fst x = fst y"
        "'':'' @ json_to_string (snd x) @ q = '':'' @ json_to_string (snd y) @ q'"
        using write_json_string_inj [of "fst x" "'':'' @ json_to_string (snd x) @ q" "fst y"
            "'':'' @ json_to_string (snd y) @ q'"] e by (simp_all add: write_member_def)
      moreover have "snd x = snd y \<and> q = q'"
        by (rule JObj.IH [of "fst x"]) (use calculation(2) xy JObj.prems w in auto)
      ultimately show ?thesis by (simp add: prod_eq_iff)
    qed
    show "write_member z \<noteq> [] \<and> hd (write_member z) \<noteq> CHR ''}''" for z
      by (simp add: write_member_def write_json_string_def)
  qed (use JObj.prems(5) w in \<open>simp_all add: json_to_string_obj del: json_to_string.simps\<close>)
  with w show ?case by simp
qed

lemma canonical_inj:
  "wf_json v \<Longrightarrow> wf_json w \<Longrightarrow> canonical_json_string v = canonical_json_string w \<Longrightarrow> v = w"
  using json_to_string_prefix_free [of v w "[]" "[]"] by (simp add: canonical_eq_display)

text \<open>No encoding holds a NUL: control characters are escaped.\<close>

lemma escape_json_char_no_nul: "CHR 0x00 \<notin> set (escape_json_char c)"
proof -
  have hex: "CHR 0x00 \<noteq> hex_digit d" if "d < 16" for d
  proof -
    have "hex_digit d \<in> set ''0123456789abcdef''"
      unfolding hex_digit_def by (rule nth_mem) (use that in simp)
    then show ?thesis by auto
  qed
  have "(of_char c :: nat) div 16 < 16" by (rule less_mult_imp_div_less) simp
  then show ?thesis using hex [of "of_char c div 16"] hex [of "of_char c mod 16"]
    by (auto simp: escape_json_char_def)
qed

lemma write_json_string_no_nul: "CHR 0x00 \<notin> set (write_json_string s)"
  using escape_json_char_no_nul by (auto simp: write_json_string_def)

lemma num_to_string_no_nul: "wf_num n \<Longrightarrow> CHR 0x00 \<notin> set (num_to_string n)"
proof -
  have "CHR 0x00 \<notin> set (dec m)" for m using set_dec [of m] by auto
  then show "wf_num n \<Longrightarrow> ?thesis"
    by (auto simp: num_to_string_def wf_num_def number_chars_def split: jnum.splits)
qed

lemma set_join_with: "set (join_with sep xs) \<subseteq> set sep \<union> \<Union> (set ` set xs)"
  by (induction sep xs rule: join_with.induct) auto

lemma json_to_string_no_nul: "wf_json v \<Longrightarrow> CHR 0x00 \<notin> set (json_to_string v)"
proof (induction v rule: json_induct)
  case (JArr xs)
  then show ?case using set_join_with [of "'',''" "map json_to_string xs"] by auto
next
  case (JObj kvs)
  let ?xs = "map (\<lambda>(k, t). write_json_string k @ '':'' @ t) (map (\<lambda>kv. (fst kv, json_to_string (snd kv))) kvs)"
  have "CHR 0x00 \<notin> set x" if "x \<in> set ?xs" for x
    using that JObj write_json_string_no_nul by fastforce
  then have "CHR 0x00 \<notin> \<Union> (set ` set ?xs)" by blast
  then have "CHR 0x00 \<notin> set '','' \<union> \<Union> (set ` set ?xs)" by simp
  then have "CHR 0x00 \<notin> set (join_with '','' ?xs)" by (rule contra_subsetD [OF set_join_with])
  then show ?case unfolding json_to_string.simps by simp
qed (use write_json_string_no_nul num_to_string_no_nul in auto)

lemma canonical_no_nul: "wf_json v \<Longrightarrow> CHR 0x00 \<notin> set (canonical_json_string v)"
  by (simp add: canonical_eq_display json_to_string_no_nul)

text \<open>
  C18. Two JSON values with the same canonical serialisation are the same value: the string
  the optimizer and the cache use as a key loses nothing.
\<close>

theorem canonical_json_string_injective:
  assumes "wf_json v" and "wf_json w" and "canonical_json_string v = canonical_json_string w"
  shows "v = w"
  using assms by (rule canonical_inj)

theorem canonical_json_string_injective_witness:
  "wf_json (JObj [(''a'', JNull)]) \<and>
   canonical_json_string (JObj [(''a'', JNull)]) = canonical_json_string (JObj [(''a'', JNull)]) \<and>
   JObj [(''a'', JNull)] = JObj [(''a'', JNull)]"
proof -
  have w: "wf_json (JObj [(''a'', JNull)])" by (simp add: bt_ok_def)
  show ?thesis using canonical_json_string_injective [OF w w refl] w by simp
qed

end
