(* ===== verification/Ir.thy ===== *)
theory Ir
  imports Json
begin

text \<open>
  The plan IR: \<^verbatim>\<open>crates/tool-compiler-ir/src/{lib,effects,refs}.rs\<close>. Records for the
  structs, the value references with their escaped string form, the collection of the
  references of an input, and the resolution of \<^verbatim>\<open>{placeholder}\<close> resource templates.
  Reading plans from JSON is serde's derived code and is not modelled: a plan is a value of
  the record.
\<close>

type_synonym node_id = string
type_synonym tool_name = string
type_synonym resource = string

definition CURRENT_VERSION :: string where "CURRENT_VERSION = ''0''"
definition ITEM_KEY :: string where "ITEM_KEY = ''$item''"
definition REF_KEY :: string where "REF_KEY = ''$ref''"
definition LITERAL_KEY :: string where "LITERAL_KEY = ''$literal''"

section \<open>Value references (refs.rs)\<close>

datatype value_ref = ValueRef (ref_node: node_id) (ref_path: "string list")

definition value_ref_output :: "node_id \<Rightarrow> value_ref" where
  "value_ref_output node = ValueRef node []"

datatype ref_parse_error =
    InvalidRefText string
  | EmptySegment string
  | NonStringRef string
  | RefWithExtraKeys string
  | EmptyNodeId
  | NodeIdContainsDot string

definition ref_parse_error_to_string :: "ref_parse_error \<Rightarrow> string" where
  "ref_parse_error_to_string e = (case e of
      InvalidRefText s \<Rightarrow>
        ''invalid value reference '' @ [CHR 0x27] @ s @ [CHR 0x27] @ '', expected '' @ [CHR 0x27]
          @ ''<node>.output[.<path>...]'' @ [CHR 0x27]
    | EmptySegment s \<Rightarrow>
        ''value reference '' @ [CHR 0x27] @ s @ [CHR 0x27] @ '' contains an empty path segment''
    | NonStringRef s \<Rightarrow> [CHR 0x27] @ ''$ref'' @ [CHR 0x27] @ '' value must be a string, found '' @ s
    | RefWithExtraKeys ks \<Rightarrow>
        ''object mixes '' @ [CHR 0x27] @ ''$ref'' @ [CHR 0x27] @ '' with other keys ('' @ ks
          @ ''); wrap literal data in {'' @ [CHR 0x22] @ ''$literal'' @ [CHR 0x22] @ '': ...}''
    | EmptyNodeId \<Rightarrow> ''node id must not be empty''
    | NodeIdContainsDot s \<Rightarrow>
        ''node id '' @ [CHR 0x27] @ s @ [CHR 0x27] @ '' must not contain '' @ [CHR 0x27] @ ''.''
          @ [CHR 0x27])"

definition validate_node_id :: "string \<Rightarrow> (ref_parse_error, unit) result" where
  "validate_node_id id' =
     (if id' = [] then Inl EmptyNodeId
      else if CHR ''.'' \<in> set id' then Inl (NodeIdContainsDot id')
      else Inr ())"

definition escape_segment :: "string \<Rightarrow> string" where
  "escape_segment s =
     (if CHR ''~'' \<in> set s \<or> CHR ''.'' \<in> set s
      then replace_char CHR ''.'' ''~1'' (replace_char CHR ''~'' ''~0'' s) else s)"

definition unescape_segment :: "string \<Rightarrow> string" where
  "unescape_segment s =
     (if CHR ''~'' \<in> set s
      then replace_pair CHR ''~'' CHR ''0'' ''~'' (replace_pair CHR ''~'' CHR ''1'' ''.'' s) else s)"

definition value_ref_to_string :: "value_ref \<Rightarrow> string" where
  "value_ref_to_string r =
     ref_node r @ ''.output'' @ concat (map (\<lambda>seg. ''.'' @ escape_segment seg) (ref_path r))"

definition parse_value_ref :: "string \<Rightarrow> (ref_parse_error, value_ref) result" where
  "parse_value_ref value = (case split_on CHR ''.'' value of
      node # output # segments \<Rightarrow>
        if node = [] \<or> output \<noteq> ''output'' then Inl (InvalidRefText value)
        else res_bind
               (res_map (\<lambda>seg. if seg = [] then Inl (EmptySegment value)
                               else Inr (unescape_segment seg)) segments)
               (\<lambda>path. Inr (ValueRef node path))
    | _ \<Rightarrow> Inl (InvalidRefText value))"

text \<open>
  \<^verbatim>\<open>collect_refs\<close> pushes onto one vector; the model returns the references of each
  part and appends them in the order of the walk, stopping at the first error.
\<close>

fun collect_refs :: "json \<Rightarrow> (ref_parse_error, value_ref list) result" where
  "collect_refs (JObj kvs) =
     (if singleton_obj kvs LITERAL_KEY \<noteq> None then Inr []
      else (case map_of kvs REF_KEY of
          Some raw_ref \<Rightarrow>
            if length kvs > 1
            then Inl (RefWithExtraKeys
                   (join_with '', '' (filter (\<lambda>k. k \<noteq> REF_KEY) (map fst kvs))))
            else (case raw_ref of
                JStr s \<Rightarrow> res_bind (parse_value_ref s) (\<lambda>r. Inr [r])
              | _ \<Rightarrow> Inl (NonStringRef (json_to_string raw_ref)))
        | None \<Rightarrow>
            res_bind (res_map (\<lambda>kv. collect_refs (snd kv)) kvs) (\<lambda>rss. Inr (concat rss))))"
| "collect_refs (JArr xs) =
     res_bind (res_map (\<lambda>x. collect_refs x) xs) (\<lambda>rss. Inr (concat rss))"
| "collect_refs v = Inr []"

section \<open>Effects (effects.rs)\<close>

record retry_policy =
  retry_max_attempts :: "8 word"
  retry_errors :: "string bset"
  retry_backoff_ms :: "64 word option"

record effects =
  eff_pure :: bool
  eff_reads :: "resource bset"
  eff_writes :: "resource bset"
  eff_idempotent :: bool
  eff_cacheable :: bool
  eff_batchable :: bool
  eff_commutative :: bool
  eff_timeout_ms :: "64 word option"
  eff_retry :: "retry_policy option"

definition effects_default :: effects where
  "effects_default = \<lparr>eff_pure = False, eff_reads = [], eff_writes = [], eff_idempotent = False,
     eff_cacheable = False, eff_batchable = False, eff_commutative = False,
     eff_timeout_ms = None, eff_retry = None\<rparr>"

definition effects_read_only :: "resource list \<Rightarrow> effects" where
  "effects_read_only resources = effects_default\<lparr>eff_reads := bs_of_list resources,
     eff_idempotent := True, eff_cacheable := True\<rparr>"

definition effects_pure :: effects where
  "effects_pure = effects_default\<lparr>eff_pure := True, eff_idempotent := True,
     eff_cacheable := True, eff_commutative := True\<rparr>"

definition is_contradictory :: "effects \<Rightarrow> bool" where
  "is_contradictory e \<longleftrightarrow> eff_pure e \<and> eff_writes e \<noteq> []"

definition declares_side_effects :: "effects \<Rightarrow> bool" where
  "declares_side_effects e \<longleftrightarrow> eff_pure e \<or> eff_reads e \<noteq> [] \<or> eff_writes e \<noteq> []"

fun get_path :: "json \<Rightarrow> string list \<Rightarrow> json option" where
  "get_path current [] = Some current"
| "get_path current (seg # segs) =
     (case json_get current seg of None \<Rightarrow> None | Some v \<Rightarrow> get_path v segs)"

definition scalar_text :: "json \<Rightarrow> string option" where
  "scalar_text v = (case v of
      JStr t \<Rightarrow> Some t
    | JNum n \<Rightarrow> Some (num_to_string n)
    | JBool b \<Rightarrow> Some (if b then ''true'' else ''false'')
    | _ \<Rightarrow> None)"

definition lookup_scalar :: "json \<Rightarrow> string \<Rightarrow> string option" where
  "lookup_scalar input path =
     (case get_path input (split_on CHR ''.'' path) of None \<Rightarrow> None | Some v \<Rightarrow> scalar_text v)"

text \<open>
  The loop of \<^verbatim>\<open>resolve_resource_template\<close>: \<open>out\<close> is what has been emitted,
  \<open>rest\<close> what is left of the template. Every round drops the text up to a closing brace.
\<close>

function resolve_template_loop :: "string \<Rightarrow> json \<Rightarrow> string \<Rightarrow> string \<Rightarrow> string" where
  "resolve_template_loop template input out rest =
     (case dropWhile (\<lambda>c. c \<noteq> CHR ''{'') rest of
        [] \<Rightarrow> out @ rest
      | _ # opened \<Rightarrow>
          (case dropWhile (\<lambda>c. c \<noteq> CHR ''}'') opened of
             [] \<Rightarrow> out @ rest
           | _ # rest' \<Rightarrow>
               (case lookup_scalar input (takeWhile (\<lambda>c. c \<noteq> CHR ''}'') opened) of
                  None \<Rightarrow> template
                | Some scalar \<Rightarrow>
                    resolve_template_loop template input
                      (out @ takeWhile (\<lambda>c. c \<noteq> CHR ''{'') rest @ scalar) rest')))"
  by pat_completeness auto
termination
proof (relation "measure (\<lambda>(t, i, out, rest). length rest)")
  fix rest opened rest' :: string and b c :: char
  assume "dropWhile (\<lambda>c. c \<noteq> CHR ''{'') rest = b # opened"
    and "dropWhile (\<lambda>c. c \<noteq> CHR ''}'') opened = c # rest'"
  then have "length (b # opened) \<le> length rest" "length (c # rest') \<le> length opened"
    using length_dropWhile_le by metis+
  then show "((t, i, out', rest'), (t, i, out, rest)) \<in> measure (\<lambda>(t, i, out, rest). length rest)"
    for t i out out' by simp
qed simp

declare resolve_template_loop.simps [simp del]

definition resolve_resource_template :: "string \<Rightarrow> json \<Rightarrow> resource" where
  "resolve_resource_template template input = resolve_template_loop template input [] template"

section \<open>Plans (lib.rs)\<close>

record tool_limits =
  lim_max_concurrency :: "nat option"
  lim_batch_size :: "nat option"

record tool_cost =
  cost_fixed_ms :: "64 word option"
  cost_per_call_ms :: "64 word option"
  cost_tokens :: "32 word option"

record tool_spec =
  spec_adapter :: string
  spec_effects :: "effects option"
  spec_limits :: "tool_limits option"
  spec_cost :: "tool_cost option"
  spec_version :: "string option"

record run_when =
  when_target :: value_ref
  when_equals :: "json option"
  when_not :: bool

record node =
  node_id :: node_id
  node_tool :: tool_name
  node_input :: json
  node_depends_on :: "node_id list"
  node_for_each :: "value_ref option"
  node_when :: "run_when option"

record plan =
  plan_version :: string
  plan_name :: "string option"
  plan_description :: "string option"
  plan_tools :: "(tool_name, tool_spec) btree"
  plan_nodes :: "node list"
  plan_outputs :: "(string, value_ref) btree"

definition plan_new :: plan where
  "plan_new = \<lparr>plan_version = CURRENT_VERSION, plan_name = None, plan_description = None,
     plan_tools = [], plan_nodes = [], plan_outputs = []\<rparr>"

definition tool_spec_new :: "string \<Rightarrow> tool_spec" where
  "tool_spec_new adapter = \<lparr>spec_adapter = adapter, spec_effects = None, spec_limits = None,
     spec_cost = None, spec_version = None\<rparr>"

definition node_new :: "node_id \<Rightarrow> tool_name \<Rightarrow> node" where
  "node_new id' tool = \<lparr>node_id = id', node_tool = tool, node_input = JObj [],
     node_depends_on = [], node_for_each = None, node_when = None\<rparr>"

definition when_truthy :: "value_ref \<Rightarrow> run_when" where
  "when_truthy target = \<lparr>when_target = target, when_equals = None, when_not = False\<rparr>"

definition when_equals_value :: "value_ref \<Rightarrow> json \<Rightarrow> run_when" where
  "when_equals_value target value =
     \<lparr>when_target = target, when_equals = Some value, when_not = False\<rparr>"

definition when_negated :: "run_when \<Rightarrow> run_when" where
  "when_negated w = w\<lparr>when_not := \<not> when_not w\<rparr>"

text \<open>The effects a plan declares for a tool, when it declares any.\<close>

definition tool_effects :: "plan \<Rightarrow> tool_name \<Rightarrow> effects option" where
  "tool_effects p tool =
     (case map_of (plan_tools p) tool of None \<Rightarrow> None | Some spec \<Rightarrow> spec_effects spec)"

section \<open>The string form of references\<close>

definition valid_ref :: "value_ref \<Rightarrow> bool" where
  "valid_ref r \<longleftrightarrow> ref_node r \<noteq> [] \<and> CHR ''.'' \<notin> set (ref_node r) \<and> [] \<notin> set (ref_path r)"

definition esc1 :: "char \<Rightarrow> string" where
  "esc1 c = (if c = CHR ''~'' then ''~0'' else if c = CHR ''.'' then ''~1'' else [c])"

lemma escape_segment_eq: "escape_segment s = concat (map esc1 s)"
proof -
  have "replace_char CHR ''.'' ''~1'' (replace_char CHR ''~'' ''~0'' s) = concat (map esc1 s)"
    by (induction s) (auto simp: replace_char_def esc1_def)
  moreover have "concat (map esc1 s) = s" if "CHR ''~'' \<notin> set s" "CHR ''.'' \<notin> set s"
    using that by (induction s) (auto simp: esc1_def)
  ultimately show ?thesis by (auto simp: escape_segment_def)
qed

lemma unescape_segment_eq:
  "unescape_segment s =
     replace_pair CHR ''~'' CHR ''0'' ''~'' (replace_pair CHR ''~'' CHR ''1'' ''.'' s)"
  by (simp add: unescape_segment_def replace_pair_no_first)

lemma unescape_escape [simp]: "unescape_segment (escape_segment s) = s"
proof -
  let ?e = "\<lambda>c. if c = CHR ''~'' then ''~0'' else [c]"
  have "replace_pair CHR ''~'' CHR ''1'' ''.'' (concat (map esc1 s)) = concat (map ?e s)"
    by (induction s) (auto simp: esc1_def)
  moreover have "replace_pair CHR ''~'' CHR ''0'' ''~'' (concat (map ?e s)) = s"
    by (induction s) auto
  ultimately show ?thesis by (simp add: unescape_segment_eq escape_segment_eq)
qed

lemma escape_segment_no_dot [simp]: "CHR ''.'' \<notin> set (escape_segment s)"
  by (auto simp: escape_segment_eq esc1_def)

lemma escape_segment_ne [simp]: "escape_segment s = [] \<longleftrightarrow> s = []"
  by (cases s) (auto simp: escape_segment_eq esc1_def)

lemma replace_pair_ne: "r \<noteq> [] \<Longrightarrow> s \<noteq> [] \<Longrightarrow> replace_pair a b r s \<noteq> []"
  by (cases "(a, b, r, s)" rule: replace_pair.cases) auto

lemma unescape_segment_ne: "s \<noteq> [] \<Longrightarrow> unescape_segment s \<noteq> []"
  by (simp add: unescape_segment_eq replace_pair_ne)

lemma split_on_segments:
  assumes "CHR ''.'' \<notin> set p" "\<And>x. CHR ''.'' \<notin> set (f x)"
  shows "split_on CHR ''.'' (p @ concat (map (\<lambda>x. CHR ''.'' # f x) xs)) = p # map f xs"
  using assms(1)
proof (induction xs arbitrary: p)
  case (Cons x xs)
  then show ?case using assms(2) by (simp add: split_on_append_sep)
qed (simp add: split_on_no_sep)

lemma split_on_value_ref:
  "CHR ''.'' \<notin> set (ref_node r) \<Longrightarrow>
   split_on CHR ''.'' (value_ref_to_string r) = ref_node r # ''output'' # map escape_segment (ref_path r)"
  using split_on_segments [of "''output''" escape_segment "ref_path r"]
  by (simp add: value_ref_to_string_def split_on_append_sep)

lemma parse_display:
  assumes "valid_ref r"
  shows "parse_value_ref (value_ref_to_string r) = Inr r"
proof -
  have "res_map (\<lambda>seg. if seg = [] then Inl (EmptySegment v) else Inr (unescape_segment seg))
          (map escape_segment path) = Inr path" if "[] \<notin> set path" for v path
    using that by (induction path) auto
  with assms show ?thesis
    by (cases r) (simp add: parse_value_ref_def split_on_value_ref valid_ref_def)
qed

text \<open>
  Printing a reference and parsing it back gives the reference: for a node id without
  dots and non-empty path segments, whatever dots and tildes the segments hold.
\<close>

theorem parse_display_value_ref:
  assumes "valid_ref r"
  shows "parse_value_ref (value_ref_to_string r) = Inr r"
  using assms by (rule parse_display)

theorem parse_display_value_ref_witness:
  "valid_ref (ValueRef ''node'' [''a.b'', ''c~d'', ''0'']) \<and>
   parse_value_ref ''node.output.a~1b.c~0d.0'' = Inr (ValueRef ''node'' [''a.b'', ''c~d'', ''0''])"
proof -
  have v: "valid_ref (ValueRef ''node'' [''a.b'', ''c~d'', ''0''])"
    by (simp add: valid_ref_def)
  have s: "value_ref_to_string (ValueRef ''node'' [''a.b'', ''c~d'', ''0''])
      = ''node.output.a~1b.c~0d.0''"
    by (simp add: value_ref_to_string_def escape_segment_def replace_char_def)
  show ?thesis using parse_display_value_ref [OF v] v unfolding s by simp
qed

lemma res_map_segments:
  "res_map (\<lambda>seg. if seg = [] then Inl e else Inr (unescape_segment seg)) segs = Inr path \<longleftrightarrow>
     [] \<notin> set segs \<and> path = map unescape_segment segs"
  by (induction segs arbitrary: path) auto

lemma parse_value_ref_Inr:
  "parse_value_ref s = Inr r \<longleftrightarrow>
     (\<exists>segs. split_on CHR ''.'' s = ref_node r # ''output'' # segs \<and> ref_node r \<noteq> [] \<and>
        [] \<notin> set segs \<and> ref_path r = map unescape_segment segs)"
proof -
  consider "split_on CHR ''.'' s = []" | a where "split_on CHR ''.'' s = [a]"
    | a b cs where "split_on CHR ''.'' s = a # b # cs"
    by (metis list.exhaust)
  then show ?thesis
  proof cases
    case (3 a b cs)
    show ?thesis
    proof (cases "a = [] \<or> b \<noteq> ''output''")
      case True
      with 3 show ?thesis by (auto simp: parse_value_ref_def)
    next
      case False
      with 3 show ?thesis by (cases r) (auto simp: parse_value_ref_def res_map_segments)
    qed
  qed (simp_all add: parse_value_ref_def)
qed

text \<open>
  A parsed reference is always printable: its node id has no dot, no path segment
  is empty, and parsing its printed form gives it again.
\<close>

theorem parse_value_ref_stable:
  assumes "parse_value_ref s = Inr r"
  shows "valid_ref r \<and> parse_value_ref (value_ref_to_string r) = Inr r"
proof -
  from assms obtain segs where segs: "split_on CHR ''.'' s = ref_node r # ''output'' # segs"
      "ref_node r \<noteq> []" "[] \<notin> set segs" "ref_path r = map unescape_segment segs"
    by (auto simp: parse_value_ref_Inr)
  have "CHR ''.'' \<notin> set (ref_node r)"
    by (rule split_on_parts [of _ _ s]) (simp add: segs)
  moreover have "[] \<notin> set (ref_path r)"
    unfolding segs(4) using segs(3) by (metis imageE list.set_map unescape_segment_ne)
  ultimately have "valid_ref r"
    unfolding valid_ref_def using segs(2) by blast
  then show ?thesis by (simp add: parse_display)
qed

theorem parse_value_ref_stable_witness:
  "parse_value_ref ''a.output.x~2'' = Inr (ValueRef ''a'' [''x~2'']) \<and>
   valid_ref (ValueRef ''a'' [''x~2''])"
proof -
  have p: "parse_value_ref ''a.output.x~2'' = Inr (ValueRef ''a'' [''x~2''])"
    by (simp add: parse_value_ref_def unescape_segment_def)
  show ?thesis using parse_value_ref_stable [OF p] p by blast
qed

section \<open>Templates\<close>

text \<open>The template as a list of literal pieces and placeholders.\<close>

datatype chunk = Lit string | Hole string

function template_chunks :: "string \<Rightarrow> chunk list" where
  "template_chunks s =
     (case dropWhile (\<lambda>c. c \<noteq> CHR ''{'') s of
        [] \<Rightarrow> [Lit s]
      | _ # opened \<Rightarrow>
          (case dropWhile (\<lambda>c. c \<noteq> CHR ''}'') opened of
             [] \<Rightarrow> [Lit s]
           | _ # s' \<Rightarrow>
               Lit (takeWhile (\<lambda>c. c \<noteq> CHR ''{'') s)
                 # Hole (takeWhile (\<lambda>c. c \<noteq> CHR ''}'') opened) # template_chunks s'))"
  by pat_completeness auto
termination
proof (relation "measure length")
  fix s opened s' :: string and b c :: char
  assume "dropWhile (\<lambda>c. c \<noteq> CHR ''{'') s = b # opened"
    and "dropWhile (\<lambda>c. c \<noteq> CHR ''}'') opened = c # s'"
  then have "length (b # opened) \<le> length s" "length (c # s') \<le> length opened"
    using length_dropWhile_le by metis+
  then show "(s', s) \<in> measure length" by simp
qed simp

declare template_chunks.simps [simp del]

definition fill_chunk :: "json \<Rightarrow> chunk \<Rightarrow> string option" where
  "fill_chunk input ch = (case ch of Lit s \<Rightarrow> Some s | Hole path \<Rightarrow> lookup_scalar input path)"

fun fill_chunks :: "json \<Rightarrow> chunk list \<Rightarrow> string option" where
  "fill_chunks input [] = Some []"
| "fill_chunks input (ch # chs) =
     (case fill_chunk input ch of None \<Rightarrow> None
      | Some s \<Rightarrow> (case fill_chunks input chs of None \<Rightarrow> None | Some t \<Rightarrow> Some (s @ t)))"

lemma fill_chunks_None:
  "fill_chunks input chs = None \<longleftrightarrow> (\<exists>path. Hole path \<in> set chs \<and> lookup_scalar input path = None)"
  by (induction chs) (auto simp: fill_chunk_def split: option.splits chunk.splits)

lemma resolve_template_loop_chunks:
  "resolve_template_loop template input out rest =
     (case fill_chunks input (template_chunks rest) of None \<Rightarrow> template | Some s \<Rightarrow> out @ s)"
proof (induction template input out rest rule: resolve_template_loop.induct)
  case (1 template input out rest)
  note step = resolve_template_loop.simps [of template input out rest] template_chunks.simps [of rest]
  show ?case
  proof (cases "dropWhile (\<lambda>c. c \<noteq> CHR ''{'') rest")
    case Nil
    show ?thesis unfolding step Nil by (simp add: fill_chunk_def)
  next
    case (Cons b opened)
    show ?thesis
    proof (cases "dropWhile (\<lambda>c. c \<noteq> CHR ''}'') opened")
      case Nil
      show ?thesis unfolding step Cons list.case Nil by (simp add: fill_chunk_def)
    next
      case C: (Cons c rest')
      show ?thesis
      proof (cases "lookup_scalar input (takeWhile (\<lambda>c. c \<noteq> CHR ''}'') opened)")
        case None
        then show ?thesis unfolding step Cons list.case C by (simp add: fill_chunk_def)
      next
        case (Some scalar)
        then show ?thesis unfolding step Cons list.case C
          using "1.IH" [OF Cons C Some] by (simp add: fill_chunk_def split: option.split)
      qed
    qed
  qed
qed

text \<open>
  Template resolution is all or nothing: if every placeholder addresses a scalar of the
  input, each is replaced by its text; if any does not, the template comes back verbatim.
\<close>

theorem resolve_resource_template_spec:
  "resolve_resource_template template input =
     (if \<exists>path. Hole path \<in> set (template_chunks template) \<and> lookup_scalar input path = None
      then template
      else the (fill_chunks input (template_chunks template)))"
  by (auto simp: resolve_resource_template_def resolve_template_loop_chunks
      simp flip: fill_chunks_None split: option.split)

lemma resolve_static: "CHR ''{'' \<notin> set template \<Longrightarrow> resolve_resource_template template input = template"
proof -
  assume "CHR ''{'' \<notin> set template"
  then have e: "dropWhile (\<lambda>c. c \<noteq> CHR ''{'') template = []" by (auto simp: dropWhile_eq_Nil_conv)
  show ?thesis
    unfolding resolve_resource_template_def resolve_template_loop.simps [of template input "[]" template] e
    by simp
qed

end
