(* ===== verification/Graph.thy ===== *)
theory Graph
  imports Ir
begin

text \<open>
  Validation and layering: \<^verbatim>\<open>crates/tool-compiler-graph/src/{lib,layers}.rs\<close>. The
  resolved effects of a node and the pairwise concurrency rule \<open>can_run_with\<close>, the
  amortised admission test of \<^verbatim>\<open>LayerState\<close>, Kahn's algorithm over it, the structural
  checks of \<open>validate\<close>, and \<open>retain\<close>. A panic of the code (an indexing of a
  missing key, a counter below zero) is the error value \<open>GraphPanic\<close>, which the
  lemmas show is never reached.
\<close>

section \<open>Resolved effects\<close>

record resolved_effects =
  rfx_tool :: tool_name
  rfx_declared :: bool
  rfx_pure :: bool
  rfx_reads :: "resource bset"
  rfx_writes :: "resource bset"
  rfx_commutative :: bool

definition resolve_resources :: "node \<Rightarrow> resource bset \<Rightarrow> resource bset" where
  "resolve_resources n resources =
     bs_of_list (map (\<lambda>template. resolve_resource_template template (node_input n)) resources)"

definition for_node :: "node \<Rightarrow> effects option \<Rightarrow> resolved_effects" where
  "for_node n effects = (case effects of
      None \<Rightarrow> \<lparr>rfx_tool = node_tool n, rfx_declared = False, rfx_pure = False,
               rfx_reads = [], rfx_writes = [], rfx_commutative = False\<rparr>
    | Some e \<Rightarrow> \<lparr>rfx_tool = node_tool n, rfx_declared = declares_side_effects e,
               rfx_pure = eff_pure e, rfx_reads = resolve_resources n (eff_reads e),
               rfx_writes = resolve_resources n (eff_writes e),
               rfx_commutative = eff_commutative e\<rparr>)"

definition can_run_with :: "resolved_effects \<Rightarrow> resolved_effects \<Rightarrow> bool" where
  "can_run_with self other =
     (if \<not> rfx_declared self \<or> \<not> rfx_declared other then False
      else if rfx_pure self \<and> rfx_pure other then True
      else if \<not> bs_disjoint (rfx_writes self) (rfx_reads other)
           \<or> \<not> bs_disjoint (rfx_writes other) (rfx_reads self) then False
      else if bs_disjoint (rfx_writes self) (rfx_writes other) then True
      else rfx_tool self = rfx_tool other \<and> rfx_commutative self \<and> rfx_commutative other)"

lemma can_run_with_sym: "can_run_with a b = can_run_with b a"
  by (auto simp: can_run_with_def bs_disjoint_iff)

section \<open>Layer admission (layers.rs)\<close>

record write_claim =
  claim_tool :: string
  claim_commutative :: bool

record layer_state =
  ls_members :: nat
  ls_undeclared :: bool
  ls_reads :: "resource set"
  ls_writes :: "resource \<rightharpoonup> write_claim"

definition layer_state_default :: layer_state where
  "layer_state_default =
     \<lparr>ls_members = 0, ls_undeclared = False, ls_reads = {}, ls_writes = Map.empty\<rparr>"

definition admits :: "layer_state \<Rightarrow> resolved_effects \<Rightarrow> bool" where
  "admits st candidate =
     (if ls_members st = 0 then True
      else if ls_undeclared st \<or> \<not> rfx_declared candidate then False
      else if \<exists>r \<in> set (rfx_reads candidate). ls_writes st r \<noteq> None then False
      else if rfx_pure candidate then True
      else (\<forall>r \<in> set (rfx_writes candidate). r \<notin> ls_reads st \<and>
              (case ls_writes st r of None \<Rightarrow> True
               | Some claim \<Rightarrow> claim_commutative claim \<and> rfx_commutative candidate
                   \<and> claim_tool claim = rfx_tool candidate)))"

definition claim_writes ::
  "resolved_effects \<Rightarrow> (resource \<rightharpoonup> write_claim) \<Rightarrow> (resource \<rightharpoonup> write_claim)" where
  "claim_writes candidate writes =
     foldl (\<lambda>m r. case m r of
              Some c \<Rightarrow> m
            | None \<Rightarrow> m(r \<mapsto> \<lparr>claim_tool = rfx_tool candidate,
                            claim_commutative = rfx_commutative candidate\<rparr>))
       writes (rfx_writes candidate)"

definition absorb :: "layer_state \<Rightarrow> resolved_effects \<Rightarrow> layer_state" where
  "absorb st candidate =
     (let st1 = st\<lparr>ls_members := ls_members st + 1\<rparr> in
      if \<not> rfx_declared candidate then st1\<lparr>ls_undeclared := True\<rparr>
      else
        let st2 = st1\<lparr>ls_reads := ls_reads st1 \<union> set (rfx_reads candidate)\<rparr> in
        if rfx_pure candidate then st2
        else st2\<lparr>ls_writes := claim_writes candidate (ls_writes st2)\<rparr>)"

section \<open>Errors\<close>

datatype graph_error =
    UnsupportedVersion string
  | DuplicateNode node_id
  | InvalidNodeId string
  | UnknownTool node_id string
  | UnknownDependency node_id node_id
  | SelfReference node_id
  | UnknownOutputReference string node_id
  | InvalidNodeReference node_id string
  | InvalidEffects string string
  | Cycle node_id
  | GraphPanic

section \<open>Kahn's algorithm over the admission test\<close>

type_synonym dependency_map = "(node_id, node_id bset) btree"
type_synonym effects_map = "(node_id, resolved_effects) btree"

definition dependents_of :: "dependency_map \<Rightarrow> (node_id, node_id list) btree" where
  "dependents_of dependencies =
     foldl (\<lambda>m (n, deps). foldl (\<lambda>m dep. bt_push dep n m) m deps) [] dependencies"

fun build_layer ::
  "effects_map \<Rightarrow> layer_state \<Rightarrow> node_id list \<Rightarrow> node_id list option" where
  "build_layer effects st [] = Some []"
| "build_layer effects st (candidate # rest) =
     (case map_of effects candidate of
        None \<Rightarrow> None
      | Some fx \<Rightarrow>
          if admits st fx
          then map_option (\<lambda>layer. candidate # layer) (build_layer effects (absorb st fx) rest)
          else build_layer effects st rest)"

fun release_children ::
  "node_id list \<Rightarrow> (node_id, nat) btree \<times> node_id bset
   \<Rightarrow> ((node_id, nat) btree \<times> node_id bset) option" where
  "release_children [] s = Some s"
| "release_children (child # children) (pending, ready) =
     (case map_of pending child of
        Some (Suc count) \<Rightarrow>
          release_children children
            (bt_set child count pending, if count = 0 then bs_insert child ready else ready)
      | _ \<Rightarrow> None)"

fun release_layer ::
  "(node_id, node_id list) btree \<Rightarrow> node_id list \<Rightarrow> (node_id, nat) btree \<times> node_id bset
   \<Rightarrow> ((node_id, nat) btree \<times> node_id bset) option" where
  "release_layer dependents [] s = Some s"
| "release_layer dependents (n # layer) s =
     (case release_children (get_list dependents n) s of
        None \<Rightarrow> None
      | Some s' \<Rightarrow> release_layer dependents layer s')"

lemma release_children_measure:
  "release_children children (pending, ready) = Some (pending', ready') \<Longrightarrow>
   sum_list (map snd pending') + length ready' \<le> sum_list (map snd pending) + length ready"
proof (induction children arbitrary: pending ready)
  case (Cons child children)
  then obtain count where c: "map_of pending child = Some (Suc count)"
      "release_children children (bt_set child count pending,
         if count = 0 then bs_insert child ready else ready) = Some (pending', ready')"
    by (auto split: option.splits nat.splits)
  have "length (if count = 0 then bs_insert child ready else ready) \<le> Suc (length ready)"
    using length_bs_insert [of child ready] by simp
  with Cons.IH [OF c(2)] sum_bt_set [OF c(1)] show ?case by linarith
qed simp

lemma release_layer_measure:
  "release_layer dependents layer (pending, ready) = Some (pending', ready') \<Longrightarrow>
   sum_list (map snd pending') + length ready' \<le> sum_list (map snd pending) + length ready"
proof (induction layer arbitrary: pending ready)
  case (Cons n layer)
  then obtain p r where pr: "release_children (get_list dependents n) (pending, ready) = Some (p, r)"
      "release_layer dependents layer (p, r) = Some (pending', ready')"
    by (auto split: option.splits)
  from Cons.IH [OF pr(2)] release_children_measure [OF pr(1)] show ?case by linarith
qed simp

lemma admits_default [simp]: "admits layer_state_default fx"
  by (simp add: admits_def layer_state_default_def)

lemma build_layer_subset: "build_layer effects st cs = Some layer \<Longrightarrow> set layer \<subseteq> set cs"
  by (induction cs arbitrary: st layer) (fastforce split: option.splits if_splits)+

lemma build_layer_first:
  "build_layer effects layer_state_default (c # cs) = Some layer \<Longrightarrow> c \<in> set layer"
  by (auto split: option.splits)

function layer_loop ::
  "(node_id, node_id list) btree \<Rightarrow> effects_map \<Rightarrow> (node_id, nat) btree \<Rightarrow> node_id bset
   \<Rightarrow> node_id list list \<Rightarrow> nat \<Rightarrow> (node_id list list \<times> (node_id, nat) btree \<times> nat) option" where
  "layer_loop dependents effects pending ready layers emitted =
     (if ready = [] then Some (layers, pending, emitted)
      else (case build_layer effects layer_state_default ready of
          None \<Rightarrow> None
        | Some layer \<Rightarrow>
            (case release_layer dependents layer
                    (pending, filter (\<lambda>n. n \<notin> set layer) ready) of
               None \<Rightarrow> None
             | Some (pending', ready') \<Rightarrow>
                 layer_loop dependents effects pending' ready' (layers @ [layer])
                   (emitted + length layer))))"
  by pat_completeness auto
termination
proof (relation "measure (\<lambda>(d, e, pending, ready, l, em). sum_list (map snd pending) + length ready)")
  fix dependents effects pending ready layers emitted layer pr pending' ready'
  assume ready: "ready \<noteq> []"
    and layer: "build_layer effects layer_state_default ready = Some layer"
    and rel: "release_layer dependents layer (pending, filter (\<lambda>n. n \<notin> set layer) ready) = Some pr"
    and pr: "(pending', ready') = pr"
  obtain c cs where "ready = c # cs" using ready by (cases ready) auto
  with layer have "c \<in> set layer" "c \<in> set ready" using build_layer_first by auto
  then have "length (filter (\<lambda>n. n \<notin> set layer) ready) < length ready"
    by (intro length_filter_less) auto
  with release_layer_measure rel pr
  show "((dependents, effects, pending', ready', layers @ [layer], emitted + length layer),
         (dependents, effects, pending, ready, layers, emitted))
        \<in> measure (\<lambda>(d, e, pending, ready, l, em). sum_list (map snd pending) + length ready)"
    by fastforce
qed simp

declare layer_loop.simps [simp del]

definition safe_layers ::
  "dependency_map \<Rightarrow> effects_map \<Rightarrow> (graph_error, node_id list list) result" where
  "safe_layers dependencies effects =
     (let pending = map (\<lambda>(n, deps). (n, length deps)) dependencies;
          ready = map fst (filter (\<lambda>(n, count). count = 0) pending)
      in case layer_loop (dependents_of dependencies) effects pending ready [] 0 of
           None \<Rightarrow> Inl GraphPanic
         | Some (layers, pending', emitted) \<Rightarrow>
             if emitted \<noteq> length dependencies
             then Inl (Cycle (case filter (\<lambda>(n, count). count > 0) pending' of
                                [] \<Rightarrow> [] | (n, _) # _ \<Rightarrow> n))
             else Inr layers)"

section \<open>Validation (lib.rs)\<close>

record execution_graph =
  g_dependencies :: dependency_map
  g_layers :: "node_id list list"
  g_resolved_effects :: effects_map

fun index_nodes_from ::
  "(node_id, node) btree \<Rightarrow> node list \<Rightarrow> (graph_error, (node_id, node) btree) result" where
  "index_nodes_from indexed [] = Inr indexed"
| "index_nodes_from indexed (n # nodes) =
     res_bind (map_err (\<lambda>e. InvalidNodeId (ref_parse_error_to_string e)) (validate_node_id (node_id n)))
       (\<lambda>_. if bt_mem (node_id n) indexed then Inl (DuplicateNode (node_id n))
            else index_nodes_from (bt_insert (node_id n) n indexed) nodes)"

definition index_nodes :: "node list \<Rightarrow> (graph_error, (node_id, node) btree) result" where
  "index_nodes nodes = index_nodes_from [] nodes"

definition ensure_tools_exist :: "plan \<Rightarrow> (node_id, node) btree \<Rightarrow> (graph_error, unit) result" where
  "ensure_tools_exist p nodes =
     res_fold (\<lambda>(_, n) _. if bt_mem (node_tool n) (plan_tools p) then Inr ()
                          else Inl (UnknownTool (node_id n) (node_tool n))) nodes ()"

definition ensure_effects_are_coherent :: "plan \<Rightarrow> (graph_error, unit) result" where
  "ensure_effects_are_coherent p =
     res_fold (\<lambda>(tool, spec) _. case spec_effects spec of
                 Some effects \<Rightarrow>
                   if is_contradictory effects
                   then Inl (InvalidEffects tool ''a pure tool cannot declare writes'') else Inr ()
               | None \<Rightarrow> Inr ()) (plan_tools p) ()"

definition insert_dependency ::
  "node_id \<Rightarrow> (node_id, node) btree \<Rightarrow> node_id \<Rightarrow> node_id bset \<Rightarrow> (graph_error, node_id bset) result" where
  "insert_dependency nid nodes dependency deps =
     (if dependency = nid then Inl (SelfReference nid)
      else if \<not> bt_mem dependency nodes then Inl (UnknownDependency nid dependency)
      else Inr (bs_insert dependency deps))"

definition node_dependencies ::
  "(node_id, node) btree \<Rightarrow> node \<Rightarrow> (graph_error, node_id bset) result" where
  "node_dependencies nodes n =
     (let ins = insert_dependency (node_id n) nodes in
      res_bind (res_fold ins (node_depends_on n) []) (\<lambda>deps1.
      res_bind (map_err (\<lambda>e. InvalidNodeReference (node_id n) (ref_parse_error_to_string e))
                  (collect_refs (node_input n))) (\<lambda>refs.
      res_bind (res_fold (\<lambda>r. ins (ref_node r)) refs deps1) (\<lambda>deps2.
      res_bind (case node_for_each n of None \<Rightarrow> Inr deps2
                | Some items \<Rightarrow> ins (ref_node items) deps2) (\<lambda>deps3.
      case node_when n of None \<Rightarrow> Inr deps3
      | Some w \<Rightarrow> ins (ref_node (when_target w)) deps3)))))"

text \<open>The entries are visited in key order, so the map is built by appending.\<close>

definition collect_dependencies :: "(node_id, node) btree \<Rightarrow> (graph_error, dependency_map) result" where
  "collect_dependencies nodes =
     res_map (\<lambda>(_, n). res_bind (node_dependencies nodes n) (\<lambda>deps. Inr (node_id n, deps))) nodes"

definition ensure_outputs_exist :: "plan \<Rightarrow> (node_id, node) btree \<Rightarrow> (graph_error, unit) result" where
  "ensure_outputs_exist p nodes =
     res_fold (\<lambda>(output, r) _. if bt_mem (ref_node r) nodes then Inr ()
                 else Inl (UnknownOutputReference output (ref_node r))) (plan_outputs p) ()"

definition resolve_effects :: "plan \<Rightarrow> (node_id, node) btree \<Rightarrow> effects_map" where
  "resolve_effects p nodes = map (\<lambda>(id', n). (id', for_node n (tool_effects p (node_tool n)))) nodes"

definition validate :: "plan \<Rightarrow> (graph_error, execution_graph) result" where
  "validate p =
     (if plan_version p \<noteq> CURRENT_VERSION then Inl (UnsupportedVersion (plan_version p))
      else
        res_bind (index_nodes (plan_nodes p)) (\<lambda>nodes.
        res_bind (ensure_tools_exist p nodes) (\<lambda>_.
        res_bind (ensure_effects_are_coherent p) (\<lambda>_.
        res_bind (collect_dependencies nodes) (\<lambda>dependencies.
        res_bind (ensure_outputs_exist p nodes) (\<lambda>_.
          let effects = resolve_effects p nodes in
          res_bind (safe_layers dependencies effects) (\<lambda>layers.
            Inr \<lparr>g_dependencies = dependencies, g_layers = layers,
                 g_resolved_effects = effects\<rparr>)))))))"

definition retain :: "execution_graph \<Rightarrow> node_id bset \<Rightarrow> (graph_error, execution_graph) result" where
  "retain g kept =
     (let dependencies = bt_filter (\<lambda>n. n \<in> set kept) (g_dependencies g);
          effects = bt_filter (\<lambda>n. n \<in> set kept) (g_resolved_effects g)
      in res_bind (safe_layers dependencies effects) (\<lambda>layers.
           Inr \<lparr>g_dependencies = dependencies, g_layers = layers, g_resolved_effects = effects\<rparr>))"

section \<open>The amortised admission test is the pairwise rule\<close>

definition coherent :: "resolved_effects \<Rightarrow> bool" where
  "coherent fx \<longleftrightarrow> (rfx_pure fx \<longrightarrow> rfx_writes fx = [])"

definition claim_of :: "resolved_effects \<Rightarrow> write_claim" where
  "claim_of fx = \<lparr>claim_tool = rfx_tool fx, claim_commutative = rfx_commutative fx\<rparr>"

lemma claim_writes_lookup:
  "claim_writes fx m r =
     (case m r of Some c \<Rightarrow> Some c
      | None \<Rightarrow> if r \<in> set (rfx_writes fx) then Some (claim_of fx) else None)"
proof -
  have "foldl (\<lambda>m r. case m r of Some c \<Rightarrow> m
            | None \<Rightarrow> m(r \<mapsto> \<lparr>claim_tool = rfx_tool fx, claim_commutative = rfx_commutative fx\<rparr>))
          m rs r =
        (case m r of Some c \<Rightarrow> Some c | None \<Rightarrow> if r \<in> set rs then Some (claim_of fx) else None)"
    for rs m
    by (induction rs arbitrary: m) (auto simp: claim_of_def split: option.splits)
  then show ?thesis by (simp add: claim_writes_def)
qed

text \<open>What the aggregate knows about the members it has absorbed.\<close>

definition tracks :: "layer_state \<Rightarrow> resolved_effects list \<Rightarrow> bool" where
  "tracks st ms \<longleftrightarrow>
     ls_members st = length ms \<and>
     (ls_undeclared st \<longleftrightarrow> (\<exists>m \<in> set ms. \<not> rfx_declared m)) \<and>
     ((\<forall>m \<in> set ms. rfx_declared m) \<longrightarrow>
        ls_reads st = (\<Union>m \<in> set ms. set (rfx_reads m)) \<and>
        (\<forall>r. ls_writes st r = None \<longleftrightarrow> (\<forall>m \<in> set ms. r \<notin> set (rfx_writes m))) \<and>
        (\<forall>r c. ls_writes st r = Some c \<longrightarrow>
           (\<exists>m \<in> set ms. r \<in> set (rfx_writes m) \<and> c = claim_of m)))"

lemma tracks_default: "tracks layer_state_default []"
  by (simp add: tracks_def layer_state_default_def)

lemma tracks_absorb:
  assumes "tracks st ms" "coherent m"
  shows "tracks (absorb st m) (ms @ [m])"
proof (cases "(\<forall>x \<in> set ms. rfx_declared x) \<and> rfx_declared m")
  case True
  with assms have r: "ls_reads st = (\<Union>m \<in> set ms. set (rfx_reads m))"
    and w: "\<And>r. ls_writes st r = None \<longleftrightarrow> (\<forall>m \<in> set ms. r \<notin> set (rfx_writes m))"
    and c: "\<And>r c. ls_writes st r = Some c \<Longrightarrow>
           (\<exists>m \<in> set ms. r \<in> set (rfx_writes m) \<and> c = claim_of m)"
    and n: "ls_members st = length ms" "\<not> ls_undeclared st"
    unfolding tracks_def by auto
  have W: "ls_writes (absorb st m) = claim_writes m (ls_writes st)"
    using True assms(2) by (auto simp: absorb_def Let_def coherent_def claim_writes_def)
  have R: "ls_reads (absorb st m) = ls_reads st \<union> set (rfx_reads m)"
    "ls_members (absorb st m) = Suc (length ms)" "\<not> ls_undeclared (absorb st m)"
    using True n by (auto simp: absorb_def Let_def)
  have "ls_writes (absorb st m) q = None \<longleftrightarrow> (\<forall>x \<in> set (ms @ [m]). q \<notin> set (rfx_writes x))" for q
    unfolding W claim_writes_lookup using w [of q] by (auto split: option.split)
  moreover have "\<exists>x \<in> set (ms @ [m]). q \<in> set (rfx_writes x) \<and> k = claim_of x"
    if "ls_writes (absorb st m) q = Some k" for q k
    using that c [of q] unfolding W claim_writes_lookup by (auto split: option.splits if_splits)
  ultimately show ?thesis using True r R unfolding tracks_def by auto
next
  case False
  with assms show ?thesis by (auto simp: tracks_def absorb_def Let_def)
qed

lemma can_run_with_shared_write:
  assumes "can_run_with a b" "coherent a" "q \<in> set (rfx_writes a)" "q \<in> set (rfx_writes b)"
  shows "rfx_tool a = rfx_tool b \<and> rfx_commutative a \<and> rfx_commutative b"
  using assms by (auto simp: can_run_with_def coherent_def bs_disjoint_iff split: if_splits)

lemma pairwise_mem:
  "sorted_wrt can_run_with ms \<Longrightarrow> a \<in> set ms \<Longrightarrow> b \<in> set ms \<Longrightarrow> a \<noteq> b \<Longrightarrow> can_run_with a b"
  by (induction ms) (auto simp: can_run_with_sym)

lemma admits_declared:
  assumes tr: "tracks st ms" and ne: "ms \<noteq> []" and pw: "sorted_wrt can_run_with ms"
    and co: "\<forall>m \<in> set ms. coherent m" "coherent c"
    and decl: "\<forall>m \<in> set ms. rfx_declared m" "rfx_declared c"
  shows "admits st c \<longleftrightarrow> (\<forall>m \<in> set ms. can_run_with m c)"
proof -
  from tr decl have r: "ls_reads st = (\<Union>m \<in> set ms. set (rfx_reads m))"
    and w: "\<And>r. ls_writes st r = None \<longleftrightarrow> (\<forall>m \<in> set ms. r \<notin> set (rfx_writes m))"
    and k: "\<And>r x. ls_writes st r = Some x \<Longrightarrow>
           (\<exists>m \<in> set ms. r \<in> set (rfx_writes m) \<and> x = claim_of m)"
    and n: "ls_members st \<noteq> 0" "\<not> ls_undeclared st"
    using ne unfolding tracks_def by auto
  let ?race = "\<exists>q \<in> set (rfx_reads c). ls_writes st q \<noteq> None"
  have race_iff: "?race \<longleftrightarrow> (\<exists>m \<in> set ms. set (rfx_writes m) \<inter> set (rfx_reads c) \<noteq> {})"
    using w by auto
  show ?thesis
  proof (cases ?race)
    case True
    then obtain m where m: "m \<in> set ms" "set (rfx_writes m) \<inter> set (rfx_reads c) \<noteq> {}"
      using race_iff by auto
    then have "\<not> can_run_with m c"
      using co by (auto simp: can_run_with_def coherent_def bs_disjoint_iff)
    with m(1) True show ?thesis using n decl by (auto simp: admits_def)
  next
    case nr: False
    then have nr': "set (rfx_writes m) \<inter> set (rfx_reads c) = {}" if "m \<in> set ms" for m
      using race_iff that by auto
    show ?thesis
    proof (cases "rfx_pure c")
      case True
      then have "can_run_with m c" if "m \<in> set ms" for m
        using that nr' [OF that] decl co(2)
        by (auto simp: can_run_with_def coherent_def bs_disjoint_iff)
      with True nr n decl show ?thesis by (auto simp: admits_def)
    next
      case False
      let ?ok = "\<lambda>q. q \<notin> ls_reads st \<and> (case ls_writes st q of None \<Rightarrow> True
               | Some claim \<Rightarrow> claim_commutative claim \<and> rfx_commutative c
                   \<and> claim_tool claim = rfx_tool c)"
      have adm: "admits st c \<longleftrightarrow> (\<forall>q \<in> set (rfx_writes c). ?ok q)"
        using False nr n decl by (simp add: admits_def)
      have "can_run_with m c" if ok: "\<forall>q \<in> set (rfx_writes c). ?ok q" and m: "m \<in> set ms" for m
      proof -
        have rd: "set (rfx_writes c) \<inter> set (rfx_reads m) = {}"
          using ok r m by auto
        have "rfx_tool m = rfx_tool c \<and> rfx_commutative m \<and> rfx_commutative c"
          if q: "q \<in> set (rfx_writes m)" "q \<in> set (rfx_writes c)" for q
        proof -
          from q m w obtain cl where "ls_writes st q = Some cl" by blast
          with ok q(2) k [of q cl] obtain m' where m': "m' \<in> set ms" "q \<in> set (rfx_writes m')"
              "cl = claim_of m'" "claim_commutative cl" "rfx_commutative c" "claim_tool cl = rfx_tool c"
            by auto
          then show ?thesis
          proof (cases "m' = m")
            case False
            with pairwise_mem [OF pw m'(1) m] have "can_run_with m' m" by simp
            from can_run_with_shared_write [OF this _ m'(2) q(1)] co m' show ?thesis
              by (simp add: claim_of_def)
          qed (use m' in \<open>simp add: claim_of_def\<close>)
        qed
        then show ?thesis
          using rd nr' [OF m] decl m False by (auto simp: can_run_with_def bs_disjoint_iff)
      qed
      moreover have "?ok q" if all: "\<forall>m \<in> set ms. can_run_with m c" and q: "q \<in> set (rfx_writes c)" for q
      proof -
        have "q \<notin> set (rfx_reads m)" if "m \<in> set ms" for m
          using all that q False by (auto simp: can_run_with_def bs_disjoint_iff split: if_splits)
        moreover have "claim_commutative cl \<and> rfx_commutative c \<and> claim_tool cl = rfx_tool c"
          if "ls_writes st q = Some cl" for cl
        proof -
          from k [OF that] obtain m where m: "m \<in> set ms" "q \<in> set (rfx_writes m)" "cl = claim_of m"
            by blast
          from can_run_with_shared_write [of m c q] all m q co show ?thesis
            by (simp add: claim_of_def)
        qed
        ultimately show ?thesis using r by (auto split: option.split)
      qed
      ultimately show ?thesis unfolding adm by blast
    qed
  qed
qed

lemma admits_iff_pairwise:
  assumes "tracks st ms" "sorted_wrt can_run_with ms" "\<forall>m \<in> set ms. coherent m" "coherent c"
  shows "admits st c \<longleftrightarrow> (\<forall>m \<in> set ms. can_run_with m c)"
proof (cases "ms = [] \<or> \<not> ((\<forall>m \<in> set ms. rfx_declared m) \<and> rfx_declared c)")
  case True
  with assms(1) show ?thesis
    by (cases ms) (auto simp: tracks_def admits_def can_run_with_def)
next
  case False
  with admits_declared [OF assms(1) _ assms(2-4)] show ?thesis by blast
qed

lemma foldl_absorb_tracks:
  "\<forall>m \<in> set ms. coherent m \<Longrightarrow> tracks (foldl absorb layer_state_default ms) ms"
proof (induction ms rule: rev_induct)
  case (snoc m ms)
  then show ?case using tracks_absorb [of "foldl absorb layer_state_default ms" ms m] by simp
qed (simp add: tracks_default)

text \<open>
  C3. The amortised admission test of \<^verbatim>\<open>LayerState\<close> decides exactly the pairwise rule: a
  candidate joins a layer built from pairwise compatible members if and only if
  \<open>can_run_with\<close> allows it beside every one of them.
\<close>

theorem admits_pairwise:
  assumes "sorted_wrt can_run_with ms" and "\<forall>m \<in> set (c # ms). coherent m"
  shows "admits (foldl absorb layer_state_default ms) c \<longleftrightarrow> (\<forall>m \<in> set ms. can_run_with m c)"
  using assms admits_iff_pairwise [OF foldl_absorb_tracks] by simp

section \<open>Kahn's algorithm\<close>

text \<open>A dependency map with ordered entries, whose dependencies are its own nodes.\<close>

definition closed_deps :: "dependency_map \<Rightarrow> bool" where
  "closed_deps dm \<longleftrightarrow> bt_ok dm \<and> (\<forall>(n, ds) \<in> set dm. bs_ok ds \<and> set ds \<subseteq> fst ` set dm)"

definition deps_of :: "dependency_map \<Rightarrow> node_id \<Rightarrow> node_id set" where
  "deps_of dm n = set (get_list dm n)"

definition dep_rel :: "dependency_map \<Rightarrow> (node_id \<times> node_id) set" where
  "dep_rel dm = {(d, n). d \<in> deps_of dm n}"

abbreviation fx_of :: "effects_map \<Rightarrow> node_id \<Rightarrow> resolved_effects" where
  "fx_of effects n \<equiv> the (map_of effects n)"

definition effects_ok :: "effects_map \<Rightarrow> node_id set \<Rightarrow> bool" where
  "effects_ok effects ns \<longleftrightarrow> ns \<subseteq> fst ` set effects \<and> (\<forall>n \<in> ns. coherent (fx_of effects n))"

lemma get_list_entry: "bt_ok dm \<Longrightarrow> (n, ds) \<in> set dm \<Longrightarrow> get_list dm n = ds"
  by (simp add: get_list_def bt_ok_distinct map_of_is_SomeI)

lemma get_list_nonempty_key: "get_list dm n \<noteq> [] \<Longrightarrow> n \<in> fst ` set dm"
  by (force simp: get_list_def split: option.splits dest: map_of_SomeD)

lemma deps_of_subset: "closed_deps dm \<Longrightarrow> deps_of dm n \<subseteq> fst ` set dm"
proof (cases "map_of dm n")
  case (Some ds)
  moreover assume "closed_deps dm"
  ultimately show ?thesis
    using map_of_SomeD [OF Some] by (auto simp: deps_of_def get_list_def closed_deps_def)
qed (simp add: deps_of_def get_list_def)

text \<open>The reverse edges: the children of \<open>d\<close> are the nodes that list \<open>d\<close>, in key order.\<close>

lemma push_all_lookup:
  "distinct ds \<Longrightarrow> get_list (foldl (\<lambda>m dep. bt_push dep n m) m ds) d =
     get_list m d @ (if d \<in> set ds then [n] else [])"
  by (induction ds arbitrary: m) auto

lemma dependents_lookup:
  assumes "\<forall>(n, ds) \<in> set dm. distinct ds"
  shows "get_list (dependents_of dm) d = map fst (filter (\<lambda>(n, ds). d \<in> set ds) dm)"
proof -
  have "get_list (foldl (\<lambda>m (n, deps). foldl (\<lambda>m dep. bt_push dep n m) m deps) m dm) d =
        get_list m d @ map fst (filter (\<lambda>(n, ds). d \<in> set ds) dm)" for m
    using assms
  proof (induction dm arbitrary: m)
    case (Cons e dm)
    then show ?case by (cases e) (auto simp: push_all_lookup)
  qed simp
  then show ?thesis by (simp add: dependents_of_def)
qed

definition children :: "dependency_map \<Rightarrow> node_id \<Rightarrow> node_id list" where
  "children dm d = map fst (filter (\<lambda>(n, ds). d \<in> set ds) dm)"

lemma dependents_children: "closed_deps dm \<Longrightarrow> get_list (dependents_of dm) = children dm"
  by (rule ext, unfold children_def, rule dependents_lookup)
    (auto simp: closed_deps_def dest!: bs_ok_distinct)

lemma count_list_distinct: "distinct xs \<Longrightarrow> count_list xs x = (if x \<in> set xs then 1 else 0)"
  by (induction xs) auto

lemma count_children:
  assumes "closed_deps dm"
  shows "count_list (children dm d) c = (if d \<in> deps_of dm c then 1 else 0)"
proof -
  have ok: "bt_ok dm" using assms by (simp add: closed_deps_def)
  have "distinct (children dm d)"
    using bt_ok_distinct [OF ok] unfolding children_def
    by (metis distinct_map_filter)
  moreover have "c \<in> set (children dm d) \<longleftrightarrow> d \<in> deps_of dm c"
    using get_list_entry [OF ok] get_list_nonempty_key [of dm c]
    by (force simp: children_def deps_of_def)
  ultimately show ?thesis by (simp add: count_list_distinct)
qed

lemma release_layer_concat:
  "release_layer dependents layer s = release_children (concat (map (get_list dependents) layer)) s"
proof -
  have app: "release_children (xs @ ys) s =
        (case release_children xs s of None \<Rightarrow> None | Some s' \<Rightarrow> release_children ys s')" for xs ys s
    by (induction xs s rule: release_children.induct) (auto split: option.split nat.split)
  show ?thesis
    by (induction layer arbitrary: s) (auto simp: app split: option.split)
qed

text \<open>Decrementing every listed child once, when each counter is large enough.\<close>

lemma release_children_ok:
  assumes "\<And>c. c \<in> set cs \<Longrightarrow> c \<in> fst ` set pending \<and> count_list cs c \<le> the (map_of pending c)"
    and "bs_ok ready"
  shows "\<exists>pending' ready'. release_children cs (pending, ready) = Some (pending', ready') \<and>
     map fst pending' = map fst pending \<and> bs_ok ready' \<and>
     (\<forall>c \<in> fst ` set pending. the (map_of pending' c) = the (map_of pending c) - count_list cs c) \<and>
     set ready' = set ready \<union> {c \<in> set cs. the (map_of pending c) = count_list cs c}"
  using assms
proof (induction cs arbitrary: pending ready)
  case (Cons x cs)
  have "x \<in> fst ` set pending" using Cons.prems(1) [of x] by simp
  then obtain v where v: "map_of pending x = Some v"
    by (metis map_of_eq_None_iff not_Some_eq)
  with Cons.prems(1) [of x] obtain k where k: "map_of pending x = Some (Suc k)"
    by (cases v) auto
  let ?p = "bt_set x k pending" and ?r = "if k = 0 then bs_insert x ready else ready"
  have xk: "x \<in> fst ` set pending" using Cons.prems(1) [of x] by simp
  have pre: "c \<in> fst ` set ?p \<and> count_list cs c \<le> the (map_of ?p c)" if "c \<in> set cs" for c
    using Cons.prems(1) [of c] that k by (auto split: if_splits)
  have okr: "bs_ok ?r" using Cons.prems(2) by simp
  from Cons.IH [OF pre okr] obtain p' r' where IH: "release_children cs (?p, ?r) = Some (p', r')"
      "map fst p' = map fst ?p" "bs_ok r'"
      "\<forall>c \<in> fst ` set ?p. the (map_of p' c) = the (map_of ?p c) - count_list cs c"
      "set r' = set ?r \<union> {c \<in> set cs. the (map_of ?p c) = count_list cs c}"
    by blast
  have bound: "count_list cs x \<le> k" using Cons.prems(1) [of x] k by simp
  have look: "the (map_of ?p c) = (if c = x then k else the (map_of pending c))" for c
    using xk by simp
  have "\<forall>c \<in> fst ` set pending. the (map_of p' c) = the (map_of pending c) - count_list (x # cs) c"
  proof
    fix c assume "c \<in> fst ` set pending"
    then have "c \<in> fst ` set ?p" by (simp only: fst_set_bt_set)
    from bspec [OF IH(4) this] have "the (map_of p' c) = the (map_of ?p c) - count_list cs c" .
    then show "the (map_of p' c) = the (map_of pending c) - count_list (x # cs) c"
      unfolding look using k by (cases "c = x") auto
  qed
  moreover have "set r' = set ready \<union> {c \<in> set (x # cs). the (map_of pending c) = count_list (x # cs) c}"
  proof (rule set_eqI)
    fix c
    have r': "c \<in> set r' \<longleftrightarrow> c \<in> set ready \<or> (k = 0 \<and> c = x) \<or>
        (c \<in> set cs \<and> (if c = x then k else the (map_of pending c)) = count_list cs c)"
      unfolding IH(5) look by simp
    have "count_list cs x \<noteq> 0 \<longleftrightarrow> x \<in> set cs" by (simp add: count_list_0_iff)
    then show "c \<in> set r' \<longleftrightarrow> c \<in> set ready \<union>
        {c \<in> set (x # cs). the (map_of pending c) = count_list (x # cs) c}"
      unfolding r' using k bound by (cases "c = x") auto
  qed
  moreover have "release_children (x # cs) (pending, ready) = Some (p', r')"
    using IH(1) k by simp
  moreover have "map fst p' = map fst pending" using IH(2) by simp
  ultimately show ?case using IH(3) by blast
qed auto

text \<open>Every layer is pairwise compatible and only needs nodes of earlier layers.\<close>

definition layers_sound :: "dependency_map \<Rightarrow> effects_map \<Rightarrow> node_id list list \<Rightarrow> bool" where
  "layers_sound dm effects layers \<longleftrightarrow>
     distinct (concat layers) \<and> [] \<notin> set layers \<and>
     (\<forall>i < length layers.
        (\<forall>n \<in> set (layers ! i). deps_of dm n \<subseteq> set (concat (take i layers))) \<and>
        sorted_wrt can_run_with (map (fx_of effects) (layers ! i)))"

lemma layers_sound_snoc:
  assumes "layers_sound dm effects layers" "layer \<noteq> []" "distinct layer"
    and "set layer \<inter> set (concat layers) = {}"
    and "\<forall>n \<in> set layer. deps_of dm n \<subseteq> set (concat layers)"
    and "sorted_wrt can_run_with (map (fx_of effects) layer)"
  shows "layers_sound dm effects (layers @ [layer])"
  using assms by (auto simp: layers_sound_def nth_append less_Suc_eq)

lemma build_layer_spec:
  assumes "tracks st (map (fx_of effects) acc)" "sorted_wrt can_run_with (map (fx_of effects) acc)"
    and "effects_ok effects (set (acc @ cs))" "distinct cs"
  shows "\<exists>layer. build_layer effects st cs = Some layer \<and> distinct layer \<and> set layer \<subseteq> set cs \<and>
     sorted_wrt can_run_with (map (fx_of effects) (acc @ layer))"
  using assms
proof (induction cs arbitrary: st acc)
  case (Cons c cs)
  have "c \<in> fst ` set effects" using Cons.prems(3) by (auto simp: effects_ok_def)
  then obtain fx where fx: "map_of effects c = Some fx"
    by (metis map_of_eq_None_iff not_Some_eq)
  have co: "coherent fx" "\<forall>m \<in> set (map (fx_of effects) acc). coherent m"
    using Cons.prems(3) fx by (auto simp: effects_ok_def)
  show ?case
  proof (cases "admits st fx")
    case True
    with admits_iff_pairwise [OF Cons.prems(1,2) co(2,1)]
    have cr: "\<forall>m \<in> set (map (fx_of effects) acc). can_run_with m fx" by simp
    have "\<exists>layer. build_layer effects (absorb st fx) cs = Some layer \<and> distinct layer \<and>
        set layer \<subseteq> set cs \<and> sorted_wrt can_run_with (map (fx_of effects) ((acc @ [c]) @ layer))"
    proof (rule Cons.IH)
      show "tracks (absorb st fx) (map (fx_of effects) (acc @ [c]))"
        using tracks_absorb [OF Cons.prems(1) co(1)] fx by simp
      show "sorted_wrt can_run_with (map (fx_of effects) (acc @ [c]))"
        using Cons.prems(2) cr fx by (auto simp: sorted_wrt_append)
    qed (use Cons.prems in auto)
    with True fx Cons.prems(4) show ?thesis by auto
  next
    case False
    have "\<exists>layer. build_layer effects st cs = Some layer \<and> distinct layer \<and>
        set layer \<subseteq> set cs \<and> sorted_wrt can_run_with (map (fx_of effects) (acc @ layer))"
      by (rule Cons.IH) (use Cons.prems in \<open>auto simp: effects_ok_def\<close>)
    with False fx show ?thesis by auto
  qed
qed simp

text \<open>The loop invariant.\<close>

definition kahn_inv ::
  "dependency_map \<Rightarrow> effects_map \<Rightarrow> (node_id, nat) btree \<Rightarrow> node_id bset \<Rightarrow> node_id list list \<Rightarrow> bool" where
  "kahn_inv dm effects pending ready layers \<longleftrightarrow>
     (let K = fst ` set dm; E = set (concat layers) in
      map fst pending = map fst dm \<and> bs_ok ready \<and> set ready \<subseteq> K - E \<and> E \<subseteq> K \<and>
      (\<forall>n \<in> K. the (map_of pending n) = card (deps_of dm n - E)) \<and>
      (\<forall>n \<in> K - E. n \<in> set ready \<longleftrightarrow> deps_of dm n \<subseteq> E) \<and>
      layers_sound dm effects layers)"

lemma count_release:
  assumes "closed_deps dm" "distinct layer"
  shows "count_list (concat (map (children dm) layer)) c = card (deps_of dm c \<inter> set layer)"
  using assms(2)
proof (induction layer)
  case (Cons n layer)
  have "deps_of dm c \<inter> set (n # layer) =
      (if n \<in> deps_of dm c then insert n (deps_of dm c \<inter> set layer) else deps_of dm c \<inter> set layer)"
    by auto
  with Cons show ?case by (simp add: count_list_append count_children [OF assms(1)])
qed simp

lemma card_diff_layer:
  assumes "finite D" "E \<inter> L = {}"
  shows "card (D - E) - card (D \<inter> L) = card (D - (E \<union> L))" "card (D \<inter> L) \<le> card (D - E)"
proof -
  have e: "D - E = (D - (E \<union> L)) \<union> (D \<inter> L)" "(D - (E \<union> L)) \<inter> (D \<inter> L) = {}" using assms(2) by auto
  have "card (D - E) = card (D - (E \<union> L)) + card (D \<inter> L)"
    unfolding e(1) by (rule card_Un_disjoint) (use assms(1) e(2) in auto)
  then show "card (D - E) - card (D \<inter> L) = card (D - (E \<union> L))" "card (D \<inter> L) \<le> card (D - E)"
    by simp_all
qed

lemma card_diff_layer_eq:
  assumes "finite D" "E \<inter> L = {}"
  shows "card (D - E) = card (D \<inter> L) \<longleftrightarrow> D \<subseteq> E \<union> L"
proof -
  have "card (D - E) = card (D \<inter> L) \<longleftrightarrow> card (D - (E \<union> L)) = 0"
    using card_diff_layer [OF assms] by linarith
  also have "\<dots> \<longleftrightarrow> D - (E \<union> L) = {}" using assms(1) by simp
  finally show ?thesis by blast
qed

lemma finite_deps_of [simp]: "finite (deps_of dm n)"
  by (simp add: deps_of_def)

lemma kahn_step:
  assumes cl: "closed_deps dm" and fx: "effects_ok effects (fst ` set dm)"
    and inv: "kahn_inv dm effects pending ready layers" and ne: "ready \<noteq> []"
  shows "\<exists>layer pending' ready'. build_layer effects layer_state_default ready = Some layer \<and>
     release_layer (dependents_of dm) layer (pending, filter (\<lambda>n. n \<notin> set layer) ready)
       = Some (pending', ready') \<and>
     kahn_inv dm effects pending' ready' (layers @ [layer])"
proof -
  define K where "K = fst ` set dm"
  define E where "E = set (concat layers)"
  from inv have keys: "map fst pending = map fst dm" and rd: "bs_ok ready" "set ready \<subseteq> K - E"
    and EK: "E \<subseteq> K" and cnt: "\<And>n. n \<in> K \<Longrightarrow> the (map_of pending n) = card (deps_of dm n - E)"
    and rdy: "\<And>n. n \<in> K - E \<Longrightarrow> n \<in> set ready \<longleftrightarrow> deps_of dm n \<subseteq> E"
    and snd: "layers_sound dm effects layers"
    by (auto simp: kahn_inv_def Let_def K_def E_def)
  have "effects_ok effects (set ([] @ ready))" using fx rd(2) by (auto simp: effects_ok_def K_def)
  with build_layer_spec [of layer_state_default effects "[]" ready] bs_ok_distinct [OF rd(1)]
  obtain layer where L: "build_layer effects layer_state_default ready = Some layer" "distinct layer"
      "set layer \<subseteq> set ready" "sorted_wrt can_run_with (map (fx_of effects) layer)"
    by (auto simp: tracks_default)
  have Lne: "layer \<noteq> []" using ne L(1) build_layer_first by (cases ready) fastforce+
  have LE: "E \<inter> set layer = {}" using L(3) rd(2) by auto
  let ?cs = "concat (map (children dm) layer)" and ?rd = "filter (\<lambda>n. n \<notin> set layer) ready"
  have cnt_cs: "count_list ?cs c = card (deps_of dm c \<inter> set layer)" for c
    by (rule count_release [OF cl L(2)])
  have pk: "fst ` set pending = K" using keys by (metis K_def list.set_map)
  have csK: "c \<in> K" if "c \<in> set ?cs" for c
    using that by (auto simp: children_def K_def)
  have pre: "c \<in> fst ` set pending \<and> count_list ?cs c \<le> the (map_of pending c)" if "c \<in> set ?cs" for c
    using csK [OF that] card_diff_layer(2) [OF finite_deps_of LE, of dm c]
    by (simp add: pk cnt cnt_cs)
  have okr: "bs_ok ?rd" using rd(1) by (simp add: bs_ok_def sorted_wrt_filter)
  from release_children_ok [OF pre okr] obtain p' r' where R: "release_children ?cs (pending, ?rd) = Some (p', r')"
      "map fst p' = map fst pending" "bs_ok r'"
      "\<forall>c \<in> fst ` set pending. the (map_of p' c) = the (map_of pending c) - count_list ?cs c"
      "set r' = set ?rd \<union> {c \<in> set ?cs. the (map_of pending c) = count_list ?cs c}"
    by blast
  have cnt': "the (map_of p' n) = card (deps_of dm n - (E \<union> set layer))" if "n \<in> K" for n
    using that R(4) card_diff_layer(1) [OF finite_deps_of LE, of dm n] by (simp add: pk cnt cnt_cs)
  have in_cs: "c \<in> set ?cs \<longleftrightarrow> deps_of dm c \<inter> set layer \<noteq> {}" for c
    using cnt_cs [of c] by (metis card_eq_0_iff count_list_0_iff finite_Int finite_deps_of)
  have r'_iff: "n \<in> set r' \<longleftrightarrow> n \<notin> set layer \<and> n \<notin> E \<and> deps_of dm n \<subseteq> E \<union> set layer" if n: "n \<in> K" for n
  proof -
    have c0: "the (map_of pending n) = count_list ?cs n \<longleftrightarrow> deps_of dm n \<subseteq> E \<union> set layer"
      using card_diff_layer_eq [OF finite_deps_of LE, of dm n] n by (simp add: cnt cnt_cs)
    have done_E: "deps_of dm n \<subseteq> E" if "n \<in> E"
    proof -
      from that obtain l where "l \<in> set layers" "n \<in> set l" by (auto simp: E_def)
      then obtain i where "i < length layers" "n \<in> set (layers ! i)" by (auto simp: in_set_conv_nth)
      then have "deps_of dm n \<subseteq> set (concat (take i layers))"
        using snd unfolding layers_sound_def by blast
      moreover have "set (concat (take i layers)) \<subseteq> E"
        by (auto simp: E_def dest: in_set_takeD)
      ultimately show ?thesis by (rule subset_trans)
    qed
    have lay_E: "deps_of dm n \<subseteq> E" if "n \<in> set layer"
      using that L(3) rd(2) rdy [of n] by auto
    have mem: "n \<in> set r' \<longleftrightarrow> (n \<in> set ready \<and> n \<notin> set layer) \<or>
        (deps_of dm n \<inter> set layer \<noteq> {} \<and> deps_of dm n \<subseteq> E \<union> set layer)"
      unfolding R(5) using in_cs [of n] c0 by simp
    consider "n \<in> E" | "n \<in> set layer" | "n \<notin> E" "n \<notin> set layer" by blast
    then show ?thesis
    proof cases
      case 1
      with done_E LE rd(2) show ?thesis unfolding mem by blast
    next
      case 2
      with lay_E LE show ?thesis unfolding mem by blast
    next
      case 3
      with n have "n \<in> set ready \<longleftrightarrow> deps_of dm n \<subseteq> E" by (intro rdy) simp
      with 3 show ?thesis unfolding mem by blast
    qed
  qed
  have "kahn_inv dm effects p' r' (layers @ [layer])"
  proof -
    have "set r' \<subseteq> K" using R(5) rd(2) csK by auto
    moreover have "layers_sound dm effects (layers @ [layer])"
    proof (rule layers_sound_snoc [OF snd Lne L(2)])
      show "set layer \<inter> set (concat layers) = {}" using LE unfolding E_def by blast
      show "\<forall>n \<in> set layer. deps_of dm n \<subseteq> set (concat layers)"
        using L(3) rd(2) rdy unfolding E_def by blast
      show "sorted_wrt can_run_with (map (fx_of effects) layer)" by (rule L(4))
    qed
    moreover have "set (concat (layers @ [layer])) = E \<union> set layer" by (simp add: E_def)
    ultimately show ?thesis
      unfolding kahn_inv_def Let_def K_def [symmetric]
      using keys R(2,3) r'_iff cnt' EK L(3) rd(2) by auto
  qed
  with L(1) R(1) show ?thesis
    by (auto simp: release_layer_concat dependents_children [OF cl])
qed

lemma kahn_init:
  assumes cl: "closed_deps dm"
  shows "kahn_inv dm effects (map (\<lambda>(n, deps). (n, length deps)) dm)
           (map fst (filter (\<lambda>(n, count). count = 0) (map (\<lambda>(n, deps). (n, length deps)) dm))) []"
proof -
  have ok: "bt_ok dm" and ds: "\<And>n ds. (n, ds) \<in> set dm \<Longrightarrow> bs_ok ds"
    using cl by (auto simp: closed_deps_def)
  let ?p = "map (\<lambda>(n, deps). (n, length deps)) dm"
  let ?r = "map fst (filter (\<lambda>(n, count). count = 0) ?p)"
  have keys: "map fst ?p = map fst dm" by (auto simp: comp_def case_prod_beta)
  have r: "?r = map fst (filter (\<lambda>(n, ds). ds = []) dm)"
    by (induction dm) auto
  have look: "map_of ?p n = map_option length (map_of dm n)" for n
    by (induction dm) auto
  have cnt: "the (map_of ?p n) = card (deps_of dm n)" "n \<in> set ?r \<longleftrightarrow> deps_of dm n = {}"
    if n: "n \<in> fst ` set dm" for n
  proof -
    from n obtain x where x: "(n, x) \<in> set dm" by auto
    then have g: "map_of dm n = Some x" using ok by (simp add: bt_ok_distinct map_of_is_SomeI)
    with ds [OF x] show "the (map_of ?p n) = card (deps_of dm n)"
      by (simp add: look deps_of_def get_list_def distinct_card bs_ok_distinct)
    have "n \<in> set ?r \<longleftrightarrow> (n, []) \<in> set dm" unfolding r by force
    also have "\<dots> \<longleftrightarrow> x = []" using x get_list_entry [OF ok] by metis
    finally show "n \<in> set ?r \<longleftrightarrow> deps_of dm n = {}" using g by (simp add: deps_of_def get_list_def)
  qed
  have "bs_ok ?r"
    unfolding r bs_ok_def using ok by (simp add: bt_ok_def sorted_wrt_map sorted_wrt_filter)
  moreover have "set ?r \<subseteq> fst ` set dm" unfolding r by auto
  ultimately show ?thesis
    using cnt keys by (simp add: kahn_inv_def layers_sound_def)
qed

lemma layer_loop_total:
  assumes "closed_deps dm" "effects_ok effects (fst ` set dm)" "kahn_inv dm effects pending ready layers"
    and "dependents = dependents_of dm" "emitted = length (concat layers)"
  shows "\<exists>layers' pending'.
     layer_loop dependents effects pending ready layers emitted
       = Some (layers', pending', length (concat layers')) \<and>
     kahn_inv dm effects pending' [] layers'"
  using assms
proof (induction dependents effects pending ready layers emitted rule: layer_loop.induct)
  case (1 dependents effects pending ready layers emitted)
  show ?case
  proof (cases "ready = []")
    case True
    with "1.prems" show ?thesis by (auto simp: layer_loop.simps)
  next
    case False
    from kahn_step [OF "1.prems"(1-3) False] obtain layer p' r' where st:
        "build_layer effects layer_state_default ready = Some layer"
        "release_layer dependents layer (pending, filter (\<lambda>n. n \<notin> set layer) ready) = Some (p', r')"
        "kahn_inv dm effects p' r' (layers @ [layer])"
      using "1.prems"(4) by blast
    have "layer_loop dependents effects pending ready layers emitted =
        layer_loop dependents effects p' r' (layers @ [layer]) (emitted + length layer)"
      using False st by (subst layer_loop.simps) simp
    with "1.IH" [OF False st(1,2) refl "1.prems"(1,2) st(3) "1.prems"(4)] "1.prems"(5)
    show ?thesis by simp
  qed
qed

lemma layers_rank:
  assumes snd: "layers_sound dm effects layers" and all: "set (concat layers) = fst ` set dm"
  shows "acyclic (dep_rel dm)"
proof -
  define rank where "rank n = (LEAST i. i < length layers \<and> n \<in> set (layers ! i))" for n
  have "dep_rel dm \<subseteq> measure rank"
  proof (clarsimp simp: dep_rel_def)
    fix d n assume d: "d \<in> deps_of dm n"
    then have "get_list dm n \<noteq> []" by (auto simp: deps_of_def)
    then have "n \<in> set (concat layers)" unfolding all by (rule get_list_nonempty_key)
    then obtain l where "l \<in> set layers" "n \<in> set l" by auto
    then obtain i where i: "i < length layers" "n \<in> set (layers ! i)"
      by (auto simp: in_set_conv_nth)
    then have rn: "rank n < length layers \<and> n \<in> set (layers ! rank n)"
      unfolding rank_def by (intro LeastI [of "\<lambda>i. i < length layers \<and> n \<in> set (layers ! i)" i]) simp
    then have "deps_of dm n \<subseteq> set (concat (take (rank n) layers))"
      using snd unfolding layers_sound_def by blast
    with d obtain l where "l \<in> set (take (rank n) layers)" "d \<in> set l" by auto
    then obtain j where "j < length (take (rank n) layers)" "take (rank n) layers ! j = l"
      by (meson in_set_conv_nth)
    with \<open>d \<in> set l\<close> have j: "j < rank n" "d \<in> set (layers ! j)" "j < length layers" by auto
    have "rank d \<le> j" unfolding rank_def by (rule Least_le) (use j in simp)
    with j(1) show "rank d < rank n" by simp
  qed
  then show ?thesis using wf_acyclic wf_measure wf_subset by blast
qed

lemma stuck_cyclic:
  assumes "R \<noteq> {}" "finite R" "\<And>n. n \<in> R \<Longrightarrow> \<exists>d \<in> R. d \<in> deps_of dm n"
  shows "\<not> acyclic (dep_rel dm)"
proof
  assume ac: "acyclic (dep_rel dm)"
  let ?r = "dep_rel dm \<inter> R \<times> R"
  have "finite ?r" using assms(2) by (intro finite_Int) simp
  moreover have "acyclic ?r" using ac by (rule acyclic_subset) simp
  ultimately have "wf ?r" by (rule finite_acyclic_wf)
  obtain x where "x \<in> R" using assms(1) by blast
  from wfE_min [OF \<open>wf ?r\<close> this] obtain n where n: "n \<in> R" "\<And>d. (d, n) \<in> ?r \<Longrightarrow> d \<notin> R"
    by metis
  from assms(3) [OF n(1)] obtain d where d: "d \<in> R" "d \<in> deps_of dm n" by blast
  then have "(d, n) \<in> ?r" using n(1) by (simp add: dep_rel_def)
  with n(2) d(1) show False by blast
qed

lemma safe_layers_dichotomy:
  assumes cl: "closed_deps dm" and fx: "effects_ok effects (fst ` set dm)"
  shows "(acyclic (dep_rel dm) \<and> (\<exists>layers. safe_layers dm effects = Inr layers \<and>
            layers_sound dm effects layers \<and> set (concat layers) = fst ` set dm)) \<or>
         (\<not> acyclic (dep_rel dm) \<and> (\<exists>n. safe_layers dm effects = Inl (Cycle n)))"
proof -
  let ?p = "map (\<lambda>(n, deps). (n, length deps)) dm"
  obtain layers p where L: "layer_loop (dependents_of dm) effects ?p
       (map fst (filter (\<lambda>(n, count). count = 0) ?p)) [] 0 = Some (layers, p, length (concat layers))"
      "kahn_inv dm effects p [] layers"
    using layer_loop_total [OF cl fx kahn_init [OF cl] refl, of 0] by auto
  let ?K = "fst ` set dm" and ?E = "set (concat layers)"
  from L(2) have snd: "layers_sound dm effects layers" and EK: "?E \<subseteq> ?K"
    and left: "\<And>n. n \<in> ?K - ?E \<Longrightarrow> \<not> deps_of dm n \<subseteq> ?E"
    by (auto simp: kahn_inv_def Let_def)
  have lenE: "length (concat layers) = card ?E"
    using snd by (metis layers_sound_def distinct_card)
  have lenK: "length dm = card ?K"
    using cl by (metis closed_deps_def bt_ok_distinct distinct_card length_map list.set_map)
  show ?thesis
  proof (cases "?E = ?K")
    case True
    then have "safe_layers dm effects = Inr layers"
      unfolding safe_layers_def Let_def L(1) by (simp add: lenE lenK del: set_concat length_concat)
    with True snd layers_rank show ?thesis by blast
  next
    case False
    then have "card ?E \<noteq> card ?K" using EK by (metis List.finite_set card_subset_eq finite_imageI)
    then have "\<exists>n. safe_layers dm effects = Inl (Cycle n)"
      unfolding safe_layers_def Let_def L(1) by (simp add: lenE lenK del: set_concat length_concat)
    moreover have "\<not> acyclic (dep_rel dm)"
    proof (rule stuck_cyclic [of "?K - ?E"])
      show "\<exists>d \<in> ?K - ?E. d \<in> deps_of dm n" if "n \<in> ?K - ?E" for n
        using left [OF that] deps_of_subset [OF cl, of n] by blast
    qed (use False EK in auto)
    ultimately show ?thesis by blast
  qed
qed

section \<open>What validation accepts\<close>

definition declared_deps :: "node \<Rightarrow> node_id list" where
  "declared_deps n =
     node_depends_on n
     @ (case collect_refs (node_input n) of Inl e \<Rightarrow> [] | Inr refs \<Rightarrow> map ref_node refs)
     @ (case node_for_each n of None \<Rightarrow> [] | Some items \<Rightarrow> [ref_node items])
     @ (case node_when n of None \<Rightarrow> [] | Some w \<Rightarrow> [ref_node (when_target w)])"

definition node_ids :: "plan \<Rightarrow> node_id list" where
  "node_ids p = map node_id (plan_nodes p)"

definition nodes_wf :: "plan \<Rightarrow> bool" where
  "nodes_wf p \<longleftrightarrow>
     (\<forall>n \<in> set (plan_nodes p).
        node_id n \<noteq> [] \<and> CHR ''.'' \<notin> set (node_id n) \<and>
        bt_mem (node_tool n) (plan_tools p) \<and>
        (\<exists>refs. collect_refs (node_input n) = Inr refs) \<and>
        set (declared_deps n) \<subseteq> set (node_ids p) - {node_id n})"

definition plan_dep_rel :: "plan \<Rightarrow> (node_id \<times> node_id) set" where
  "plan_dep_rel p = {(d, node_id n) |d n. n \<in> set (plan_nodes p) \<and> d \<in> set (declared_deps n)}"

text \<open>
  The plans validation promises to accept: the supported version, distinct dot-free ids,
  declared tools, coherent effects, well-formed references to other existing nodes, outputs
  of existing nodes, and no cycle.
\<close>

definition valid_plan :: "plan \<Rightarrow> bool" where
  "valid_plan p \<longleftrightarrow>
     plan_version p = CURRENT_VERSION \<and> distinct (node_ids p) \<and> nodes_wf p \<and>
     (\<forall>(t, spec) \<in> set (plan_tools p). \<forall>e. spec_effects spec = Some e \<longrightarrow> \<not> is_contradictory e) \<and>
     (\<forall>(out, r) \<in> set (plan_outputs p). ref_node r \<in> set (node_ids p)) \<and>
     acyclic (plan_dep_rel p)"

definition node_index :: "node list \<Rightarrow> (node_id, node) btree" where
  "node_index ns = bt_of_list (map (\<lambda>n. (node_id n, n)) ns)"

lemma validate_node_id_ok: "validate_node_id i = Inr u \<longleftrightarrow> i \<noteq> [] \<and> CHR ''.'' \<notin> set i"
  by (auto simp: validate_node_id_def)

lemma index_nodes_from_iff:
  "index_nodes_from m ns = Inr m' \<longleftrightarrow>
     (\<forall>n \<in> set ns. node_id n \<noteq> [] \<and> CHR ''.'' \<notin> set (node_id n)) \<and> distinct (map node_id ns) \<and>
     set (map node_id ns) \<inter> fst ` set m = {} \<and>
     m' = foldl (\<lambda>m n. bt_insert (node_id n) n m) m ns"
  by (induction ns arbitrary: m)
    (auto simp: validate_node_id_ok bt_mem_iff simp del: image_iff)

lemma index_nodes_iff:
  "index_nodes ns = Inr m \<longleftrightarrow>
     (\<forall>n \<in> set ns. node_id n \<noteq> [] \<and> CHR ''.'' \<notin> set (node_id n)) \<and> distinct (map node_id ns) \<and>
     m = node_index ns"
  by (auto simp: index_nodes_def index_nodes_from_iff node_index_def bt_of_list_def foldl_map)

lemma node_index_ok [simp]: "bt_ok (node_index ns)"
  by (simp add: node_index_def)

lemma node_index_keys [simp]: "fst ` set (node_index ns) = node_id ` set ns"
  by (simp add: node_index_def image_image)

lemma node_index_lookup:
  assumes "distinct (map node_id ns)" "n \<in> set ns"
  shows "map_of (node_index ns) (node_id n) = Some n"
proof -
  have d: "distinct (map fst (map (\<lambda>n. (node_id n, n)) ns))" using assms(1) by (simp add: comp_def)
  then show ?thesis
    unfolding node_index_def bt_get_of_list_distinct [OF d]
    using assms(2) by (intro map_of_is_SomeI) auto
qed

lemma set_node_index:
  assumes "distinct (map node_id ns)"
  shows "set (node_index ns) = (\<lambda>n. (node_id n, n)) ` set ns"
proof -
  have "(i, n) \<in> set (node_index ns) \<longleftrightarrow> n \<in> set ns \<and> i = node_id n" for i n
  proof -
    have "(i, n) \<in> set (node_index ns) \<longleftrightarrow> map_of (node_index ns) i = Some n"
      using bt_ok_distinct [OF node_index_ok] by (metis map_of_SomeD map_of_is_SomeI)
    also have "\<dots> \<longleftrightarrow> n \<in> set ns \<and> i = node_id n"
    proof
      assume s: "map_of (node_index ns) i = Some n"
      from img_fst [OF map_of_SomeD [OF s]] have "i \<in> node_id ` set ns"
        by (simp only: node_index_keys)
      then obtain n' where "n' \<in> set ns" "i = node_id n'" by auto
      with node_index_lookup [OF assms] s show "n \<in> set ns \<and> i = node_id n" by auto
    qed (use node_index_lookup [OF assms] in auto)
    finally show ?thesis .
  qed
  then show ?thesis by auto
qed

lemma insert_dependency_iff:
  "insert_dependency i nodes d deps = Inr deps' \<longleftrightarrow>
     d \<noteq> i \<and> d \<in> fst ` set nodes \<and> deps' = bs_insert d deps"
  by (auto simp: insert_dependency_def bt_mem_iff)

lemma insert_dependencies_iff:
  "res_fold (\<lambda>x. insert_dependency i nodes (f x)) ds deps = Inr deps' \<longleftrightarrow>
     f ` set ds \<subseteq> fst ` set nodes - {i} \<and> deps' = foldl (\<lambda>s x. bs_insert x s) deps (map f ds)"
  by (induction ds arbitrary: deps) (auto simp: insert_dependency_iff simp del: image_iff)

lemma node_dependencies_iff:
  "node_dependencies nodes n = Inr deps \<longleftrightarrow>
     (\<exists>refs. collect_refs (node_input n) = Inr refs) \<and>
     set (declared_deps n) \<subseteq> fst ` set nodes - {node_id n} \<and> deps = bs_of_list (declared_deps n)"
proof (cases "collect_refs (node_input n)")
  case (Inl e)
  then show ?thesis by (simp add: node_dependencies_def Let_def)
next
  case (Inr refs)
  note fold_id = insert_dependencies_iff [where f = "\<lambda>x. x", simplified]
  show ?thesis
    unfolding node_dependencies_def Let_def Inr declared_deps_def bs_of_list_def
    by (cases "node_for_each n"; cases "node_when n")
      (auto simp: fold_id insert_dependencies_iff insert_dependency_iff simp del: image_iff)
qed

section \<open>What validation promises\<close>

definition plan_deps :: "plan \<Rightarrow> dependency_map" where
  "plan_deps p = map (\<lambda>(i, n). (i, bs_of_list (declared_deps n))) (node_index (plan_nodes p))"

definition plan_effects :: "plan \<Rightarrow> effects_map" where
  "plan_effects p = resolve_effects p (node_index (plan_nodes p))"

definition structural :: "plan \<Rightarrow> bool" where
  "structural p \<longleftrightarrow>
     plan_version p = CURRENT_VERSION \<and> distinct (node_ids p) \<and> nodes_wf p \<and>
     (\<forall>(t, spec) \<in> set (plan_tools p). \<forall>e. spec_effects spec = Some e \<longrightarrow> \<not> is_contradictory e) \<and>
     (\<forall>(out, r) \<in> set (plan_outputs p). ref_node r \<in> set (node_ids p))"

lemma valid_plan_structural: "valid_plan p \<longleftrightarrow> structural p \<and> acyclic (plan_dep_rel p)"
  by (auto simp: valid_plan_def structural_def)

lemma res_fold_unit:
  "res_fold (\<lambda>x _. f x) xs () = Inr u \<longleftrightarrow> (\<forall>x \<in> set xs. f x = Inr ())"
  by (induction xs) auto

lemma ensure_tools_iff:
  "ensure_tools_exist p nodes = Inr u \<longleftrightarrow> (\<forall>(i, n) \<in> set nodes. bt_mem (node_tool n) (plan_tools p))"
  unfolding ensure_tools_exist_def case_prod_beta' res_fold_unit by auto

lemma ensure_effects_iff:
  "ensure_effects_are_coherent p = Inr u \<longleftrightarrow>
     (\<forall>(t, spec) \<in> set (plan_tools p). \<forall>e. spec_effects spec = Some e \<longrightarrow> \<not> is_contradictory e)"
  unfolding ensure_effects_are_coherent_def case_prod_beta' res_fold_unit
  by (auto split: option.splits if_splits)

lemma ensure_outputs_iff:
  "ensure_outputs_exist p nodes = Inr u \<longleftrightarrow>
     (\<forall>(out, r) \<in> set (plan_outputs p). ref_node r \<in> fst ` set nodes)"
  unfolding ensure_outputs_exist_def case_prod_beta' res_fold_unit bt_mem_iff
  by (auto simp del: image_iff split: if_splits)

lemma collect_dependencies_iff:
  assumes "distinct (node_ids p)"
  shows "collect_dependencies (node_index (plan_nodes p)) = Inr dm \<longleftrightarrow>
     (\<forall>n \<in> set (plan_nodes p). (\<exists>refs. collect_refs (node_input n) = Inr refs) \<and>
        set (declared_deps n) \<subseteq> set (node_ids p) - {node_id n}) \<and> dm = plan_deps p"
    (is "_ \<longleftrightarrow> ?wf \<and> _")
proof -
  let ?nodes = "node_index (plan_nodes p)"
  have ids: "fst ` set ?nodes = set (node_ids p)" by (simp add: node_ids_def)
  have idx: "set ?nodes = (\<lambda>n. (node_id n, n)) ` set (plan_nodes p)"
    using assms by (simp add: set_node_index node_ids_def)
  have ok: "res_bind (node_dependencies ?nodes n) (\<lambda>deps. Inr (node_id n, deps))
            = Inr (node_id n, bs_of_list (declared_deps n))"
    if "?wf" "n \<in> set (plan_nodes p)" for n
  proof -
    from that have "node_dependencies ?nodes n = Inr (bs_of_list (declared_deps n))"
      unfolding node_dependencies_iff ids by simp
    then show ?thesis by simp
  qed
  show ?thesis
  proof
    assume l: "collect_dependencies ?nodes = Inr dm"
    have wf: ?wf
    proof
      fix n assume "n \<in> set (plan_nodes p)"
      then have "(node_id n, n) \<in> set ?nodes" using idx by simp
      moreover have "\<forall>x \<in> set ?nodes. \<exists>y. (case x of (i, n) \<Rightarrow>
           res_bind (node_dependencies ?nodes n) (\<lambda>deps. Inr (node_id n, deps))) = Inr y"
        using l unfolding collect_dependencies_def by (meson res_map_ok_iff)
      ultimately obtain d where "node_dependencies ?nodes n = Inr d" by fastforce
      then show "(\<exists>refs. collect_refs (node_input n) = Inr refs) \<and>
          set (declared_deps n) \<subseteq> set (node_ids p) - {node_id n}"
        unfolding node_dependencies_iff ids by simp
    qed
    have "collect_dependencies ?nodes = Inr (plan_deps p)"
      unfolding collect_dependencies_def plan_deps_def
      by (rule res_map_Inr_map) (use ok [OF wf] idx in auto)
    with l wf show "?wf \<and> dm = plan_deps p" by simp
  next
    assume r: "?wf \<and> dm = plan_deps p"
    then have "collect_dependencies ?nodes = Inr (plan_deps p)"
      unfolding collect_dependencies_def plan_deps_def
      by (intro res_map_Inr_map) (use ok idx in auto)
    with r show "collect_dependencies ?nodes = Inr dm" by simp
  qed
qed

text \<open>Every error but \<open>Cycle\<close> comes from a structural check, and no check panics.\<close>

definition structural_error :: "graph_error \<Rightarrow> bool" where
  "structural_error e \<longleftrightarrow> e \<noteq> GraphPanic \<and> (\<forall>n. e \<noteq> Cycle n)"

lemma structural_reference [simp]: "structural_error (InvalidNodeReference i s)"
  by (simp add: structural_error_def)

lemma res_fold_Inl: "res_fold f xs s = Inl e \<Longrightarrow> \<exists>x \<in> set xs. \<exists>s'. f x s' = Inl e"
  by (induction xs arbitrary: s) (auto simp: res_bind_eq_Inl)

lemma index_nodes_from_error: "index_nodes_from m ns = Inl e \<Longrightarrow> structural_error e"
  by (induction ns arbitrary: m)
    (auto simp: res_bind_eq_Inl map_err_eq_Inl structural_error_def split: if_splits)

lemma insert_dependency_error: "insert_dependency i nodes d deps = Inl e \<Longrightarrow> structural_error e"
  by (auto simp: insert_dependency_def structural_error_def split: if_splits)

lemma insert_dependencies_error:
  "res_fold (\<lambda>x. insert_dependency i nodes (f x)) ds deps = Inl e \<Longrightarrow> structural_error e"
  using res_fold_Inl insert_dependency_error by metis

lemma node_dependencies_error: "node_dependencies nodes n = Inl e \<Longrightarrow> structural_error e"
proof -
  assume "node_dependencies nodes n = Inl e"
  then show ?thesis
    unfolding node_dependencies_def Let_def res_bind_eq_Inl
    using insert_dependencies_error [where f = "\<lambda>x. x"] insert_dependencies_error [where f = ref_node]
      insert_dependency_error
    by (auto simp: map_err_eq_Inl split: option.splits)
qed

lemma collect_dependencies_error: "collect_dependencies nodes = Inl e \<Longrightarrow> structural_error e"
  unfolding collect_dependencies_def
  by (drule res_map_Inl) (auto simp: res_bind_eq_Inl dest: node_dependencies_error)

lemma ensure_errors:
  "ensure_tools_exist p nodes = Inl e \<Longrightarrow> structural_error e"
  "ensure_effects_are_coherent p = Inl e \<Longrightarrow> structural_error e"
  "ensure_outputs_exist p nodes = Inl e \<Longrightarrow> structural_error e"
  unfolding ensure_tools_exist_def ensure_effects_are_coherent_def ensure_outputs_exist_def
  by (drule res_fold_Inl; auto simp: structural_error_def split: option.splits if_splits)+

lemma validate_structural:
  assumes "structural p"
  shows "validate p = res_bind (safe_layers (plan_deps p) (plan_effects p)) (\<lambda>layers.
     Inr \<lparr>g_dependencies = plan_deps p, g_layers = layers, g_resolved_effects = plan_effects p\<rparr>)"
proof -
  let ?nodes = "node_index (plan_nodes p)"
  note S = assms [unfolded structural_def nodes_wf_def]
  have d: "distinct (map node_id (plan_nodes p))" using S by (simp add: node_ids_def)
  have idx: "set ?nodes = (\<lambda>n. (node_id n, n)) ` set (plan_nodes p)" by (rule set_node_index [OF d])
  have 1: "index_nodes (plan_nodes p) = Inr ?nodes" using S by (simp add: index_nodes_iff node_ids_def)
  have 2: "ensure_tools_exist p ?nodes = Inr ()" using S by (auto simp: ensure_tools_iff idx)
  have 3: "ensure_effects_are_coherent p = Inr ()" using S by (simp add: ensure_effects_iff)
  have 4: "collect_dependencies ?nodes = Inr (plan_deps p)"
    using S collect_dependencies_iff [of p "plan_deps p"] by simp
  have 5: "ensure_outputs_exist p ?nodes = Inr ()"
    using S unfolding ensure_outputs_iff node_index_keys by (simp add: node_ids_def)
  show ?thesis using S by (simp add: validate_def 1 2 3 4 5 plan_effects_def Let_def)
qed

lemma validate_not_structural:
  assumes "\<not> structural p"
  shows "\<exists>e. validate p = Inl e \<and> structural_error e"
proof (cases "plan_version p = CURRENT_VERSION")
  case ver: True
  show ?thesis
  proof (cases "index_nodes (plan_nodes p)")
    case (Inl e)
    with ver show ?thesis
      using index_nodes_from_error by (auto simp: validate_def index_nodes_def)
  next
    case nodes: (Inr nodes)
    then have n: "nodes = node_index (plan_nodes p)" and d: "distinct (node_ids p)"
      and ids: "\<forall>n \<in> set (plan_nodes p). node_id n \<noteq> [] \<and> CHR ''.'' \<notin> set (node_id n)"
      by (simp_all add: index_nodes_iff node_ids_def)
    have idx: "set (node_index (plan_nodes p)) = (\<lambda>n. (node_id n, n)) ` set (plan_nodes p)"
      using d set_node_index by (simp add: node_ids_def)
    consider (tools) e where "ensure_tools_exist p nodes = Inl e"
      | (effects) e where "ensure_tools_exist p nodes = Inr ()" "ensure_effects_are_coherent p = Inl e"
      | (deps) e where "ensure_tools_exist p nodes = Inr ()" "ensure_effects_are_coherent p = Inr ()"
          "collect_dependencies nodes = Inl e"
      | (outs) dm e where "ensure_tools_exist p nodes = Inr ()" "ensure_effects_are_coherent p = Inr ()"
          "collect_dependencies nodes = Inr dm" "ensure_outputs_exist p nodes = Inl e"
      | (all) dm where "ensure_tools_exist p nodes = Inr ()" "ensure_effects_are_coherent p = Inr ()"
          "collect_dependencies nodes = Inr dm" "ensure_outputs_exist p nodes = Inr ()"
      by (metis old.sum.exhaust old.unit.exhaust)
    then show ?thesis
    proof cases
      case all
      have "structural p"
        unfolding structural_def nodes_wf_def
        using ver d ids all(1) all(2) all(3) all(4) collect_dependencies_iff [OF d]
        by (auto simp: ensure_tools_iff ensure_effects_iff ensure_outputs_iff n idx node_ids_def
            image_image simp del: set_map) (auto simp: image_image)
      with assms show ?thesis by simp
    qed (use ver nodes ensure_errors collect_dependencies_error in \<open>auto simp: validate_def\<close>)
  qed
qed (simp add: validate_def structural_error_def)

lemma closed_plan_deps: "structural p \<Longrightarrow> closed_deps (plan_deps p)"
proof -
  assume s: "structural p"
  let ?nodes = "node_index (plan_nodes p)"
  have keys: "map fst (plan_deps p) = map fst ?nodes" by (simp add: plan_deps_def comp_def case_prod_beta')
  have idx: "set ?nodes = (\<lambda>n. (node_id n, n)) ` set (plan_nodes p)"
    using s by (intro set_node_index) (simp add: structural_def node_ids_def)
  have K: "fst ` set (plan_deps p) = set (node_ids p)"
    by (metis keys list.set_map node_index_keys node_ids_def)
  have "bt_ok (plan_deps p)" using node_index_ok keys by (metis bt_ok_def)
  moreover have "bs_ok ds \<and> set ds \<subseteq> fst ` set (plan_deps p)" if "(n, ds) \<in> set (plan_deps p)" for n ds
  proof -
    from that idx obtain m where m: "m \<in> set (plan_nodes p)" "ds = bs_of_list (declared_deps m)"
      by (auto simp: plan_deps_def)
    then have "set (declared_deps m) \<subseteq> set (node_ids p) - {node_id m}"
      using s by (simp add: structural_def nodes_wf_def)
    with m K show ?thesis by auto
  qed
  ultimately show ?thesis by (auto simp: closed_deps_def)
qed

lemma fst_set_plan_deps: "fst ` set (plan_deps p) = set (node_ids p)"
proof -
  have "fst ` set (plan_deps p) = fst ` set (node_index (plan_nodes p))"
    by (simp add: plan_deps_def image_image case_prod_beta')
  then show ?thesis by (simp only: node_index_keys) (simp add: node_ids_def)
qed

lemma deps_of_plan_deps:
  assumes "distinct (node_ids p)" "n \<in> set (plan_nodes p)"
  shows "deps_of (plan_deps p) (node_id n) = set (declared_deps n)"
proof -
  have "map_of (plan_deps p) (node_id n) = Some (bs_of_list (declared_deps n))"
    using node_index_lookup [of "plan_nodes p" n] assms
    unfolding plan_deps_def map_of_map by (simp add: node_ids_def)
  then show ?thesis by (simp add: deps_of_def get_list_def)
qed

lemma dep_rel_plan_deps:
  assumes "distinct (node_ids p)"
  shows "dep_rel (plan_deps p) = plan_dep_rel p"
proof -
  have "d \<in> deps_of (plan_deps p) i \<longleftrightarrow>
      (\<exists>n \<in> set (plan_nodes p). i = node_id n \<and> d \<in> set (declared_deps n))" for d i
  proof (cases "i \<in> set (node_ids p)")
    case True
    then obtain n where "n \<in> set (plan_nodes p)" "i = node_id n" by (auto simp: node_ids_def)
    moreover have "m = n" if "m \<in> set (plan_nodes p)" "node_id m = node_id n" for m
      using assms that calculation(1) by (auto simp: node_ids_def distinct_map dest: inj_onD)
    ultimately show ?thesis using deps_of_plan_deps [OF assms] by blast
  next
    case False
    then have "get_list (plan_deps p) i = []"
      using get_list_nonempty_key fst_set_plan_deps by metis
    with False show ?thesis by (auto simp: deps_of_def node_ids_def)
  qed
  then show ?thesis by (auto simp: dep_rel_def plan_dep_rel_def)
qed

lemma coherent_for_node: "(\<forall>e. fx = Some e \<longrightarrow> \<not> is_contradictory e) \<Longrightarrow> coherent (for_node n fx)"
  by (auto simp: coherent_def for_node_def is_contradictory_def resolve_resources_def bs_of_list_def
      split: option.split)

lemma plan_effects_lookup:
  assumes "distinct (node_ids p)" "n \<in> set (plan_nodes p)"
  shows "map_of (plan_effects p) (node_id n) = Some (for_node n (tool_effects p (node_tool n)))"
  using node_index_lookup [of "plan_nodes p" n] assms
  unfolding plan_effects_def resolve_effects_def map_of_map by (simp add: node_ids_def)

lemma effects_ok_plan: "structural p \<Longrightarrow> effects_ok (plan_effects p) (set (node_ids p))"
proof -
  assume s: "structural p"
  have d: "distinct (node_ids p)" using s by (simp add: structural_def)
  have "i \<in> fst ` set (plan_effects p) \<and> coherent (fx_of (plan_effects p) i)"
    if "i \<in> set (node_ids p)" for i
  proof -
    from that obtain n where n: "n \<in> set (plan_nodes p)" "i = node_id n" by (auto simp: node_ids_def)
    note l = plan_effects_lookup [OF d n(1)]
    have "\<not> is_contradictory e" if "tool_effects p (node_tool n) = Some e" for e
      using s map_of_SomeD that by (fastforce simp: structural_def tool_effects_def split: option.splits)
    with l n show ?thesis using img_fst [OF map_of_SomeD [OF l]] coherent_for_node by auto
  qed
  then show ?thesis by (auto simp: effects_ok_def)
qed

lemma validate_dichotomy:
  "structural p \<Longrightarrow>
    (acyclic (plan_dep_rel p) \<and> (\<exists>layers. validate p = Inr \<lparr>g_dependencies = plan_deps p, g_layers = layers,
         g_resolved_effects = plan_effects p\<rparr> \<and> layers_sound (plan_deps p) (plan_effects p) layers \<and>
         set (concat layers) = set (node_ids p))) \<or>
    (\<not> acyclic (plan_dep_rel p) \<and> (\<exists>n. validate p = Inl (Cycle n)))"
  using safe_layers_dichotomy [of "plan_deps p" "plan_effects p"] closed_plan_deps [of p]
    effects_ok_plan [of p] fst_set_plan_deps [of p] dep_rel_plan_deps [of p] validate_structural [of p]
  by (auto simp: structural_def)

lemma validate_ok_iff: "(\<exists>g. validate p = Inr g) \<longleftrightarrow> valid_plan p"
proof (cases "structural p")
  case True
  show ?thesis using validate_dichotomy [OF True] True by (auto simp: valid_plan_structural)
next
  case False
  show ?thesis using validate_not_structural [OF False] False by (auto simp: valid_plan_structural)
qed

text \<open>
  C1. Validation accepts exactly the valid plans: it returns a graph if and only if the plan has
  the supported version, distinct well-formed ids, declared tools with coherent effects,
  references to other existing nodes only, existing outputs, and an acyclic dependency relation.
\<close>

theorem validate_accepts_valid_plans: "(\<exists>g. validate p = Inr g) \<longleftrightarrow> valid_plan p"
  by (rule validate_ok_iff)

text \<open>
  C2. The compiled graph of an accepted plan: the layers partition the nodes, each node's
  dependencies (declared, in its input, its iterated collection or its guard) lie in strictly
  earlier layers, and the members of one layer may all run concurrently by the pairwise rule.
\<close>

theorem validate_graph_sound:
  assumes "validate p = Inr g"
  shows "distinct (concat (g_layers g)) \<and> set (concat (g_layers g)) = set (node_ids p) \<and>
    [] \<notin> set (g_layers g) \<and>
    (\<forall>i < length (g_layers g). \<forall>n \<in> set (plan_nodes p). node_id n \<in> set (g_layers g ! i) \<longrightarrow>
       set (declared_deps n) \<subseteq> set (concat (take i (g_layers g)))) \<and>
    (\<forall>layer \<in> set (g_layers g).
       sorted_wrt can_run_with (map (\<lambda>i. the (map_of (g_resolved_effects g) i)) layer))"
proof -
  have s: "structural p" using assms validate_not_structural [of p] by force
  then have d: "distinct (node_ids p)" by (simp add: structural_def)
  from validate_dichotomy [OF s] assms
  have g: "g_dependencies g = plan_deps p" "g_resolved_effects g = plan_effects p"
    and l: "layers_sound (plan_deps p) (plan_effects p) (g_layers g)"
    and all: "set (concat (g_layers g)) = set (node_ids p)"
    by auto
  have "sorted_wrt can_run_with (map (fx_of (plan_effects p)) layer)"
    if "layer \<in> set (g_layers g)" for layer
    using l that unfolding layers_sound_def in_set_conv_nth by blast
  moreover have "set (declared_deps n) \<subseteq> set (concat (take i (g_layers g)))"
    if "i < length (g_layers g)" "n \<in> set (plan_nodes p)" "node_id n \<in> set (g_layers g ! i)" for i n
    using l that deps_of_plan_deps [OF d that(2)] unfolding layers_sound_def by metis
  ultimately show ?thesis using l all unfolding layers_sound_def g by blast
qed

text \<open>
  Validation never panics (no map indexing fails, no counter goes below zero), and it
  reports a cycle only of a structurally sound plan whose dependency relation has one.
\<close>

theorem validate_errors:
  "validate p \<noteq> Inl GraphPanic \<and>
   ((\<exists>n. validate p = Inl (Cycle n)) \<longleftrightarrow> structural p \<and> \<not> acyclic (plan_dep_rel p))"
proof (cases "structural p")
  case True
  show ?thesis using validate_dichotomy [OF True] True by auto
next
  case False
  show ?thesis using validate_not_structural [OF False] False
    unfolding structural_error_def by auto
qed

section \<open>Dropping nodes from a validated graph\<close>

definition restrict_nodes :: "plan \<Rightarrow> node_id set \<Rightarrow> plan" where
  "restrict_nodes p kept = p\<lparr>plan_nodes := filter (\<lambda>n. node_id n \<in> kept) (plan_nodes p)\<rparr>"

text \<open>A set of nodes that holds the dependencies of its members and the outputs.\<close>

definition closed_nodes :: "plan \<Rightarrow> node_id set \<Rightarrow> bool" where
  "closed_nodes p kept \<longleftrightarrow>
     (\<forall>n \<in> set (plan_nodes p). node_id n \<in> kept \<longrightarrow> set (declared_deps n) \<subseteq> kept) \<and>
     (\<forall>(out, r) \<in> set (plan_outputs p). ref_node r \<in> kept)"

lemma node_index_filter:
  assumes "distinct (map node_id ns)"
  shows "node_index (filter (\<lambda>n. node_id n \<in> kept) ns) = bt_filter (\<lambda>i. i \<in> kept) (node_index ns)"
proof (rule bt_ok_ext)
  fix i
  have d: "distinct (map node_id (filter (\<lambda>n. node_id n \<in> kept) ns))"
    using assms by (rule distinct_map_filter)
  have none: "map_of (node_index xs) i = None" if "i \<notin> node_id ` set xs" for xs
    using that by (simp add: map_of_eq_None_iff del: image_iff)
  show "map_of (node_index (filter (\<lambda>n. node_id n \<in> kept) ns)) i =
        map_of (bt_filter (\<lambda>i. i \<in> kept) (node_index ns)) i"
  proof (cases "\<exists>n \<in> set ns. i = node_id n")
    case True
    then obtain n where n: "n \<in> set ns" "i = node_id n" by auto
    have "node_id n \<notin> node_id ` set (filter (\<lambda>n. node_id n \<in> kept) ns)" if "node_id n \<notin> kept"
      using that by auto
    with n none [of "filter (\<lambda>n. node_id n \<in> kept) ns"] show ?thesis
      using node_index_lookup [OF assms n(1)] node_index_lookup [OF d, of n]
      by (cases "node_id n \<in> kept") auto
  next
    case False
    then have "i \<notin> node_id ` set ns" "i \<notin> node_id ` set (filter (\<lambda>n. node_id n \<in> kept) ns)"
      by auto
    then show ?thesis by (simp add: none del: image_iff set_filter)
  qed
qed simp_all

lemma bt_filter_map_values:
  "bt_filter P (map (\<lambda>(i, x). (i, f x)) m) = map (\<lambda>(i, x). (i, f x)) (bt_filter P m)"
  by (induction m) (auto simp: bt_filter_def)

lemma structural_restrict:
  assumes "structural p" "closed_nodes p kept"
  shows "structural (restrict_nodes p kept)"
proof -
  note S = assms(1) [unfolded structural_def nodes_wf_def]
  have ids: "set (node_ids (restrict_nodes p kept)) = set (node_ids p) \<inter> kept"
    by (auto simp: node_ids_def restrict_nodes_def)
  have "distinct (node_ids (restrict_nodes p kept))"
    using S by (simp add: node_ids_def restrict_nodes_def distinct_map_filter)
  moreover have "set (declared_deps n) \<subseteq> set (node_ids (restrict_nodes p kept)) - {node_id n}"
    if "n \<in> set (plan_nodes p)" "node_id n \<in> kept" for n
    using that S assms(2) unfolding ids closed_nodes_def by blast
  moreover have "ref_node r \<in> set (node_ids (restrict_nodes p kept))"
    if "(out, r) \<in> set (plan_outputs p)" for out r
    using that S assms(2) unfolding ids closed_nodes_def by blast
  ultimately show ?thesis
    using S unfolding structural_def nodes_wf_def by (auto simp: restrict_nodes_def)
qed

lemma retain_closed:
  assumes "validate p = Inr g" "closed_nodes p (set kept)"
  shows "retain g kept = validate (restrict_nodes p (set kept)) \<and> (\<exists>g'. retain g kept = Inr g')"
proof -
  let ?q = "restrict_nodes p (set kept)"
  have s: "structural p" using assms(1) validate_not_structural [of p] by force
  then have d: "distinct (map node_id (plan_nodes p))" by (simp add: structural_def node_ids_def)
  from validate_dichotomy [OF s] assms(1)
  have g: "g_dependencies g = plan_deps p" "g_resolved_effects g = plan_effects p"
    and ac: "acyclic (plan_dep_rel p)" by auto
  have q: "structural ?q" by (rule structural_restrict [OF s assms(2)])
  have "plan_deps ?q = bt_filter (\<lambda>n. n \<in> set kept) (plan_deps p)"
    "plan_effects ?q = bt_filter (\<lambda>n. n \<in> set kept) (plan_effects p)"
    using node_index_filter [OF d, of "set kept"]
    by (simp_all add: plan_deps_def plan_effects_def resolve_effects_def bt_filter_map_values
        restrict_nodes_def tool_effects_def)
  then have r: "retain g kept = validate ?q"
    by (simp add: retain_def Let_def g validate_structural [OF q])
  have "plan_dep_rel ?q \<subseteq> plan_dep_rel p" by (auto simp: plan_dep_rel_def restrict_nodes_def)
  then have "acyclic (plan_dep_rel ?q)" using ac by (rule acyclic_subset [rotated])
  with validate_dichotomy [OF q] r show ?thesis by auto
qed
text \<open>
  Retaining nodes of a validated graph is revalidating the smaller plan: for a kept set that
  is closed under dependencies and holds the outputs, \<open>retain\<close> succeeds and its graph is the
  one \<open>validate\<close> computes for the plan without the other nodes.
\<close>

theorem retain_is_revalidation:
  assumes "validate p = Inr g" "closed_nodes p (set kept)"
  shows "retain g kept = validate (restrict_nodes p (set kept)) \<and> (\<exists>g'. retain g kept = Inr g')"
  using assms by (rule retain_closed)

section \<open>A worked example\<close>

definition read_tool :: tool_spec where
  "read_tool = (tool_spec_new ''builtin'')\<lparr>spec_effects :=
     Some (effects_read_only [''file:{path}''])\<rparr>"

definition write_tool :: tool_spec where
  "write_tool = (tool_spec_new ''builtin'')\<lparr>spec_effects :=
     Some (effects_default\<lparr>eff_writes := [''file:{path}'']\<rparr>)\<rparr>"

definition file_node :: "node_id \<Rightarrow> tool_name \<Rightarrow> string \<Rightarrow> node" where
  "file_node i tool path = (node_new i tool)\<lparr>node_input := JObj [(''path'', JStr path)]\<rparr>"

text \<open>Two reads of one file, a write to it, and a read of another file after the write.\<close>

definition example_plan :: plan where
  "example_plan = plan_new\<lparr>plan_tools := [(''read'', read_tool), (''write'', write_tool)],
     plan_nodes := [file_node ''a'' ''read'' ''x'', file_node ''b'' ''read'' ''x'',
        file_node ''c'' ''write'' ''x'',
        (file_node ''d'' ''read'' ''y'')\<lparr>node_depends_on := [''c'']\<rparr>]\<rparr>"

definition example_graph :: execution_graph where
  "example_graph = (case validate example_plan of Inr g \<Rightarrow> g)"

lemma example_valid: "validate example_plan = Inr example_graph"
  by code_simp

lemma example_layers: "g_layers example_graph = [[''a'', ''b''], [''c''], [''d'']]"
  by code_simp


theorem admits_pairwise_witness:
  "let rd = for_node (file_node ''a'' ''read'' ''x'') (spec_effects read_tool);
       wr = for_node (file_node ''c'' ''write'' ''x'') (spec_effects write_tool)
   in admits (foldl absorb layer_state_default [rd]) wr = can_run_with rd wr \<and> \<not> can_run_with rd wr"
proof -
  define rd wr where "rd = for_node (file_node ''a'' ''read'' ''x'') (spec_effects read_tool)"
    and "wr = for_node (file_node ''c'' ''write'' ''x'') (spec_effects write_tool)"
  have "\<forall>m \<in> set [wr, rd]. coherent m" "\<not> can_run_with rd wr" unfolding rd_def wr_def by code_simp+
  then show ?thesis using admits_pairwise [of "[rd]" wr] by (simp add: rd_def wr_def)
qed

theorem validate_graph_sound_witness:
  "distinct (concat (g_layers example_graph)) \<and>
   set (concat (g_layers example_graph)) = {''a'', ''b'', ''c'', ''d''}"
proof -
  have "set (node_ids example_plan) = {''a'', ''b'', ''c'', ''d''}" by code_simp
  then show ?thesis using validate_graph_sound [OF example_valid] by simp
qed

theorem retain_is_revalidation_witness:
  "retain example_graph [''c'', ''d''] = validate (restrict_nodes example_plan {''c'', ''d''})"
proof -
  have "closed_nodes example_plan (set [''c'', ''d''])" by code_simp
  from retain_is_revalidation [OF example_valid this] show ?thesis by simp
qed

end
