(* ===== verification/Passes.thy ===== *)
theory Passes
  imports Graph
begin

text \<open>
  The optimizer, \<^verbatim>\<open>crates/tool-compiler-optimizer/src/lib.rs\<close>: deduplication with
  common-subexpression elimination of pure nodes, dead-node elimination, and batch grouping.
  \<^verbatim>\<open>canonical_node\<close> follows an alias chain with no bound of its own, so every
  function over it is partial: \<open>None\<close> means that the code does not return. The cost
  estimates are in \<open>Cost\<close>, the diagnostics in \<open>Explain\<close>.
\<close>

section \<open>Reports\<close>

record deduplicated_node =
  dd_removed :: node_id
  dd_canonical :: node_id

record batch_group =
  bg_adapter :: string
  bg_tool :: tool_name
  bg_nodes :: "node_id list"

section \<open>Deduplication keys\<close>

text \<open>
  The key of a node is a string that holds the \<^verbatim>\<open>{:?}\<close> rendering of two optional
  fields. That rendering is derived code over serde\_json's own; it is a parameter, and what
  the key relies on is that it tells well-formed values apart and escapes the separator.
\<close>

record debug_format =
  fmt_for_each :: "value_ref option \<Rightarrow> string"
  fmt_when :: "run_when option \<Rightarrow> string"

definition key_sep :: char where
  "key_sep = CHR 0x00"

definition dedup_key :: "debug_format \<Rightarrow> plan \<Rightarrow> node \<Rightarrow> string option" where
  "dedup_key dbg p n =
     (case tool_effects p (node_tool n) of
        None \<Rightarrow> None
      | Some e \<Rightarrow>
          if \<not> (eff_pure e \<or> eff_cacheable e) then None
          else
            let key = node_tool n @ [key_sep] @ canonical_json_string (node_input n)
                  @ [key_sep] @ fmt_for_each dbg (node_for_each n)
                  @ [key_sep] @ fmt_when dbg (node_when n)
            in Some (if eff_pure e then key
                     else key @ [key_sep] @ join_with '','' (node_depends_on n)))"

section \<open>Alias rewriting\<close>

type_synonym aliases = "(node_id, node_id) btree"

partial_function (option) canonical_node :: "node_id \<Rightarrow> aliases \<Rightarrow> node_id option" where
  "canonical_node current als =
     (case map_of als current of
        Some nxt \<Rightarrow> canonical_node nxt als
      | None \<Rightarrow> Some current)"

definition rewrite_value_ref :: "value_ref \<Rightarrow> aliases \<Rightarrow> value_ref option" where
  "rewrite_value_ref r als =
     map_option (\<lambda>n. ValueRef n (ref_path r)) (canonical_node (ref_node r) als)"

fun rewrite_refs_in_value :: "json \<Rightarrow> aliases \<Rightarrow> json option" where
  "rewrite_refs_in_value (JObj kvs) als =
     (if singleton_obj kvs LITERAL_KEY \<noteq> None then Some (JObj kvs)
      else (case (case singleton_obj kvs REF_KEY of
                    Some (JStr raw_ref) \<Rightarrow> parse_value_ref raw_ref
                  | _ \<Rightarrow> Inl (InvalidRefText [])) of
          Inr r \<Rightarrow> map_option (\<lambda>r'. JObj [(REF_KEY, JStr (value_ref_to_string r'))])
                     (rewrite_value_ref r als)
        | Inl _ \<Rightarrow>
            map_option (\<lambda>vs. JObj (zip (map fst kvs) vs))
              (those (map (\<lambda>kv. rewrite_refs_in_value (snd kv) als) kvs))))"
| "rewrite_refs_in_value (JArr items) als =
     map_option JArr (those (map (\<lambda>item. rewrite_refs_in_value item als) items))"
| "rewrite_refs_in_value v als = Some v"

definition rewrite_option :: "('a \<Rightarrow> 'a option) \<Rightarrow> 'a option \<Rightarrow> 'a option option" where
  "rewrite_option f x = (case x of None \<Rightarrow> Some None | Some y \<Rightarrow> map_option Some (f y))"

definition rewrite_node_aliases :: "node \<Rightarrow> aliases \<Rightarrow> node option" where
  "rewrite_node_aliases n als =
     Option.bind (those (map (\<lambda>d. canonical_node d als) (node_depends_on n))) (\<lambda>deps.
     Option.bind (rewrite_option (\<lambda>items. rewrite_value_ref items als) (node_for_each n)) (\<lambda>fe.
     Option.bind (rewrite_option (\<lambda>w. map_option (\<lambda>t. w\<lparr>when_target := t\<rparr>)
                    (rewrite_value_ref (when_target w) als)) (node_when n)) (\<lambda>wh.
     Option.bind (rewrite_refs_in_value (node_input n) als) (\<lambda>input.
       Some (n\<lparr>node_depends_on := bs_of_list deps, node_for_each := fe, node_when := wh,
               node_input := input\<rparr>)))))"

section \<open>Deduplication\<close>

text \<open>The loop's state: the keys seen, the aliases, the report and the nodes kept so far.\<close>

record dedup_state =
  dst_seen :: "(string, node_id) btree"
  dst_aliases :: aliases
  dst_report :: "deduplicated_node list"
  dst_kept :: "node list"

definition dedup_step :: "debug_format \<Rightarrow> plan \<Rightarrow> dedup_state \<Rightarrow> node \<Rightarrow> dedup_state" where
  "dedup_step dbg p st n =
     (case dedup_key dbg p n of
        None \<Rightarrow> st\<lparr>dst_kept := dst_kept st @ [n]\<rparr>
      | Some key \<Rightarrow>
          (case map_of (dst_seen st) key of
             Some canonical \<Rightarrow>
               st\<lparr>dst_aliases := bt_insert (node_id n) canonical (dst_aliases st),
                  dst_report := dst_report st
                    @ [\<lparr>dd_removed = node_id n, dd_canonical = canonical\<rparr>]\<rparr>
           | None \<Rightarrow>
               st\<lparr>dst_seen := bt_insert key (node_id n) (dst_seen st),
                  dst_kept := dst_kept st @ [n]\<rparr>))"

definition dedup_init :: dedup_state where
  "dedup_init = \<lparr>dst_seen = [], dst_aliases = [], dst_report = [], dst_kept = []\<rparr>"

definition dedup_scan :: "debug_format \<Rightarrow> plan \<Rightarrow> dedup_state" where
  "dedup_scan dbg p = foldl (dedup_step dbg p) dedup_init (plan_nodes p)"

definition rewrite_outputs ::
  "(string, value_ref) btree \<Rightarrow> aliases \<Rightarrow> (string, value_ref) btree option" where
  "rewrite_outputs outputs als =
     map_option (zip (map fst outputs))
       (those (map (\<lambda>kv. rewrite_value_ref (snd kv) als) outputs))"

definition deduplicate_nodes ::
  "debug_format \<Rightarrow> plan \<Rightarrow> (plan \<times> deduplicated_node list) option" where
  "deduplicate_nodes dbg p =
     (let st = dedup_scan dbg p in
      if dst_aliases st = [] then Some (p\<lparr>plan_nodes := dst_kept st\<rparr>, dst_report st)
      else
        Option.bind (those (map (\<lambda>n. rewrite_node_aliases n (dst_aliases st)) (dst_kept st))) (\<lambda>nodes.
        Option.bind (rewrite_outputs (plan_outputs p) (dst_aliases st)) (\<lambda>outputs.
          Some (p\<lparr>plan_nodes := nodes, plan_outputs := outputs\<rparr>, dst_report st))))"

section \<open>Dead-node elimination\<close>

lemma unmarked_less:
  assumes "n \<notin> set kept" "get_list deps n \<noteq> []"
  shows "length (filter (\<lambda>(m, _). m \<notin> set (n # kept)) deps)
       < length (filter (\<lambda>(m, _). m \<notin> set kept) deps)"
proof -
  have "n \<in> fst ` set deps" using assms(2) by (rule get_list_nonempty_key)
  then obtain ds where e: "(n, ds) \<in> set (filter (\<lambda>(m, _). m \<notin> set kept) deps)" using assms(1) by auto
  have "filter (\<lambda>(m, _). m \<notin> set (n # kept)) deps =
      filter (\<lambda>(m, _). m \<noteq> n) (filter (\<lambda>(m, _). m \<notin> set kept) deps)"
    by (auto intro!: filter_cong simp: case_prod_beta')
  also have "length \<dots> < length (filter (\<lambda>(m, _). m \<notin> set kept) deps)"
    using e by (intro length_filter_less) auto
  finally show ?thesis .
qed

text \<open>
  The marking loop pops the last element of its stack: the model keeps the stack reversed,
  its head on top. Every round marks a new node or shortens the stack.
\<close>

function mark_loop ::
  "dependency_map \<Rightarrow> node_id list \<Rightarrow> node_id list \<Rightarrow> node_id list" where
  "mark_loop deps [] kept = kept"
| "mark_loop deps (n # stack) kept =
     (if n \<in> set kept then mark_loop deps stack kept
      else mark_loop deps (rev (get_list deps n) @ stack) (n # kept))"
  by pat_completeness auto

termination
proof (relation "measures
    [\<lambda>(deps, stack, kept). length (filter (\<lambda>(m, _). m \<notin> set kept) deps),
     \<lambda>(deps, stack, kept). length stack]")
  fix deps :: dependency_map and n :: node_id and stack kept :: "node_id list"
  assume new: "n \<notin> set kept"
  show "((deps, rev (get_list deps n) @ stack, n # kept), deps, n # stack, kept)
      \<in> measures [\<lambda>(deps, stack, kept). length (filter (\<lambda>(m, _). m \<notin> set kept) deps),
          \<lambda>(deps, stack, kept). length stack]"
  proof (cases "get_list deps n = []")
    case True
    have "length (filter (\<lambda>(m, _). m \<notin> set (n # kept)) deps)
        \<le> length (filter (\<lambda>(m, _). m \<notin> set kept) deps)"
      by (induction deps) auto
    with True show ?thesis by (auto simp: le_less)
  next
    case False
    with unmarked_less [OF new] show ?thesis by simp
  qed
qed simp_all

definition dead_roots :: "plan \<Rightarrow> execution_graph \<Rightarrow> node_id list" where
  "dead_roots p g =
     map ref_node (filter (\<lambda>r. bt_mem (ref_node r) (g_dependencies g)) (map snd (plan_outputs p)))
     @ map fst (filter (\<lambda>(n, fx). \<not> rfx_pure fx) (g_resolved_effects g))"

definition eliminate_dead_nodes :: "plan \<Rightarrow> execution_graph \<Rightarrow> plan \<times> node_id list" where
  "eliminate_dead_nodes p g =
     (if plan_outputs p = [] then (p, [])
      else
        let kept = mark_loop (g_dependencies g) (rev (dead_roots p g)) [];
            eliminated = map node_id (filter (\<lambda>n. node_id n \<notin> set kept) (plan_nodes p))
        in if eliminated = [] then (p, eliminated)
           else (p\<lparr>plan_nodes := filter (\<lambda>n. node_id n \<in> set kept) (plan_nodes p)\<rparr>, eliminated))"

section \<open>Batch grouping\<close>

fun chunks :: "nat \<Rightarrow> 'a list \<Rightarrow> 'a list list" where
  "chunks k [] = []"
| "chunks k (x # xs) = (x # take (k - 1) xs) # chunks k (drop (k - 1) xs)"

definition is_batchable :: "plan \<Rightarrow> node \<Rightarrow> bool" where
  "is_batchable p n =
     ((case tool_effects p (node_tool n) of None \<Rightarrow> False | Some e \<Rightarrow> eff_batchable e)
      \<and> node_for_each n = None)"

definition layer_by_tool ::
  "plan \<Rightarrow> (node_id, node) btree \<Rightarrow> node_id list \<Rightarrow> (tool_name, node_id list) btree" where
  "layer_by_tool p nodes_by_id layer =
     foldl (\<lambda>m i. case map_of nodes_by_id i of
              None \<Rightarrow> m
            | Some n \<Rightarrow> if is_batchable p n then bt_push (node_tool n) (node_id n) m else m)
       [] layer"

definition batch_size_of :: "plan \<Rightarrow> tool_name \<Rightarrow> nat \<Rightarrow> nat" where
  "batch_size_of p tool count =
     max 1 (case Option.bind (map_of (plan_tools p) tool) spec_limits of
              None \<Rightarrow> count
            | Some limits \<Rightarrow> (case lim_batch_size limits of None \<Rightarrow> count | Some k \<Rightarrow> k))"

definition adapter_of :: "plan \<Rightarrow> tool_name \<Rightarrow> string" where
  "adapter_of p tool = (case map_of (plan_tools p) tool of None \<Rightarrow> [] | Some s \<Rightarrow> spec_adapter s)"

definition tool_groups :: "plan \<Rightarrow> tool_name \<times> node_id list \<Rightarrow> batch_group list" where
  "tool_groups p entry = (case entry of (tool, nodes) \<Rightarrow>
     map (\<lambda>chunk. \<lparr>bg_adapter = adapter_of p tool, bg_tool = tool, bg_nodes = chunk\<rparr>)
       (filter (\<lambda>chunk. length chunk > 1) (chunks (batch_size_of p tool (length nodes)) nodes)))"

definition find_batch_groups :: "plan \<Rightarrow> execution_graph \<Rightarrow> batch_group list" where
  "find_batch_groups p g =
     (let nodes_by_id = bt_of_list (map (\<lambda>n. (node_id n, n)) (plan_nodes p))
      in concat (map (\<lambda>layer. concat (map (tool_groups p) (layer_by_tool p nodes_by_id layer)))
           (g_layers g)))"

section \<open>Deduplication, functionally\<close>

lemma find_append: "find P (xs @ ys) = (case find P xs of None \<Rightarrow> find P ys | Some x \<Rightarrow> Some x)"
  by (induction xs) auto

text \<open>The representative of a node: the first node of the list with the same key.\<close>

definition rep_in :: "debug_format \<Rightarrow> plan \<Rightarrow> node list \<Rightarrow> node \<Rightarrow> node" where
  "rep_in dbg p ns n =
     (case dedup_key dbg p n of
        None \<Rightarrow> n
      | Some k \<Rightarrow> (case find (\<lambda>m. dedup_key dbg p m = Some k) ns of None \<Rightarrow> n | Some m \<Rightarrow> m))"

definition rep_node :: "debug_format \<Rightarrow> plan \<Rightarrow> node \<Rightarrow> node" where
  "rep_node dbg p n = rep_in dbg p (plan_nodes p) n"

lemma rep_in_snoc: "n \<in> set ns \<Longrightarrow> rep_in dbg p (ns @ [x]) n = rep_in dbg p ns n"
  by (auto simp: rep_in_def find_append find_None_iff split: option.splits)

lemma rep_in_mem: "n \<in> set ns \<Longrightarrow> rep_in dbg p ns n \<in> set ns"
  by (auto simp: rep_in_def find_Some_iff split: option.splits)

lemma rep_in_key: "dedup_key dbg p (rep_in dbg p ns n) = dedup_key dbg p n"
  by (auto simp: rep_in_def find_Some_iff split: option.splits)

lemma rep_in_idem: "rep_in dbg p ns (rep_in dbg p ns n) = rep_in dbg p ns n"
proof (cases "dedup_key dbg p n")
  case (Some k)
  have k: "dedup_key dbg p (rep_in dbg p ns n) = Some k" using rep_in_key Some by metis
  show ?thesis
  proof (cases "find (\<lambda>m. dedup_key dbg p m = Some k) ns")
    case None
    then show ?thesis using Some by (simp add: rep_in_def)
  next
    case f: (Some m)
    then have m: "rep_in dbg p ns n = m" using Some by (simp add: rep_in_def)
    with k f show ?thesis by (simp add: rep_in_def)
  qed
qed (simp add: rep_in_def)

definition dedup_inv :: "debug_format \<Rightarrow> plan \<Rightarrow> node list \<Rightarrow> dedup_state \<Rightarrow> bool" where
  "dedup_inv dbg p ns st \<longleftrightarrow>
     bt_ok (dst_aliases st) \<and>
     (\<forall>k. map_of (dst_seen st) k = map_option node_id (find (\<lambda>m. dedup_key dbg p m = Some k) ns)) \<and>
     dst_kept st = filter (\<lambda>n. rep_in dbg p ns n = n) ns \<and>
     dst_report st = map (\<lambda>n. \<lparr>dd_removed = node_id n, dd_canonical = node_id (rep_in dbg p ns n)\<rparr>)
                       (filter (\<lambda>n. rep_in dbg p ns n \<noteq> n) ns) \<and>
     (\<forall>n \<in> set ns. map_of (dst_aliases st) (node_id n) =
        (if rep_in dbg p ns n = n then None else Some (node_id (rep_in dbg p ns n)))) \<and>
     fst ` set (dst_aliases st) \<subseteq> node_id ` set ns"

lemma dedup_step_inv:
  assumes inv: "dedup_inv dbg p ns st" and new: "node_id n \<notin> node_id ` set ns"
  shows "dedup_inv dbg p (ns @ [n]) (dedup_step dbg p st n)"
proof -
  have old: "rep_in dbg p (ns @ [n]) m = rep_in dbg p ns m" if "m \<in> set ns" for m
    using that by (rule rep_in_snoc)
  have kept: "filter (\<lambda>m. rep_in dbg p (ns @ [n]) m = m) ns = filter (\<lambda>m. rep_in dbg p ns m = m) ns"
    "filter (\<lambda>m. rep_in dbg p (ns @ [n]) m \<noteq> m) ns = filter (\<lambda>m. rep_in dbg p ns m \<noteq> m) ns"
    using old by (auto intro: filter_cong)
  have rep: "map (\<lambda>m. \<lparr>dd_removed = node_id m, dd_canonical = node_id (rep_in dbg p (ns @ [n]) m)\<rparr>)
        (filter (\<lambda>m. rep_in dbg p ns m \<noteq> m) ns) =
      map (\<lambda>m. \<lparr>dd_removed = node_id m, dd_canonical = node_id (rep_in dbg p ns m)\<rparr>)
        (filter (\<lambda>m. rep_in dbg p ns m \<noteq> m) ns)"
    using old by auto
  have fresh: "map_of (dst_aliases st) (node_id n) = None"
    using inv new unfolding dedup_inv_def map_of_eq_None_iff by blast
  have neq: "node_id m \<noteq> node_id n" if "m \<in> set ns" for m using new that by (metis image_eqI)
  consider (nokey) "dedup_key dbg p n = None"
    | (first) k where "dedup_key dbg p n = Some k" "find (\<lambda>m. dedup_key dbg p m = Some k) ns = None"
    | (dup) k c where "dedup_key dbg p n = Some k" "find (\<lambda>m. dedup_key dbg p m = Some k) ns = Some c"
    by (metis not_None_eq)
  then show ?thesis
  proof cases
    case nokey
    then have self: "rep_in dbg p (ns @ [n]) n = n" by (simp add: rep_in_def)
    show ?thesis
      using inv nokey self old fresh neq unfolding dedup_inv_def dedup_step_def
      by (auto simp: find_append kept rep split: option.split simp del: image_iff)
  next
    case (first k)
    then have self: "rep_in dbg p (ns @ [n]) n = n" by (auto simp: rep_in_def find_append)
    show ?thesis
      using inv first self old fresh neq unfolding dedup_inv_def dedup_step_def
      by (auto simp: find_append kept rep split: option.split simp del: image_iff)
  next
    case (dup k c)
    then have c: "c \<in> set ns" by (auto simp: find_Some_iff)
    from dup have self: "rep_in dbg p (ns @ [n]) n = c" by (auto simp: rep_in_def find_append)
    have "c \<noteq> n" using neq [OF c] by auto
    with c show ?thesis
      using inv dup self old fresh neq unfolding dedup_inv_def dedup_step_def
      by (auto simp: find_append kept rep split: option.split simp del: image_iff)
  qed
qed

lemma dedup_scan_inv:
  assumes "distinct (node_ids p)"
  shows "dedup_inv dbg p (plan_nodes p) (dedup_scan dbg p)"
proof -
  have "dedup_inv dbg p ns (foldl (dedup_step dbg p) dedup_init ns)" if "distinct (map node_id ns)" for ns
    using that
  proof (induction ns rule: rev_induct)
    case (snoc n ns)
    then show ?case using dedup_step_inv [of dbg p ns _ n] by simp
  qed (simp add: dedup_inv_def dedup_init_def)
  with assms show ?thesis by (simp add: dedup_scan_def node_ids_def)
qed

text \<open>The alias of a node id, and the rewriting it induces once every chain has one step.\<close>

definition rep_id :: "debug_format \<Rightarrow> plan \<Rightarrow> node_id \<Rightarrow> node_id" where
  "rep_id dbg p i =
     (case find (\<lambda>n. node_id n = i) (plan_nodes p) of
        None \<Rightarrow> i | Some n \<Rightarrow> node_id (rep_node dbg p n))"

lemma find_node:
  assumes "distinct (node_ids p)" "n \<in> set (plan_nodes p)"
  shows "find (\<lambda>m. node_id m = node_id n) (plan_nodes p) = Some n"
proof (cases "find (\<lambda>m. node_id m = node_id n) (plan_nodes p)")
  case None
  with assms(2) show ?thesis by (auto simp: find_None_iff)
next
  case (Some m)
  then have "m \<in> set (plan_nodes p)" "node_id m = node_id n" by (auto simp: find_Some_iff)
  then have "m = n" using assms by (auto simp: node_ids_def distinct_map dest: inj_onD)
  with Some show ?thesis by simp
qed

lemma rep_id_node:
  "distinct (node_ids p) \<Longrightarrow> n \<in> set (plan_nodes p) \<Longrightarrow>
   rep_id dbg p (node_id n) = node_id (rep_node dbg p n)"
  by (simp add: rep_id_def find_node)

lemma canonical_rep_id:
  assumes d: "distinct (node_ids p)"
  shows "canonical_node i (dst_aliases (dedup_scan dbg p)) = Some (rep_id dbg p i)"
proof -
  let ?als = "dst_aliases (dedup_scan dbg p)"
  note inv = dedup_scan_inv [OF d, of dbg, unfolded dedup_inv_def]
  have root: "map_of ?als (node_id (rep_node dbg p n)) = None" if "n \<in> set (plan_nodes p)" for n
    using inv rep_in_mem [OF that, of dbg p] rep_in_idem [of dbg p "plan_nodes p" n]
    by (auto simp: rep_node_def)
  show ?thesis
  proof (cases "\<exists>n \<in> set (plan_nodes p). node_id n = i")
    case True
    then obtain n where n: "n \<in> set (plan_nodes p)" "node_id n = i" by auto
    show ?thesis
      using inv n root [OF n(1)] rep_id_node [OF d n(1), of dbg]
      by (subst canonical_node.simps, auto simp: rep_node_def)
        (subst canonical_node.simps, simp)
  next
    case False
    then have "i \<notin> node_id ` set (plan_nodes p)" by blast
    then have "map_of ?als i = None" using inv unfolding map_of_eq_None_iff by blast
    moreover have "find (\<lambda>n. node_id n = i) (plan_nodes p) = None"
      using False by (simp add: find_None_iff)
    ultimately show ?thesis by (subst canonical_node.simps) (simp add: rep_id_def)
  qed
qed

definition map_ref :: "(node_id \<Rightarrow> node_id) \<Rightarrow> value_ref \<Rightarrow> value_ref" where
  "map_ref f r = ValueRef (f (ref_node r)) (ref_path r)"

fun map_json_refs :: "(node_id \<Rightarrow> node_id) \<Rightarrow> json \<Rightarrow> json" where
  "map_json_refs f (JObj kvs) =
     (if singleton_obj kvs LITERAL_KEY \<noteq> None then JObj kvs
      else (case (case singleton_obj kvs REF_KEY of
                    Some (JStr raw_ref) \<Rightarrow> parse_value_ref raw_ref
                  | _ \<Rightarrow> Inl (InvalidRefText [])) of
          Inr r \<Rightarrow> JObj [(REF_KEY, JStr (value_ref_to_string (map_ref f r)))]
        | Inl _ \<Rightarrow> JObj (zip (map fst kvs) (map (\<lambda>kv. map_json_refs f (snd kv)) kvs))))"
| "map_json_refs f (JArr items) = JArr (map (\<lambda>item. map_json_refs f item) items)"
| "map_json_refs f v = v"

definition map_node_refs :: "(node_id \<Rightarrow> node_id) \<Rightarrow> node \<Rightarrow> node" where
  "map_node_refs f n =
     n\<lparr>node_depends_on := bs_of_list (map f (node_depends_on n)),
       node_for_each := map_option (map_ref f) (node_for_each n),
       node_when := map_option (\<lambda>w. w\<lparr>when_target := map_ref f (when_target w)\<rparr>) (node_when n),
       node_input := map_json_refs f (node_input n)\<rparr>"

lemma those_map_Some: "(\<And>x. x \<in> set xs \<Longrightarrow> f x = Some (g x)) \<Longrightarrow> those (map f xs) = Some (map g xs)"
  by (induction xs) auto

lemma rewrite_value_ref_total:
  "(\<And>i. canonical_node i als = Some (f i)) \<Longrightarrow> rewrite_value_ref r als = Some (map_ref f r)"
  by (simp add: rewrite_value_ref_def map_ref_def)

lemma rewrite_refs_total:
  assumes "\<And>i. canonical_node i als = Some (f i)"
  shows "rewrite_refs_in_value v als = Some (map_json_refs f v)"
proof (induction v rule: json_induct)
  case (JArr xs)
  then have "those (map (\<lambda>x. rewrite_refs_in_value x als) xs) = Some (map (map_json_refs f) xs)"
    by (intro those_map_Some) auto
  then show ?case by simp
next
  case (JObj kvs)
  then have "those (map (\<lambda>kv. rewrite_refs_in_value (snd kv) als) kvs)
      = Some (map (\<lambda>kv. map_json_refs f (snd kv)) kvs)"
    by (intro those_map_Some) auto
  then show ?case
    using rewrite_value_ref_total [OF assms]
    by (auto split: sum.split)
qed simp_all

lemma rewrite_node_total:
  assumes "\<And>i. canonical_node i als = Some (f i)"
  shows "rewrite_node_aliases n als = Some (map_node_refs f n)"
  using rewrite_value_ref_total [OF assms] rewrite_refs_total [OF assms] assms
  by (cases "node_for_each n"; cases "node_when n")
    (auto simp: rewrite_node_aliases_def map_node_refs_def rewrite_option_def comp_def
      those_map_Some [where g = f])

lemma rewrite_outputs_total:
  assumes "\<And>i. canonical_node i als = Some (f i)"
  shows "rewrite_outputs outs als = Some (map (\<lambda>(o', r). (o', map_ref f r)) outs)"
proof -
  have "those (map (\<lambda>kv. rewrite_value_ref (snd kv) als) outs) = Some (map (\<lambda>kv. map_ref f (snd kv)) outs)"
    by (rule those_map_Some) (rule rewrite_value_ref_total [OF assms])
  moreover have "zip (map fst outs) (map (\<lambda>kv. map_ref f (snd kv)) outs)
      = map (\<lambda>(o', r). (o', map_ref f r)) outs"
    by (induction outs) auto
  ultimately show ?thesis by (simp add: rewrite_outputs_def)
qed

section \<open>What deduplication does\<close>

lemma dedup_no_alias:
  assumes d: "distinct (node_ids p)" and none: "dst_aliases (dedup_scan dbg p) = []"
  shows "rep_id dbg p i = i"
proof (cases "\<exists>n \<in> set (plan_nodes p). node_id n = i")
  case True
  then obtain n where n: "n \<in> set (plan_nodes p)" "node_id n = i" by auto
  have "rep_in dbg p (plan_nodes p) n = n"
    using dedup_scan_inv [OF d, of dbg] none n(1) unfolding dedup_inv_def
    by (auto split: if_splits)
  then show ?thesis using rep_id_node [OF d n(1), of dbg] n(2) by (simp add: rep_node_def)
next
  case False
  then have "find (\<lambda>n. node_id n = i) (plan_nodes p) = None" by (auto simp: find_None_iff)
  then show ?thesis by (simp add: rep_id_def)
qed

definition survivors :: "debug_format \<Rightarrow> plan \<Rightarrow> node list" where
  "survivors dbg p = filter (\<lambda>n. rep_node dbg p n = n) (plan_nodes p)"

definition removals :: "debug_format \<Rightarrow> plan \<Rightarrow> deduplicated_node list" where
  "removals dbg p =
     map (\<lambda>n. \<lparr>dd_removed = node_id n, dd_canonical = node_id (rep_node dbg p n)\<rparr>)
       (filter (\<lambda>n. rep_node dbg p n \<noteq> n) (plan_nodes p))"

lemma dedup_aliases_Nil:
  assumes d: "distinct (node_ids p)"
  shows "dst_aliases (dedup_scan dbg p) = [] \<longleftrightarrow> removals dbg p = []"
proof -
  note inv = dedup_scan_inv [OF d, of dbg, unfolded dedup_inv_def]
  have "removals dbg p = [] \<longleftrightarrow> (\<forall>n \<in> set (plan_nodes p). rep_node dbg p n = n)"
    by (simp add: removals_def filter_empty_conv)
  also have "\<dots> \<longleftrightarrow> dst_aliases (dedup_scan dbg p) = []"
  proof
    assume all: "\<forall>n \<in> set (plan_nodes p). rep_node dbg p n = n"
    have "i \<notin> fst ` set (dst_aliases (dedup_scan dbg p))" for i
    proof
      assume i: "i \<in> fst ` set (dst_aliases (dedup_scan dbg p))"
      then have "i \<in> node_id ` set (plan_nodes p)" using inv by blast
      then obtain n where "n \<in> set (plan_nodes p)" "i = node_id n" by auto
      then have "map_of (dst_aliases (dedup_scan dbg p)) i = None"
        using inv all by (simp add: rep_node_def)
      with i show False unfolding map_of_eq_None_iff by blast
    qed
    then show "dst_aliases (dedup_scan dbg p) = []" by (cases "dst_aliases (dedup_scan dbg p)") auto
  next
    assume "dst_aliases (dedup_scan dbg p) = []"
    then show "\<forall>n \<in> set (plan_nodes p). rep_node dbg p n = n"
      using inv by (auto simp: rep_node_def split: if_splits)
  qed
  finally show ?thesis by blast
qed

lemma deduplicate_eq:
  assumes d: "distinct (node_ids p)"
  shows "deduplicate_nodes dbg p = Some
     (if removals dbg p = [] then p
      else p\<lparr>plan_nodes := map (map_node_refs (rep_id dbg p)) (survivors dbg p),
             plan_outputs := map (\<lambda>(o', r). (o', map_ref (rep_id dbg p) r)) (plan_outputs p)\<rparr>,
      removals dbg p)"
proof -
  note inv = dedup_scan_inv [OF d, of dbg, unfolded dedup_inv_def]
  have kept: "dst_kept (dedup_scan dbg p) = survivors dbg p"
    "dst_report (dedup_scan dbg p) = removals dbg p"
    using inv by (simp_all add: survivors_def removals_def rep_node_def)
  show ?thesis
  proof (cases "removals dbg p = []")
    case True
    then have "survivors dbg p = plan_nodes p"
      by (simp add: removals_def survivors_def filter_empty_conv)
    with True show ?thesis
      by (simp add: deduplicate_nodes_def Let_def kept dedup_aliases_Nil [OF d])
  next
    case False
    note canon = canonical_rep_id [OF d, of _ dbg]
    have "those (map (\<lambda>n. rewrite_node_aliases n (dst_aliases (dedup_scan dbg p))) (survivors dbg p))
        = Some (map (map_node_refs (rep_id dbg p)) (survivors dbg p))"
      by (rule those_map_Some) (rule rewrite_node_total [OF canon])
    with False show ?thesis
      by (simp add: deduplicate_nodes_def Let_def kept dedup_aliases_Nil [OF d]
          rewrite_outputs_total [OF canon])
  qed
qed

text \<open>
  C13. Deduplication returns whenever the node ids are distinct: the survivors are the first nodes of each key
  in plan order, every removed node is reported with its survivor, and each reference of a
  survivor and each output is redirected to the survivor of the node it names.
\<close>

theorem deduplicate_nodes_spec:
  assumes "distinct (node_ids p)"
  shows "deduplicate_nodes dbg p = Some
     (if removals dbg p = [] then p
      else p\<lparr>plan_nodes := map (map_node_refs (rep_id dbg p)) (survivors dbg p),
             plan_outputs := map (\<lambda>(o', r). (o', map_ref (rep_id dbg p) r)) (plan_outputs p)\<rparr>,
      removals dbg p)"
  using assms by (rule deduplicate_eq)

text \<open>The rendering of the optional fields: faithful on well-formed values, free of NUL.\<close>

definition wf_when :: "run_when \<Rightarrow> bool" where
  "wf_when w \<longleftrightarrow> valid_ref (when_target w) \<and> (case when_equals w of None \<Rightarrow> True | Some v \<Rightarrow> wf_json v)"

definition opt_all :: "('a \<Rightarrow> bool) \<Rightarrow> 'a option \<Rightarrow> bool" where
  "opt_all P x = (case x of None \<Rightarrow> True | Some y \<Rightarrow> P y)"

definition faithful_debug :: "debug_format \<Rightarrow> bool" where
  "faithful_debug dbg \<longleftrightarrow>
     inj_on (fmt_for_each dbg) {r. opt_all valid_ref r} \<and>
     inj_on (fmt_when dbg) {w. opt_all wf_when w} \<and>
     (\<forall>r. opt_all valid_ref r \<longrightarrow> key_sep \<notin> set (fmt_for_each dbg r)) \<and>
     (\<forall>w. opt_all wf_when w \<longrightarrow> key_sep \<notin> set (fmt_when dbg w))"

definition wf_node :: "node \<Rightarrow> bool" where
  "wf_node n \<longleftrightarrow> key_sep \<notin> set (node_tool n) \<and> wf_json (node_input n) \<and>
     opt_all valid_ref (node_for_each n) \<and> opt_all wf_when (node_when n)"

lemma sep_split:
  "c \<notin> set x \<Longrightarrow> c \<notin> set y \<Longrightarrow> x @ c # r = y @ c # s \<longleftrightarrow> x = y \<and> r = s"
proof (induction x arbitrary: y)
  case Nil
  then show ?case by (cases y) auto
next
  case (Cons a x)
  then show ?case by (cases y) auto
qed

lemma dedup_key_same_call:
  assumes dbg: "faithful_debug dbg" and wf: "wf_node n" "wf_node m"
    and k: "dedup_key dbg p n = Some k" "dedup_key dbg p m = Some k"
  shows "node_tool n = node_tool m \<and> node_input n = node_input m \<and>
     node_for_each n = node_for_each m \<and> node_when n = node_when m"
proof -
  have nul: "key_sep \<notin> set (canonical_json_string (node_input x))"
    "key_sep \<notin> set (fmt_for_each dbg (node_for_each x))"
    "key_sep \<notin> set (fmt_when dbg (node_when x))" "key_sep \<notin> set (node_tool x)"
    if "wf_node x" for x
    using that dbg canonical_no_nul by (auto simp: wf_node_def faithful_debug_def key_sep_def)
  have parts: "\<exists>e rest. tool_effects p (node_tool x) = Some e \<and>
      k = node_tool x @ key_sep # canonical_json_string (node_input x)
          @ key_sep # fmt_for_each dbg (node_for_each x)
          @ key_sep # fmt_when dbg (node_when x) @ rest \<and>
      (rest = [] \<longleftrightarrow> eff_pure e) \<and> (rest \<noteq> [] \<longrightarrow> hd rest = key_sep)"
    if "dedup_key dbg p x = Some k" for x
    using that by (auto simp: dedup_key_def Let_def split: option.splits if_splits)
  from parts [OF k(1)] obtain e1 r1 where n: "tool_effects p (node_tool n) = Some e1"
    "k = node_tool n @ key_sep # canonical_json_string (node_input n)
          @ key_sep # fmt_for_each dbg (node_for_each n)
          @ key_sep # fmt_when dbg (node_when n) @ r1"
    "r1 = [] \<longleftrightarrow> eff_pure e1" "r1 \<noteq> [] \<longrightarrow> hd r1 = key_sep" by blast
  from parts [OF k(2)] obtain e2 r2 where m: "tool_effects p (node_tool m) = Some e2"
    "k = node_tool m @ key_sep # canonical_json_string (node_input m)
          @ key_sep # fmt_for_each dbg (node_for_each m)
          @ key_sep # fmt_when dbg (node_when m) @ r2"
    "r2 = [] \<longleftrightarrow> eff_pure e2" "r2 \<noteq> [] \<longrightarrow> hd r2 = key_sep" by blast
  from n(2) m(2) nul [OF wf(1)] nul [OF wf(2)]
  have eq: "node_tool n = node_tool m"
    "canonical_json_string (node_input n) = canonical_json_string (node_input m)"
    "fmt_for_each dbg (node_for_each n) = fmt_for_each dbg (node_for_each m)"
    "fmt_when dbg (node_when n) @ r1 = fmt_when dbg (node_when m) @ r2"
    by (auto simp: sep_split)
  have "e1 = e2" using n(1) m(1) eq(1) by simp
  have "fmt_when dbg (node_when n) = fmt_when dbg (node_when m)"
  proof (cases "eff_pure e1")
    case True
    with \<open>e1 = e2\<close> n m eq(4) show ?thesis by simp
  next
    case False
    with \<open>e1 = e2\<close> n m obtain s1 s2 where "r1 = key_sep # s1" "r2 = key_sep # s2"
      by (metis list.collapse)
    with eq(4) nul(3) [OF wf(1)] nul(3) [OF wf(2)] show ?thesis by (auto simp: sep_split)
  qed
  moreover have "node_input n = node_input m"
    using canonical_inj eq(2) wf by (simp add: wf_node_def)
  ultimately show ?thesis
    using eq(1,3) wf dbg unfolding faithful_debug_def wf_node_def by (auto dest: inj_onD)
qed

text \<open>
  Deduplication is effect-gated and merges identical calls only: a removed node and its
  survivor call the same tool with the same input, the same iterated collection and the same
  guard, and that tool declares effects that are pure or cacheable.
\<close>

theorem dedup_merges_identical_calls:
  assumes "faithful_debug dbg" "\<forall>n \<in> set (plan_nodes p). wf_node n"
    and "n \<in> set (plan_nodes p)" "rep_node dbg p n \<noteq> n"
  shows "node_tool (rep_node dbg p n) = node_tool n \<and> node_input (rep_node dbg p n) = node_input n \<and>
     node_for_each (rep_node dbg p n) = node_for_each n \<and> node_when (rep_node dbg p n) = node_when n \<and>
     (\<exists>e. tool_effects p (node_tool n) = Some e \<and> (eff_pure e \<or> eff_cacheable e))"
proof -
  obtain k where k: "dedup_key dbg p n = Some k"
    using assms(4) by (auto simp: rep_node_def rep_in_def split: option.splits)
  then have k': "dedup_key dbg p (rep_node dbg p n) = Some k"
    using rep_in_key by (simp add: rep_node_def)
  have "wf_node n" "wf_node (rep_node dbg p n)"
    using assms(2,3) rep_in_mem [OF assms(3)] by (simp_all add: rep_node_def)
  from dedup_key_same_call [OF assms(1) this(2) this(1) k' k] k show ?thesis
    by (auto simp: dedup_key_def split: option.splits if_splits)
qed

section \<open>What dead-node elimination keeps\<close>

lemma mark_loop_superset: "set kept \<subseteq> set (mark_loop deps stack kept)"
  by (induction deps stack kept rule: mark_loop.induct) auto

lemma mark_loop_stack: "set stack \<subseteq> set (mark_loop deps stack kept)"
proof (induction deps stack kept rule: mark_loop.induct)
  case (2 deps n stack kept)
  then show ?case
    using mark_loop_superset [of kept deps stack]
      mark_loop_superset [of "n # kept" deps "rev (get_list deps n) @ stack"] by auto
qed simp

lemma mark_loop_closed:
  assumes "\<forall>n \<in> set kept. deps_of deps n \<subseteq> set kept \<union> set stack"
  shows "\<forall>n \<in> set (mark_loop deps stack kept). deps_of deps n \<subseteq> set (mark_loop deps stack kept)"
  using assms
proof (induction deps stack kept rule: mark_loop.induct)
  case (2 deps n stack kept)
  show ?case
  proof (cases "n \<in> set kept")
    case True
    with 2 show ?thesis by auto
  next
    case False
    have "\<forall>m \<in> set (n # kept). deps_of deps m \<subseteq> set (n # kept) \<union> set (rev (get_list deps n) @ stack)"
      using "2.prems" by (auto simp: deps_of_def)
    with "2.IH"(2) [OF False] False show ?thesis by simp
  qed
qed simp

lemma mark_loop_reachable:
  assumes "\<forall>n \<in> set stack \<union> set kept. \<exists>r \<in> R. (n, r) \<in> (dep_rel deps)\<^sup>*"
  shows "\<forall>n \<in> set (mark_loop deps stack kept). \<exists>r \<in> R. (n, r) \<in> (dep_rel deps)\<^sup>*"
  using assms
proof (induction deps stack kept rule: mark_loop.induct)
  case (2 deps n stack kept)
  show ?case
  proof (cases "n \<in> set kept")
    case True
    with 2 show ?thesis by auto
  next
    case False
    obtain r where r: "r \<in> R" "(n, r) \<in> (dep_rel deps)\<^sup>*" using "2.prems" by auto
    have "\<exists>r \<in> R. (m, r) \<in> (dep_rel deps)\<^sup>*" if "m \<in> set (get_list deps n)" for m
    proof -
      have "(m, n) \<in> dep_rel deps" using that by (simp add: dep_rel_def deps_of_def)
      with r show ?thesis by (meson converse_rtrancl_into_rtrancl)
    qed
    with "2.prems" have "\<forall>m \<in> set (rev (get_list deps n) @ stack) \<union> set (n # kept).
        \<exists>r \<in> R. (m, r) \<in> (dep_rel deps)\<^sup>*" by auto
    with "2.IH"(2) [OF False] False show ?thesis by simp
  qed
qed simp

lemma closed_rtrancl:
  "(n, r) \<in> (dep_rel deps)\<^sup>* \<Longrightarrow> r \<in> K \<Longrightarrow> \<forall>m \<in> K. deps_of deps m \<subseteq> K \<Longrightarrow> n \<in> K"
  by (induction rule: converse_rtrancl_induct) (auto simp: dep_rel_def)

lemma set_mark_loop:
  "set (mark_loop deps (rev roots) []) = {n. \<exists>r \<in> set roots. (n, r) \<in> (dep_rel deps)\<^sup>*}"
proof
  show "set (mark_loop deps (rev roots) []) \<subseteq> {n. \<exists>r \<in> set roots. (n, r) \<in> (dep_rel deps)\<^sup>*}"
    using mark_loop_reachable [of "rev roots" "[]" "set roots" deps] by auto
  show "{n. \<exists>r \<in> set roots. (n, r) \<in> (dep_rel deps)\<^sup>*} \<subseteq> set (mark_loop deps (rev roots) [])"
  proof clarify
    fix n r assume "r \<in> set roots" "(n, r) \<in> (dep_rel deps)\<^sup>*"
    moreover have "set roots \<subseteq> set (mark_loop deps (rev roots) [])"
      using mark_loop_stack [of "rev roots" deps "[]"] by simp
    ultimately show "n \<in> set (mark_loop deps (rev roots) [])"
      using closed_rtrancl mark_loop_closed [of "[]" deps "rev roots"] by auto
  qed
qed

text \<open>What the loop marks: everything a root of the code reaches in the graph.\<close>

definition live :: "plan \<Rightarrow> execution_graph \<Rightarrow> node_id \<Rightarrow> bool" where
  "live p g i \<longleftrightarrow> (\<exists>r \<in> set (dead_roots p g). (i, r) \<in> (dep_rel (g_dependencies g))\<^sup>*)"

lemma eliminate_dead_nodes_eq:
  "eliminate_dead_nodes p g =
     (if plan_outputs p = [] then (p, [])
      else (p\<lparr>plan_nodes := filter (\<lambda>n. live p g (node_id n)) (plan_nodes p)\<rparr>,
            map node_id (filter (\<lambda>n. \<not> live p g (node_id n)) (plan_nodes p))))"
proof -
  have l: "n \<in> set (mark_loop (g_dependencies g) (rev (dead_roots p g)) []) \<longleftrightarrow> live p g n" for n
    by (simp add: set_mark_loop live_def)
  have "filter (\<lambda>n. live p g (node_id n)) (plan_nodes p) = plan_nodes p"
    if "filter (\<lambda>n. \<not> live p g (node_id n)) (plan_nodes p) = []"
    using that by (simp add: filter_empty_conv filter_id_conv)
  then show ?thesis by (auto simp: eliminate_dead_nodes_def Let_def l)
qed

lemma graph_of_validate:
  assumes "validate p = Inr g"
  shows "structural p" "acyclic (plan_dep_rel p)" "g_dependencies g = plan_deps p"
    "g_resolved_effects g = plan_effects p"
    "layers_sound (plan_deps p) (plan_effects p) (g_layers g)"
    "set (concat (g_layers g)) = set (node_ids p)" "distinct (node_ids p)"
proof -
  show s: "structural p" using assms validate_not_structural [of p] by force
  from validate_dichotomy [OF s] assms
  show "acyclic (plan_dep_rel p)" "g_dependencies g = plan_deps p"
    "g_resolved_effects g = plan_effects p"
    "layers_sound (plan_deps p) (plan_effects p) (g_layers g)"
    "set (concat (g_layers g)) = set (node_ids p)" by auto
  show "distinct (node_ids p)" using s by (simp add: structural_def)
qed

lemma live_impure:
  assumes "validate p = Inr g" "n \<in> set (plan_nodes p)"
    and "\<forall>e. tool_effects p (node_tool n) = Some e \<longrightarrow> \<not> eff_pure e"
  shows "live p g (node_id n)"
proof -
  note G = graph_of_validate [OF assms(1)]
  have "(node_id n, for_node n (tool_effects p (node_tool n))) \<in> set (g_resolved_effects g)"
    using plan_effects_lookup [OF G(7) assms(2)] G(4) map_of_SomeD by metis
  moreover have "\<not> rfx_pure (for_node n (tool_effects p (node_tool n)))"
    using assms(3) by (auto simp: for_node_def split: option.split)
  ultimately have "node_id n \<in> set (dead_roots p g)"
    unfolding dead_roots_def by (force simp: image_iff)
  then show ?thesis by (auto simp: live_def)
qed

lemma live_output:
  assumes "validate p = Inr g" "(out, r) \<in> set (plan_outputs p)"
  shows "live p g (ref_node r)"
proof -
  note G = graph_of_validate [OF assms(1)]
  have "ref_node r \<in> set (node_ids p)" using G(1) assms(2) by (auto simp: structural_def)
  then have "bt_mem (ref_node r) (g_dependencies g)"
    unfolding bt_mem_iff G(3) fst_set_plan_deps .
  then have "ref_node r \<in> set (dead_roots p g)"
    using assms(2) unfolding dead_roots_def by force
  then show ?thesis by (auto simp: live_def)
qed

lemma live_closed:
  assumes "validate p = Inr g"
  shows "closed_nodes p {i. live p g i}"
proof -
  note G = graph_of_validate [OF assms]
  have "live p g d" if "n \<in> set (plan_nodes p)" "live p g (node_id n)" "d \<in> set (declared_deps n)" for n d
  proof -
    have "(d, node_id n) \<in> dep_rel (g_dependencies g)"
      using that G(3) deps_of_plan_deps [OF G(7) that(1)] by (simp add: dep_rel_def)
    with that(2) show ?thesis unfolding live_def by (meson converse_rtrancl_into_rtrancl)
  qed
  with live_output [OF assms] show ?thesis unfolding closed_nodes_def by blast
qed

text \<open>
  The nodes a plan needs, read off the plan alone: those an output refers to, those of a tool that
  is not declared pure, and what a needed node depends on.
\<close>

inductive needed :: "plan \<Rightarrow> node_id \<Rightarrow> bool" for p where
  needed_output: "(out, r) \<in> set (plan_outputs p) \<Longrightarrow> needed p (ref_node r)"
| needed_impure: "n \<in> set (plan_nodes p) \<Longrightarrow> \<forall>e. tool_effects p (node_tool n) = Some e \<longrightarrow> \<not> eff_pure e \<Longrightarrow>
    needed p (node_id n)"
| needed_dep: "needed p (node_id n) \<Longrightarrow> n \<in> set (plan_nodes p) \<Longrightarrow> d \<in> set (declared_deps n) \<Longrightarrow> needed p d"

lemma dead_root_needed:
  assumes "validate p = Inr g" "i \<in> set (dead_roots p g)"
  shows "needed p i"
proof -
  note G = graph_of_validate [OF assms(1)]
  from assms(2) consider (sink) out r where "(out, r) \<in> set (plan_outputs p)" "i = ref_node r"
    | (impure) fx where "(i, fx) \<in> set (plan_effects p)" "\<not> rfx_pure fx"
    unfolding dead_roots_def G(4) by auto
  then show ?thesis
  proof cases
    case sink
    then show ?thesis using needed_output by blast
  next
    case impure
    then obtain n where n: "(i, n) \<in> set (node_index (plan_nodes p))" "fx = for_node n (tool_effects p (node_tool n))"
      by (auto simp: plan_effects_def resolve_effects_def)
    have "i = node_id n \<and> n \<in> set (plan_nodes p)" using n(1) G(7) by (auto simp: set_node_index node_ids_def)
    with impure(2) n(2) show ?thesis by (auto intro!: needed_impure simp: for_node_def split: option.splits)
  qed
qed

lemma live_needed:
  assumes "validate p = Inr g"
  shows "live p g i \<longleftrightarrow> needed p i"
proof
  assume "live p g i"
  then obtain r where r: "r \<in> set (dead_roots p g)" "(i, r) \<in> (plan_dep_rel p)\<^sup>*"
    using graph_of_validate [OF assms] dep_rel_plan_deps by (auto simp: live_def)
  from r(2) dead_root_needed [OF assms r(1)] show "needed p i"
    by (induction rule: converse_rtrancl_induct) (auto simp: plan_dep_rel_def intro: needed_dep)
next
  assume "needed p i"
  then show "live p g i"
  proof induction
    case (needed_dep n d)
    with live_closed [OF assms] show ?case by (auto simp: closed_nodes_def)
  qed (use live_output [OF assms] live_impure [OF assms] in auto)
qed

text \<open>
  C14. Dead-node elimination keeps exactly the needed nodes, those that an output or a node of a
  tool that is not declared pure reaches through dependencies, in plan order, and reports the
  rest, all of them pure; without outputs it changes nothing. No output and no kept node depends
  on a removed one. Neither the graph nor the loop occurs in what is meant by needed.
\<close>

theorem eliminate_dead_nodes_spec:
  assumes "validate p = Inr g"
  shows "eliminate_dead_nodes p g =
     (if plan_outputs p = [] then (p, [])
      else (p\<lparr>plan_nodes := filter (\<lambda>n. needed p (node_id n)) (plan_nodes p)\<rparr>,
            map node_id (filter (\<lambda>n. \<not> needed p (node_id n)) (plan_nodes p)))) \<and>
    closed_nodes p {i. needed p i} \<and>
    (\<forall>n \<in> set (plan_nodes p). \<not> needed p (node_id n) \<longrightarrow>
       (\<exists>e. tool_effects p (node_tool n) = Some e \<and> eff_pure e))"
  using eliminate_dead_nodes_eq [of p g] live_closed [OF assms] live_impure [OF assms] unfolding live_needed [OF assms]
  by blast

section \<open>Batch groups\<close>

lemma concat_chunks [simp]: "concat (chunks k xs) = xs"
  by (induction k xs rule: chunks.induct) auto

lemma length_chunk: "c \<in> set (chunks k xs) \<Longrightarrow> length c \<le> max 1 k"
  by (induction k xs rule: chunks.induct) auto

lemma chunks_single: "xs \<noteq> [] \<Longrightarrow> length xs \<le> k \<Longrightarrow> chunks k xs = [xs]"
  by (cases xs) auto

text \<open>The ids of a layer that are batchable calls of one tool.\<close>

definition batchable_ids :: "plan \<Rightarrow> (node_id, node) btree \<Rightarrow> node_id list \<Rightarrow> tool_name \<Rightarrow> node_id list" where
  "batchable_ids p idx layer tool =
     filter (\<lambda>i. case map_of idx i of None \<Rightarrow> False
       | Some n \<Rightarrow> is_batchable p n \<and> node_tool n = tool) layer"

lemma layer_by_tool_spec:
  assumes "\<And>i n. map_of idx i = Some n \<Longrightarrow> node_id n = i"
  shows "bt_ok (layer_by_tool p idx layer) \<and>
    get_list (layer_by_tool p idx layer) tool = batchable_ids p idx layer tool"
proof (induction layer rule: rev_induct)
  case (snoc i layer)
  then show ?case
    using assms [of i] by (auto simp: layer_by_tool_def batchable_ids_def split: option.split)
qed (simp add: layer_by_tool_def batchable_ids_def)

lemma distinct_concat_map:
  assumes "distinct xs" "\<And>x. x \<in> set xs \<Longrightarrow> distinct (f x)"
    and "\<And>x y. x \<in> set xs \<Longrightarrow> y \<in> set xs \<Longrightarrow> x \<noteq> y \<Longrightarrow> set (f x) \<inter> set (f y) = {}"
  shows "distinct (concat (map f xs))"
  using assms
proof (induction xs)
  case (Cons x xs)
  have "set (f x) \<inter> set (concat (map f xs)) = {}" using Cons.prems(1,3) by fastforce
  with Cons show ?case by simp
qed simp

definition groups_nodes :: "batch_group list \<Rightarrow> node_id list" where
  "groups_nodes gs = concat (map bg_nodes gs)"

lemma groups_nodes_append: "groups_nodes (concat (map f xs)) = concat (map (\<lambda>x. groups_nodes (f x)) xs)"
  by (induction xs) (auto simp: groups_nodes_def)

lemma tool_groups_nodes:
  "set (groups_nodes (tool_groups p (tool, ns))) \<subseteq> set ns"
  "distinct ns \<Longrightarrow> distinct (groups_nodes (tool_groups p (tool, ns)))"
proof -
  let ?k = "batch_size_of p tool (length ns)"
  have e: "groups_nodes (tool_groups p (tool, ns)) = concat (filter (\<lambda>c. 1 < length c) (chunks ?k ns))"
    by (simp add: groups_nodes_def tool_groups_def comp_def)
  have sub: "set (concat (filter P cs)) \<subseteq> set (concat cs)" for P and cs :: "node_id list list"
    by auto
  have dis: "distinct (concat cs) \<Longrightarrow> distinct (concat (filter P cs))" for P and cs :: "node_id list list"
    by (induction cs) auto
  show "set (groups_nodes (tool_groups p (tool, ns))) \<subseteq> set ns"
    unfolding e using sub [of "\<lambda>c. 1 < length c" "chunks ?k ns"] by (simp only: concat_chunks)
  show "distinct (groups_nodes (tool_groups p (tool, ns)))" if "distinct ns"
    unfolding e by (rule dis) (simp add: that)
qed

text \<open>Every entry of the map is the batchable ids of its tool.\<close>

lemma layer_by_tool_entry:
  assumes "\<And>i n. map_of idx i = Some n \<Longrightarrow> node_id n = i"
    and "(tool, ns) \<in> set (layer_by_tool p idx layer)"
  shows "ns = batchable_ids p idx layer tool"
proof -
  have "bt_ok (layer_by_tool p idx layer)" using layer_by_tool_spec [OF assms(1)] by blast
  from get_list_entry [OF this assms(2)] show ?thesis
    using layer_by_tool_spec [OF assms(1)] by metis
qed

lemma batchable_ids_disjoint:
  "tool \<noteq> tool' \<Longrightarrow> set (batchable_ids p idx layer tool) \<inter> set (batchable_ids p idx layer tool') = {}"
  by (auto simp: batchable_ids_def split: option.splits)

lemma layer_groups_distinct:
  assumes idx: "\<And>i n. map_of idx i = Some n \<Longrightarrow> node_id n = i" and d: "distinct layer"
  shows "distinct (groups_nodes (concat (map (tool_groups p) (layer_by_tool p idx layer))))"
    and "set (groups_nodes (concat (map (tool_groups p) (layer_by_tool p idx layer)))) \<subseteq> set layer"
proof -
  let ?m = "layer_by_tool p idx layer"
  have ent: "snd e = batchable_ids p idx layer (fst e)" if "e \<in> set ?m" for e
    using that layer_by_tool_entry [OF idx, where tool = "fst e" and ns = "snd e"] by simp
  have g: "set (groups_nodes (tool_groups p e)) \<subseteq> set (batchable_ids p idx layer (fst e))"
    "distinct (groups_nodes (tool_groups p e))" if "e \<in> set ?m" for e
  proof -
    have e: "e = (fst e, batchable_ids p idx layer (fst e))" using ent [OF that] by (cases e) simp
    have "distinct (batchable_ids p idx layer (fst e))" using d by (simp add: batchable_ids_def)
    then show "set (groups_nodes (tool_groups p e)) \<subseteq> set (batchable_ids p idx layer (fst e))"
      "distinct (groups_nodes (tool_groups p e))"
      using tool_groups_nodes [where p = p and tool = "fst e"] e by metis+
  qed
  have dm: "distinct (map fst ?m)" using layer_by_tool_spec [OF idx] bt_ok_distinct by blast
  have disj: "set (groups_nodes (tool_groups p e)) \<inter> set (groups_nodes (tool_groups p e')) = {}"
    if "e \<in> set ?m" "e' \<in> set ?m" "e \<noteq> e'" for e e'
  proof -
    have "fst e \<noteq> fst e'" using dm that by (auto simp: distinct_map dest: inj_onD)
    then show ?thesis using g(1) [OF that(1)] g(1) [OF that(2)] batchable_ids_disjoint by blast
  qed
  show "distinct (groups_nodes (concat (map (tool_groups p) ?m)))"
    unfolding groups_nodes_append
    by (rule distinct_concat_map) (use dm g(2) disj in \<open>auto simp: distinct_map\<close>)
  show "set (groups_nodes (concat (map (tool_groups p) ?m))) \<subseteq> set layer"
    unfolding groups_nodes_append using g(1) by (fastforce simp: batchable_ids_def)
qed

lemma bt_index_lookup:
  "map_of (bt_of_list (map (\<lambda>n. (node_id n, n)) ns)) i = Some n \<Longrightarrow> node_id n = i \<and> n \<in> set ns"
proof -
  assume a: "map_of (bt_of_list (map (\<lambda>n. (node_id n, n)) ns)) i = Some n"
  then have "(i, n) \<in> set (rev (map (\<lambda>n. (node_id n, n)) ns))"
    unfolding bt_get_of_list by (rule map_of_SomeD)
  then show ?thesis by auto
qed

text \<open>What a group promises the runtime: at least two batchable calls of one tool in one layer.\<close>

definition group_ok :: "plan \<Rightarrow> execution_graph \<Rightarrow> batch_group \<Rightarrow> bool" where
  "group_ok p g b \<longleftrightarrow>
     2 \<le> length (bg_nodes b) \<and>
     length (bg_nodes b) \<le> max 1 (case Option.bind (map_of (plan_tools p) (bg_tool b)) spec_limits of
        Some limits \<Rightarrow> (case lim_batch_size limits of Some k \<Rightarrow> k | None \<Rightarrow> length (bg_nodes b))
      | None \<Rightarrow> length (bg_nodes b)) \<and>
     bg_adapter b = adapter_of p (bg_tool b) \<and>
     (\<exists>layer \<in> set (g_layers g). set (bg_nodes b) \<subseteq> set layer) \<and>
     (\<forall>i \<in> set (bg_nodes b). \<exists>n \<in> set (plan_nodes p).
        node_id n = i \<and> node_tool n = bg_tool b \<and> is_batchable p n)"

lemma find_batch_groups_ok:
  assumes "b \<in> set (find_batch_groups p g)"
  shows "group_ok p g b"
proof -
  let ?idx = "bt_of_list (map (\<lambda>n. (node_id n, n)) (plan_nodes p))"
  have idx: "\<And>i n. map_of ?idx i = Some n \<Longrightarrow> node_id n = i" using bt_index_lookup by blast
  from assms obtain layer tool ns where layer: "layer \<in> set (g_layers g)"
    and e: "(tool, ns) \<in> set (layer_by_tool p ?idx layer)" and b: "b \<in> set (tool_groups p (tool, ns))"
    by (auto simp: find_batch_groups_def Let_def)
  have ns: "ns = batchable_ids p ?idx layer tool" by (rule layer_by_tool_entry [OF idx e])
  from b obtain c where c: "c \<in> set (chunks (batch_size_of p tool (length ns)) ns)" "1 < length c"
    "b = \<lparr>bg_adapter = adapter_of p tool, bg_tool = tool, bg_nodes = c\<rparr>"
    by (auto simp: tool_groups_def)
  have "set c \<subseteq> set (concat (chunks (batch_size_of p tool (length ns)) ns))"
    unfolding set_concat using c(1) by blast
  then have sub: "set c \<subseteq> set ns" by (simp only: concat_chunks)
  have mem: "\<exists>n \<in> set (plan_nodes p). node_id n = i \<and> node_tool n = tool \<and> is_batchable p n"
    if "i \<in> set c" for i
  proof -
    from that sub ns have "i \<in> set (batchable_ids p ?idx layer tool)" by auto
    then obtain n where "map_of ?idx i = Some n" "is_batchable p n" "node_tool n = tool"
      by (auto simp: batchable_ids_def split: option.splits)
    with bt_index_lookup show ?thesis by blast
  qed
  moreover have "set c \<subseteq> set layer" using sub unfolding ns by (auto simp: batchable_ids_def)
  ultimately show ?thesis
    using c(2) layer length_chunk [OF c(1)] unfolding group_ok_def c(3) batch_size_of_def
    by (auto split: option.splits)
qed

lemma find_batch_groups_disjoint:
  assumes "distinct (concat (g_layers g))"
  shows "distinct (groups_nodes (find_batch_groups p g))"
proof -
  let ?idx = "bt_of_list (map (\<lambda>n. (node_id n, n)) (plan_nodes p))"
  have idx: "\<And>i n. map_of ?idx i = Some n \<Longrightarrow> node_id n = i" using bt_index_lookup by blast
  have "distinct (concat (map (\<lambda>layer. groups_nodes (concat (map (tool_groups p) (layer_by_tool p ?idx layer)))) ls)) \<and>
     set (concat (map (\<lambda>layer. groups_nodes (concat (map (tool_groups p) (layer_by_tool p ?idx layer)))) ls)) \<subseteq> set (concat ls)"
    if "distinct (concat ls)" for ls
    using that
  proof (induction ls)
    case (Cons l ls)
    then have d: "distinct l" "distinct (concat ls)" "set l \<inter> set (concat ls) = {}" by auto
    note G = layer_groups_distinct [where p = p, OF idx d(1)] Cons.IH [OF d(2)]
    then show ?case using d(3) unfolding list.map concat.simps distinct_append set_append by blast
  qed simp
  with assms show ?thesis unfolding find_batch_groups_def Let_def groups_nodes_append by blast
qed

text \<open>
  Every batch group is at least two batchable, not iterated calls of one tool in one layer,
  within the tool's batch size, and no node is in two groups.
\<close>

theorem find_batch_groups_spec:
  assumes "validate p = Inr g"
  shows "(\<forall>b \<in> set (find_batch_groups p g). group_ok p g b) \<and>
     distinct (concat (map bg_nodes (find_batch_groups p g)))"
  using find_batch_groups_ok find_batch_groups_disjoint graph_of_validate(5) [OF assms]
  unfolding groups_nodes_def layers_sound_def by blast

section \<open>Two limits of the alias rewriting\<close>

text \<open>With a repeated id the alias map can hold a cycle, and following it does not end.\<close>

lemma canonical_node_trapped:
  assumes "canonical_node i als = Some j" "i \<in> S" "\<And>k. k \<in> S \<Longrightarrow> \<exists>l \<in> S. map_of als k = Some l"
  shows False
proof -
  have "i \<in> S \<longrightarrow> (\<forall>k \<in> S. \<exists>l \<in> S. map_of als k = Some l) \<longrightarrow> False"
  proof (rule canonical_node.raw_induct [where P = "\<lambda>i als j. i \<in> S \<longrightarrow>
          (\<forall>k \<in> S. \<exists>l \<in> S. map_of als k = Some l) \<longrightarrow> False", OF _ assms(1)], intro impI)
    fix canon als and cur res :: node_id
    assume ih: "\<And>i als j. canon i als = Some j \<Longrightarrow>
        i \<in> S \<longrightarrow> (\<forall>k \<in> S. \<exists>l \<in> S. map_of als k = Some l) \<longrightarrow> False"
      and e: "(case map_of als cur of None \<Rightarrow> Some cur | Some nxt \<Rightarrow> canon nxt als) = Some res"
      and c: "cur \<in> S" "\<forall>k \<in> S. \<exists>l \<in> S. map_of als k = Some l"
    then obtain l where "l \<in> S" "map_of als cur = Some l" by blast
    with e have "canon l als = Some res" by simp
    from ih [OF this] \<open>l \<in> S\<close> c(2) show False by blast
  qed
  with assms(2,3) show False by blast
qed

text \<open>The plan that repeats one pure node, id and all.\<close>

definition pure_tool :: tool_spec where
  "pure_tool = (tool_spec_new ''builtin'')\<lparr>spec_effects := Some effects_pure\<rparr>"

definition repeated_plan :: plan where
  "repeated_plan = plan_new\<lparr>plan_tools := [(''id'', pure_tool)],
     plan_nodes := [node_new ''a'' ''id'', node_new ''a'' ''id''],
     plan_outputs := [(''out'', ValueRef ''a'' [])]\<rparr>"

lemma dedup_seen_new:
  "\<forall>x \<in> set xs. dedup_key dbg p x \<noteq> Some k \<Longrightarrow> map_of (dst_seen (foldl (dedup_step dbg p) st xs)) k = map_of (dst_seen st) k"
proof (induction xs arbitrary: st)
  case (Cons x xs)
  have "map_of (dst_seen (dedup_step dbg p st x)) k = map_of (dst_seen st) k"
    using Cons.prems by (auto simp: dedup_step_def split: option.split)
  with Cons show ?case by simp
qed simp

lemma dedup_seen_kept:
  "map_of (dst_seen st) k = Some i \<Longrightarrow> map_of (dst_seen (foldl (dedup_step dbg p) st xs)) k = Some i"
proof (induction xs arbitrary: st)
  case (Cons x xs)
  have "map_of (dst_seen (dedup_step dbg p st x)) k = Some i"
    using Cons.prems by (auto simp: dedup_step_def split: option.split)
  with Cons.IH show ?case by simp
qed simp

lemma dedup_alias_kept:
  "\<forall>x \<in> set xs. node_id x \<noteq> i \<Longrightarrow> map_of (dst_aliases (foldl (dedup_step dbg p) st xs)) i = map_of (dst_aliases st) i"
proof (induction xs arbitrary: st)
  case (Cons x xs)
  have "map_of (dst_aliases (dedup_step dbg p st x)) i = map_of (dst_aliases st) i"
    using Cons.prems by (auto simp: dedup_step_def split: option.split)
  with Cons show ?case by simp
qed simp

lemma those_none: "None \<in> set xs \<Longrightarrow> those xs = None"
  by (induction xs) (auto split: option.split)

lemma self_alias_diverges:
  assumes "map_of (dst_aliases (dedup_scan dbg p)) i = Some i" "(out, r) \<in> set (plan_outputs p)" "ref_node r = i"
  shows "deduplicate_nodes dbg p = None"
proof -
  let ?als = "dst_aliases (dedup_scan dbg p)"
  have "canonical_node i ?als = None"
    using canonical_node_trapped [of i ?als _ "{i}"] assms(1) by (cases "canonical_node i ?als") auto
  then have "rewrite_value_ref r ?als = None" using assms(3) by (simp add: rewrite_value_ref_def)
  then have "None \<in> set (map (\<lambda>kv. rewrite_value_ref (snd kv) ?als) (plan_outputs p))" using assms(2) by force
  then have "those (map (\<lambda>kv. rewrite_value_ref (snd kv) ?als) (plan_outputs p)) = None" by (rule those_none)
  then have "rewrite_outputs (plan_outputs p) ?als = None" by (simp add: rewrite_outputs_def)
  moreover have "?als \<noteq> []" using assms(1) by auto
  ultimately show ?thesis by (auto simp: deduplicate_nodes_def Let_def split: bind_split)
qed

text \<open>
  C16. Deduplication runs before validation, and it does not return on a plan that repeats a node
  with its id, when the two have the same deduplication key (they are the same call of a pure or
  cacheable tool), no node before them has that key, no node after them has that id, and an
  output refers to it: the id becomes an alias of itself, and following the alias loops.
  Validation on its own rejects such a plan.
\<close>

theorem dedup_diverges_on_repeated_id:
  assumes "plan_nodes p = xs @ n # ys @ m # zs" "node_id m = node_id n"
    and "dedup_key dbg p n = Some k" "dedup_key dbg p m = Some k" "\<forall>x \<in> set xs. dedup_key dbg p x \<noteq> Some k"
    and "\<forall>z \<in> set zs. node_id z \<noteq> node_id n" "(out, r) \<in> set (plan_outputs p)" "ref_node r = node_id n"
  shows "deduplicate_nodes dbg p = None \<and> (\<exists>e. validate p = Inl e)"
proof
  define s1 where "s1 = foldl (dedup_step dbg p) dedup_init xs"
  define s2 where "s2 = foldl (dedup_step dbg p) (dedup_step dbg p s1 n) ys"
  have "map_of (dst_seen s1) k = None"
    unfolding s1_def dedup_seen_new [OF assms(5)] by (simp add: dedup_init_def)
  then have "map_of (dst_seen (dedup_step dbg p s1 n)) k = Some (node_id n)"
    by (simp add: dedup_step_def assms(3))
  then have "map_of (dst_seen s2) k = Some (node_id n)" unfolding s2_def by (rule dedup_seen_kept)
  then have "map_of (dst_aliases (dedup_step dbg p s2 m)) (node_id n) = Some (node_id n)"
    by (simp add: dedup_step_def assms(2,4))
  then have "map_of (dst_aliases (dedup_scan dbg p)) (node_id n) = Some (node_id n)"
    unfolding dedup_scan_def assms(1) s2_def s1_def foldl_append foldl_Cons dedup_alias_kept [OF assms(6)] .
  then show "deduplicate_nodes dbg p = None" by (rule self_alias_diverges [OF _ assms(7,8)])
  have "\<not> structural p" using assms(1,2) by (simp add: structural_def node_ids_def)
  from validate_not_structural [OF this] show "\<exists>e. validate p = Inl e" by blast
qed

text \<open>The comma-joined ordering context does not tell two dependencies from one with a comma.\<close>

lemma ordering_context_collision:
  assumes "node_tool n = node_tool m" "node_input n = node_input m" "node_for_each n = node_for_each m"
    and "node_when n = node_when m" "node_depends_on n = [''a,b'']" "node_depends_on m = [''a'', ''b'']"
  shows "dedup_key dbg p n = dedup_key dbg p m"
  unfolding dedup_key_def assms by (simp add: Let_def split: option.split)

section \<open>Concrete instances\<close>

text \<open>A rendering with the assumed properties: the JSON text of the two optional fields.\<close>

definition when_json :: "run_when \<Rightarrow> json" where
  "when_json w = JArr [JStr (value_ref_to_string (when_target w)),
     JArr (case when_equals w of None \<Rightarrow> [] | Some v \<Rightarrow> [v]), JBool (when_not w)]"

definition json_debug :: debug_format where
  "json_debug =
     \<lparr>fmt_for_each = (\<lambda>r. case r of None \<Rightarrow> ''None''
        | Some r \<Rightarrow> canonical_json_string (JStr (value_ref_to_string r))),
      fmt_when = (\<lambda>w. case w of None \<Rightarrow> ''None'' | Some w \<Rightarrow> canonical_json_string (when_json w))\<rparr>"

lemma value_ref_to_string_inj:
  "valid_ref r \<Longrightarrow> valid_ref s \<Longrightarrow> value_ref_to_string r = value_ref_to_string s \<Longrightarrow> r = s"
  using parse_display by (metis Inr_inject)

lemma faithful_json_debug: "faithful_debug json_debug"
proof -
  have fe: "r = s" if "opt_all valid_ref r" "opt_all valid_ref s"
      "fmt_for_each json_debug r = fmt_for_each json_debug s" for r s
  proof (cases r; cases s)
    fix r' s' assume rs: "r = Some r'" "s = Some s'"
    with that have "JStr (value_ref_to_string r') = JStr (value_ref_to_string s')"
      by (intro canonical_inj) (simp_all add: json_debug_def)
    with rs that value_ref_to_string_inj show ?thesis by (simp add: opt_all_def)
  qed (use that in \<open>simp_all add: json_debug_def write_json_string_def\<close>)
  have wf: "wf_json (when_json w)" if "wf_when w" for w
    using that by (auto simp: when_json_def wf_when_def split: option.splits)
  have wh: "v = w" if "opt_all wf_when v" "opt_all wf_when w"
      "fmt_when json_debug v = fmt_when json_debug w" for v w
  proof (cases v; cases w)
    fix v' w' assume vw: "v = Some v'" "w = Some w'"
    with that have "wf_when v'" "wf_when w'" by (simp_all add: opt_all_def)
    moreover have "when_json v' = when_json w'"
      using that vw wf calculation by (intro canonical_inj) (simp_all add: json_debug_def)
    ultimately have "v' = w'"
      using value_ref_to_string_inj by (cases v'; cases w')
        (auto simp: when_json_def wf_when_def split: option.splits)
    with vw show ?thesis by simp
  qed (use that in \<open>simp_all add: json_debug_def when_json_def\<close>)
  have nul: "key_sep \<notin> set (canonical_json_string (JStr s))" for s
    using canonical_no_nul [of "JStr s"] by (simp add: key_sep_def)
  have nulw: "key_sep \<notin> set (canonical_json_string (when_json w))" if "wf_when w" for w
    using canonical_no_nul [OF wf [OF that]] by (simp add: key_sep_def)
  show ?thesis
    unfolding faithful_debug_def
  proof (intro conjI inj_onI allI impI)
    fix r assume "opt_all valid_ref r"
    show "key_sep \<notin> set (fmt_for_each json_debug r)"
      using nul by (cases r) (auto simp: json_debug_def key_sep_def simp del: canonical_json_string.simps)
  next
    fix w assume "opt_all wf_when w"
    then show "key_sep \<notin> set (fmt_when json_debug w)"
      using nulw by (cases w) (auto simp: json_debug_def key_sep_def opt_all_def)
  qed (use fe wh in auto)
qed

text \<open>A plan with a duplicate read, a dead pure node and a batchable pair.\<close>

definition batch_tool :: tool_spec where
  "batch_tool = (tool_spec_new ''builtin'')\<lparr>spec_effects :=
     Some ((effects_read_only [''db''])\<lparr>eff_batchable := True, eff_cacheable := False\<rparr>)\<rparr>"

definition passes_plan :: plan where
  "passes_plan = plan_new\<lparr>
     plan_tools := [(''get'', batch_tool), (''id'', pure_tool), (''read'', read_tool)],
     plan_nodes := [file_node ''a'' ''read'' ''x'', file_node ''b'' ''read'' ''x'',
        node_new ''g1'' ''get'', node_new ''g2'' ''get'', node_new ''p'' ''id''],
     plan_outputs := [(''out'', ValueRef ''b'' [''text''])]\<rparr>"

definition passes_graph :: execution_graph where
  "passes_graph = (case validate passes_plan of Inr g \<Rightarrow> g)"

lemma passes_valid: "validate passes_plan = Inr passes_graph"
  by code_simp

theorem deduplicate_nodes_spec_witness:
  "map_option (\<lambda>(p, r). (node_ids p, plan_outputs p, r)) (deduplicate_nodes json_debug passes_plan) =
     Some ([''a'', ''g1'', ''g2'', ''p''], [(''out'', ValueRef ''a'' [''text''])],
       [\<lparr>dd_removed = ''b'', dd_canonical = ''a''\<rparr>])"
proof -
  have "distinct (node_ids passes_plan)" by code_simp
  from deduplicate_nodes_spec [OF this, of json_debug] show ?thesis by (simp only:) code_simp
qed

theorem dedup_merges_identical_calls_witness:
  "node_input (rep_node json_debug passes_plan (file_node ''b'' ''read'' ''x''))
     = node_input (file_node ''b'' ''read'' ''x'')"
proof -
  have "\<forall>n \<in> set (plan_nodes passes_plan). wf_node n" by code_simp
  moreover have "file_node ''b'' ''read'' ''x'' \<in> set (plan_nodes passes_plan)" by code_simp
  moreover have "rep_node json_debug passes_plan (file_node ''b'' ''read'' ''x'')
      \<noteq> file_node ''b'' ''read'' ''x''" by code_simp
  ultimately show ?thesis using dedup_merges_identical_calls [OF faithful_json_debug] by blast
qed

theorem dedup_diverges_on_repeated_id_witness:
  "deduplicate_nodes json_debug repeated_plan = None \<and> validate repeated_plan = Inl (DuplicateNode ''a'')"
proof -
  let ?n = "node_new ''a'' ''id''"
  have nodes: "plan_nodes repeated_plan = [] @ ?n # [] @ ?n # []" "(''out'', ValueRef ''a'' []) \<in> set (plan_outputs repeated_plan)"
    by (simp_all add: repeated_plan_def)
  have "tool_effects repeated_plan ''id'' = Some effects_pure" by code_simp
  then obtain k where k: "dedup_key json_debug repeated_plan ?n = Some k"
    by (simp add: dedup_key_def Let_def node_new_def effects_pure_def)
  have "ref_node (ValueRef ''a'' []) = node_id ?n" by (simp add: node_new_def)
  with dedup_diverges_on_repeated_id [OF nodes(1) refl k k _ _ nodes(2)] have "deduplicate_nodes json_debug repeated_plan = None" by simp
  moreover have "validate repeated_plan = Inl (DuplicateNode ''a'')" by code_simp
  ultimately show ?thesis by blast
qed

theorem eliminate_dead_nodes_spec_witness:
  "snd (eliminate_dead_nodes passes_plan passes_graph) = [''p''] \<and>
   needed passes_plan ''a'' \<and> \<not> needed passes_plan ''p''"
proof -
  have e: "snd (eliminate_dead_nodes passes_plan passes_graph) = [''p'']" by code_simp
  have o: "plan_outputs passes_plan \<noteq> []" by (simp add: passes_plan_def)
  from eliminate_dead_nodes_spec [OF passes_valid] o
  have "snd (eliminate_dead_nodes passes_plan passes_graph) =
      map node_id (filter (\<lambda>n. \<not> needed passes_plan (node_id n)) (plan_nodes passes_plan))" by simp
  with e have m: "map node_id (filter (\<lambda>n. \<not> needed passes_plan (node_id n)) (plan_nodes passes_plan)) = [''p'']" by simp
  have ids: "node_ids passes_plan = [''a'', ''b'', ''g1'', ''g2'', ''p'']" by code_simp
  have f: "filter (\<lambda>i. \<not> needed passes_plan i) (node_ids passes_plan) = [''p'']"
    using m by (simp add: node_ids_def filter_map o_def)
  from arg_cong [OF f, of set] have s: "{i \<in> set (node_ids passes_plan). \<not> needed passes_plan i} = {''p''}"
    by (simp only: set_filter list.set)
  then have mem: "(i \<in> set (node_ids passes_plan) \<and> \<not> needed passes_plan i) = (i = ''p'')" for i
    unfolding set_eq_iff mem_Collect_eq singleton_iff by (rule spec)
  have "''a'' \<in> set (node_ids passes_plan)" "''a'' \<noteq> ''p''" unfolding ids by simp_all
  with mem [of "''a''"] have "needed passes_plan ''a''" by (simp only: simp_thms)
  moreover from mem [of "''p''"] have "\<not> needed passes_plan ''p''" by (simp only: simp_thms)
  ultimately show ?thesis using e by (simp only: simp_thms)
qed

theorem find_batch_groups_spec_witness:
  "map bg_nodes (find_batch_groups passes_plan passes_graph) = [[''g1'', ''g2'']] \<and>
   group_ok passes_plan passes_graph (hd (find_batch_groups passes_plan passes_graph))"
proof -
  have "map bg_nodes (find_batch_groups passes_plan passes_graph) = [[''g1'', ''g2'']]" by code_simp
  moreover from this have "find_batch_groups passes_plan passes_graph \<noteq> []" by auto
  ultimately show ?thesis using find_batch_groups_spec [OF passes_valid] by simp
qed

end
