(* ===== verification/Cost.thy ===== *)
theory Cost
  imports Passes
begin

text \<open>
  Cost estimation, \<^verbatim>\<open>crates/tool-compiler-optimizer/src/cost.rs\<close>: the aggregate
  estimates before and after compilation. Milliseconds and tokens are \<^verbatim>\<open>u64\<close> values,
  added with the wrapping addition of a release build (one product saturates); counts are
  \<^verbatim>\<open>usize\<close> lengths of lists in memory, carried as naturals.
\<close>

section \<open>The model\<close>

record optimization_summary =
  os_tool_calls_before :: nat
  os_tool_calls_after :: nat
  os_llm_turns_before :: nat
  os_llm_turns_after :: nat
  os_serial_ms :: "64 word option"
  os_compiled_ms :: "64 word option"
  os_tokens_before :: "64 word option"
  os_tokens_after :: "64 word option"

definition saturating_mul :: "64 word \<Rightarrow> 64 word \<Rightarrow> 64 word" where
  "saturating_mul a b = (if uint a * uint b < 2 ^ 64 then a * b else - 1)"

lemma saturating_mul_unat: "saturating_mul a b = (if unat a * unat b < 2 ^ 64 then a * b else - 1)"
proof -
  have "uint a * uint b = int (unat a * unat b)" by simp
  moreover have "int (unat a * unat b) < 2 ^ 64 \<longleftrightarrow> unat a * unat b < 2 ^ 64"
    by (rule of_nat_less_numeral_power_cancel_iff)
  ultimately show ?thesis by (simp only: saturating_mul_def)
qed

definition cost_declared :: "plan \<Rightarrow> bool" where
  "cost_declared p \<longleftrightarrow> (\<exists>entry \<in> set (plan_tools p). spec_cost (snd entry) \<noteq> None)"

definition tool_cost_of :: "plan \<Rightarrow> tool_name \<Rightarrow> tool_cost option" where
  "tool_cost_of p tool = Option.bind (map_of (plan_tools p) tool) spec_cost"

definition or_zero :: "'a::zero option \<Rightarrow> 'a" where
  "or_zero x = (case x of None \<Rightarrow> 0 | Some y \<Rightarrow> y)"

definition call_ms :: "plan \<Rightarrow> tool_name \<Rightarrow> 64 word \<Rightarrow> 64 word" where
  "call_ms p tool calls =
     (let cost = tool_cost_of p tool in
      or_zero (Option.bind cost cost_fixed_ms)
        + saturating_mul (or_zero (Option.bind cost cost_per_call_ms)) calls)"

definition tool_tokens :: "plan \<Rightarrow> tool_name \<Rightarrow> 64 word" where
  "tool_tokens p tool = ucast (or_zero (Option.bind (tool_cost_of p tool) cost_tokens))"

definition batch_costs :: "plan \<Rightarrow> batch_group list \<Rightarrow> (node_id, 64 word) btree" where
  "batch_costs p groups =
     foldl (\<lambda>m b. let dispatch = call_ms p (bg_tool b) (of_nat (length (bg_nodes b)))
                  in foldl (\<lambda>m i. bt_insert i dispatch m) m (bg_nodes b)) [] groups"

definition dispatch_ms :: "plan \<Rightarrow> batch_group list \<Rightarrow> node_id \<Rightarrow> 64 word" where
  "dispatch_ms p groups i =
     (case map_of (batch_costs p groups) i of
        Some c \<Rightarrow> c
      | None \<Rightarrow>
          (case map_of (bt_of_list (map (\<lambda>n. (node_id n, node_tool n)) (plan_nodes p))) i of
             Some tool \<Rightarrow> call_ms p tool 1
           | None \<Rightarrow> 0))"

definition compiled_ms :: "plan \<Rightarrow> execution_graph \<Rightarrow> batch_group list \<Rightarrow> 64 word" where
  "compiled_ms p g groups =
     sum_list (map (\<lambda>layer. foldl max 0 (map (dispatch_ms p groups) layer)) (g_layers g))"

definition summarize ::
  "tool_name list \<Rightarrow> plan \<Rightarrow> execution_graph \<Rightarrow> batch_group list \<Rightarrow> optimization_summary" where
  "summarize original_tools p g groups =
     (let batched_nodes = sum_list (map (\<lambda>b. length (bg_nodes b)) groups);
          when_declared = (\<lambda>x. if cost_declared p then Some x else None)
      in \<lparr>os_tool_calls_before = length original_tools,
          os_tool_calls_after = (length (plan_nodes p) - batched_nodes) + length groups,
          os_llm_turns_before = length original_tools,
          os_llm_turns_after = (if original_tools = [] then 0 else 1),
          os_serial_ms = when_declared (sum_list (map (\<lambda>tool. call_ms p tool 1) original_tools)),
          os_compiled_ms = when_declared (compiled_ms p g groups),
          os_tokens_before = when_declared (sum_list (map (tool_tokens p) original_tools)),
          os_tokens_after = when_declared
            (sum_list (map (\<lambda>n. tool_tokens p (node_tool n)) (plan_nodes p)))\<rparr>)"

section \<open>The estimates as numbers\<close>

text \<open>The cost of a dispatch without any bound on the numbers.\<close>

definition call_nat :: "plan \<Rightarrow> tool_name \<Rightarrow> nat \<Rightarrow> nat" where
  "call_nat p tool calls =
     unat (or_zero (Option.bind (tool_cost_of p tool) cost_fixed_ms))
       + unat (or_zero (Option.bind (tool_cost_of p tool) cost_per_call_ms)) * calls"

lemma unat_add_le: "unat (a + b :: 'a::len word) \<le> unat a + unat b"
  by (simp add: unat_plus_if')

lemma unat_lt64: "unat (w :: 64 word) < 2 ^ 64"
  using unsigned_less [of w, where 'a = nat] by simp

lemma unat_saturating_mul_le: "unat (saturating_mul a b) \<le> unat a * unat b"
proof (cases "unat a * unat b < 2 ^ 64")
  case True
  then show ?thesis by (simp add: saturating_mul_unat unat_mult_lem [THEN iffD1])
next
  case False
  then show ?thesis
    using unat_lt64 [of "- 1"] unfolding saturating_mul_unat by simp
qed

lemma unat_of_nat_le: "unat (of_nat k :: 64 word) \<le> k"
  by (simp add: unat_of_nat)

lemma unat_call_ms_le: "unat (call_ms p tool (of_nat k)) \<le> call_nat p tool k"
proof -
  let ?per = "or_zero (Option.bind (tool_cost_of p tool) cost_per_call_ms)"
  have "unat (saturating_mul ?per (of_nat k)) \<le> unat ?per * unat (of_nat k :: 64 word)"
    by (rule unat_saturating_mul_le)
  also have "\<dots> \<le> unat ?per * k" using unat_of_nat_le by (rule mult_le_mono2)
  finally show ?thesis
    unfolding call_ms_def call_nat_def Let_def
    using unat_add_le [of "or_zero (Option.bind (tool_cost_of p tool) cost_fixed_ms)"
        "saturating_mul ?per (of_nat k)"] by linarith
qed

lemma unat_call_ms_1: "unat (call_ms p tool 1) \<le> call_nat p tool 1"
  using unat_call_ms_le [of p tool 1] by simp

lemma call_nat_batch: "1 \<le> k \<Longrightarrow> call_nat p tool k \<le> k * call_nat p tool 1"
  by (simp add: call_nat_def algebra_simps)

lemma unat_sum_list_le: "unat (sum_list ws :: 'a::len word) \<le> sum_list (map unat ws)"
proof (induction ws)
  case (Cons w ws)
  then show ?case using unat_add_le [of w "sum_list ws"] by simp
qed simp

lemma unat_foldl_max: "(\<forall>w \<in> set ws. unat w \<le> b) \<Longrightarrow> unat m \<le> b \<Longrightarrow> unat (foldl max m ws) \<le> b"
  by (induction ws arbitrary: m) (auto simp: max_def)

text \<open>The serial estimate is exact as long as its value fits.\<close>

lemma serial_exact:
  "sum_list (map (\<lambda>t. call_nat p t 1) tools) < 2 ^ 64 \<Longrightarrow>
   unat (sum_list (map (\<lambda>t. call_ms p t 1) tools)) = sum_list (map (\<lambda>t. call_nat p t 1) tools)"
proof (induction tools)
  case (Cons t tools)
  let ?f = "or_zero (Option.bind (tool_cost_of p t) cost_fixed_ms)"
  let ?c = "or_zero (Option.bind (tool_cost_of p t) cost_per_call_ms)"
  have "unat ?c < 2 ^ 64" by (rule unat_lt64)
  then have m: "saturating_mul ?c 1 = ?c" by (simp add: saturating_mul_unat)
  from Cons.prems have "unat ?f + unat ?c < 2 ^ 64" by (simp add: call_nat_def)
  then have "unat (call_ms p t 1) = call_nat p t 1"
    by (simp add: call_ms_def call_nat_def m unat_plus_if' Let_def)
  moreover have "unat (sum_list (map (\<lambda>t. call_ms p t 1) tools)) = sum_list (map (\<lambda>t. call_nat p t 1) tools)"
    using Cons by simp
  ultimately show ?case using Cons.prems by (simp add: unat_plus_if')
qed simp

section \<open>The compiled estimate is never above the serial one\<close>

lemma batch_costs_group:
  assumes "map_of (batch_costs p groups) i = Some c"
  shows "\<exists>b \<in> set groups. i \<in> set (bg_nodes b) \<and> c = call_ms p (bg_tool b) (of_nat (length (bg_nodes b)))"
proof -
  have ins: "map_of (foldl (\<lambda>m j. bt_insert j d m) m js) i = (if i \<in> set js then Some d else map_of m i)"
    for d js and m :: "(node_id, 64 word) btree"
    by (induction js arbitrary: m) auto
  have "\<exists>b \<in> set gs. i \<in> set (bg_nodes b) \<and> c = call_ms p (bg_tool b) (of_nat (length (bg_nodes b)))"
    if "map_of (batch_costs p gs) i = Some c" for gs
    using that
  proof (induction gs rule: rev_induct)
    case (snoc b gs)
    then show ?case by (auto simp: batch_costs_def ins Let_def split: if_splits)
  qed (simp add: batch_costs_def)
  with assms show ?thesis by blast
qed

definition id_cost :: "plan \<Rightarrow> node_id \<Rightarrow> nat" where
  "id_cost p i = (case map_of (map (\<lambda>n. (node_id n, node_tool n)) (plan_nodes p)) i of
     None \<Rightarrow> 0 | Some tool \<Rightarrow> call_nat p tool 1)"

lemma id_cost_node:
  "distinct (node_ids p) \<Longrightarrow> n \<in> set (plan_nodes p) \<Longrightarrow> id_cost p (node_id n) = call_nat p (node_tool n) 1"
proof -
  assume d: "distinct (node_ids p)" and n: "n \<in> set (plan_nodes p)"
  have "map_of (map (\<lambda>n. (node_id n, node_tool n)) (plan_nodes p)) (node_id n) = Some (node_tool n)"
    by (rule map_of_is_SomeI) (use d n in \<open>auto simp: node_ids_def comp_def\<close>)
  then show ?thesis by (simp add: id_cost_def)
qed

lemma dispatch_ms_le:
  assumes d: "distinct (node_ids p)" and layer: "i \<in> set layer"
    and groups: "\<And>b. b \<in> set groups \<Longrightarrow> i \<in> set (bg_nodes b) \<Longrightarrow>
       distinct (bg_nodes b) \<and> set (bg_nodes b) \<subseteq> set layer \<and>
       (\<forall>j \<in> set (bg_nodes b). \<exists>n \<in> set (plan_nodes p). node_id n = j \<and> node_tool n = bg_tool b)"
  shows "unat (dispatch_ms p groups i) \<le> (\<Sum>j \<in> set layer. id_cost p j)"
proof (cases "map_of (batch_costs p groups) i")
  case (Some c)
  from batch_costs_group [OF this] obtain b where b: "b \<in> set groups" "i \<in> set (bg_nodes b)"
    "c = call_ms p (bg_tool b) (of_nat (length (bg_nodes b)))" by blast
  note G = groups [OF b(1,2)]
  have cost: "id_cost p j = call_nat p (bg_tool b) 1" if "j \<in> set (bg_nodes b)" for j
  proof -
    from G that obtain n where "n \<in> set (plan_nodes p)" "node_id n = j" "node_tool n = bg_tool b" by blast
    with id_cost_node [OF d] show ?thesis by metis
  qed
  have "unat (dispatch_ms p groups i) \<le> call_nat p (bg_tool b) (length (bg_nodes b))"
    using unat_call_ms_le by (simp add: dispatch_ms_def Some b(3))
  also have "\<dots> \<le> length (bg_nodes b) * call_nat p (bg_tool b) 1"
    using b(2) by (intro call_nat_batch) (cases "bg_nodes b", auto)
  also have "\<dots> = (\<Sum>j \<in> set (bg_nodes b). id_cost p j)"
    using G cost by (simp add: distinct_card)
  also have "\<dots> \<le> (\<Sum>j \<in> set layer. id_cost p j)" using G by (intro sum_mono2) auto
  finally show ?thesis .
next
  case None
  let ?kvs = "map (\<lambda>n. (node_id n, node_tool n)) (plan_nodes p)"
  have "distinct (map fst ?kvs)" using d by (simp add: node_ids_def comp_def)
  then have "unat (dispatch_ms p groups i) \<le> id_cost p i"
    using unat_call_ms_1
    by (simp add: dispatch_ms_def None bt_get_of_list_distinct id_cost_def split: option.split)
  also have "\<dots> \<le> (\<Sum>j \<in> set layer. id_cost p j)" using layer by (intro member_le_sum) auto
  finally show ?thesis .
qed

lemma compiled_ms_le:
  assumes v: "validate p = Inr g"
  shows "unat (compiled_ms p g (find_batch_groups p g))
     \<le> sum_list (map (\<lambda>n. call_nat p (node_tool n) 1) (plan_nodes p))"
proof -
  note G = graph_of_validate [OF v]
  let ?groups = "find_batch_groups p g"
  have dl: "distinct (concat (g_layers g))" using G(5) by (simp add: layers_sound_def)
  have dg: "distinct (concat (map bg_nodes ?groups))"
    using find_batch_groups_disjoint [OF dl] by (simp add: groups_nodes_def)
  have uniq: "layer' = layer" if "layer \<in> set (g_layers g)" "layer' \<in> set (g_layers g)"
      "i \<in> set layer" "i \<in> set layer'" for layer layer' i
    using dl that by (auto simp: distinct_concat_iff)
  have le: "unat (foldl max 0 (map (dispatch_ms p ?groups) layer)) \<le> (\<Sum>j \<in> set layer. id_cost p j)"
    if l: "layer \<in> set (g_layers g)" for layer
  proof (rule unat_foldl_max)
    show "\<forall>w \<in> set (map (dispatch_ms p ?groups) layer). unat w \<le> (\<Sum>j \<in> set layer. id_cost p j)"
    proof clarsimp
      fix i assume i: "i \<in> set layer"
      show "unat (dispatch_ms p ?groups i) \<le> (\<Sum>j \<in> set layer. id_cost p j)"
      proof (rule dispatch_ms_le [OF G(7) i])
        fix b assume b: "b \<in> set ?groups" "i \<in> set (bg_nodes b)"
        note ok = find_batch_groups_ok [OF b(1), unfolded group_ok_def]
        then obtain layer' where "layer' \<in> set (g_layers g)" "set (bg_nodes b) \<subseteq> set layer'" by blast
        then have "set (bg_nodes b) \<subseteq> set layer" using uniq [OF l] i b(2) by blast
        moreover have "distinct (bg_nodes b)" using dg b(1) by (auto simp: distinct_concat_iff)
        ultimately show "distinct (bg_nodes b) \<and> set (bg_nodes b) \<subseteq> set layer \<and>
            (\<forall>j \<in> set (bg_nodes b). \<exists>n \<in> set (plan_nodes p). node_id n = j \<and> node_tool n = bg_tool b)"
          using ok by blast
      qed
    qed
  qed simp
  have "unat (compiled_ms p g ?groups)
      \<le> sum_list (map (\<lambda>layer. unat (foldl max 0 (map (dispatch_ms p ?groups) layer))) (g_layers g))"
    using unat_sum_list_le [of "map (\<lambda>layer. foldl max 0 (map (dispatch_ms p ?groups) layer)) (g_layers g)"]
    by (simp add: compiled_ms_def comp_def)
  also have "\<dots> \<le> sum_list (map (\<lambda>layer. \<Sum>j \<in> set layer. id_cost p j) (g_layers g))"
    using le by (rule sum_list_mono)
  also have "\<dots> = (\<Sum>j \<in> set (concat (g_layers g)). id_cost p j)"
  proof -
    have "distinct (concat ls) \<Longrightarrow> sum_list (map (\<lambda>layer. \<Sum>j \<in> set layer. id_cost p j) ls)
        = (\<Sum>j \<in> set (concat ls). id_cost p j)" for ls
    proof (induction ls)
      case (Cons l ls)
      then show ?case by (simp add: sum.union_disjoint)
    qed simp
    with dl show ?thesis by simp
  qed
  also have "\<dots> = (\<Sum>j \<in> set (node_ids p). id_cost p j)" by (simp only: G(6))
  also have "\<dots> = sum_list (map (id_cost p) (node_ids p))"
    using G(7) by (simp add: sum_list_distinct_conv_sum_set)
  also have "\<dots> = sum_list (map (\<lambda>n. call_nat p (node_tool n) 1) (plan_nodes p))"
    using id_cost_node [OF G(7)] unfolding node_ids_def by (auto intro!: arg_cong [where f = sum_list])
  finally show ?thesis .
qed

end
