(* ===== verification/Explain.thy ===== *)
theory Explain
  imports Cost
begin

unbundle bit_operations_syntax

text \<open>
  The parallelism diagnostics, \<^verbatim>\<open>crates/tool-compiler-optimizer/src/explain.rs\<close>:
  ancestor and descendant sets as rows of 64-bit words, filled in one forward and one backward
  pass over the flattened layers, and the two kinds of diagnostics read off them. A lookup of
  a missing key (a panic of the code) makes the result \<open>None\<close>.
\<close>

section \<open>Bit matrices\<close>

definition matrix_row :: "64 word list \<Rightarrow> nat \<Rightarrow> nat \<Rightarrow> 64 word list" where
  "matrix_row bits words index = take words (drop (index * words) bits)"

definition set_cell :: "64 word list \<Rightarrow> nat \<Rightarrow> nat \<Rightarrow> nat \<Rightarrow> 64 word list" where
  "set_cell bits words r c =
     (let k = r * words + c div 64 in bits[k := bits ! k OR push_bit (c mod 64) 1])"

definition get_cell :: "64 word list \<Rightarrow> nat \<Rightarrow> nat \<Rightarrow> nat \<Rightarrow> bool" where
  "get_cell bits words r c \<longleftrightarrow> bits ! (r * words + c div 64) AND push_bit (c mod 64) 1 \<noteq> 0"

definition or_row :: "64 word list \<Rightarrow> nat \<Rightarrow> nat \<Rightarrow> nat \<Rightarrow> 64 word list" where
  "or_row bits words src dst =
     foldl (\<lambda>bits w. bits[dst * words + w := bits ! (dst * words + w) OR bits ! (src * words + w)])
       bits [0..<words]"

definition count_ones :: "64 word \<Rightarrow> nat" where
  "count_ones w = length (filter (bit w) [0..<64])"

section \<open>The order index\<close>

record order_index =
  oi_ids :: "node_id list"
  oi_index :: "(node_id, nat) btree"
  oi_layer_of :: "nat list"
  oi_layer_sizes :: "nat list"
  oi_words :: nat
  oi_ancestors :: "64 word list"
  oi_descendants :: "64 word list"

fun link_deps ::
  "(node_id, nat) btree \<Rightarrow> (nat \<Rightarrow> 64 word list \<Rightarrow> 64 word list) \<Rightarrow> node_id list
   \<Rightarrow> 64 word list \<Rightarrow> 64 word list option" where
  "link_deps idx upd [] bits = Some bits"
| "link_deps idx upd (d # ds) bits =
     (case map_of idx d of None \<Rightarrow> None | Some k \<Rightarrow> link_deps idx upd ds (upd k bits))"

fun rows_pass ::
  "(node_id, nat) btree \<Rightarrow> dependency_map \<Rightarrow> (nat \<Rightarrow> nat \<Rightarrow> 64 word list \<Rightarrow> 64 word list)
   \<Rightarrow> (nat \<times> node_id) list \<Rightarrow> 64 word list \<Rightarrow> 64 word list option" where
  "rows_pass idx deps upd [] bits = Some bits"
| "rows_pass idx deps upd ((position, i) # rest) bits =
     (case link_deps idx (upd position) (get_list deps i) bits of
        None \<Rightarrow> None | Some bits' \<Rightarrow> rows_pass idx deps upd rest bits')"

definition ancestor_update :: "nat \<Rightarrow> nat \<Rightarrow> nat \<Rightarrow> 64 word list \<Rightarrow> 64 word list" where
  "ancestor_update words position dep bits =
     set_cell (or_row bits words dep position) words position dep"

definition descendant_update :: "nat \<Rightarrow> nat \<Rightarrow> nat \<Rightarrow> 64 word list \<Rightarrow> 64 word list" where
  "descendant_update words position dep bits =
     set_cell (or_row bits words position dep) words dep position"

definition layer_positions :: "node_id list list \<Rightarrow> (nat \<times> node_id) list" where
  "layer_positions layers = concat (map (\<lambda>(l, layer). map (Pair l) layer) (enumerate 0 layers))"

definition order_index_new :: "execution_graph \<Rightarrow> order_index option" where
  "order_index_new g =
     (let ids = concat (g_layers g);
          index = bt_of_list (map (\<lambda>(k, i). (i, k)) (enumerate 0 ids));
          layer_of = foldl (\<lambda>ls (l, i). ls[the (map_of index i) := l]) (replicate (length ids) 0)
                       (layer_positions (g_layers g));
          words = (length ids + 63) div 64;
          zero = replicate (length ids * words) 0
      in case rows_pass index (g_dependencies g) (ancestor_update words) (enumerate 0 ids) zero of
           None \<Rightarrow> None
         | Some ancestors \<Rightarrow>
             (case rows_pass index (g_dependencies g) (descendant_update words)
                     (rev (enumerate 0 ids)) zero of
                None \<Rightarrow> None
              | Some descendants \<Rightarrow>
                  Some \<lparr>oi_ids = ids, oi_index = index, oi_layer_of = layer_of,
                        oi_layer_sizes = map length (g_layers g), oi_words = words,
                        oi_ancestors = ancestors, oi_descendants = descendants\<rparr>))"

definition layer_size :: "order_index \<Rightarrow> nat \<Rightarrow> nat" where
  "layer_size ix k = oi_layer_sizes ix ! (oi_layer_of ix ! k)"

definition ancestor_count :: "order_index \<Rightarrow> nat \<Rightarrow> nat" where
  "ancestor_count ix k = sum_list (map count_ones (matrix_row (oi_ancestors ix) (oi_words ix) k))"

definition descendant_count :: "order_index \<Rightarrow> nat \<Rightarrow> nat" where
  "descendant_count ix k = sum_list (map count_ones (matrix_row (oi_descendants ix) (oi_words ix) k))"

definition unordered_cross_layer :: "order_index \<Rightarrow> nat \<Rightarrow> nat \<Rightarrow> bool" where
  "unordered_cross_layer ix left right \<longleftrightarrow>
     oi_layer_of ix ! left \<noteq> oi_layer_of ix ! right
     \<and> \<not> get_cell (oi_ancestors ix) (oi_words ix) left right
     \<and> \<not> get_cell (oi_ancestors ix) (oi_words ix) right left"

section \<open>Diagnostics\<close>

datatype diagnostic_kind = MissingEffects | ResourceConflict

record diagnostic =
  dg_kind :: diagnostic_kind
  dg_nodes :: "node_id list"
  dg_resource :: "resource option"
  dg_message :: string

definition undeclared_nodes :: "plan \<Rightarrow> execution_graph \<Rightarrow> order_index \<Rightarrow> node_id bset" where
  "undeclared_nodes p g ix =
     bs_of_list (map node_id (filter (\<lambda>n.
       case map_of (g_resolved_effects g) (node_id n) of
         None \<Rightarrow> False
       | Some fx \<Rightarrow> \<not> rfx_declared fx \<and>
           (case map_of (oi_index ix) (node_id n) of
              None \<Rightarrow> False
            | Some k \<Rightarrow>
                length (oi_ids ix) - 1 - (ancestor_count ix k + descendant_count ix k)
                  - (layer_size ix k - 1) > 0)) (plan_nodes p)))"

text \<open>The positions that touch each resource, for the declared nodes in plan order.\<close>

definition touching ::
  "(resolved_effects \<Rightarrow> resource list) \<Rightarrow> plan \<Rightarrow> execution_graph \<Rightarrow> order_index
   \<Rightarrow> (resource, nat list) btree" where
  "touching access p g ix =
     foldl (\<lambda>m n.
       case (map_of (g_resolved_effects g) (node_id n), map_of (oi_index ix) (node_id n)) of
         (Some fx, Some k) \<Rightarrow>
           if rfx_declared fx then foldl (\<lambda>m q. bt_push q k m) m (access fx) else m
       | _ \<Rightarrow> m) [] (plan_nodes p)"

definition conflicting_positions :: "order_index \<Rightarrow> nat list \<Rightarrow> nat list \<Rightarrow> nat list" where
  "conflicting_positions ix writing reading =
     (let touchers = writing @ reading in
      filter (\<lambda>k. \<exists>other \<in> set (if k \<in> set writing then touchers else writing).
                  other \<noteq> k \<and> unordered_cross_layer ix k other) touchers)"

definition conflicts :: "plan \<Rightarrow> execution_graph \<Rightarrow> order_index \<Rightarrow> (resource, node_id bset) btree" where
  "conflicts p g ix =
     filter (\<lambda>(q, ns). ns \<noteq> []) (map (\<lambda>(q, writing).
       (q, bs_of_list (map (\<lambda>k. oi_ids ix ! k)
             (conflicting_positions ix writing (get_list (touching rfx_reads p g ix) q)))))
       (touching rfx_writes p g ix))"

definition explain_parallel_boundaries :: "plan \<Rightarrow> execution_graph \<Rightarrow> diagnostic list option" where
  "explain_parallel_boundaries p g =
     map_option (\<lambda>ix.
       (let undeclared = undeclared_nodes p g ix in
        (if undeclared = [] then []
         else [\<lparr>dg_kind = MissingEffects, dg_nodes = undeclared, dg_resource = None,
                dg_message = ''missing or vacuous tool effects prevent safe parallelization''\<rparr>])
        @ map (\<lambda>(q, ns). \<lparr>dg_kind = ResourceConflict, dg_nodes = ns, dg_resource = Some q,
                dg_message = ''effects touch the same resource '' @ [CHR 0x27] @ q @ [CHR 0x27]\<rparr>)
            (conflicts p g ix)))
       (order_index_new g)"

section \<open>The bit matrix as a relation\<close>

definition cell :: "64 word list \<Rightarrow> nat \<Rightarrow> nat \<Rightarrow> nat \<Rightarrow> bool" where
  "cell bits words r c \<longleftrightarrow> bit (bits ! (r * words + c div 64)) (c mod 64)"

lemma get_cell_iff: "get_cell bits words r c \<longleftrightarrow> cell bits words r c"
  by (simp add: get_cell_def cell_def and_exp_eq_0_iff_not_bit push_bit_eq_mult)

lemma slot_inj: "x < w \<Longrightarrow> y < w \<Longrightarrow> r * w + x = s * w + y \<longleftrightarrow> r = s \<and> x = (y::nat)"
proof
  assume xy: "x < w" "y < w" "r * w + x = s * w + y"
  have "(r * w + x) div w = r" using xy(1) by simp
  moreover have "(s * w + y) div w = s" using xy(2) by simp
  ultimately have "r = s" using xy(3) by simp
  with xy(3) show "r = s \<and> x = y" by simp
qed simp

lemma slot_bound: "r < rows \<Longrightarrow> x < w \<Longrightarrow> r * w + x < rows * (w::nat)"
proof -
  assume "r < rows" "x < w"
  then have "r * w + x < (r + 1) * w" by simp
  also have "\<dots> \<le> rows * w" using \<open>r < rows\<close> by (intro mult_le_mono1) simp
  finally show ?thesis .
qed

lemma col_bound: "c < 64 * w \<Longrightarrow> c div 64 < (w::nat)"
  by (simp add: less_mult_imp_div_less mult.commute)

lemma length_set_cell [simp]: "length (set_cell bits w r c) = length bits"
  by (simp add: set_cell_def Let_def)

lemma cell_set_cell:
  assumes "length bits = rows * w" "r < rows" "c < 64 * w" "r' < rows" "c' < 64 * w"
  shows "cell (set_cell bits w r c) w r' c' \<longleftrightarrow> (r' = r \<and> c' = c) \<or> cell bits w r' c'"
proof -
  have c: "c div 64 < w" "c' div 64 < w" using assms(3,5) by (simp_all add: col_bound)
  have eq: "c' = c \<longleftrightarrow> c' div 64 = c div 64 \<and> c' mod 64 = c mod 64" by (metis div_mult_mod_eq)
  have one: "bit (push_bit m 1 :: 64 word) m' \<longleftrightarrow> m' = m" if "m' < 64" for m m'
    using that by (auto simp: push_bit_of_1 bit_exp_iff possible_bit_def)
  have slot: "r * w + c div 64 < length bits" using slot_bound [OF assms(2) c(1)] assms(1) by simp
  show ?thesis
  proof (cases "r' = r \<and> c' div 64 = c div 64")
    case True
    then have "cell (set_cell bits w r c) w r' c' \<longleftrightarrow>
        bit (bits ! (r * w + c div 64) OR push_bit (c mod 64) 1) (c' mod 64)"
      using slot by (simp add: cell_def set_cell_def Let_def)
    also have "\<dots> \<longleftrightarrow> cell bits w r' c' \<or> c' mod 64 = c mod 64"
      using True one [of "c' mod 64" "c mod 64"] by (simp add: bit_or_iff cell_def)
    finally show ?thesis using True eq by blast
  next
    case False
    then have "r' * w + c' div 64 \<noteq> r * w + c div 64" using slot_inj [OF c(2) c(1)] by blast
    then have "cell (set_cell bits w r c) w r' c' \<longleftrightarrow> cell bits w r' c'"
      by (simp add: cell_def set_cell_def Let_def)
    with False eq show ?thesis by blast
  qed
qed

lemma or_row_aux:
  assumes "length bits = rows * w" "src < rows" "dst < rows" "n \<le> w"
  shows "length (foldl (\<lambda>bits w'. bits[dst * w + w' := bits ! (dst * w + w') OR bits ! (src * w + w')])
            bits [0..<n]) = rows * w \<and>
    (\<forall>r < rows. \<forall>x < w.
      foldl (\<lambda>bits w'. bits[dst * w + w' := bits ! (dst * w + w') OR bits ! (src * w + w')])
            bits [0..<n] ! (r * w + x) =
      (if r = dst \<and> x < n then bits ! (dst * w + x) OR bits ! (src * w + x) else bits ! (r * w + x)))"
  using assms(4)
proof (induction n)
  case 0
  then show ?case using assms by simp
next
  case (Suc n)
  let ?f = "\<lambda>bits w'. bits[dst * w + w' := bits ! (dst * w + w') OR bits ! (src * w + w')]"
  let ?b = "foldl ?f bits [0..<n]"
  have n: "n \<le> w" "n < w" using Suc.prems by auto
  note IH = Suc.IH [OF n(1)]
  have len: "length ?b = rows * w" using IH by blast
  have b: "dst * w + n < rows * w" by (rule slot_bound [OF assms(3) n(2)])
  have at: "?b ! (r * w + x) =
      (if r = dst \<and> x < n then bits ! (dst * w + x) OR bits ! (src * w + x) else bits ! (r * w + x))"
    if "r < rows" "x < w" for r x using IH that by blast
  have e: "?b ! (dst * w + n) = bits ! (dst * w + n)" "?b ! (src * w + n) = bits ! (src * w + n)"
    using at [OF assms(3) n(2)] at [OF assms(2) n(2)] by simp_all
  have step: "foldl ?f bits [0..<Suc n] = ?b[dst * w + n := bits ! (dst * w + n) OR bits ! (src * w + n)]"
    by (simp add: e)
  show ?case
    unfolding step
  proof (intro conjI allI impI)
    fix r x assume rx: "r < rows" "x < w"
    show "?b[dst * w + n := bits ! (dst * w + n) OR bits ! (src * w + n)] ! (r * w + x) =
      (if r = dst \<and> x < Suc n then bits ! (dst * w + x) OR bits ! (src * w + x) else bits ! (r * w + x))"
    proof (cases "r = dst \<and> x = n")
      case True
      then show ?thesis using b len by simp
    next
      case False
      then have "r * w + x \<noteq> dst * w + n" using slot_inj [OF rx(2) n(2)] by blast
      then show ?thesis using False at [OF rx] by (auto simp: less_Suc_eq)
    qed
  qed (simp add: len)
qed

lemma length_or_row:
  "length bits = rows * w \<Longrightarrow> src < rows \<Longrightarrow> dst < rows \<Longrightarrow> length (or_row bits w src dst) = rows * w"
  unfolding or_row_def using or_row_aux by blast

lemma cell_or_row:
  assumes "length bits = rows * w" "src < rows" "dst < rows" "r < rows" "c < 64 * w"
  shows "cell (or_row bits w src dst) w r c \<longleftrightarrow> cell bits w r c \<or> (r = dst \<and> cell bits w src c)"
proof -
  have x: "c div 64 < w" using assms(5) by (rule col_bound)
  have "or_row bits w src dst ! (r * w + c div 64) =
      (if r = dst then bits ! (dst * w + c div 64) OR bits ! (src * w + c div 64)
       else bits ! (r * w + c div 64))"
    using or_row_aux [OF assms(1,2,3) order_refl] assms(4) x unfolding or_row_def by simp
  then show ?thesis by (simp add: cell_def bit_or_iff)
qed

lemma cell_zero: "r < rows \<Longrightarrow> c < 64 * w \<Longrightarrow> \<not> cell (replicate (rows * w) 0) w r c"
  using slot_bound [of r rows "c div 64" w] col_bound by (simp add: cell_def)

text \<open>The number of bits of a row is the number of columns it holds.\<close>

lemma count_row:
  assumes "length bits = rows * w" "r < rows"
  shows "sum_list (map count_ones (matrix_row bits w r)) = card {c. c < 64 * w \<and> cell bits w r c}"
proof -
  have "(r + 1) * w \<le> rows * w" using assms(2) by (intro mult_le_mono1) simp
  then have len: "length (matrix_row bits w r) = w" using assms(1) by (simp add: matrix_row_def)
  have row: "matrix_row bits w r ! k = bits ! (r * w + k)" if "k < w" for k
  proof -
    have "r * w \<le> length bits" using slot_bound [OF assms(2) that] assms(1) by linarith
    with that show ?thesis by (simp add: matrix_row_def nth_drop)
  qed
  have block: "count_ones (bits ! (r * w + k)) = card {c. 64 * k \<le> c \<and> c < 64 * Suc k \<and> cell bits w r c}" for k
  proof -
    have "{c. 64 * k \<le> c \<and> c < 64 * Suc k \<and> cell bits w r c}
        = (\<lambda>j. 64 * k + j) ` {j. j < 64 \<and> bit (bits ! (r * w + k)) j}" (is "?L = ?R")
    proof
      show "?L \<subseteq> ?R"
      proof
        fix c assume c: "c \<in> ?L"
        then have "c div 64 = k" by (auto intro: div_nat_eqI)
        with c have "c = 64 * k + c mod 64" "bit (bits ! (r * w + k)) (c mod 64)"
          by (auto simp: cell_def)
        then show "c \<in> ?R" by auto
      qed
      show "?R \<subseteq> ?L" by (auto simp: cell_def)
    qed
    moreover have "card ((\<lambda>j. 64 * k + j) ` {j. j < 64 \<and> bit (bits ! (r * w + k)) j})
        = card {j. j < 64 \<and> bit (bits ! (r * w + k)) j}"
      by (rule card_image) (simp add: inj_on_def)
    moreover have "card {j. j < 64 \<and> bit (bits ! (r * w + k)) j} = count_ones (bits ! (r * w + k))"
    proof -
      have "{j. j < 64 \<and> bit (bits ! (r * w + k)) j}
          = set (filter (bit (bits ! (r * w + k))) [0..<64])" by auto
      then show ?thesis
        using distinct_card [of "filter (bit (bits ! (r * w + k))) [0..<64]"] by (simp add: count_ones_def)
    qed
    ultimately show ?thesis by simp
  qed
  have "sum_list (map (\<lambda>k. count_ones (bits ! (r * w + k))) [0..<n])
      = card {c. c < 64 * n \<and> cell bits w r c}" for n
  proof (induction n)
    case (Suc n)
    have "c < 64 * Suc n \<longleftrightarrow> c < 64 * n \<or> (64 * n \<le> c \<and> c < 64 * Suc n)" for c by auto
    then have "{c. c < 64 * Suc n \<and> cell bits w r c}
        = {c. c < 64 * n \<and> cell bits w r c} \<union> {c. 64 * n \<le> c \<and> c < 64 * Suc n \<and> cell bits w r c}"
      by blast
    then have "card {c. c < 64 * Suc n \<and> cell bits w r c} =
       card {c. c < 64 * n \<and> cell bits w r c} + card {c. 64 * n \<le> c \<and> c < 64 * Suc n \<and> cell bits w r c}"
    proof (simp only:, intro card_Un_disjoint)
      show "finite {c. 64 * n \<le> c \<and> c < 64 * Suc n \<and> cell bits w r c}"
        by (rule finite_subset [of _ "{..<64 * Suc n}"]) blast+
      show "finite {c. c < 64 * n \<and> cell bits w r c}"
        by (rule finite_subset [of _ "{..<64 * n}"]) blast+
      show "{c. c < 64 * n \<and> cell bits w r c} \<inter>
          {c. 64 * n \<le> c \<and> c < 64 * Suc n \<and> cell bits w r c} = {}"
        using leD by blast
    qed
    with Suc show ?case by (simp add: block)
  qed simp
  moreover have "map count_ones (matrix_row bits w r) = map (\<lambda>k. count_ones (bits ! (r * w + k))) [0..<w]"
    by (rule nth_equalityI) (simp_all add: row len)
  ultimately show ?thesis by simp
qed

section \<open>The passes compute reachability\<close>

definition edges :: "node_id list \<Rightarrow> dependency_map \<Rightarrow> (nat \<times> nat) set" where
  "edges ids dm = {(j, k). j < length ids \<and> k < length ids \<and> ids ! j \<in> set (get_list dm (ids ! k))}"

text \<open>The flattened layers list every node once, after its dependencies.\<close>

definition topological :: "node_id list \<Rightarrow> dependency_map \<Rightarrow> bool" where
  "topological ids dm \<longleftrightarrow> distinct ids \<and>
     (\<forall>k < length ids. \<forall>d \<in> set (get_list dm (ids ! k)). \<exists>j < k. ids ! j = d)"

definition position_index :: "node_id list \<Rightarrow> (node_id, nat) btree" where
  "position_index ids = bt_of_list (map (\<lambda>(k, i). (i, k)) (enumerate 0 ids))"

lemma position_index_nth: "distinct ids \<Longrightarrow> k < length ids \<Longrightarrow> map_of (position_index ids) (ids ! k) = Some k"
proof -
  assume d: "distinct ids" and k: "k < length ids"
  have "map fst (map (\<lambda>(k, i). (i, k)) (enumerate 0 ids)) = ids"
    by (simp add: comp_def case_prod_beta')
  moreover have "(k, ids ! k) \<in> set (enumerate 0 ids)" using k by (simp add: in_set_enumerate_eq)
  then have "(ids ! k, k) \<in> set (map (\<lambda>(k, i). (i, k)) (enumerate 0 ids))" by force
  moreover from calculation(1) d have dd: "distinct (map fst (map (\<lambda>(k, i). (i, k)) (enumerate 0 ids)))" by simp
  ultimately show ?thesis
    unfolding position_index_def bt_get_of_list_distinct [OF dd] by (intro map_of_is_SomeI)
qed

lemma edges_less: "topological ids dm \<Longrightarrow> (j, k) \<in> edges ids dm \<Longrightarrow> j < k"
  unfolding topological_def edges_def
  by (auto dest: nth_eq_iff_index_eq [THEN iffD1]) (metis nth_eq_iff_index_eq order.strict_trans)

lemma position_cases:
  assumes "topological ids dm" "k < length ids" "d \<in> set (get_list dm (ids ! k))"
  obtains j where "j < k" "ids ! j = d" "map_of (position_index ids) d = Some j"
  using assms position_index_nth [of ids] unfolding topological_def
  by (metis order.strict_trans)

lemma link_ancestors:
  assumes d: "distinct ids" and w: "length ids \<le> 64 * w" and k: "k < length ids"
    and ds: "\<forall>x \<in> set ds. \<exists>j < k. ids ! j = x" and len: "length bits = length ids * w"
  shows "\<exists>bits'. link_deps (position_index ids) (ancestor_update w k) ds bits = Some bits' \<and>
    length bits' = length ids * w \<and>
    (\<forall>r < length ids. \<forall>c < 64 * w. cell bits' w r c \<longleftrightarrow>
       cell bits w r c \<or> (r = k \<and> (\<exists>j < k. ids ! j \<in> set ds \<and> (c = j \<or> cell bits w j c))))"
  using ds len
proof (induction ds arbitrary: bits)
  case Nil
  then show ?case by simp
next
  case (Cons x ds)
  from Cons.prems obtain j where j: "j < k" "ids ! j = x" by auto
  let ?b = "ancestor_update w k j bits"
  have jk: "j < length ids" using j(1) k by simp
  have lo: "length (or_row bits w j k) = length ids * w"
    by (rule length_or_row [OF Cons.prems(2) jk k])
  have jw: "j < 64 * w" using jk w by simp
  have cb: "cell ?b w r c \<longleftrightarrow> cell bits w r c \<or> (r = k \<and> (c = j \<or> cell bits w j c))"
    if "r < length ids" "c < 64 * w" for r c
    unfolding ancestor_update_def
    using cell_set_cell [OF lo k jw that] cell_or_row [OF Cons.prems(2) jk k that] by blast
  have lb: "length ?b = length ids * w" by (simp add: ancestor_update_def lo)
  from Cons.IH [OF _ lb] Cons.prems(1) obtain bits' where b':
    "link_deps (position_index ids) (ancestor_update w k) ds ?b = Some bits'"
    "length bits' = length ids * w"
    "\<forall>r < length ids. \<forall>c < 64 * w. cell bits' w r c \<longleftrightarrow>
       cell ?b w r c \<or> (r = k \<and> (\<exists>j < k. ids ! j \<in> set ds \<and> (c = j \<or> cell ?b w j c)))"
    by auto
  have "link_deps (position_index ids) (ancestor_update w k) (x # ds) bits = Some bits'"
    using position_index_nth [OF d jk] j(2) b'(1) by simp
  moreover have "cell bits' w r c \<longleftrightarrow>
       cell bits w r c \<or> (r = k \<and> (\<exists>j < k. ids ! j \<in> set (x # ds) \<and> (c = j \<or> cell bits w j c)))"
    if "r < length ids" "c < 64 * w" for r c
  proof -
    have inner: "(\<exists>i < k. ids ! i \<in> set ds \<and> (c = i \<or> cell ?b w i c)) \<longleftrightarrow>
        (\<exists>i < k. ids ! i \<in> set ds \<and> (c = i \<or> cell bits w i c))"
    proof -
      have "cell ?b w i c = cell bits w i c" if "i < k" for i
        using cb [of i c] that k \<open>c < 64 * w\<close> by auto
      then show ?thesis by blast
    qed
    have uniq: "i = j" if "i < k" "ids ! i = x" for i
      using d that j jk k by (metis nth_eq_iff_index_eq order.strict_trans)
    have "cell bits' w r c \<longleftrightarrow> cell bits w r c \<or> (r = k \<and> (c = j \<or> cell bits w j c)) \<or>
        (r = k \<and> (\<exists>i < k. ids ! i \<in> set ds \<and> (c = i \<or> cell bits w i c)))"
      using b'(3) that cb [OF that] inner by blast
    moreover have "(\<exists>i < k. ids ! i \<in> set (x # ds) \<and> (c = i \<or> cell bits w i c)) \<longleftrightarrow>
        (c = j \<or> cell bits w j c) \<or> (\<exists>i < k. ids ! i \<in> set ds \<and> (c = i \<or> cell bits w i c))"
      using j uniq unfolding list.set by blast
    ultimately show ?thesis by blast
  qed
  ultimately show ?case using b'(2) by blast
qed

lemma link_descendants:
  assumes d: "distinct ids" and w: "length ids \<le> 64 * w" and k: "k < length ids"
    and ds: "\<forall>x \<in> set ds. \<exists>j < k. ids ! j = x" and len: "length bits = length ids * w"
  shows "\<exists>bits'. link_deps (position_index ids) (descendant_update w k) ds bits = Some bits' \<and>
    length bits' = length ids * w \<and>
    (\<forall>r < length ids. \<forall>c < 64 * w. cell bits' w r c \<longleftrightarrow>
       cell bits w r c \<or> (r < k \<and> ids ! r \<in> set ds \<and> (c = k \<or> cell bits w k c)))"
  using ds len
proof (induction ds arbitrary: bits)
  case Nil
  then show ?case by simp
next
  case (Cons x ds)
  from Cons.prems obtain j where j: "j < k" "ids ! j = x" by auto
  let ?b = "descendant_update w k j bits"
  have jk: "j < length ids" using j(1) k by simp
  have lo: "length (or_row bits w k j) = length ids * w"
    by (rule length_or_row [OF Cons.prems(2) k jk])
  have kw: "k < 64 * w" using k w by simp
  have cb: "cell ?b w r c \<longleftrightarrow> cell bits w r c \<or> (r = j \<and> (c = k \<or> cell bits w k c))"
    if "r < length ids" "c < 64 * w" for r c
    unfolding descendant_update_def
    using cell_set_cell [OF lo jk kw that] cell_or_row [OF Cons.prems(2) k jk that] by blast
  have lb: "length ?b = length ids * w" by (simp add: descendant_update_def lo)
  from Cons.IH [OF _ lb] Cons.prems(1) obtain bits' where b':
    "link_deps (position_index ids) (descendant_update w k) ds ?b = Some bits'"
    "length bits' = length ids * w"
    "\<forall>r < length ids. \<forall>c < 64 * w. cell bits' w r c \<longleftrightarrow>
       cell ?b w r c \<or> (r < k \<and> ids ! r \<in> set ds \<and> (c = k \<or> cell ?b w k c))"
    by auto
  have "link_deps (position_index ids) (descendant_update w k) (x # ds) bits = Some bits'"
    using position_index_nth [OF d jk] j(2) b'(1) by simp
  moreover have "cell bits' w r c \<longleftrightarrow>
       cell bits w r c \<or> (r < k \<and> ids ! r \<in> set (x # ds) \<and> (c = k \<or> cell bits w k c))"
    if "r < length ids" "c < 64 * w" for r c
  proof -
    have "cell ?b w k c = cell bits w k c" using cb [OF k that(2)] j(1) by auto
    moreover have "ids ! r = x \<longleftrightarrow> r = j" using d that(1) jk j(2) by (metis nth_eq_iff_index_eq)
    ultimately show ?thesis using b'(3) that cb [OF that] j by auto
  qed
  ultimately show ?case using b'(2) by blast
qed

lemma rows_pass_append:
  "rows_pass idx deps upd (xs @ ys) bits =
     (case rows_pass idx deps upd xs bits of None \<Rightarrow> None | Some b \<Rightarrow> rows_pass idx deps upd ys b)"
  by (induction idx deps upd xs bits rule: rows_pass.induct) (auto split: option.split)

lemma trancl_last: "(c, r) \<in> R\<^sup>+ \<longleftrightarrow> (\<exists>j. (j, r) \<in> R \<and> (c = j \<or> (c, j) \<in> R\<^sup>+))"
  by (metis trancl.simps)

lemma trancl_first: "(r, c) \<in> R\<^sup>+ \<longleftrightarrow> (\<exists>m. (r, m) \<in> R \<and> (m, c) \<in> R\<^sup>*)"
  by (meson rtrancl_into_trancl2 tranclD)

lemma forward_pass:
  assumes t: "topological ids dm" and w: "length ids \<le> 64 * w" and n: "n \<le> length ids"
  shows "\<exists>bits. rows_pass (position_index ids) dm (ancestor_update w)
      (map (\<lambda>k. (k, ids ! k)) [0..<n]) (replicate (length ids * w) 0) = Some bits \<and>
    length bits = length ids * w \<and>
    (\<forall>r < length ids. \<forall>c < 64 * w. cell bits w r c \<longleftrightarrow> r < n \<and> (c, r) \<in> (edges ids dm)\<^sup>+)"
  using n
proof (induction n)
  case 0
  then show ?case using cell_zero [of _ "length ids"] by simp
next
  case (Suc n)
  then obtain bits where bits: "rows_pass (position_index ids) dm (ancestor_update w)
      (map (\<lambda>k. (k, ids ! k)) [0..<n]) (replicate (length ids * w) 0) = Some bits"
    "length bits = length ids * w"
    "\<forall>r < length ids. \<forall>c < 64 * w. cell bits w r c \<longleftrightarrow> r < n \<and> (c, r) \<in> (edges ids dm)\<^sup>+" by auto
  have n: "n < length ids" using Suc.prems by simp
  have d: "distinct ids" using t by (simp add: topological_def)
  have ds: "\<forall>x \<in> set (get_list dm (ids ! n)). \<exists>j < n. ids ! j = x"
    using t n by (simp add: topological_def)
  from link_ancestors [OF d w n ds bits(2)] obtain bits' where b':
    "link_deps (position_index ids) (ancestor_update w n) (get_list dm (ids ! n)) bits = Some bits'"
    "length bits' = length ids * w"
    "\<forall>r < length ids. \<forall>c < 64 * w. cell bits' w r c \<longleftrightarrow> cell bits w r c \<or>
       (r = n \<and> (\<exists>j < n. ids ! j \<in> set (get_list dm (ids ! n)) \<and> (c = j \<or> cell bits w j c)))"
    by blast
  have "cell bits' w r c \<longleftrightarrow> r < Suc n \<and> (c, r) \<in> (edges ids dm)\<^sup>+"
    if rc: "r < length ids" "c < 64 * w" for r c
  proof -
    have e: "(j, n) \<in> edges ids dm \<longleftrightarrow> j < n \<and> ids ! j \<in> set (get_list dm (ids ! n))" for j
      using edges_less [OF t, of j n] n by (auto simp: edges_def)
    have row: "cell bits w j c \<longleftrightarrow> (c, j) \<in> (edges ids dm)\<^sup>+" if "j < n" for j
      using bits(3) that n rc(2) by auto
    have "cell bits' w r c \<longleftrightarrow> (r < n \<and> (c, r) \<in> (edges ids dm)\<^sup>+) \<or>
        (r = n \<and> (\<exists>j. (j, n) \<in> edges ids dm \<and> (c = j \<or> (c, j) \<in> (edges ids dm)\<^sup>+)))"
      using b'(3) bits(3) rc row e by (auto 0 4)
    then show ?thesis unfolding less_Suc_eq trancl_last [of c r] by blast
  qed
  moreover have "rows_pass (position_index ids) dm (ancestor_update w)
      (map (\<lambda>k. (k, ids ! k)) [0..<Suc n]) (replicate (length ids * w) 0) = Some bits'"
    by (simp add: rows_pass_append bits(1) b'(1))
  ultimately show ?case using b'(2) by blast
qed

lemma backward_pass:
  assumes t: "topological ids dm" and w: "length ids \<le> 64 * w" and n: "n \<le> length ids"
  shows "\<exists>bits. rows_pass (position_index ids) dm (descendant_update w)
      (rev (map (\<lambda>k. (k, ids ! k)) [length ids - n..<length ids])) (replicate (length ids * w) 0)
        = Some bits \<and>
    length bits = length ids * w \<and>
    (\<forall>r < length ids. \<forall>c < 64 * w. cell bits w r c \<longleftrightarrow>
       (\<exists>m. length ids - n \<le> m \<and> (r, m) \<in> edges ids dm \<and> (m, c) \<in> (edges ids dm)\<^sup>*))"
  using n
proof (induction n)
  case 0
  have "\<not> length ids \<le> m" if "(r, m) \<in> edges ids dm" for r m using that by (simp add: edges_def)
  then show ?case using cell_zero [of _ "length ids"] by auto
next
  case (Suc n)
  then obtain bits where bits: "rows_pass (position_index ids) dm (descendant_update w)
      (rev (map (\<lambda>k. (k, ids ! k)) [length ids - n..<length ids])) (replicate (length ids * w) 0) = Some bits"
    "length bits = length ids * w"
    "\<forall>r < length ids. \<forall>c < 64 * w. cell bits w r c \<longleftrightarrow>
       (\<exists>m. length ids - n \<le> m \<and> (r, m) \<in> edges ids dm \<and> (m, c) \<in> (edges ids dm)\<^sup>*)" by auto
  define q where "q = length ids - Suc n"
  have q: "q < length ids" "length ids - n = Suc q" using Suc.prems by (auto simp: q_def)
  have d: "distinct ids" using t by (simp add: topological_def)
  have ds: "\<forall>x \<in> set (get_list dm (ids ! q)). \<exists>j < q. ids ! j = x"
    using t q by (simp add: topological_def)
  from link_descendants [OF d w q(1) ds bits(2)] obtain bits' where b':
    "link_deps (position_index ids) (descendant_update w q) (get_list dm (ids ! q)) bits = Some bits'"
    "length bits' = length ids * w"
    "\<forall>r < length ids. \<forall>c < 64 * w. cell bits' w r c \<longleftrightarrow> cell bits w r c \<or>
       (r < q \<and> ids ! r \<in> set (get_list dm (ids ! q)) \<and> (c = q \<or> cell bits w q c))"
    by blast
  have "cell bits' w r c \<longleftrightarrow> (\<exists>m. q \<le> m \<and> (r, m) \<in> edges ids dm \<and> (m, c) \<in> (edges ids dm)\<^sup>*)"
    if rc: "r < length ids" "c < 64 * w" for r c
  proof -
    have e: "(r, q) \<in> edges ids dm \<longleftrightarrow> r < q \<and> ids ! r \<in> set (get_list dm (ids ! q))"
      using edges_less [OF t, of r q] q by (auto simp: edges_def)
    have "cell bits w q c \<longleftrightarrow> (q, c) \<in> (edges ids dm)\<^sup>+"
    proof -
      have "(\<exists>m. Suc q \<le> m \<and> (q, m) \<in> edges ids dm \<and> (m, c) \<in> (edges ids dm)\<^sup>*) \<longleftrightarrow>
          (\<exists>m. (q, m) \<in> edges ids dm \<and> (m, c) \<in> (edges ids dm)\<^sup>*)"
        using edges_less [OF t, of q] Suc_leI by blast
      with bits(3) q(1) rc(2) show ?thesis unfolding q(2) trancl_first by simp
    qed
    then have row: "c = q \<or> cell bits w q c \<longleftrightarrow> (q, c) \<in> (edges ids dm)\<^sup>*"
      by (auto simp: rtrancl_eq_or_trancl)
    have old: "cell bits w r c \<longleftrightarrow> (\<exists>m. Suc q \<le> m \<and> (r, m) \<in> edges ids dm \<and> (m, c) \<in> (edges ids dm)\<^sup>*)"
      using bits(3) rc unfolding q(2) by blast
    have new: "cell bits' w r c \<longleftrightarrow> cell bits w r c \<or> ((r, q) \<in> edges ids dm \<and> (q, c) \<in> (edges ids dm)\<^sup>*)"
      using b'(3) rc e row by blast
    show ?thesis unfolding new old by (metis le_antisym not_less_eq_eq order_refl Suc_leD)
  qed
  moreover have "[length ids - Suc n..<length ids] = q # [length ids - n..<length ids]"
    using q by (simp add: q_def [symmetric] upt_conv_Cons)
  then have "rows_pass (position_index ids) dm (descendant_update w)
      (rev (map (\<lambda>k. (k, ids ! k)) [length ids - Suc n..<length ids])) (replicate (length ids * w) 0) = Some bits'"
    by (simp add: rows_pass_append bits(1) b'(1))
  ultimately show ?case using b'(2) unfolding q_def by blast
qed

section \<open>Layers and positions\<close>

lemma set_layer_positions:
  "(l, i) \<in> set (layer_positions layers) \<longleftrightarrow> l < length layers \<and> i \<in> set (layers ! l)"
proof -
  have "(l, i) \<in> set (layer_positions layers) \<longleftrightarrow> (\<exists>layer. (l, layer) \<in> set (enumerate 0 layers) \<and> i \<in> set layer)"
    by (fastforce simp: layer_positions_def)
  then show ?thesis by (auto simp: in_set_enumerate_eq)
qed

lemma snd_layer_positions: "map snd (layer_positions layers) = concat layers"
proof -
  have "map snd (concat (map (\<lambda>(l, layer). map (Pair l) layer) (enumerate n layers))) = concat layers" for n
    by (induction layers arbitrary: n) (auto simp: comp_def)
  then show ?thesis by (simp add: layer_positions_def)
qed

lemma layer_of_fold:
  assumes "\<And>i. i \<in> set (map snd ps) \<Longrightarrow> pos i < length ls"
    and "inj_on pos (set (map snd ps))" "distinct (map snd ps)" "(l, i) \<in> set ps"
  shows "foldl (\<lambda>ls (l, i). ls[pos i := l]) ls ps ! pos i = l"
  using assms
proof (induction ps rule: rev_induct)
  case (snoc e ps)
  obtain m j where e: "e = (m, j)" by force
  have len: "length (foldl (\<lambda>ls (l, i). ls[pos i := l]) ls qs) = length ls" for qs
    by (induction qs arbitrary: ls) (auto split: prod.split)
  show ?case
  proof (cases "(l, i) = e")
    case True
    with snoc.prems(1) [of i] e len show ?thesis by simp
  next
    case False
    with snoc.prems(4) have i: "(l, i) \<in> set ps" by simp
    then have "i \<in> set (map snd ps)" by force
    then have "i \<noteq> j" using snoc.prems(3) e by auto
    moreover have "i \<in> set (map snd (ps @ [e]))" "j \<in> set (map snd (ps @ [e]))"
      using \<open>i \<in> set (map snd ps)\<close> e by simp_all
    ultimately have "pos i \<noteq> pos j" using inj_onD [OF snoc.prems(2)] by blast
    moreover have "foldl (\<lambda>ls (l, i). ls[pos i := l]) ls ps ! pos i = l"
    proof (rule snoc.IH [OF _ _ _ i])
      show "inj_on pos (set (map snd ps))" by (rule inj_on_subset [OF snoc.prems(2)]) auto
    qed (use snoc.prems(1,3) in simp_all)
    ultimately show ?thesis using e by simp
  qed
qed simp

definition ordered :: "execution_graph \<Rightarrow> node_id \<Rightarrow> node_id \<Rightarrow> bool" where
  "ordered g i j \<longleftrightarrow> (i, j) \<in> (dep_rel (g_dependencies g))\<^sup>+ \<or> (j, i) \<in> (dep_rel (g_dependencies g))\<^sup>+"

definition same_layer :: "execution_graph \<Rightarrow> node_id \<Rightarrow> node_id \<Rightarrow> bool" where
  "same_layer g i j \<longleftrightarrow> (\<exists>layer \<in> set (g_layers g). i \<in> set layer \<and> j \<in> set layer)"

definition separated :: "execution_graph \<Rightarrow> node_id \<Rightarrow> node_id \<Rightarrow> bool" where
  "separated g i j \<longleftrightarrow> \<not> same_layer g i j \<and> \<not> ordered g i j"

text \<open>What the index of a validated graph knows.\<close>

definition index_ok :: "execution_graph \<Rightarrow> order_index \<Rightarrow> bool" where
  "index_ok g ix \<longleftrightarrow>
     oi_ids ix = concat (g_layers g) \<and> distinct (oi_ids ix) \<and>
     (\<forall>k < length (oi_ids ix). map_of (oi_index ix) (oi_ids ix ! k) = Some k) \<and>
     (\<forall>i k. map_of (oi_index ix) i = Some k \<longrightarrow> k < length (oi_ids ix) \<and> oi_ids ix ! k = i) \<and>
     (\<forall>j < length (oi_ids ix). \<forall>k < length (oi_ids ix).
        (oi_layer_of ix ! j = oi_layer_of ix ! k \<longleftrightarrow> same_layer g (oi_ids ix ! j) (oi_ids ix ! k)) \<and>
        (get_cell (oi_ancestors ix) (oi_words ix) k j \<longleftrightarrow>
           (oi_ids ix ! j, oi_ids ix ! k) \<in> (dep_rel (g_dependencies g))\<^sup>+)) \<and>
     (\<forall>k < length (oi_ids ix).
        ancestor_count ix k = card {j. j < length (oi_ids ix) \<and>
           (oi_ids ix ! j, oi_ids ix ! k) \<in> (dep_rel (g_dependencies g))\<^sup>+} \<and>
        descendant_count ix k = card {j. j < length (oi_ids ix) \<and>
           (oi_ids ix ! k, oi_ids ix ! j) \<in> (dep_rel (g_dependencies g))\<^sup>+} \<and>
        layer_size ix k = card {j. j < length (oi_ids ix) \<and> same_layer g (oi_ids ix ! j) (oi_ids ix ! k)})"

lemma position_index_Some:
  "map_of (position_index ids) i = Some k \<Longrightarrow> k < length ids \<and> ids ! k = i"
proof -
  assume "map_of (position_index ids) i = Some k"
  then have "(i, k) \<in> set (rev (map (\<lambda>(k, i). (i, k)) (enumerate 0 ids)))"
    unfolding position_index_def bt_get_of_list by (rule map_of_SomeD)
  then show ?thesis by (auto simp: in_set_enumerate_eq)
qed

lemma edges_dep_rel:
  assumes d: "distinct ids" and cl: "\<And>j k. (j, k) \<in> dep_rel dm \<Longrightarrow> j \<in> set ids \<and> k \<in> set ids"
    and jk: "j < length ids" "k < length ids"
  shows "(j, k) \<in> (edges ids dm)\<^sup>+ \<longleftrightarrow> (ids ! j, ids ! k) \<in> (dep_rel dm)\<^sup>+"
proof
  have "(ids ! j, ids ! k) \<in> (dep_rel dm)\<^sup>+" if "(j, k) \<in> (edges ids dm)\<^sup>+" for j k
    using that
  proof induction
    case (base k)
    then show ?case by (auto simp: edges_def dep_rel_def deps_of_def)
  next
    case (step k m)
    then have "(ids ! k, ids ! m) \<in> dep_rel dm" by (auto simp: edges_def dep_rel_def deps_of_def)
    with step show ?case by (meson trancl_into_trancl)
  qed
  then show "(j, k) \<in> (edges ids dm)\<^sup>+ \<Longrightarrow> (ids ! j, ids ! k) \<in> (dep_rel dm)\<^sup>+" .
  have edge: "(a, b) \<in> edges ids dm"
    if "(ids ! a, ids ! b) \<in> dep_rel dm" "a < length ids" "b < length ids" for a b
    using that by (simp add: edges_def dep_rel_def deps_of_def)
  have "\<forall>k < length ids. ids ! k = y \<longrightarrow> (j, k) \<in> (edges ids dm)\<^sup>+"
    if "(ids ! j, y) \<in> (dep_rel dm)\<^sup>+" for y
    using that
  proof induction
    case (base y)
    then show ?case using edge jk(1) by blast
  next
    case (step y z)
    from step.hyps(2) cl have "y \<in> set ids" by blast
    then obtain m where m: "m < length ids" "ids ! m = y" by (auto simp: in_set_conv_nth)
    then have jm: "(j, m) \<in> (edges ids dm)\<^sup>+" using step.IH by blast
    show ?case
    proof (intro allI impI)
      fix k assume k: "k < length ids" "ids ! k = z"
      then have "(m, k) \<in> edges ids dm" using edge m step.hyps(2) by blast
      with jm show "(j, k) \<in> (edges ids dm)\<^sup>+" by (rule trancl_into_trancl)
    qed
  qed
  then show "(ids ! j, ids ! k) \<in> (dep_rel dm)\<^sup>+ \<Longrightarrow> (j, k) \<in> (edges ids dm)\<^sup>+" using jk(2) by blast
qed

lemma card_positions:
  assumes "distinct ids" "S \<subseteq> set ids"
  shows "card {j. j < length ids \<and> ids ! j \<in> S} = card S"
proof -
  have "(!) ids ` {j. j < length ids \<and> ids ! j \<in> S} = S"
    using assms(2) by (fastforce simp: in_set_conv_nth image_iff)
  moreover have "inj_on ((!) ids) {j. j < length ids \<and> ids ! j \<in> S}"
    using assms(1) by (auto simp: inj_on_def nth_eq_iff_index_eq)
  ultimately show ?thesis by (metis card_image)
qed

lemma topological_layers:
  assumes snd: "layers_sound dm effects layers" and keys: "\<And>n. get_list dm n \<noteq> [] \<Longrightarrow> n \<in> set (concat layers)"
  shows "topological (concat layers) dm"
  unfolding topological_def
proof (intro conjI allI impI ballI)
  show "distinct (concat layers)" using snd by (simp add: layers_sound_def)
  fix k d assume k: "k < length (concat layers)" and d: "d \<in> set (get_list dm (concat layers ! k))"
  have "\<exists>i < length layers. \<exists>x < length (layers ! i).
      k = length (concat (take i layers)) + x \<and> concat layers ! k = layers ! i ! x" if "k < length (concat layers)" for k
    using that
  proof (induction layers rule: rev_induct)
    case (snoc l layers)
    show ?case
    proof (cases "k < length (concat layers)")
      case True
      from snoc.IH [OF this] obtain i x where "i < length layers" "x < length (layers ! i)"
        "k = length (concat (take i layers)) + x" "concat layers ! k = layers ! i ! x" by blast
      with True show ?thesis by (intro exI [of _ i] conjI exI [of _ x]) (auto simp: nth_append)
    next
      case False
      with snoc.prems show ?thesis
        by (intro exI [of _ "length layers"] conjI exI [of _ "k - length (concat layers)"])
          (auto simp: nth_append)
    qed
  qed simp
  with k obtain i x where ix: "i < length layers" "x < length (layers ! i)"
    "k = length (concat (take i layers)) + x" "concat layers ! k = layers ! i ! x" by blast
  then have "d \<in> set (concat (take i layers))"
    using snd d unfolding layers_sound_def deps_of_def by (metis nth_mem subsetD)
  then obtain j where j: "j < length (concat (take i layers))" "concat (take i layers) ! j = d"
    by (auto simp: in_set_conv_nth simp del: set_concat)
  have "concat layers = concat (take i layers) @ concat (drop i layers)"
    by (metis append_take_drop_id concat_append)
  with j have "concat layers ! j = d" by (simp add: nth_append)
  with j ix(3) show "\<exists>j < k. concat layers ! j = d" by (intro exI [of _ j]) auto
qed

lemma order_index_valid:
  assumes v: "validate p = Inr g"
  shows "\<exists>ix. order_index_new g = Some ix \<and> index_ok g ix"
proof -
  note G = graph_of_validate [OF v]
  let ?dm = "g_dependencies g" let ?layers = "g_layers g" let ?ids = "concat (g_layers g)"
  let ?N = "length ?ids" let ?w = "(?N + 63) div 64" let ?R = "(dep_rel ?dm)\<^sup>+"
  have cl: "closed_deps ?dm" unfolding G(3) by (rule closed_plan_deps [OF G(1)])
  have snd: "layers_sound ?dm (g_resolved_effects g) ?layers" using G(3,4,5) by simp
  have K: "fst ` set ?dm = set ?ids" unfolding G(3,6) by (rule fst_set_plan_deps)
  have keys: "n \<in> set ?ids" if "get_list ?dm n \<noteq> []" for n
    using get_list_nonempty_key [OF that] K by blast
  have t: "topological ?ids ?dm" by (rule topological_layers [OF snd keys])
  have d: "distinct ?ids" using t by (simp add: topological_def)
  have w: "?N \<le> 64 * ?w" by linarith
  have rel: "a \<in> set ?ids \<and> b \<in> set ?ids" if "(a, b) \<in> dep_rel ?dm" for a b
  proof -
    have "a \<in> deps_of ?dm b" using that by (simp add: dep_rel_def)
    then have "a \<in> set ?ids" using deps_of_subset [OF cl, of b] K by blast
    moreover have "get_list ?dm b \<noteq> []" using that by (auto simp: dep_rel_def deps_of_def)
    ultimately show ?thesis using keys by blast
  qed
  have enum: "enumerate 0 ?ids = map (\<lambda>k. (k, ?ids ! k)) [0..<?N]"
    by (rule nth_equalityI) (simp_all add: nth_enumerate_eq)
  obtain anc where anc: "rows_pass (position_index ?ids) ?dm (ancestor_update ?w) (enumerate 0 ?ids)
        (replicate (?N * ?w) 0) = Some anc" "length anc = ?N * ?w"
      "\<forall>r < ?N. \<forall>c < 64 * ?w. cell anc ?w r c \<longleftrightarrow> r < ?N \<and> (c, r) \<in> (edges ?ids ?dm)\<^sup>+"
    using forward_pass [OF t w order_refl] unfolding enum by blast
  obtain desc where desc: "rows_pass (position_index ?ids) ?dm (descendant_update ?w)
        (rev (enumerate 0 ?ids)) (replicate (?N * ?w) 0) = Some desc" "length desc = ?N * ?w"
      "\<forall>r < ?N. \<forall>c < 64 * ?w. cell desc ?w r c \<longleftrightarrow> (r, c) \<in> (edges ?ids ?dm)\<^sup>+"
    using backward_pass [OF t w order_refl] unfolding enum trancl_first by auto
  define lo where "lo = foldl (\<lambda>ls (l, i). ls[the (map_of (position_index ?ids) i) := l])
      (replicate ?N 0) (layer_positions ?layers)"
  define ix where "ix = \<lparr>oi_ids = ?ids, oi_index = position_index ?ids, oi_layer_of = lo,
      oi_layer_sizes = map length ?layers, oi_words = ?w, oi_ancestors = anc, oi_descendants = desc\<rparr>"
  have new: "order_index_new g = Some ix"
    using anc(1) desc(1) by (simp add: order_index_new_def Let_def position_index_def ix_def lo_def)
  have pos: "the (map_of (position_index ?ids) (?ids ! k)) = k" if "k < ?N" for k
    using position_index_nth [OF d that] by simp
  have layer: "lo ! k = l" if "k < ?N" "l < length ?layers" "?ids ! k \<in> set (?layers ! l)" for k l
  proof -
    have "(l, ?ids ! k) \<in> set (layer_positions ?layers)" using that by (simp add: set_layer_positions)
    moreover have "inj_on (\<lambda>i. the (map_of (position_index ?ids) i)) (set ?ids)"
    proof (rule inj_onI)
      fix x y assume "x \<in> set ?ids" "y \<in> set ?ids"
        and e: "the (map_of (position_index ?ids) x) = the (map_of (position_index ?ids) y)"
      then obtain a b where "a < ?N" "?ids ! a = x" "b < ?N" "?ids ! b = y" by (metis in_set_conv_nth)
      with e pos show "x = y" by metis
    qed
    moreover have "the (map_of (position_index ?ids) i) < ?N" if "i \<in> set ?ids" for i
      using that pos by (metis in_set_conv_nth)
    ultimately have "lo ! the (map_of (position_index ?ids) (?ids ! k)) = l"
      unfolding lo_def using d
      by (intro layer_of_fold) (simp_all only: snd_layer_positions length_replicate)
    with pos [OF that(1)] show ?thesis by simp
  qed
  have ex_layer: "\<exists>l < length ?layers. ?ids ! k \<in> set (?layers ! l)" if "k < ?N" for k
  proof -
    have "?ids ! k \<in> set ?ids" using that by (rule nth_mem)
    then obtain layer where "layer \<in> set ?layers" "?ids ! k \<in> set layer" unfolding set_concat by blast
    then show ?thesis by (metis in_set_conv_nth)
  qed
  have same: "lo ! j = lo ! k \<longleftrightarrow> same_layer g (?ids ! j) (?ids ! k)" if jk: "j < ?N" "k < ?N" for j k
  proof
    assume e: "lo ! j = lo ! k"
    obtain a b where "a < length ?layers" "?ids ! j \<in> set (?layers ! a)"
      "b < length ?layers" "?ids ! k \<in> set (?layers ! b)" using ex_layer jk by blast
    with e layer jk show "same_layer g (?ids ! j) (?ids ! k)"
      unfolding same_layer_def by (metis nth_mem)
  next
    assume "same_layer g (?ids ! j) (?ids ! k)"
    then obtain l where "l < length ?layers" "?ids ! j \<in> set (?layers ! l)" "?ids ! k \<in> set (?layers ! l)"
      unfolding same_layer_def by (metis in_set_conv_nth)
    with layer jk show "lo ! j = lo ! k" by simp
  qed
  have reach: "cell anc ?w k j \<longleftrightarrow> (?ids ! j, ?ids ! k) \<in> ?R" "cell desc ?w k j \<longleftrightarrow> (?ids ! k, ?ids ! j) \<in> ?R"
    if "j < ?N" "k < ?N" for j k
  proof -
    have "j < 64 * ?w" using that(1) w by linarith
    then show "cell anc ?w k j \<longleftrightarrow> (?ids ! j, ?ids ! k) \<in> ?R" "cell desc ?w k j \<longleftrightarrow> (?ids ! k, ?ids ! j) \<in> ?R"
      using anc(3) desc(3) that edges_dep_rel [OF d rel that] edges_dep_rel [OF d rel that(2,1)] by auto
  qed
  have out: "j < ?N" if "(j, k) \<in> (edges ?ids ?dm)\<^sup>+ \<or> (k, j) \<in> (edges ?ids ?dm)\<^sup>+" for j k
  proof -
    have "(edges ?ids ?dm)\<^sup>+ \<subseteq> {..<?N} \<times> {..<?N}"
      by (rule trancl_subset_Sigma) (auto simp: edges_def)
    with that show ?thesis by blast
  qed
  have ac: "ancestor_count ix k = card {j. j < ?N \<and> (?ids ! j, ?ids ! k) \<in> ?R}" if k: "k < ?N" for k
  proof -
    have "{j. j < 64 * ?w \<and> cell anc ?w k j} = {j. j < ?N \<and> (?ids ! j, ?ids ! k) \<in> ?R}"
    proof (intro Collect_cong)
      fix j
      show "j < 64 * ?w \<and> cell anc ?w k j \<longleftrightarrow> j < ?N \<and> (?ids ! j, ?ids ! k) \<in> ?R"
      proof (cases "j < ?N")
        case True
        with w have "j < 64 * ?w" by linarith
        with True reach(1) [OF True k] show ?thesis by blast
      next
        case False
        with out [of j k] anc(3) k show ?thesis by blast
      qed
    qed
    with count_row [OF anc(2) k] show ?thesis by (simp add: ancestor_count_def ix_def)
  qed
  have dc: "descendant_count ix k = card {j. j < ?N \<and> (?ids ! k, ?ids ! j) \<in> ?R}" if k: "k < ?N" for k
  proof -
    have "{j. j < 64 * ?w \<and> cell desc ?w k j} = {j. j < ?N \<and> (?ids ! k, ?ids ! j) \<in> ?R}"
    proof (intro Collect_cong)
      fix j
      show "j < 64 * ?w \<and> cell desc ?w k j \<longleftrightarrow> j < ?N \<and> (?ids ! k, ?ids ! j) \<in> ?R"
      proof (cases "j < ?N")
        case True
        with w have "j < 64 * ?w" by linarith
        with True reach(2) [OF True k] show ?thesis by blast
      next
        case False
        with out [of j k] desc(3) k show ?thesis by blast
      qed
    qed
    with count_row [OF desc(2) k] show ?thesis by (simp add: descendant_count_def ix_def)
  qed
  have ls: "layer_size ix k = card {j. j < ?N \<and> same_layer g (?ids ! j) (?ids ! k)}" if k: "k < ?N" for k
  proof -
    obtain l where l: "l < length ?layers" "?ids ! k \<in> set (?layers ! l)" using ex_layer [OF k] by blast
    have dl: "distinct (?layers ! l)" "set (?layers ! l) \<subseteq> set ?ids"
      using d nth_mem [OF l(1)] by (auto simp: distinct_concat_iff)
    have "same_layer g (?ids ! j) (?ids ! k) \<longleftrightarrow> ?ids ! j \<in> set (?layers ! l)" if "j < ?N" for j
    proof
      assume "same_layer g (?ids ! j) (?ids ! k)"
      then have "lo ! j = l" using same [OF that k] layer [OF k l] by simp
      moreover obtain a where "a < length ?layers" "?ids ! j \<in> set (?layers ! a)"
        using ex_layer [OF \<open>j < ?N\<close>] by blast
      ultimately show "?ids ! j \<in> set (?layers ! l)" using layer [OF that] by simp
    next
      assume "?ids ! j \<in> set (?layers ! l)"
      with l show "same_layer g (?ids ! j) (?ids ! k)" unfolding same_layer_def by (metis nth_mem)
    qed
    then have "card {j. j < ?N \<and> same_layer g (?ids ! j) (?ids ! k)}
        = card {j. j < ?N \<and> ?ids ! j \<in> set (?layers ! l)}" by (intro arg_cong [where f = card]) blast
    also have "\<dots> = card (set (?layers ! l))" by (rule card_positions [OF d dl(2)])
    also have "\<dots> = length (?layers ! l)" by (rule distinct_card [OF dl(1)])
    finally show ?thesis using layer [OF k l] l by (simp add: layer_size_def ix_def)
  qed
  have "index_ok g ix"
    unfolding index_ok_def
    using d position_index_nth [OF d] position_index_Some same reach(1) ac dc ls
    by (simp add: ix_def get_cell_iff)
  with new show ?thesis by blast
qed

section \<open>The diagnostics are what their specification says\<close>

lemma acyclic_graph: "validate p = Inr g \<Longrightarrow> acyclic (dep_rel (g_dependencies g))"
  using graph_of_validate(2,3,7) dep_rel_plan_deps by metis

text \<open>Ancestors, descendants, the own layer and the separated nodes partition the plan.\<close>

lemma count_separated:
  assumes v: "validate p = Inr g" and ix: "index_ok g ix" and k: "k < length (oi_ids ix)"
  shows "length (oi_ids ix) - 1 - (ancestor_count ix k + descendant_count ix k) - (layer_size ix k - 1)
    = card {j. j < length (oi_ids ix) \<and> separated g (oi_ids ix ! j) (oi_ids ix ! k)}"
proof -
  note I = ix [unfolded index_ok_def]
  let ?ids = "oi_ids ix" let ?R = "(dep_rel (g_dependencies g))\<^sup>+" let ?x = "oi_ids ix ! k"
  define A where "A = {j. j < length ?ids \<and> (?ids ! j, ?x) \<in> ?R}"
  define D where "D = {j. j < length ?ids \<and> (?x, ?ids ! j) \<in> ?R}"
  define L where "L = {j. j < length ?ids \<and> same_layer g (?ids ! j) ?x}"
  define U where "U = {j. j < length ?ids \<and> separated g (?ids ! j) ?x}"
  have ac: "acyclic (dep_rel (g_dependencies g))" by (rule acyclic_graph [OF v])
  have AD: "A \<inter> D = {}" using ac unfolding A_def D_def acyclic_def by (auto dest: trancl_trans)
  have layers: "\<not> same_layer g a b" if "(a, b) \<in> ?R" for a b
  proof -
    note G = graph_of_validate [OF v]
    have snd: "layers_sound (g_dependencies g) (g_resolved_effects g) (g_layers g)" using G(3,4,5) by simp
    have dl: "distinct (concat (g_layers g))" using snd by (simp add: layers_sound_def)
    define lay where "lay i l \<longleftrightarrow> l < length (g_layers g) \<and> i \<in> set (g_layers g ! l)" for i l
    have uniq: "l = m" if "lay i l" "lay i m" for i l m
    proof (rule ccontr)
      assume "l \<noteq> m"
      have "distinct (g_layers g)" using dl snd by (auto simp: distinct_concat_iff layers_sound_def removeAll_id)
      then have "g_layers g ! l \<noteq> g_layers g ! m"
        using that \<open>l \<noteq> m\<close> by (simp add: lay_def nth_eq_iff_index_eq)
      then show False using dl that unfolding lay_def distinct_concat_iff by (metis nth_mem disjoint_iff)
    qed
    have step: "\<exists>l < m. lay a l" if "(a, b) \<in> dep_rel (g_dependencies g)" "lay b m" for a b m
    proof -
      have "a \<in> set (concat (take m (g_layers g)))"
        using that snd unfolding layers_sound_def lay_def dep_rel_def by blast
      then obtain layer where "layer \<in> set (take m (g_layers g))" "a \<in> set layer" by auto
      then obtain l where "l < m" "l < length (g_layers g)" "g_layers g ! l = layer"
        by (auto simp: in_set_conv_nth)
      with \<open>a \<in> set layer\<close> show ?thesis by (auto simp: lay_def)
    qed
    have "\<forall>m. lay b m \<longrightarrow> (\<exists>l < m. lay a l)" using that
    proof (induction rule: converse_trancl_induct)
      case (base y)
      then show ?case using step by blast
    next
      case (step y z)
      then show ?case using \<open>\<And>m b a. (a, b) \<in> dep_rel (g_dependencies g) \<Longrightarrow> lay b m \<Longrightarrow> \<exists>l<m. lay a l\<close>
        by (meson order.strict_trans)
    qed
    then show ?thesis unfolding same_layer_def using uniq
      by (metis in_set_conv_nth lay_def less_irrefl)
  qed
  have sym: "same_layer g a b \<longleftrightarrow> same_layer g b a" for a b unfolding same_layer_def by blast
  have L_disj: "L \<inter> (A \<union> D) = {}" using layers sym unfolding L_def A_def D_def by blast
  have U_disj: "U \<inter> (L \<union> A \<union> D) = {}"
    unfolding U_def L_def A_def D_def separated_def ordered_def by blast
  have all: "{..<length ?ids} = U \<union> (L \<union> (A \<union> D))"
    unfolding U_def L_def A_def D_def separated_def ordered_def by blast
  have fin: "finite A" "finite D" "finite L" "finite U" unfolding A_def D_def L_def U_def by simp_all
  have "length ?ids = card (U \<union> (L \<union> (A \<union> D)))" by (simp flip: all)
  also have "\<dots> = card U + (card L + (card A + card D))"
    using fin AD L_disj U_disj by (simp add: card_Un_disjoint Int_Un_distrib)
  finally have N: "length ?ids = card U + (card L + (card A + card D))" .
  have "?x \<in> set (concat (g_layers g))" using I k nth_mem by metis
  then have "same_layer g ?x ?x" unfolding same_layer_def by auto
  then have "k \<in> L" using k by (simp add: L_def)
  then have "card L \<ge> 1" using fin(3) by (metis One_nat_def Suc_leI card_gt_0_iff empty_iff)
  moreover have "ancestor_count ix k = card A" "descendant_count ix k = card D" "layer_size ix k = card L"
    using I k unfolding A_def D_def L_def by blast+
  ultimately show ?thesis using N unfolding U_def by linarith
qed

definition declared_node :: "execution_graph \<Rightarrow> node_id \<Rightarrow> bool" where
  "declared_node g i \<longleftrightarrow> (case map_of (g_resolved_effects g) i of None \<Rightarrow> False | Some fx \<Rightarrow> rfx_declared fx)"

definition reads_of :: "execution_graph \<Rightarrow> node_id \<Rightarrow> resource list" where
  "reads_of g i = (case map_of (g_resolved_effects g) i of None \<Rightarrow> [] | Some fx \<Rightarrow> rfx_reads fx)"

definition writes_of :: "execution_graph \<Rightarrow> node_id \<Rightarrow> resource list" where
  "writes_of g i = (case map_of (g_resolved_effects g) i of None \<Rightarrow> [] | Some fx \<Rightarrow> rfx_writes fx)"

lemma node_facts:
  assumes v: "validate p = Inr g" and ix: "index_ok g ix" and n: "n \<in> set (plan_nodes p)"
  shows "\<exists>fx k. map_of (g_resolved_effects g) (node_id n) = Some fx \<and>
     map_of (oi_index ix) (node_id n) = Some k \<and> k < length (oi_ids ix) \<and> oi_ids ix ! k = node_id n"
proof -
  note G = graph_of_validate [OF v] and I = ix [unfolded index_ok_def]
  have "node_id n \<in> set (node_ids p)" using n by (simp add: node_ids_def)
  then have "node_id n \<in> set (oi_ids ix)" using G(6) I by metis
  then obtain k where "k < length (oi_ids ix)" "oi_ids ix ! k = node_id n" by (auto simp: in_set_conv_nth)
  with I plan_effects_lookup [OF G(7) n] G(4) show ?thesis by metis
qed

lemma undeclared_nodes_set:
  assumes v: "validate p = Inr g" and ix: "index_ok g ix"
  shows "set (undeclared_nodes p g ix) =
     {i \<in> set (node_ids p). \<not> declared_node g i \<and> (\<exists>j \<in> set (node_ids p). separated g j i)}"
proof -
  note G = graph_of_validate [OF v] and I = ix [unfolded index_ok_def]
  have ids: "set (oi_ids ix) = set (node_ids p)" using G(6) I by metis
  have "(case map_of (g_resolved_effects g) (node_id n) of
         None \<Rightarrow> False
       | Some fx \<Rightarrow> \<not> rfx_declared fx \<and>
           (case map_of (oi_index ix) (node_id n) of
              None \<Rightarrow> False
            | Some k \<Rightarrow>
                length (oi_ids ix) - 1 - (ancestor_count ix k + descendant_count ix k)
                  - (layer_size ix k - 1) > 0)) \<longleftrightarrow>
      \<not> declared_node g (node_id n) \<and> (\<exists>j \<in> set (node_ids p). separated g j (node_id n))"
    if n: "n \<in> set (plan_nodes p)" for n
  proof -
    obtain fx k where k: "map_of (g_resolved_effects g) (node_id n) = Some fx"
      "map_of (oi_index ix) (node_id n) = Some k" "k < length (oi_ids ix)" "oi_ids ix ! k = node_id n"
      using node_facts [OF v ix n] by blast
    have "card {j. j < length (oi_ids ix) \<and> separated g (oi_ids ix ! j) (node_id n)} > 0 \<longleftrightarrow>
        (\<exists>j < length (oi_ids ix). separated g (oi_ids ix ! j) (node_id n))"
      by (auto simp: card_gt_0_iff)
    also have "\<dots> \<longleftrightarrow> (\<exists>j \<in> set (node_ids p). separated g j (node_id n))"
      using ids by (metis in_set_conv_nth)
    finally show ?thesis
      using count_separated [OF v ix k(3)] k by (simp add: declared_node_def)
  qed
  then show ?thesis unfolding undeclared_nodes_def by (auto simp: node_ids_def cong: filter_cong)
qed

lemma push_all_const:
  "get_list (foldl (\<lambda>m q. bt_push q k m) m qs) q = get_list m q @ replicate (count_list qs q) k"
  by (induction qs arbitrary: m) (auto simp: replicate_app_Cons_same)

lemma foldl_push_ok:
  "bt_ok m \<Longrightarrow> bt_ok (foldl (\<lambda>m q. bt_push q k m) m qs)"
  "fst ` set (foldl (\<lambda>m q. bt_push q k m) m qs) = fst ` set m \<union> set qs"
  by (induction qs arbitrary: m) auto

lemma touching_spec:
  assumes v: "validate p = Inr g" and ix: "index_ok g ix"
  shows "bt_ok (touching access p g ix)"
    and "k \<in> set (get_list (touching access p g ix) q) \<longleftrightarrow> k < length (oi_ids ix) \<and>
      (\<exists>fx. map_of (g_resolved_effects g) (oi_ids ix ! k) = Some fx \<and> rfx_declared fx \<and> q \<in> set (access fx))"
    and "(q \<in> fst ` set (touching access p g ix)) = (get_list (touching access p g ix) q \<noteq> [])"
proof -
  let ?f = "\<lambda>m n.
       case (map_of (g_resolved_effects g) (node_id n), map_of (oi_index ix) (node_id n)) of
         (Some fx, Some k) \<Rightarrow>
           if rfx_declared fx then foldl (\<lambda>m q. bt_push q k m) m (access fx) else m
       | _ \<Rightarrow> m"
  have inv: "bt_ok (foldl ?f [] ns) \<and>
    (\<forall>q k. k \<in> set (get_list (foldl ?f [] ns) q) \<longleftrightarrow> (\<exists>n \<in> set ns. \<exists>fx.
      map_of (g_resolved_effects g) (node_id n) = Some fx \<and> map_of (oi_index ix) (node_id n) = Some k \<and>
      rfx_declared fx \<and> q \<in> set (access fx))) \<and>
    (\<forall>q. q \<in> fst ` set (foldl ?f [] ns) \<longleftrightarrow> get_list (foldl ?f [] ns) q \<noteq> [])" for ns
  proof (induction ns rule: rev_induct)
    case (snoc n ns)
    show ?case
    proof (cases "(map_of (g_resolved_effects g) (node_id n), map_of (oi_index ix) (node_id n))")
      case (Pair a b)
      show ?thesis
      proof (cases "\<exists>fx k. a = Some fx \<and> b = Some k \<and> rfx_declared fx")
        case True
        then obtain fx k where fk: "a = Some fx" "b = Some k" "rfx_declared fx" by blast
        have "foldl ?f [] (ns @ [n]) = foldl (\<lambda>m q. bt_push q k m) (foldl ?f [] ns) (access fx)"
          using Pair fk by simp
        with snoc Pair fk show ?thesis
          by (auto simp: push_all_const foldl_push_ok count_list_0_iff simp del: image_iff)
      next
        case False
        then have "foldl ?f [] (ns @ [n]) = foldl ?f [] ns" using Pair by (auto split: option.splits)
        with snoc Pair False show ?thesis by auto
      qed
    qed
  qed simp
  show "bt_ok (touching access p g ix)" unfolding touching_def using inv by blast
  show "(q \<in> fst ` set (touching access p g ix)) = (get_list (touching access p g ix) q \<noteq> [])"
    unfolding touching_def using inv by blast
  note G = graph_of_validate [OF v] and I = ix [unfolded index_ok_def]
  have "(\<exists>n \<in> set (plan_nodes p). \<exists>fx.
      map_of (g_resolved_effects g) (node_id n) = Some fx \<and> map_of (oi_index ix) (node_id n) = Some k \<and>
      rfx_declared fx \<and> q \<in> set (access fx)) \<longleftrightarrow> k < length (oi_ids ix) \<and>
      (\<exists>fx. map_of (g_resolved_effects g) (oi_ids ix ! k) = Some fx \<and> rfx_declared fx \<and> q \<in> set (access fx))"
    (is "?l \<longleftrightarrow> ?r")
  proof
    assume ?l
    moreover have "k < length (oi_ids ix) \<and> oi_ids ix ! k = i" if "map_of (oi_index ix) i = Some k" for i
      using I that by blast
    ultimately show ?r by auto
  next
    assume r: ?r
    then have k: "k < length (oi_ids ix)" by blast
    have "oi_ids ix ! k \<in> set (concat (g_layers g))" using nth_mem [OF k] I by simp
    then obtain n where n: "n \<in> set (plan_nodes p)" "node_id n = oi_ids ix ! k"
      unfolding G(6) by (auto simp: node_ids_def)
    moreover have "map_of (oi_index ix) (oi_ids ix ! k) = Some k" using I k by blast
    ultimately show ?l using r by (intro bexI [of _ n]) auto
  qed
  with inv show "k \<in> set (get_list (touching access p g ix) q) \<longleftrightarrow> k < length (oi_ids ix) \<and>
      (\<exists>fx. map_of (g_resolved_effects g) (oi_ids ix ! k) = Some fx \<and> rfx_declared fx \<and> q \<in> set (access fx))"
    unfolding touching_def by blast
qed

lemma conflicts_set:
  assumes v: "validate p = Inr g" and ix: "index_ok g ix"
  shows "(\<exists>ns. (q, ns) \<in> set (conflicts p g ix) \<and> i \<in> set ns) \<longleftrightarrow>
     i \<in> set (node_ids p) \<and> declared_node g i \<and>
     (\<exists>j \<in> set (node_ids p). declared_node g j \<and> separated g i j \<and>
        ((q \<in> set (writes_of g i) \<and> q \<in> set (writes_of g j) \<union> set (reads_of g j)) \<or>
         (q \<in> set (reads_of g i) \<and> q \<in> set (writes_of g j))))"
proof -
  note G = graph_of_validate [OF v] and I = ix [unfolded index_ok_def]
  note W = touching_spec [where access = rfx_writes, OF v ix] and R = touching_spec [where access = rfx_reads, OF v ix]
  let ?ids = "oi_ids ix"
  let ?wr = "get_list (touching rfx_writes p g ix) q" let ?rd = "get_list (touching rfx_reads p g ix) q"
  have ids: "set ?ids = set (node_ids p)" using G(6) I by metis
  have wr: "k \<in> set ?wr \<longleftrightarrow> k < length ?ids \<and> declared_node g (?ids ! k) \<and> q \<in> set (writes_of g (?ids ! k))" for k
    using W(2) [where k = k and q = q] by (auto simp: declared_node_def writes_of_def split: option.splits)
  have rd: "k \<in> set ?rd \<longleftrightarrow> k < length ?ids \<and> declared_node g (?ids ! k) \<and> q \<in> set (reads_of g (?ids ! k))" for k
    using R(2) [where k = k and q = q] by (auto simp: declared_node_def reads_of_def split: option.splits)
  have cross: "unordered_cross_layer ix k l \<longleftrightarrow> separated g (?ids ! k) (?ids ! l)"
    if "k < length ?ids" "l < length ?ids" for k l
  proof -
    have "oi_layer_of ix ! k = oi_layer_of ix ! l \<longleftrightarrow> same_layer g (?ids ! k) (?ids ! l)"
      "get_cell (oi_ancestors ix) (oi_words ix) k l \<longleftrightarrow> (?ids ! l, ?ids ! k) \<in> (dep_rel (g_dependencies g))\<^sup>+"
      "get_cell (oi_ancestors ix) (oi_words ix) l k \<longleftrightarrow> (?ids ! k, ?ids ! l) \<in> (dep_rel (g_dependencies g))\<^sup>+"
      using I that by blast+
    then show ?thesis unfolding unordered_cross_layer_def separated_def ordered_def by blast
  qed
  have irrefl: "\<not> separated g i i" if "i \<in> set ?ids" for i
  proof -
    have "i \<in> set (concat (g_layers g))" using that I by simp
    then show ?thesis unfolding separated_def same_layer_def by auto
  qed
  have pos: "k \<in> set (conflicting_positions ix ?wr ?rd) \<longleftrightarrow>
      k < length ?ids \<and> declared_node g (?ids ! k) \<and>
      (\<exists>j \<in> set ?ids. declared_node g j \<and> separated g (?ids ! k) j \<and>
        ((q \<in> set (writes_of g (?ids ! k)) \<and> q \<in> set (writes_of g j) \<union> set (reads_of g j)) \<or>
         (q \<in> set (reads_of g (?ids ! k)) \<and> q \<in> set (writes_of g j))))" (is "_ \<longleftrightarrow> ?spec k") for k
  proof
    assume "k \<in> set (conflicting_positions ix ?wr ?rd)"
    then obtain l where k: "k \<in> set ?wr \<or> k \<in> set ?rd" and l: "unordered_cross_layer ix k l"
      "if k \<in> set ?wr then l \<in> set ?wr \<or> l \<in> set ?rd else l \<in> set ?wr"
      by (auto simp: conflicting_positions_def split: if_splits)
    have bounds: "k < length ?ids" "l < length ?ids" using k l(2) wr rd by (auto split: if_splits)
    then have "separated g (?ids ! k) (?ids ! l)" "?ids ! l \<in> set ?ids" using cross l(1) by simp_all
    with k l(2) wr rd show "?spec k" by (auto split: if_splits)
  next
    assume s: "?spec k"
    then obtain j where j: "j \<in> set ?ids" "declared_node g j" "separated g (?ids ! k) j"
      "(q \<in> set (writes_of g (?ids ! k)) \<and> q \<in> set (writes_of g j) \<union> set (reads_of g j)) \<or>
       (q \<in> set (reads_of g (?ids ! k)) \<and> q \<in> set (writes_of g j))" by blast
    obtain l where "l < length ?ids" "?ids ! l = j" using j(1) by (metis in_set_conv_nth)
    with j have l: "l < length ?ids" "declared_node g (?ids ! l)" "separated g (?ids ! k) (?ids ! l)"
      "(q \<in> set (writes_of g (?ids ! k)) \<and> q \<in> set (writes_of g (?ids ! l)) \<union> set (reads_of g (?ids ! l))) \<or>
       (q \<in> set (reads_of g (?ids ! k)) \<and> q \<in> set (writes_of g (?ids ! l)))"
      by simp_all
    have "l \<noteq> k" using irrefl l(1,3) nth_mem by blast
    moreover have "unordered_cross_layer ix k l" using cross s l(1,3) by blast
    moreover have "(k \<in> set ?wr \<and> (l \<in> set ?wr \<or> l \<in> set ?rd)) \<or> (k \<in> set ?rd \<and> l \<in> set ?wr)"
      using s l wr rd by auto
    ultimately show "k \<in> set (conflicting_positions ix ?wr ?rd)"
      by (auto simp: conflicting_positions_def)
  qed
  have entry: "(q, ns) \<in> set (conflicts p g ix) \<longleftrightarrow> ns \<noteq> [] \<and> ?wr \<noteq> [] \<and>
      ns = bs_of_list (map (\<lambda>k. ?ids ! k) (conflicting_positions ix ?wr ?rd))" for ns
  proof -
    have e: "(q, wl) \<in> set (touching rfx_writes p g ix) \<longleftrightarrow> ?wr \<noteq> [] \<and> wl = ?wr" for wl
    proof
      assume "(q, wl) \<in> set (touching rfx_writes p g ix)"
      with get_list_entry [OF W(1) this] W(3) [where q = q] show "?wr \<noteq> [] \<and> wl = ?wr"
        using img_fst by fastforce
    next
      assume a: "?wr \<noteq> [] \<and> wl = ?wr"
      then obtain x where "(q, x) \<in> set (touching rfx_writes p g ix)" using W(3) [where q = q] by auto
      with get_list_entry [OF W(1) this] a show "(q, wl) \<in> set (touching rfx_writes p g ix)" by simp
    qed
    define F where "F = (\<lambda>(q, writing). (q, bs_of_list (map (\<lambda>k. ?ids ! k)
        (conflicting_positions ix writing (get_list (touching rfx_reads p g ix) q)))))"
    have "(q, ns) \<in> set (conflicts p g ix) \<longleftrightarrow>
        ns \<noteq> [] \<and> (\<exists>wl. (q, wl) \<in> set (touching rfx_writes p g ix) \<and> F (q, wl) = (q, ns))"
      unfolding conflicts_def F_def
      by (auto simp: image_iff) (rule bexI [rotated], assumption, simp)
    then show ?thesis unfolding e F_def by auto
  qed
  have "(\<exists>ns. (q, ns) \<in> set (conflicts p g ix) \<and> i \<in> set ns) \<longleftrightarrow>
      (\<exists>k. i = ?ids ! k \<and> k \<in> set (conflicting_positions ix ?wr ?rd))"
  proof -
    have "?wr \<noteq> []" if "k \<in> set (conflicting_positions ix ?wr ?rd)" for k
      using that by (auto simp: conflicting_positions_def split: if_splits)
    moreover have "bs_of_list (map (\<lambda>k. ?ids ! k) ks) \<noteq> []" if "k \<in> set ks" for k ks
      using set_bs_of_list [of "map (\<lambda>k. ?ids ! k) ks"] that by fastforce
    ultimately show ?thesis unfolding entry by (auto simp: image_iff)
  qed
  also have "\<dots> \<longleftrightarrow> (\<exists>k. i = ?ids ! k \<and> ?spec k)" using pos by blast
  also have "\<dots> \<longleftrightarrow> (\<exists>k < length ?ids. i = ?ids ! k) \<and> declared_node g i \<and>
      (\<exists>j \<in> set ?ids. declared_node g j \<and> separated g i j \<and>
        ((q \<in> set (writes_of g i) \<and> q \<in> set (writes_of g j) \<union> set (reads_of g j)) \<or>
         (q \<in> set (reads_of g i) \<and> q \<in> set (writes_of g j))))" by blast
  also have "(\<exists>k < length ?ids. i = ?ids ! k) \<longleftrightarrow> i \<in> set ?ids" by (metis in_set_conv_nth)
  finally show ?thesis unfolding ids .
qed

text \<open>
  C15. The bitset diagnostics equal their specification: the nodes reported for missing effects
  are the undeclared ones with a node in another layer that no chain of dependencies orders
  against them, and the nodes reported for a resource are those that conflict on it with such
  a node, reads against writes or writes against anything.
\<close>

theorem explain_parallel_boundaries_spec:
  assumes "validate p = Inr g"
  shows "\<exists>ds. explain_parallel_boundaries p g = Some ds \<and>
    {i. \<exists>d \<in> set ds. dg_kind d = MissingEffects \<and> i \<in> set (dg_nodes d)} =
      {i \<in> set (node_ids p). \<not> declared_node g i \<and> (\<exists>j \<in> set (node_ids p). separated g j i)} \<and>
    (\<forall>q. {i. \<exists>d \<in> set ds. dg_kind d = ResourceConflict \<and> dg_resource d = Some q \<and> i \<in> set (dg_nodes d)} =
      {i \<in> set (node_ids p). declared_node g i \<and>
         (\<exists>j \<in> set (node_ids p). declared_node g j \<and> separated g i j \<and>
            ((q \<in> set (writes_of g i) \<and> q \<in> set (writes_of g j) \<union> set (reads_of g j)) \<or>
             (q \<in> set (reads_of g i) \<and> q \<in> set (writes_of g j))))})"
proof -
  obtain ix where ix: "order_index_new g = Some ix" "index_ok g ix"
    using order_index_valid [OF assms] by blast
  define ds where "ds = the (explain_parallel_boundaries p g)"
  have ds: "explain_parallel_boundaries p g = Some ds"
    by (simp add: ds_def explain_parallel_boundaries_def ix(1))
  have missing: "(\<exists>d \<in> set ds. dg_kind d = MissingEffects \<and> i \<in> set (dg_nodes d)) \<longleftrightarrow>
      i \<in> set (undeclared_nodes p g ix)" for i
    using ds by (auto simp: explain_parallel_boundaries_def ix(1) Let_def split: if_splits)
  have conflict: "(\<exists>d \<in> set ds. dg_kind d = ResourceConflict \<and> dg_resource d = Some q \<and> i \<in> set (dg_nodes d))
      \<longleftrightarrow> (\<exists>ns. (q, ns) \<in> set (conflicts p g ix) \<and> i \<in> set ns)" for i q
  proof -
    define mk where "mk = (\<lambda>(q, ns). \<lparr>dg_kind = ResourceConflict, dg_nodes = ns, dg_resource = Some q,
        dg_message = ''effects touch the same resource '' @ [CHR 0x27] @ q @ [CHR 0x27]\<rparr>)"
    have "ds = (if undeclared_nodes p g ix = [] then []
         else [\<lparr>dg_kind = MissingEffects, dg_nodes = undeclared_nodes p g ix, dg_resource = None,
                dg_message = ''missing or vacuous tool effects prevent safe parallelization''\<rparr>])
        @ map mk (conflicts p g ix)"
      using ds by (simp add: explain_parallel_boundaries_def ix(1) Let_def mk_def)
    then show ?thesis by (auto simp: mk_def split: prod.splits)
  qed
  show ?thesis
  proof (intro exI [of _ ds] conjI allI)
    show "explain_parallel_boundaries p g = Some ds" by (rule ds)
    show "{i. \<exists>d \<in> set ds. dg_kind d = MissingEffects \<and> i \<in> set (dg_nodes d)} =
      {i \<in> set (node_ids p). \<not> declared_node g i \<and> (\<exists>j \<in> set (node_ids p). separated g j i)}"
      unfolding missing undeclared_nodes_set [OF assms ix(2)] by simp
  qed (simp only: conflict conflicts_set [OF assms ix(2)])
qed

text \<open>An undeclared call beside a write and a read of the same file.\<close>

definition explain_plan :: plan where
  "explain_plan = plan_new\<lparr>
     plan_tools := [(''raw'', tool_spec_new ''builtin''), (''read'', read_tool), (''write'', write_tool)],
     plan_nodes := [file_node ''r'' ''read'' ''x'', file_node ''w'' ''write'' ''x'', node_new ''z'' ''raw'']\<rparr>"

definition explain_graph :: execution_graph where
  "explain_graph = (case validate explain_plan of Inr g \<Rightarrow> g)"

lemma explain_valid: "validate explain_plan = Inr explain_graph"
  by code_simp

theorem explain_parallel_boundaries_spec_witness:
  "\<exists>ds. explain_parallel_boundaries explain_plan explain_graph = Some ds \<and>
     map (\<lambda>d. (dg_nodes d, dg_resource d)) ds = [([''z''], None), ([''r'', ''w''], Some ''file:x'')]"
proof -
  obtain ds where "explain_parallel_boundaries explain_plan explain_graph = Some ds"
    using explain_parallel_boundaries_spec [OF explain_valid] by blast
  moreover have "map_option (map (\<lambda>d. (dg_nodes d, dg_resource d)))
      (explain_parallel_boundaries explain_plan explain_graph) =
      Some [([''z''], None), ([''r'', ''w''], Some ''file:x'')]" by code_simp
  ultimately show ?thesis by auto
qed

end
