(* ===== verification/Optimizer.thy ===== *)
theory Optimizer
  imports Explain
begin

text \<open>
  The optimizer's entry points, \<^verbatim>\<open>optimize\<close> and \<^verbatim>\<open>explain\<close> of
  \<^verbatim>\<open>crates/tool-compiler-optimizer/src/lib.rs\<close>: the pipeline of the passes of
  \<open>Passes\<close> around validation, with the report. The outer \<open>option\<close> is the
  termination of deduplication.
\<close>

section \<open>The pipeline\<close>

record optimization_report =
  rep_passes :: "string list"
  rep_deduplicated :: "deduplicated_node list"
  rep_eliminated :: "node_id list"
  rep_batch_groups :: "batch_group list"
  rep_summary :: optimization_summary

record optimized_plan =
  op_plan :: plan
  op_graph :: execution_graph
  op_report :: optimization_report

definition optimize_validated ::
  "tool_name list \<Rightarrow> deduplicated_node list \<Rightarrow> plan \<Rightarrow> (graph_error, optimized_plan) result" where
  "optimize_validated original_tools deduplicated p =
     res_bind (validate p) (\<lambda>graph.
       case eliminate_dead_nodes p graph of (p', eliminated) \<Rightarrow>
         res_bind (if eliminated = [] then Inr graph
                   else retain graph (bs_of_list (map node_id (plan_nodes p')))) (\<lambda>graph'.
           let groups = find_batch_groups p' graph' in
           Inr \<lparr>op_plan = p', op_graph = graph',
             op_report = \<lparr>rep_passes = [''dedup'', ''dce'', ''batch''],
               rep_deduplicated = deduplicated, rep_eliminated = eliminated,
               rep_batch_groups = groups,
               rep_summary = summarize original_tools p' graph' groups\<rparr>\<rparr>))"

definition optimize :: "debug_format \<Rightarrow> plan \<Rightarrow> (graph_error, optimized_plan) result option" where
  "optimize dbg p =
     map_option (\<lambda>(p', deduplicated).
         optimize_validated (map node_tool (plan_nodes p)) deduplicated p')
       (deduplicate_nodes dbg p)"

record explain_report =
  er_layers :: "node_id list list"
  er_optimization :: optimization_report
  er_diagnostics :: "diagnostic list option"

definition explain :: "debug_format \<Rightarrow> plan \<Rightarrow> (graph_error, explain_report) result option" where
  "explain dbg p =
     map_option (\<lambda>r. res_bind r (\<lambda>opt.
         Inr \<lparr>er_layers = g_layers (op_graph opt), er_optimization = op_report opt,
              er_diagnostics = explain_parallel_boundaries (op_plan opt) (op_graph opt)\<rparr>))
       (optimize dbg p)"

section \<open>What the pipeline returns\<close>

lemma elimination_revalidates:
  assumes v: "validate p = Inr g" and e: "eliminate_dead_nodes p g = (p', eliminated)"
    and ne: "eliminated \<noteq> []"
  shows "retain g (bs_of_list (map node_id (plan_nodes p'))) = validate p' \<and>
    (\<exists>g'. validate p' = Inr g')"
proof -
  let ?kept = "bs_of_list (map node_id (plan_nodes p'))"
  have p': "p' = p\<lparr>plan_nodes := filter (\<lambda>n. live p g (node_id n)) (plan_nodes p)\<rparr>"
    and outs: "plan_outputs p \<noteq> []"
    using e ne by (auto simp: eliminate_dead_nodes_eq split: if_splits)
  have mem: "i \<in> set ?kept \<longleftrightarrow> i \<in> set (node_ids p) \<and> live p g i" for i
    by (auto simp: p' node_ids_def)
  note G = graph_of_validate [OF v] and cl = live_closed [OF v, unfolded closed_nodes_def]
  have "closed_nodes p (set ?kept)"
    unfolding closed_nodes_def
  proof (intro conjI ballI impI; clarify?)
    fix n x assume n: "n \<in> set (plan_nodes p)" "node_id n \<in> set ?kept" "x \<in> set (declared_deps n)"
    then have "x \<in> set (node_ids p)" using G(1) by (auto simp: structural_def nodes_wf_def)
    with n cl mem show "x \<in> set ?kept" by blast
  next
    fix out r assume "(out, r) \<in> set (plan_outputs p)"
    moreover from this have "ref_node r \<in> set (node_ids p)" using G(1) by (auto simp: structural_def)
    ultimately show "ref_node r \<in> set ?kept" using cl mem by blast
  qed
  moreover have "restrict_nodes p (set ?kept) = p'"
  proof -
    have "filter (\<lambda>n. node_id n \<in> set ?kept) (plan_nodes p) = filter (\<lambda>n. live p g (node_id n)) (plan_nodes p)"
      using mem by (intro filter_cong) (auto simp: node_ids_def)
    then show ?thesis by (simp add: restrict_nodes_def p')
  qed
  ultimately show ?thesis using retain_closed [OF v] by metis
qed

lemma eliminated_plan:
  "eliminate_dead_nodes p g = (p', el) \<Longrightarrow> plan_tools p' = plan_tools p \<and> plan_outputs p' = plan_outputs p \<and>
     (\<exists>P. plan_nodes p' = filter P (plan_nodes p))"
  by (auto simp: eliminate_dead_nodes_eq split: if_splits intro: exI [of _ "\<lambda>_. True"])

lemma optimize_validated_graph:
  assumes "optimize_validated tools dd p = Inr opt"
  shows "validate (op_plan opt) = Inr (op_graph opt)"
    and "\<exists>g. validate p = Inr g \<and> eliminate_dead_nodes p g = (op_plan opt, rep_eliminated (op_report opt))"
    and "rep_batch_groups (op_report opt) = find_batch_groups (op_plan opt) (op_graph opt)"
    and "rep_summary (op_report opt) =
      summarize tools (op_plan opt) (op_graph opt) (rep_batch_groups (op_report opt))"
proof -
  from assms obtain g where v1: "validate p = Inr g" by (auto simp: optimize_validated_def)
  obtain p' el where e: "eliminate_dead_nodes p g = (p', el)" by force
  from assms v1 e obtain g' where v: "validate p = Inr g" "eliminate_dead_nodes p g = (p', el)"
    "(if el = [] then Inr g else retain g (bs_of_list (map node_id (plan_nodes p')))) = Inr g'"
    "opt = \<lparr>op_plan = p', op_graph = g',
       op_report = \<lparr>rep_passes = [''dedup'', ''dce'', ''batch''], rep_deduplicated = dd,
         rep_eliminated = el, rep_batch_groups = find_batch_groups p' g',
         rep_summary = summarize tools p' g' (find_batch_groups p' g')\<rparr>\<rparr>"
    by (auto simp: optimize_validated_def Let_def)
  have "validate p' = Inr g'"
  proof (cases "el = []")
    case True
    then have "filter (\<lambda>n. live p g (node_id n)) (plan_nodes p) = plan_nodes p \<or> plan_outputs p = []"
      using v(2) by (auto simp: eliminate_dead_nodes_eq filter_empty_conv filter_id_conv split: if_splits)
    then have "p' = p" using v(2) by (auto simp: eliminate_dead_nodes_eq split: if_splits)
    with v True show ?thesis by simp
  next
    case False
    with v elimination_revalidates [OF v(1,2)] show ?thesis by simp
  qed
  with v show "validate (op_plan opt) = Inr (op_graph opt)"
    "\<exists>g. validate p = Inr g \<and> eliminate_dead_nodes p g = (op_plan opt, rep_eliminated (op_report opt))"
    "rep_batch_groups (op_report opt) = find_batch_groups (op_plan opt) (op_graph opt)"
    "rep_summary (op_report opt) =
      summarize tools (op_plan opt) (op_graph opt) (rep_batch_groups (op_report opt))"
    by simp_all
qed

lemma optimize_validated_error:
  "(\<exists>opt. optimize_validated tools dd p = Inr opt) \<longleftrightarrow> valid_plan p"
proof -
  have "\<exists>opt. optimize_validated tools dd p = Inr opt" if v: "validate p = Inr g" for g
  proof (cases "eliminate_dead_nodes p g")
    case (Pair p' el)
    with elimination_revalidates [OF v Pair] v show ?thesis
      by (cases "el = []") (auto simp: optimize_validated_def Let_def)
  qed
  moreover have "\<exists>g. validate p = Inr g" if "optimize_validated tools dd p = Inr opt" for opt
    using that by (auto simp: optimize_validated_def)
  moreover have "(\<exists>g. validate p = Inr g) \<longleftrightarrow> valid_plan p" by (rule validate_ok_iff)
  ultimately show ?thesis by blast
qed


text \<open>
  C11. The graph of an optimized plan is what validation gives for it: the elimination keeps the
  graph in step with the plan, and the batch groups are those of the final plan and graph.
\<close>

theorem optimize_sound:
  assumes "optimize dbg p = Some (Inr opt)"
  shows "validate (op_plan opt) = Inr (op_graph opt) \<and>
    rep_batch_groups (op_report opt) = find_batch_groups (op_plan opt) (op_graph opt)"
proof -
  from assms obtain p' dd where "optimize_validated (map node_tool (plan_nodes p)) dd p' = Inr opt"
    by (auto simp: optimize_def)
  from optimize_validated_graph(1,3) [OF this] show ?thesis by blast
qed

text \<open>The plan after deduplication, when ids are distinct.\<close>

definition deduplicated_plan :: "debug_format \<Rightarrow> plan \<Rightarrow> plan" where
  "deduplicated_plan dbg p =
     (if removals dbg p = [] then p
      else p\<lparr>plan_nodes := map (map_node_refs (rep_id dbg p)) (survivors dbg p),
             plan_outputs := map (\<lambda>(o', r). (o', map_ref (rep_id dbg p) r)) (plan_outputs p)\<rparr>)"

lemma optimize_distinct:
  "distinct (node_ids p) \<Longrightarrow> optimize dbg p =
     Some (optimize_validated (map node_tool (plan_nodes p)) (removals dbg p) (deduplicated_plan dbg p))"
  by (simp add: optimize_def deduplicate_eq deduplicated_plan_def)

text \<open>
  C12. With distinct ids the optimizer always returns, and it accepts the plan if and only if
  the deduplicated plan is valid; then every output of the plan is still there, redirected to
  the survivor of the node it named, with its path.
\<close>

theorem optimize_total:
  assumes "distinct (node_ids p)"
  shows "\<exists>r. optimize dbg p = Some r \<and>
    ((\<exists>opt. r = Inr opt) \<longleftrightarrow> valid_plan (deduplicated_plan dbg p)) \<and>
    (\<forall>opt. r = Inr opt \<longrightarrow>
       plan_outputs (op_plan opt) = map (\<lambda>(o', x). (o', map_ref (rep_id dbg p) x)) (plan_outputs p))"
proof -
  let ?q = "deduplicated_plan dbg p"
  have outs: "plan_outputs ?q = map (\<lambda>(o', x). (o', map_ref (rep_id dbg p) x)) (plan_outputs p)"
  proof (cases "removals dbg p = []")
    case True
    then have "rep_id dbg p i = i" for i
      using dedup_no_alias [OF assms] dedup_aliases_Nil [OF assms] by blast
    then have "map_ref (rep_id dbg p) x = x" for x by (cases x) (simp add: map_ref_def)
    then show ?thesis using True by (simp add: deduplicated_plan_def)
  qed (simp add: deduplicated_plan_def)
  have "plan_outputs (op_plan opt) = plan_outputs ?q"
    if "optimize_validated (map node_tool (plan_nodes p)) (removals dbg p) ?q = Inr opt" for opt
    using optimize_validated_graph(2) [OF that] eliminated_plan by metis
  with outs show ?thesis
    using optimize_validated_error optimize_distinct [OF assms, of dbg] by auto
qed

section \<open>The estimates\<close>

lemma sum_list_filter_le: "sum_list (map f (filter P xs)) \<le> sum_list (map f xs :: nat list)"
  by (induction xs) auto

text \<open>
  The compiled-time estimate is never above the serial one, as long as the exact serial
  total fits the 64 bits it is kept in.
\<close>

theorem compiled_estimate_below_serial:
  assumes "distinct (node_ids p)" "optimize dbg p = Some (Inr opt)"
    and "sum_list (map (\<lambda>n. call_nat p (node_tool n) 1) (plan_nodes p)) < 2 ^ 64"
    and "os_serial_ms (rep_summary (op_report opt)) = Some serial"
    and "os_compiled_ms (rep_summary (op_report opt)) = Some compiled"
  shows "compiled \<le> serial"
proof -
  let ?q = "deduplicated_plan dbg p" let ?tools = "map node_tool (plan_nodes p)"
  have o: "optimize_validated ?tools (removals dbg p) ?q = Inr opt"
    using assms(1,2) by (simp add: optimize_distinct)
  note V = optimize_validated_graph [OF o]
  from V(2) obtain g where e: "validate ?q = Inr g"
      "eliminate_dead_nodes ?q g = (op_plan opt, rep_eliminated (op_report opt))" by blast
  have tools: "plan_tools (op_plan opt) = plan_tools p"
    using eliminated_plan [OF e(2)] by (simp add: deduplicated_plan_def)
  then have costs: "call_nat (op_plan opt) = call_nat p"
    by (intro ext) (simp add: call_nat_def tool_cost_of_def)
  have q: "sum_list (map (\<lambda>n. call_nat p (node_tool n) 1) (plan_nodes ?q))
      \<le> sum_list (map (\<lambda>n. call_nat p (node_tool n) 1) (plan_nodes p))"
    using sum_list_filter_le [of "\<lambda>n. call_nat p (node_tool n) 1" "\<lambda>n. rep_node dbg p n = n" "plan_nodes p"]
    by (auto simp: deduplicated_plan_def survivors_def map_node_refs_def comp_def)
  have p': "sum_list (map (\<lambda>n. call_nat p (node_tool n) 1) (plan_nodes (op_plan opt)))
      \<le> sum_list (map (\<lambda>n. call_nat p (node_tool n) 1) (plan_nodes ?q))"
    using eliminated_plan [OF e(2)] sum_list_filter_le by metis
  have "compiled = compiled_ms (op_plan opt) (op_graph opt) (find_batch_groups (op_plan opt) (op_graph opt))"
    using assms(5) V(3,4) by (simp add: summarize_def Let_def split: if_splits)
  then have c: "unat compiled \<le> sum_list (map (\<lambda>n. call_nat p (node_tool n) 1) (plan_nodes (op_plan opt)))"
    using compiled_ms_le [OF V(1)] by (simp add: costs)
  have "serial = sum_list (map (\<lambda>t. call_ms (op_plan opt) t 1) ?tools)"
    using assms(4) V(3,4) by (simp add: summarize_def Let_def split: if_splits)
  then have "unat serial = sum_list (map (\<lambda>n. call_nat p (node_tool n) 1) (plan_nodes p))"
    using serial_exact [of "op_plan opt" ?tools] assms(3) by (simp add: costs comp_def)
  with c q p' show ?thesis by (simp add: word_le_nat_alt)
qed

section \<open>Merging pure nodes can make a cycle\<close>

text \<open>
  Two identical pure nodes around one in the middle: the second of the list is in front of the
  middle one, and the middle one in front of the first.
\<close>

definition cycle_plan :: plan where
  "cycle_plan = plan_new\<lparr>plan_tools := [(''f'', pure_tool), (''raw'', tool_spec_new ''builtin'')],
     plan_nodes := [(node_new ''x2'' ''f'')\<lparr>node_depends_on := [''y'']\<rparr>,
       (node_new ''y'' ''raw'')\<lparr>node_depends_on := [''x1'']\<rparr>, node_new ''x1'' ''f'']\<rparr>"

text \<open>The explicit orderings of the nodes that survive deduplication.\<close>

definition kept_orderings :: "debug_format \<Rightarrow> plan \<Rightarrow> (node_id \<times> node_id) set" where
  "kept_orderings dbg p = {(d, node_id n) |d n. n \<in> set (survivors dbg p) \<and> d \<in> set (node_depends_on n)}"

lemma kept_orderingsI: "n \<in> set (survivors dbg p) \<Longrightarrow> d \<in> set (node_depends_on n) \<Longrightarrow> (d, node_id n) \<in> kept_orderings dbg p"
  by (auto simp: kept_orderings_def)

lemma plan_dep_relI: "n \<in> set (plan_nodes p) \<Longrightarrow> d \<in> set (declared_deps n) \<Longrightarrow> (d, node_id n) \<in> plan_dep_rel p"
  by (auto simp: plan_dep_rel_def)

lemma rep_id_survivor:
  "distinct (node_ids p) \<Longrightarrow> n \<in> set (survivors dbg p) \<Longrightarrow> rep_id dbg p (node_id n) = node_id n"
  using find_node [of p n] by (simp add: survivors_def rep_id_def)

lemma merged_in_removals: "rep_id dbg p i \<noteq> i \<Longrightarrow> removals dbg p \<noteq> []"
proof -
  assume ne: "rep_id dbg p i \<noteq> i"
  then obtain n where n: "find (\<lambda>n. node_id n = i) (plan_nodes p) = Some n"
    by (cases "find (\<lambda>n. node_id n = i) (plan_nodes p)") (simp_all add: rep_id_def)
  then have "n \<in> set (plan_nodes p)" "node_id n = i" by (auto simp: find_Some_iff)
  moreover from this ne n have "rep_node dbg p n \<noteq> n" by (auto simp: rep_id_def)
  ultimately show ?thesis unfolding removals_def map_is_Nil_conv filter_empty_conv by blast
qed

lemma kept_orderings_rewritten:
  assumes "distinct (node_ids p)" "(i, j) \<in> (kept_orderings dbg p)\<^sup>+" "removals dbg p \<noteq> []"
  shows "(rep_id dbg p i, rep_id dbg p j) \<in> (plan_dep_rel (deduplicated_plan dbg p))\<^sup>+"
proof -
  have edge: "(rep_id dbg p d, rep_id dbg p m) \<in> plan_dep_rel (deduplicated_plan dbg p)" if "(d, m) \<in> kept_orderings dbg p" for d m
  proof -
    from that obtain n where n: "m = node_id n" "n \<in> set (survivors dbg p)" "d \<in> set (node_depends_on n)"
      by (auto simp: kept_orderings_def)
    have "rep_id dbg p d \<in> set (declared_deps (map_node_refs (rep_id dbg p) n))"
      using n(3) by (simp add: declared_deps_def map_node_refs_def)
    moreover have "map_node_refs (rep_id dbg p) n \<in> set (plan_nodes (deduplicated_plan dbg p))"
      using n(2) assms(3) by (simp add: deduplicated_plan_def)
    moreover have "node_id (map_node_refs (rep_id dbg p) n) = rep_id dbg p m"
      using rep_id_survivor [OF assms(1) n(2)] n(1) by (simp add: map_node_refs_def)
    ultimately show ?thesis using plan_dep_relI by metis
  qed
  from assms(2) show ?thesis
  proof induction
    case (step j k)
    from step.IH edge [OF step.hyps(2)] show ?case by (rule trancl_into_trancl)
  qed (blast intro: edge)
qed

text \<open>
  C17. The optimizer rejects every plan with distinct ids in which explicit orderings of surviving
  nodes lead from a node to the earlier one of the list that deduplication merges it into: the
  orderings of pure nodes are not part of their key, and the merge closes a cycle. The plan itself
  may be valid, as \<open>cycle_plan\<close> is.
\<close>

theorem dedup_closes_cycle:
  assumes "distinct (node_ids p)" "rep_id dbg p b = a" "a \<noteq> b" "(b, a) \<in> (kept_orderings dbg p)\<^sup>+"
  shows "\<exists>e. optimize dbg p = Some (Inl e)"
proof -
  have r: "removals dbg p \<noteq> []" using assms(2,3) merged_in_removals [of dbg p b] by auto
  from assms(4) obtain n where "n \<in> set (survivors dbg p)" "a = node_id n"
    by (cases rule: trancl.cases) (auto simp: kept_orderings_def)
  then have "rep_id dbg p a = a" using rep_id_survivor [OF assms(1)] by simp
  with kept_orderings_rewritten [OF assms(1,4) r] assms(2)
  have "(a, a) \<in> (plan_dep_rel (deduplicated_plan dbg p))\<^sup>+" by simp
  then have "\<not> acyclic (plan_dep_rel (deduplicated_plan dbg p))" by (auto simp: acyclic_def)
  then obtain e where "validate (deduplicated_plan dbg p) = Inl e"
    using graph_of_validate(2) by (metis sum.exhaust)
  then show ?thesis by (simp add: optimize_distinct [OF assms(1)] optimize_validated_def)
qed

theorem dedup_closes_cycle_witness:
  "valid_plan cycle_plan \<and> (\<exists>e. optimize json_debug cycle_plan = Some (Inl e))"
proof
  have "(case validate cycle_plan of Inr g \<Rightarrow> True | Inl e \<Rightarrow> False)" by code_simp
  then have "\<exists>g. validate cycle_plan = Inr g" by (auto split: sum.splits)
  then show "valid_plan cycle_plan" by (simp only: validate_ok_iff)
  have d: "distinct (node_ids cycle_plan)" by code_simp
  have r: "rep_id json_debug cycle_plan ''x1'' = ''x2''" by code_simp
  have "map node_id (survivors json_debug cycle_plan) = [''x2'', ''y'']"
    "map node_depends_on (survivors json_debug cycle_plan) = [[''y''], [''x1'']]" by code_simp+
  then obtain n m where s: "survivors json_debug cycle_plan = [n, m]" "node_id n = ''x2''" "node_id m = ''y''"
    "node_depends_on n = [''y'']" "node_depends_on m = [''x1'']" by (auto simp: map_eq_Cons_conv)
  then have n: "n \<in> set (survivors json_debug cycle_plan)" "node_id n = ''x2''" "''y'' \<in> set (node_depends_on n)"
    and m: "m \<in> set (survivors json_debug cycle_plan)" "node_id m = ''y''" "''x1'' \<in> set (node_depends_on m)" by simp_all
  have "(''x1'', ''y'') \<in> kept_orderings json_debug cycle_plan" "(''y'', ''x2'') \<in> kept_orderings json_debug cycle_plan"
    using kept_orderingsI [OF n(1,3)] kept_orderingsI [OF m(1,3)] unfolding n(2) m(2) by simp_all
  then have "(''x1'', ''x2'') \<in> (kept_orderings json_debug cycle_plan)\<^sup>+" by (rule trancl_into_trancl [OF r_into_trancl])
  from dedup_closes_cycle [OF d r _ this] show "\<exists>e. optimize json_debug cycle_plan = Some (Inl e)" by simp
qed

section \<open>Concrete instances\<close>

definition costed_plan :: plan where
  "costed_plan = passes_plan\<lparr>plan_tools := map (\<lambda>(t, s). (t, s\<lparr>spec_cost :=
     Some \<lparr>cost_fixed_ms = Some 10, cost_per_call_ms = Some 5, cost_tokens = None\<rparr>\<rparr>)) (plan_tools passes_plan)\<rparr>"

definition costed_opt :: optimized_plan where
  "costed_opt = (case optimize_validated (map node_tool (plan_nodes costed_plan))
      (removals json_debug costed_plan) (deduplicated_plan json_debug costed_plan) of Inr opt \<Rightarrow> opt)"

lemma costed_distinct: "distinct (node_ids costed_plan)"
  by code_simp

lemma costed_optimize: "optimize json_debug costed_plan = Some (Inr costed_opt)"
proof -
  have "optimize_validated (map node_tool (plan_nodes costed_plan))
      (removals json_debug costed_plan) (deduplicated_plan json_debug costed_plan) = Inr costed_opt"
    by code_simp
  then show ?thesis by (simp add: optimize_distinct [OF costed_distinct])
qed

theorem optimize_sound_witness:
  "validate (op_plan costed_opt) = Inr (op_graph costed_opt) \<and>
   map bg_nodes (rep_batch_groups (op_report costed_opt)) = [[''g1'', ''g2'']]"
proof -
  have "map bg_nodes (rep_batch_groups (op_report costed_opt)) = [[''g1'', ''g2'']]" by code_simp
  with optimize_sound [OF costed_optimize] show ?thesis by simp
qed

theorem optimize_total_witness:
  "plan_outputs (op_plan costed_opt) = [(''out'', ValueRef ''a'' [''text''])]"
proof -
  have "map (\<lambda>(o', x). (o', map_ref (rep_id json_debug costed_plan) x)) (plan_outputs costed_plan)
      = [(''out'', ValueRef ''a'' [''text''])]" by code_simp
  with optimize_total [OF costed_distinct, of json_debug] costed_optimize show ?thesis by simp
qed

theorem compiled_estimate_below_serial_witness:
  "os_compiled_ms (rep_summary (op_report costed_opt)) = Some 20 \<and>
   os_serial_ms (rep_summary (op_report costed_opt)) = Some 75 \<and> (20 :: 64 word) \<le> 75"
proof -
  have "os_compiled_ms (rep_summary (op_report costed_opt)) = Some 20"
    "os_serial_ms (rep_summary (op_report costed_opt)) = Some 75" by code_simp+
  moreover have "sum_list (map (\<lambda>n. call_nat costed_plan (node_tool n) 1) (plan_nodes costed_plan)) < 2 ^ 64"
  proof -
    let ?c = "Some \<lparr>cost_fixed_ms = Some 10, cost_per_call_ms = Some 5, cost_tokens = None\<rparr>"
    have tools: "map node_tool (plan_nodes costed_plan) = [''read'', ''read'', ''get'', ''get'', ''id'']"
      by code_simp
    have "tool_cost_of costed_plan ''read'' = ?c" "tool_cost_of costed_plan ''get'' = ?c"
      "tool_cost_of costed_plan ''id'' = ?c" by code_simp+
    then have calls: "call_nat costed_plan ''read'' 1 = 15" "call_nat costed_plan ''get'' 1 = 15"
      "call_nat costed_plan ''id'' 1 = 15" by (simp_all add: call_nat_def or_zero_def)
    have "map (\<lambda>n. call_nat costed_plan (node_tool n) 1) (plan_nodes costed_plan)
        = map (\<lambda>t. call_nat costed_plan t 1) (map node_tool (plan_nodes costed_plan))" by simp
    also have "\<dots> = [15, 15, 15, 15, 15]" by (simp only: tools list.map calls)
    finally have "map (\<lambda>n. call_nat costed_plan (node_tool n) 1) (plan_nodes costed_plan) = [15, 15, 15, 15, 15]" .
    then show ?thesis by (simp only:) simp
  qed
  ultimately show ?thesis
    using compiled_estimate_below_serial [OF costed_distinct costed_optimize] by simp
qed

end
