(* ===== verification/Planner.thy ===== *)
theory Planner
  imports Graph
begin

text \<open>
  The intent compiler, \<^verbatim>\<open>crates/tool-compiler-planner/src/lib.rs\<close>: steps whose
  dependencies are their explicit \<open>after\<close> lists and the references in their inputs lower
  to plan nodes. The lemmas say when it succeeds, what it produces, and how far it anticipates
  validation.
\<close>

section \<open>Intents\<close>

record intent_step =
  step_id :: node_id
  step_tool :: tool_name
  step_input :: json
  step_after :: "node_id list"

record intent_plan =
  intent_version :: string
  intent_name :: "string option"
  intent_tools :: "(tool_name, tool_spec) btree"
  intent_steps :: "intent_step list"
  intent_outputs :: "(string, value_ref) btree"

definition intent_plan_new :: intent_plan where
  "intent_plan_new = \<lparr>intent_version = CURRENT_VERSION, intent_name = None, intent_tools = [],
     intent_steps = [], intent_outputs = []\<rparr>"

definition intent_step_new :: "node_id \<Rightarrow> tool_name \<Rightarrow> intent_step" where
  "intent_step_new i tool = \<lparr>step_id = i, step_tool = tool, step_input = JObj [], step_after = []\<rparr>"

datatype planner_error =
    UnsupportedVersion' string
  | DuplicateStep node_id
  | InvalidStepId node_id string
  | UnknownTool' node_id tool_name
  | SelfReference' node_id
  | InvalidRef node_id string
  | EmptyFanOut
  | EmptyPipeline
  | UnknownParam string
  | MissingParam string

section \<open>Compilation\<close>

fun check_steps ::
  "(tool_name, tool_spec) btree \<Rightarrow> node_id bset \<Rightarrow> intent_step list \<Rightarrow> (planner_error, unit) result" where
  "check_steps tools seen [] = Inr ()"
| "check_steps tools seen (s # steps) =
     res_bind (map_err (\<lambda>e. InvalidStepId (step_id s) (ref_parse_error_to_string e))
                (validate_node_id (step_id s))) (\<lambda>_.
       if step_id s \<in> set seen then Inl (DuplicateStep (step_id s))
       else if \<not> bt_mem (step_tool s) tools then Inl (UnknownTool' (step_id s) (step_tool s))
       else check_steps tools (bs_insert (step_id s) seen) steps)"

definition compile_step :: "intent_step \<Rightarrow> (planner_error, node) result" where
  "compile_step s =
     (let add = (\<lambda>d deps. if d = step_id s then Inl (SelfReference' (step_id s))
                          else Inr (bs_insert d deps)) in
      res_bind (res_fold add (step_after s) []) (\<lambda>deps1.
      res_bind (map_err (\<lambda>e. InvalidRef (step_id s) (ref_parse_error_to_string e))
                 (collect_refs (step_input s))) (\<lambda>refs.
      res_bind (res_fold (\<lambda>r. add (ref_node r)) refs deps1) (\<lambda>deps2.
        Inr \<lparr>node_id = step_id s, node_tool = step_tool s, node_input = step_input s,
             node_depends_on = deps2, node_for_each = None, node_when = None\<rparr>))))"

definition compile_intent :: "intent_plan \<Rightarrow> (planner_error, plan) result" where
  "compile_intent intent =
     (if intent_version intent \<noteq> CURRENT_VERSION
      then Inl (UnsupportedVersion' (intent_version intent))
      else
        res_bind (check_steps (intent_tools intent) [] (intent_steps intent)) (\<lambda>_.
        res_bind (res_map compile_step (intent_steps intent)) (\<lambda>nodes.
          Inr (plan_new\<lparr>plan_name := intent_name intent, plan_tools := intent_tools intent,
                 plan_outputs := intent_outputs intent, plan_nodes := nodes\<rparr>))))"

section \<open>What it accepts and what it produces\<close>

text \<open>The dependencies of a step: its ordering edges and the nodes its input refers to.\<close>

definition step_deps :: "intent_step \<Rightarrow> node_id list" where
  "step_deps s = step_after s @
     (case collect_refs (step_input s) of Inl e \<Rightarrow> [] | Inr refs \<Rightarrow> map ref_node refs)"

definition step_ok :: "intent_step \<Rightarrow> bool" where
  "step_ok s \<longleftrightarrow> (\<exists>refs. collect_refs (step_input s) = Inr refs) \<and> step_id s \<notin> set (step_deps s)"

definition step_node :: "intent_step \<Rightarrow> node" where
  "step_node s = \<lparr>node_id = step_id s, node_tool = step_tool s, node_input = step_input s,
     node_depends_on = bs_of_list (step_deps s), node_for_each = None, node_when = None\<rparr>"

lemma add_deps_iff:
  "res_fold (\<lambda>x deps. if f x = i then Inl (SelfReference' i) else Inr (bs_insert (f x) deps)) xs deps
     = Inr deps' \<longleftrightarrow> i \<notin> f ` set xs \<and> deps' = foldl (\<lambda>s x. bs_insert x s) deps (map f xs)"
  by (induction xs arbitrary: deps) auto

lemma compile_step_iff: "compile_step s = Inr n \<longleftrightarrow> step_ok s \<and> n = step_node s"
proof (cases "collect_refs (step_input s)")
  case (Inl e)
  then show ?thesis by (auto simp: compile_step_def Let_def step_ok_def)
next
  case (Inr refs)
  note ids = add_deps_iff [where f = "\<lambda>x. x", simplified]
  show ?thesis
    by (auto simp: compile_step_def Let_def Inr ids add_deps_iff step_ok_def step_node_def step_deps_def
        bs_of_list_def simp del: image_iff)
qed

lemma check_steps_iff:
  "check_steps tools seen steps = Inr u \<longleftrightarrow>
     (\<forall>s \<in> set steps. step_id s \<noteq> [] \<and> CHR ''.'' \<notin> set (step_id s) \<and> bt_mem (step_tool s) tools) \<and>
     distinct (map step_id steps) \<and> set (map step_id steps) \<inter> set seen = {}"
proof (induction steps arbitrary: seen)
  case (Cons s steps)
  show ?case
    using Cons.IH [of "bs_insert (step_id s) seen"] by (auto simp: validate_node_id_ok)
qed simp

lemma res_map_total_iff:
  "(\<And>x y. f x = Inr y \<longleftrightarrow> P x \<and> y = g x) \<Longrightarrow>
   res_map f xs = Inr ys \<longleftrightarrow> (\<forall>x \<in> set xs. P x) \<and> ys = map g xs"
  by (induction xs arbitrary: ys) auto

definition intent_ok :: "intent_plan \<Rightarrow> bool" where
  "intent_ok i \<longleftrightarrow> intent_version i = CURRENT_VERSION \<and> distinct (map step_id (intent_steps i)) \<and>
     (\<forall>s \<in> set (intent_steps i). step_id s \<noteq> [] \<and> CHR ''.'' \<notin> set (step_id s) \<and>
        bt_mem (step_tool s) (intent_tools i) \<and> step_ok s)"

definition intent_result :: "intent_plan \<Rightarrow> plan" where
  "intent_result i = plan_new\<lparr>plan_name := intent_name i, plan_tools := intent_tools i,
     plan_nodes := map step_node (intent_steps i), plan_outputs := intent_outputs i\<rparr>"

lemma compile_intent_iff: "compile_intent i = Inr p \<longleftrightarrow> intent_ok i \<and> p = intent_result i"
proof -
  note nodes = res_map_total_iff [OF compile_step_iff]
  show ?thesis
    by (auto simp: compile_intent_def check_steps_iff nodes intent_ok_def intent_result_def)
qed

text \<open>
  The intent compiler accepts exactly the well-formed intents, and one step becomes one
  node with the same id, tool and input, whose dependencies are the step's ordering edges and
  the nodes its input refers to, sorted and without duplicates.
\<close>

theorem compile_intent_spec: "compile_intent i = Inr p \<longleftrightarrow> intent_ok i \<and> p = intent_result i"
  by (rule compile_intent_iff)

lemma step_node_deps: "step_ok s \<Longrightarrow> set (declared_deps (step_node s)) = set (step_deps s)"
  by (auto simp: declared_deps_def step_node_def step_deps_def step_ok_def)

text \<open>
  A compiled intent can fail validation only for what the compiler does not look at: a
  dependency or an output that names no step, contradictory effects, or a cycle.
\<close>

theorem compiled_intent_validity:
  assumes "compile_intent i = Inr p"
  shows "(\<exists>g. validate p = Inr g) \<longleftrightarrow>
    (\<forall>s \<in> set (intent_steps i). set (step_deps s) \<subseteq> step_id ` set (intent_steps i)) \<and>
    (\<forall>(t, spec) \<in> set (intent_tools i). \<forall>e. spec_effects spec = Some e \<longrightarrow> \<not> is_contradictory e) \<and>
    (\<forall>(out, r) \<in> set (intent_outputs i). ref_node r \<in> step_id ` set (intent_steps i)) \<and>
    acyclic {(d, step_id s) |d s. s \<in> set (intent_steps i) \<and> d \<in> set (step_deps s)}"
proof -
  from assms have ok: "intent_ok i" and p: "p = intent_result i" by (simp_all add: compile_intent_iff)
  note O = ok [unfolded intent_ok_def]
  have ids: "node_ids p = map step_id (intent_steps i)"
    by (simp add: p intent_result_def node_ids_def step_node_def)
  have deps: "set (declared_deps (step_node s)) = set (step_deps s)" if "s \<in> set (intent_steps i)" for s
    using O that step_node_deps by blast
  have rel: "plan_dep_rel p = {(d, step_id s) |d s. s \<in> set (intent_steps i) \<and> d \<in> set (step_deps s)}"
  proof -
    have "plan_dep_rel p = {(d, node_id (step_node s)) |d s. s \<in> set (intent_steps i) \<and>
        d \<in> set (declared_deps (step_node s))}"
      by (auto simp: plan_dep_rel_def p intent_result_def)
    also have "\<dots> = {(d, step_id s) |d s. s \<in> set (intent_steps i) \<and> d \<in> set (step_deps s)}"
    proof -
      have "node_id (step_node s) = step_id s" for s by (simp add: step_node_def)
      then have "(\<exists>s. d = (x, node_id (step_node s)) \<and> s \<in> set (intent_steps i) \<and> x \<in> set (declared_deps (step_node s)))
          \<longleftrightarrow> (\<exists>s. d = (x, step_id s) \<and> s \<in> set (intent_steps i) \<and> x \<in> set (step_deps s))" for d x
        using deps by (simp cong: conj_cong)
      then show ?thesis by blast
    qed
    finally show ?thesis .
  qed
  have nodes: "nodes_wf p \<longleftrightarrow> (\<forall>s \<in> set (intent_steps i). set (step_deps s) \<subseteq> step_id ` set (intent_steps i))"
  proof -
    have "node_id (step_node s) \<noteq> [] \<and> CHR ''.'' \<notin> set (node_id (step_node s)) \<and>
        bt_mem (node_tool (step_node s)) (plan_tools p) \<and>
        (\<exists>refs. collect_refs (node_input (step_node s)) = Inr refs) \<and>
        set (declared_deps (step_node s)) \<subseteq> set (node_ids p) - {node_id (step_node s)} \<longleftrightarrow>
      set (step_deps s) \<subseteq> step_id ` set (intent_steps i)" if "s \<in> set (intent_steps i)" for s
    proof -
      have sel: "node_id (step_node s) = step_id s" "node_tool (step_node s) = step_tool s"
        "node_input (step_node s) = step_input s" "plan_tools p = intent_tools i"
        by (simp_all add: step_node_def p intent_result_def)
      show ?thesis using O that unfolding deps [OF that] sel ids step_ok_def by auto
    qed
    then show ?thesis by (simp add: nodes_wf_def p intent_result_def)
  qed
  have "plan_version p = CURRENT_VERSION" "distinct (node_ids p)" "plan_tools p = intent_tools i"
    "plan_outputs p = intent_outputs i"
    using O by (simp_all add: ids) (simp_all add: p intent_result_def plan_new_def)
  then show ?thesis
    unfolding validate_ok_iff valid_plan_def rel nodes ids by auto
qed

text \<open>Two steps, the second reading the output of the first.\<close>

definition example_intent :: intent_plan where
  "example_intent = intent_plan_new\<lparr>intent_tools := [(''read'', read_tool)],
     intent_steps := [(intent_step_new ''a'' ''read'')\<lparr>step_input := JObj [(''path'', JStr ''x'')]\<rparr>,
       (intent_step_new ''b'' ''read'')\<lparr>step_input :=
         JObj [(''path'', JObj [(REF_KEY, JStr ''a.output.next'')])]\<rparr>]\<rparr>"

theorem compiled_intent_validity_witness:
  "compile_intent example_intent = Inr (intent_result example_intent) \<and>
   acyclic {(d, step_id s) |d s. s \<in> set (intent_steps example_intent) \<and> d \<in> set (step_deps s)}"
proof -
  have ok: "compile_intent example_intent = Inr (intent_result example_intent)" by code_simp
  have l: "(case validate (intent_result example_intent) of Inr g \<Rightarrow> g_layers g | Inl e \<Rightarrow> []) = [[''a''], [''b'']]"
    by code_simp
  then have "(\<exists>g. validate (intent_result example_intent) = Inr g)" by (auto split: sum.splits)
  with compiled_intent_validity [OF ok] ok show ?thesis by blast
qed

end
