(* ===== verification/Recipes.thy ===== *)
theory Recipes
  imports Planner
begin

text \<open>
  Recipes and their expansion, \<^verbatim>\<open>crates/tool-compiler-planner/src/recipes.rs\<close>:
  fan-out, map-reduce and pipeline shapes with \<^verbatim>\<open>$param\<close> and
  \<^verbatim>\<open>$prev\<close> placeholders. Parameter substitution goes through the recipe's JSON form
  in the code; the only parts of a recipe that hold JSON values are the fan-out items and the
  step inputs, so the model substitutes there.
\<close>

section \<open>Recipes\<close>

record fan_out_recipe =
  fo_tool :: tool_name
  fo_items :: "json list"
  fo_items_ref :: "value_ref option"
  fo_node_prefix :: string
  fo_input_key :: "string option"

record map_reduce_recipe =
  mr_map :: fan_out_recipe
  mr_reduce_tool :: tool_name
  mr_reduce_input_key :: string

record pipeline_step =
  ps_tool :: tool_name
  ps_input :: json

record pipeline_recipe =
  pr_steps :: "pipeline_step list"
  pr_node_prefix :: string

datatype recipe =
    FanOut fan_out_recipe
  | MapReduce map_reduce_recipe
  | Pipeline pipeline_recipe

record recipe_plan =
  rp_version :: string
  rp_name :: "string option"
  rp_params :: "(string, json) btree"
  rp_tools :: "(tool_name, tool_spec) btree"
  rp_recipe :: recipe
  rp_outputs :: "(string, value_ref) btree"

definition default_node_prefix :: string where
  "default_node_prefix = ''item_''"

definition default_reduce_key :: string where
  "default_reduce_key = ''items''"

definition fan_out_new :: "tool_name \<Rightarrow> json list \<Rightarrow> fan_out_recipe" where
  "fan_out_new tool items = \<lparr>fo_tool = tool, fo_items = items, fo_items_ref = None,
     fo_node_prefix = default_node_prefix, fo_input_key = None\<rparr>"

definition fan_out_over_ref :: "tool_name \<Rightarrow> value_ref \<Rightarrow> fan_out_recipe" where
  "fan_out_over_ref tool items_ref = \<lparr>fo_tool = tool, fo_items = [], fo_items_ref = Some items_ref,
     fo_node_prefix = default_node_prefix, fo_input_key = None\<rparr>"

definition recipe_plan_new :: "recipe \<Rightarrow> recipe_plan" where
  "recipe_plan_new r = \<lparr>rp_version = CURRENT_VERSION, rp_name = None, rp_params = [], rp_tools = [],
     rp_recipe = r, rp_outputs = []\<rparr>"

section \<open>Expansion\<close>

definition wrap_item :: "string option \<Rightarrow> json \<Rightarrow> json" where
  "wrap_item input_key item = (case input_key of None \<Rightarrow> item | Some key \<Rightarrow> JObj [(key, item)])"

definition compile_fan_out :: "fan_out_recipe \<Rightarrow> (planner_error, node list) result" where
  "compile_fan_out r =
     (case fo_items_ref r of
        Some items_ref \<Rightarrow>
          Inr [(node_new (fo_node_prefix r @ ''each'') (fo_tool r))
                 \<lparr>node_input := wrap_item (fo_input_key r) (JObj [(ITEM_KEY, JStr [])]),
                  node_for_each := Some items_ref\<rparr>]
      | None \<Rightarrow>
          if fo_items r = [] then Inl EmptyFanOut
          else Inr (map (\<lambda>(index, item).
                 (node_new (fo_node_prefix r @ dec (index + 1)) (fo_tool r))
                   \<lparr>node_input := wrap_item (fo_input_key r) item\<rparr>)
                 (enumerate 0 (fo_items r))))"

definition output_ref :: "node_id \<Rightarrow> json" where
  "output_ref i = JObj [(REF_KEY, JStr (i @ ''.output''))]"

definition compile_map_reduce :: "map_reduce_recipe \<Rightarrow> (planner_error, node list) result" where
  "compile_map_reduce r =
     res_bind (compile_fan_out (mr_map r)) (\<lambda>nodes.
       let reduce_input =
         (if length nodes = 1 \<and> node_for_each (hd nodes) \<noteq> None
          then JObj [(mr_reduce_input_key r, output_ref (node_id (hd nodes)))]
          else JObj [(mr_reduce_input_key r, JArr (map (\<lambda>n. output_ref (node_id n)) nodes))])
       in Inr (nodes @ [(node_new (fo_node_prefix (mr_map r) @ ''reduce'') (mr_reduce_tool r))
                          \<lparr>node_input := reduce_input\<rparr>]))"

definition PREV_KEY :: string where
  "PREV_KEY = ''$prev''"

fun rewrite_prev_markers :: "json \<Rightarrow> string \<Rightarrow> json" where
  "rewrite_prev_markers (JObj kvs) previous_id =
     (case singleton_obj kvs PREV_KEY of
        Some (JStr path) \<Rightarrow>
          JObj [(REF_KEY, JStr (if path = [] then previous_id @ ''.output''
                                else previous_id @ ''.output.'' @ path))]
      | _ \<Rightarrow> JObj (map (\<lambda>kv. (fst kv, rewrite_prev_markers (snd kv) previous_id)) kvs))"
| "rewrite_prev_markers (JArr items) previous_id =
     JArr (map (\<lambda>item. rewrite_prev_markers item previous_id) items)"
| "rewrite_prev_markers v previous_id = v"

definition compile_pipeline :: "pipeline_recipe \<Rightarrow> (planner_error, node list) result" where
  "compile_pipeline r =
     (if pr_steps r = [] then Inl EmptyPipeline
      else Inr (map (\<lambda>(index, s).
        (node_new (pr_node_prefix r @ dec (index + 1)) (ps_tool s))
          \<lparr>node_input := (case index of
              0 \<Rightarrow> ps_input s
            | Suc previous \<Rightarrow>
                rewrite_prev_markers (ps_input s) (pr_node_prefix r @ dec (previous + 1)))\<rparr>)
        (enumerate 0 (pr_steps r))))"

section \<open>Parameters\<close>

definition PARAM_KEY :: string where
  "PARAM_KEY = ''$param''"

fun substitute_value :: "json \<Rightarrow> (string, json) btree \<Rightarrow> (planner_error, json) result" where
  "substitute_value (JObj kvs) params =
     (case singleton_obj kvs PARAM_KEY of
        Some (JStr name) \<Rightarrow> ok_or (UnknownParam name) (map_of params name)
      | _ \<Rightarrow>
          res_bind (res_map (\<lambda>kv. res_bind (substitute_value (snd kv) params)
                                     (\<lambda>v. Inr (fst kv, v))) kvs)
            (\<lambda>out. Inr (JObj out)))"
| "substitute_value (JArr items) params =
     res_bind (res_map (\<lambda>item. substitute_value item params) items) (\<lambda>out. Inr (JArr out))"
| "substitute_value v params = Inr v"

definition substitute_fan_out ::
  "fan_out_recipe \<Rightarrow> (string, json) btree \<Rightarrow> (planner_error, fan_out_recipe) result" where
  "substitute_fan_out r params =
     res_bind (res_map (\<lambda>v. substitute_value v params) (fo_items r)) (\<lambda>items.
       Inr (r\<lparr>fo_items := items\<rparr>))"

definition substitute_params ::
  "recipe \<Rightarrow> (string, json) btree \<Rightarrow> (planner_error, recipe) result" where
  "substitute_params r params =
     (if params = [] then Inr r
      else (case r of
          FanOut f \<Rightarrow> res_bind (substitute_fan_out f params) (\<lambda>f'. Inr (FanOut f'))
        | MapReduce m \<Rightarrow>
            res_bind (substitute_fan_out (mr_map m) params) (\<lambda>f'. Inr (MapReduce (m\<lparr>mr_map := f'\<rparr>)))
        | Pipeline pl \<Rightarrow>
            res_bind (res_map (\<lambda>s. res_bind (substitute_value (ps_input s) params)
                                  (\<lambda>v. Inr (s\<lparr>ps_input := v\<rparr>))) (pr_steps pl)) (\<lambda>steps.
              Inr (Pipeline (pl\<lparr>pr_steps := steps\<rparr>)))))"

fun merge_params ::
  "(string, json) btree \<Rightarrow> (string \<times> json) list \<Rightarrow> (planner_error, (string, json) btree) result" where
  "merge_params params [] = Inr params"
| "merge_params params ((name, v) # rest) =
     (if \<not> bt_mem name params then Inl (UnknownParam name)
      else merge_params (bt_insert name v params) rest)"

definition compile_recipe_with_params ::
  "recipe_plan \<Rightarrow> (string, json) btree \<Rightarrow> (planner_error, plan) result" where
  "compile_recipe_with_params rp values =
     (if rp_version rp \<noteq> CURRENT_VERSION then Inl (UnsupportedVersion' (rp_version rp))
      else
        res_bind (merge_params (rp_params rp) values) (\<lambda>params.
        case find (\<lambda>(name, v). v = JNull) params of
          Some (name, v) \<Rightarrow> Inl (MissingParam name)
        | None \<Rightarrow>
            res_bind (substitute_params (rp_recipe rp) params) (\<lambda>r.
            res_bind (case r of FanOut f \<Rightarrow> compile_fan_out f
                      | MapReduce m \<Rightarrow> compile_map_reduce m
                      | Pipeline pl \<Rightarrow> compile_pipeline pl) (\<lambda>nodes.
              Inr (plan_new\<lparr>plan_name := rp_name rp, plan_tools := rp_tools rp,
                     plan_outputs := rp_outputs rp, plan_nodes := nodes\<rparr>)))))"

definition compile_recipe :: "recipe_plan \<Rightarrow> (planner_error, plan) result" where
  "compile_recipe rp = compile_recipe_with_params rp []"

section \<open>Generated ids\<close>

definition recipe_prefix :: "recipe \<Rightarrow> string" where
  "recipe_prefix r = (case r of FanOut f \<Rightarrow> fo_node_prefix f
     | MapReduce m \<Rightarrow> fo_node_prefix (mr_map m) | Pipeline pl \<Rightarrow> pr_node_prefix pl)"

definition recipe_nodes :: "recipe \<Rightarrow> (planner_error, node list) result" where
  "recipe_nodes r = (case r of FanOut f \<Rightarrow> compile_fan_out f | MapReduce m \<Rightarrow> compile_map_reduce m
     | Pipeline pl \<Rightarrow> compile_pipeline pl)"

lemma enumerate_ids:
  assumes "\<And>k x. node_id (f (k, x)) = pre @ dec (k + 1)"
  shows "map node_id (map f (enumerate 0 xs)) = map (\<lambda>k. pre @ dec (k + 1)) [0..<length xs]"
  by (rule nth_equalityI) (simp_all add: nth_enumerate_eq assms)

lemma distinct_dec_ids: "distinct (map (\<lambda>k. pre @ dec (k + 1)) [0..<n])"
  by (auto simp: distinct_map inj_on_def dest: dec_inj)

lemma dec_not_word: "CHR ''e'' \<notin> set (dec n)"
  using set_dec [of n] by auto

definition fan_out_ids :: "fan_out_recipe \<Rightarrow> node_id list" where
  "fan_out_ids r = (case fo_items_ref r of Some x \<Rightarrow> [fo_node_prefix r @ ''each'']
     | None \<Rightarrow> map (\<lambda>k. fo_node_prefix r @ dec (k + 1)) [0..<length (fo_items r)])"

lemma compile_fan_out_ids:
  assumes "compile_fan_out r = Inr nodes"
  shows "map node_id nodes = fan_out_ids r"
proof (cases "fo_items_ref r")
  case None
  define f where "f = (\<lambda>(index, item). (node_new (fo_node_prefix r @ dec (index + 1)) (fo_tool r))
      \<lparr>node_input := wrap_item (fo_input_key r) item\<rparr>)"
  have "node_id (f (k, x)) = fo_node_prefix r @ dec (k + 1)" for k x by (simp add: f_def node_new_def)
  note ids = enumerate_ids [of f, OF this]
  have "nodes = map f (enumerate 0 (fo_items r))"
    using assms None by (simp add: compile_fan_out_def f_def split: if_splits)
  then show ?thesis using ids None by (simp only: fan_out_ids_def option.case)
next
  case (Some x)
  then show ?thesis using assms by (auto simp: compile_fan_out_def fan_out_ids_def node_new_def)
qed

lemma compile_pipeline_ids:
  assumes "compile_pipeline r = Inr nodes"
  shows "map node_id nodes = map (\<lambda>k. pr_node_prefix r @ dec (k + 1)) [0..<length (pr_steps r)]"
proof -
  define f :: "nat \<times> pipeline_step \<Rightarrow> node" where "f = (\<lambda>(index, s). (node_new (pr_node_prefix r @ dec (index + 1)) (ps_tool s))
          \<lparr>node_input := (case index of
              0 \<Rightarrow> ps_input s
            | Suc previous \<Rightarrow>
                rewrite_prev_markers (ps_input s) (pr_node_prefix r @ dec (previous + 1)))\<rparr>)"
  have "node_id (f (k, x)) = pr_node_prefix r @ dec (k + 1)" for k x by (simp add: f_def node_new_def)
  note ids = enumerate_ids [of f, OF this]
  have "nodes = map f (enumerate 0 (pr_steps r))"
    using assms unfolding compile_pipeline_def f_def by (cases "pr_steps r = []") simp_all
  then show ?thesis using ids by simp
qed

lemma compile_map_reduce_ids:
  "compile_map_reduce r = Inr nodes \<Longrightarrow>
   map node_id nodes = fan_out_ids (mr_map r) @ [fo_node_prefix (mr_map r) @ ''reduce'']"
  by (auto simp: compile_map_reduce_def Let_def node_new_def dest: compile_fan_out_ids)

lemma recipe_ids:
  "recipe_nodes r = Inr nodes \<Longrightarrow> map node_id nodes =
     (case r of FanOut f \<Rightarrow> fan_out_ids f
      | MapReduce m \<Rightarrow> fan_out_ids (mr_map m) @ [fo_node_prefix (mr_map m) @ ''reduce'']
      | Pipeline pl \<Rightarrow> map (\<lambda>k. pr_node_prefix pl @ dec (k + 1)) [0..<length (pr_steps pl)])"
  unfolding recipe_nodes_def
  by (cases r) (simp_all only: recipe.case compile_fan_out_ids compile_map_reduce_ids compile_pipeline_ids)

lemma fan_out_ids_distinct: "distinct (fan_out_ids r)"
  using distinct_dec_ids [of "fo_node_prefix r"] by (simp add: fan_out_ids_def split: option.split)

lemma reduce_id_fresh: "fo_node_prefix r @ ''reduce'' \<notin> set (fan_out_ids r)"
proof -
  have "''reduce'' \<noteq> dec (Suc k)" for k
  proof
    assume "''reduce'' = dec (Suc k)"
    then have "CHR ''e'' \<in> set (dec (Suc k))" by (metis list.set_intros(1,2))
    then show False using dec_not_word by blast
  qed
  then show ?thesis by (auto simp: fan_out_ids_def split: option.split)
qed

lemma recipe_ids_distinct: "recipe_nodes r = Inr nodes \<Longrightarrow> distinct (map node_id nodes)"
  using fan_out_ids_distinct reduce_id_fresh distinct_dec_ids
  by (auto simp: recipe_ids simp del: distinct_map set_map split: recipe.split)

lemma compile_recipe_Inr:
  assumes "compile_recipe_with_params rp values = Inr p"
  shows "\<exists>params r nodes. merge_params (rp_params rp) values = Inr params \<and>
    substitute_params (rp_recipe rp) params = Inr r \<and> recipe_nodes r = Inr nodes \<and>
    p = plan_new\<lparr>plan_name := rp_name rp, plan_tools := rp_tools rp,
          plan_outputs := rp_outputs rp, plan_nodes := nodes\<rparr>"
  using assms
  by (auto simp: compile_recipe_with_params_def recipe_nodes_def split: if_splits option.splits)

lemma recipe_id_shape:
  assumes "recipe_nodes r = Inr nodes" "n \<in> set nodes" "CHR ''.'' \<notin> set (recipe_prefix r)"
  shows "node_id n \<noteq> [] \<and> CHR ''.'' \<notin> set (node_id n)"
proof -
  have "node_id n \<in> set (map node_id nodes)" using assms(2) by simp
  then show ?thesis
    unfolding recipe_ids [OF assms(1)] using assms(3) no_dot_dec
    by (auto simp: recipe_prefix_def fan_out_ids_def split: recipe.splits option.splits)
qed


section \<open>Plans whose nodes only look back\<close>

definition looks_back :: "node list \<Rightarrow> bool" where
  "looks_back ns \<longleftrightarrow> (\<forall>k < length ns. set (declared_deps (ns ! k)) \<subseteq> node_id ` set (take k ns))"

lemma looks_back_acyclic:
  assumes "looks_back ns" "distinct (map node_id ns)"
  shows "acyclic {(d, node_id n) |d n. n \<in> set ns \<and> d \<in> set (declared_deps n)}"
proof -
  define pos where "pos i = (THE k. k < length ns \<and> node_id (ns ! k) = i)" for i
  have pos: "pos (node_id (ns ! k)) = k" if "k < length ns" for k
  proof -
    have "j = k" if "j < length ns" "node_id (ns ! j) = node_id (ns ! k)" for j
      using assms(2) that \<open>k < length ns\<close> nth_eq_iff_index_eq [of "map node_id ns" j k] by simp
    then show ?thesis unfolding pos_def using that by (intro the_equality) auto
  qed
  have "{(d, node_id n) |d n. n \<in> set ns \<and> d \<in> set (declared_deps n)} \<subseteq> measure pos"
  proof clarsimp
    fix d n assume n: "n \<in> set ns" "d \<in> set (declared_deps n)"
    obtain k where k: "k < length ns" "ns ! k = n" using n(1) by (auto simp: in_set_conv_nth)
    then have "d \<in> node_id ` set (take k ns)" using assms(1) n(2) unfolding looks_back_def by blast
    then obtain m where "m \<in> set (take k ns)" "d = node_id m" by blast
    then obtain j where "j < k" "d = node_id (ns ! j)" using k(1) by (auto simp: in_set_conv_nth)
    with k pos show "pos d < pos (node_id n)" by (metis order.strict_trans)
  qed
  then show ?thesis by (rule acyclic_subset [OF wf_acyclic [OF wf_measure]])
qed

lemma looks_back_valid:
  assumes "looks_back (plan_nodes p)" "distinct (node_ids p)" "plan_version p = CURRENT_VERSION"
    and "\<forall>n \<in> set (plan_nodes p). node_id n \<noteq> [] \<and> CHR ''.'' \<notin> set (node_id n) \<and>
       bt_mem (node_tool n) (plan_tools p) \<and> (\<exists>refs. collect_refs (node_input n) = Inr refs)"
    and "\<forall>(t, spec) \<in> set (plan_tools p). \<forall>e. spec_effects spec = Some e \<longrightarrow> \<not> is_contradictory e"
    and "\<forall>(out, r) \<in> set (plan_outputs p). ref_node r \<in> set (node_ids p)"
  shows "valid_plan p"
proof -
  have "set (declared_deps n) \<subseteq> set (node_ids p) - {node_id n}" if n: "n \<in> set (plan_nodes p)" for n
  proof -
    obtain k where k: "k < length (plan_nodes p)" "plan_nodes p ! k = n" using n by (auto simp: in_set_conv_nth)
    then have sub: "set (declared_deps n) \<subseteq> node_id ` set (take k (plan_nodes p))"
      using assms(1) unfolding looks_back_def by blast
    have split: "plan_nodes p = take k (plan_nodes p) @ n # drop (Suc k) (plan_nodes p)"
      using id_take_nth_drop [OF k(1)] k(2) by simp
    have "distinct (map node_id (take k (plan_nodes p)) @ node_id n # map node_id (drop (Suc k) (plan_nodes p)))"
      using assms(2) split unfolding node_ids_def by (metis list.simps(9) map_append)
    then have "node_id n \<notin> node_id ` set (take k (plan_nodes p))" by auto
    moreover have "node_id ` set (take k (plan_nodes p)) \<subseteq> set (node_ids p)"
      using set_take_subset by (fastforce simp: node_ids_def)
    ultimately show ?thesis using sub by blast
  qed
  with assms(4) have "nodes_wf p" unfolding nodes_wf_def by blast
  moreover have "acyclic (plan_dep_rel p)"
    using looks_back_acyclic [OF assms(1)] assms(2) by (simp add: plan_dep_rel_def node_ids_def)
  ultimately show ?thesis using assms(2,3,5,6) unfolding valid_plan_def by blast
qed

section \<open>Static recipes compile to valid plans\<close>

text \<open>The recipe after parameter substitution.\<close>

definition instantiated :: "recipe_plan \<Rightarrow> (string, json) btree \<Rightarrow> (planner_error, recipe) result" where
  "instantiated rp values =
     res_bind (merge_params (rp_params rp) values) (substitute_params (rp_recipe rp))"

definition no_refs :: "json \<Rightarrow> bool" where
  "no_refs v \<longleftrightarrow> collect_refs v = Inr []"

definition static_fan_out :: "(tool_name, tool_spec) btree \<Rightarrow> fan_out_recipe \<Rightarrow> bool" where
  "static_fan_out tools f \<longleftrightarrow> fo_items_ref f = None \<and> bt_mem (fo_tool f) tools \<and>
     (\<forall>item \<in> set (fo_items f). no_refs (wrap_item (fo_input_key f) item))"

text \<open>
  Recipes that refer to nothing but their own nodes: constant items, an ordinary reduce key,
  and step inputs whose only references are well-formed \<^verbatim>\<open>$prev\<close> markers.
\<close>

definition static_recipe :: "(tool_name, tool_spec) btree \<Rightarrow> recipe \<Rightarrow> bool" where
  "static_recipe tools r \<longleftrightarrow> CHR ''.'' \<notin> set (recipe_prefix r) \<and>
     (case r of
        FanOut f \<Rightarrow> static_fan_out tools f
      | MapReduce m \<Rightarrow> static_fan_out tools (mr_map m) \<and> bt_mem (mr_reduce_tool m) tools \<and>
          mr_reduce_input_key m \<noteq> REF_KEY \<and> mr_reduce_input_key m \<noteq> LITERAL_KEY
      | Pipeline pl \<Rightarrow> (\<forall>s \<in> set (pr_steps pl). bt_mem (ps_tool s) tools \<and> no_refs (ps_input s) \<and>
          (\<forall>i. CHR ''.'' \<notin> set i \<longrightarrow> i \<noteq> [] \<longrightarrow>
             (\<exists>refs. collect_refs (rewrite_prev_markers (ps_input s) i) = Inr refs))))"

lemma parse_output_ref:
  "CHR ''.'' \<notin> set i \<Longrightarrow> i \<noteq> [] \<Longrightarrow> parse_value_ref (i @ ''.output'') = Inr (ValueRef i [])"
  using parse_display [of "ValueRef i []"] by (simp add: valid_ref_def value_ref_to_string_def)

lemma collect_output_ref:
  "CHR ''.'' \<notin> set i \<Longrightarrow> i \<noteq> [] \<Longrightarrow> collect_refs (output_ref i) = Inr [ValueRef i []]"
  by (simp add: output_ref_def parse_output_ref singleton_obj_def REF_KEY_def LITERAL_KEY_def)

lemma collect_output_refs:
  "\<forall>i \<in> set is. CHR ''.'' \<notin> set i \<and> i \<noteq> [] \<Longrightarrow>
   collect_refs (JArr (map output_ref is)) = Inr (map (\<lambda>i. ValueRef i []) is)"
proof (induction "is")
  case (Cons i "is")
  then show ?case using collect_output_ref [of i] by auto
qed simp

text \<open>Rewriting the markers of an input adds references to the previous node only.\<close>

lemma parse_prev_node:
  assumes "CHR ''.'' \<notin> set i" "parse_value_ref (i @ ''.output'' @ rest) = Inr r" "rest = [] \<or> hd rest = CHR ''.''"
  shows "ref_node r = i"
proof -
  obtain segs where "split_on CHR ''.'' (i @ CHR ''.'' # (''output'' @ rest)) = ref_node r # ''output'' # segs"
    using assms(2) by (auto simp: parse_value_ref_Inr)
  then show ?thesis using split_on_append_sep [OF assms(1)] by simp
qed

lemma res_map_map: "res_map f (map g xs) = res_map (\<lambda>x. f (g x)) xs"
  by (induction xs) auto

lemma collected_subset:
  assumes "res_map F xs = Inr yss" "res_map G xs = Inr zss"
    and "\<And>x a b. x \<in> set xs \<Longrightarrow> F x = Inr a \<Longrightarrow> G x = Inr b \<Longrightarrow> ref_node ` set b \<subseteq> ref_node ` set a \<union> S"
  shows "ref_node ` set (concat zss) \<subseteq> ref_node ` set (concat yss) \<union> S"
  using assms
proof (induction xs arbitrary: yss zss)
  case (Cons x xs)
  then obtain a as b bs where ab: "F x = Inr a" "res_map F xs = Inr as" "yss = a # as"
    "G x = Inr b" "res_map G xs = Inr bs" "zss = b # bs" by auto
  have "ref_node ` set b \<subseteq> ref_node ` set a \<union> S"
    by (rule Cons.prems(3) [OF _ ab(1,4)]) simp
  moreover have "ref_node ` set (concat bs) \<subseteq> ref_node ` set (concat as) \<union> S"
    by (rule Cons.IH [OF ab(2,5)]) (rule Cons.prems(3), auto)
  ultimately show ?case unfolding ab(3,6) concat.simps set_append image_Un by blast
qed simp

lemma collect_refs_obj:
  assumes "collect_refs (JObj kvs) = Inr rs"
  obtains (lit) v where "kvs = [(LITERAL_KEY, v)]" "rs = []"
  | (ref) s r where "kvs = [(REF_KEY, JStr s)]" "parse_value_ref s = Inr r" "rs = [r]"
  | (members) rss where "singleton_obj kvs LITERAL_KEY = None" "map_of kvs REF_KEY = None"
      "res_map (\<lambda>kv. collect_refs (snd kv)) kvs = Inr rss" "rs = concat rss"
proof (cases "singleton_obj kvs LITERAL_KEY")
  case (Some v)
  with assms lit show ?thesis by (simp add: singleton_obj_iff)
next
  case None
  show ?thesis
  proof (cases "map_of kvs REF_KEY")
    case r: (Some raw)
    with assms None have len: "\<not> length kvs > 1" by (auto split: if_splits)
    moreover have "kvs \<noteq> []" using r by auto
    ultimately have "length kvs = 1" by (cases kvs) auto
    with r have k: "kvs = [(REF_KEY, raw)]"
      using singleton_obj_iff [of kvs REF_KEY raw] by (simp add: singleton_obj_def)
    with assms None ref show ?thesis by (cases raw) (auto simp: singleton_obj_def)
  next
    case r: None
    with assms None members show ?thesis by auto
  qed
qed

lemma rewrite_prev_refs:
  assumes i: "CHR ''.'' \<notin> set i"
  shows "collect_refs v = Inr rs \<Longrightarrow> collect_refs (rewrite_prev_markers v i) = Inr rs' \<Longrightarrow>
     ref_node ` set rs' \<subseteq> ref_node ` set rs \<union> {i}"
proof (induction v arbitrary: rs rs' rule: json_induct)
  case (JArr xs)
  from JArr.prems obtain yss zss where y: "res_map collect_refs xs = Inr yss" "rs = concat yss"
    "res_map (\<lambda>x. collect_refs (rewrite_prev_markers x i)) xs = Inr zss" "rs' = concat zss"
    by (auto simp: res_map_map)
  show ?case unfolding y(2,4) by (rule collected_subset [OF y(1,3)]) (rule JArr.IH)
next
  case (JObj kvs)
  consider (marker) path where "kvs = [(PREV_KEY, JStr path)]"
    | (other) "rewrite_prev_markers (JObj kvs) i =
        JObj (map (\<lambda>kv. (fst kv, rewrite_prev_markers (snd kv) i)) kvs)"
  proof (cases "\<exists>path. singleton_obj kvs PREV_KEY = Some (JStr path)")
    case True
    with marker show ?thesis by (auto simp: singleton_obj_iff)
  next
    case False
    with other show ?thesis by (auto split: option.splits json.splits)
  qed
  then show ?case
  proof cases
    case (marker path)
    define tail where "tail = (if path = [] then [] else CHR ''.'' # path)"
    have e: "rewrite_prev_markers (JObj kvs) i = JObj [(REF_KEY, JStr (i @ ''.output'' @ tail))]"
      by (simp add: marker tail_def singleton_obj_def)
    from JObj.prems(2) obtain r where "parse_value_ref (i @ ''.output'' @ tail) = Inr r" "rs' = [r]"
      unfolding e by (auto simp: singleton_obj_def REF_KEY_def LITERAL_KEY_def)
    with parse_prev_node [OF i] show ?thesis by (auto simp: tail_def)
  next
    case other
    let ?kvs = "map (\<lambda>kv. (fst kv, rewrite_prev_markers (snd kv) i)) kvs"
    from JObj.prems(1) show ?thesis
    proof (cases rule: collect_refs_obj)
      case (lit v)
      with JObj.prems(2) show ?thesis unfolding other by (simp add: singleton_obj_def)
    next
      case (ref s r)
      then have same: "?kvs = kvs" by simp
      from JObj.prems have "rs' = rs" unfolding other same by (simp only: sum.inject)
      then show ?thesis by blast
    next
      case (members rss)
      have keys: "map_of ?kvs k = map_option (\<lambda>v. rewrite_prev_markers v i) (map_of kvs k)" for k
        by (induction kvs) auto
      from members(1) have "singleton_obj ?kvs LITERAL_KEY = None"
        by (auto simp: singleton_obj_def keys)
      with JObj.prems(2) members(2) obtain zss where z: "rs' = concat zss"
        "res_map (\<lambda>kv. collect_refs (rewrite_prev_markers (snd kv) i)) kvs = Inr zss"
        unfolding other by (auto simp: keys res_map_map)
      show ?thesis
        unfolding members(4) z(1)
      proof (rule collected_subset [OF members(3) z(2)])
        fix kv a b assume kv: "kv \<in> set kvs" "collect_refs (snd kv) = Inr a"
          "collect_refs (rewrite_prev_markers (snd kv) i) = Inr b"
        from kv(1) have "(fst kv, snd kv) \<in> set kvs" by simp
        from JObj.IH [OF this kv(2,3)] show "ref_node ` set b \<subseteq> ref_node ` set a \<union> {i}" .
      qed
    qed
  qed
qed simp_all


lemma collect_refs_single:
  "k \<noteq> REF_KEY \<Longrightarrow> k \<noteq> LITERAL_KEY \<Longrightarrow> collect_refs v = Inr rs \<Longrightarrow> collect_refs (JObj [(k, v)]) = Inr rs"
  by (simp add: singleton_obj_def)

lemma declared_deps_plain:
  "collect_refs (node_input n) = Inr refs \<Longrightarrow> node_depends_on n = [] \<Longrightarrow> node_for_each n = None \<Longrightarrow>
   node_when n = None \<Longrightarrow> declared_deps n = map ref_node refs"
  by (simp add: declared_deps_def)

text \<open>What the nodes of a static recipe have in common: a parsable input and a declared tool.\<close>

definition plain_nodes :: "(tool_name, tool_spec) btree \<Rightarrow> node list \<Rightarrow> bool" where
  "plain_nodes tools ns \<longleftrightarrow> looks_back ns \<and>
     (\<forall>n \<in> set ns. bt_mem (node_tool n) tools \<and> (\<exists>refs. collect_refs (node_input n) = Inr refs))"

lemma static_fan_out_nodes:
  assumes "static_fan_out tools f" "compile_fan_out f = Inr nodes" "n \<in> set nodes"
  shows "declared_deps n = [] \<and> collect_refs (node_input n) = Inr [] \<and> node_for_each n = None \<and>
     bt_mem (node_tool n) tools"
  using assms
  by (auto simp: static_fan_out_def compile_fan_out_def no_refs_def node_new_def declared_deps_def
      in_set_enumerate_eq split: if_splits)

lemma static_fan_out_plain:
  assumes "static_fan_out tools f" "compile_fan_out f = Inr nodes"
  shows "plain_nodes tools nodes"
  using static_fan_out_nodes [OF assms] by (auto simp: plain_nodes_def looks_back_def)

lemma looks_back_snoc:
  "looks_back ns \<Longrightarrow> set (declared_deps n) \<subseteq> node_id ` set ns \<Longrightarrow> looks_back (ns @ [n])"
  by (auto simp: looks_back_def nth_append less_Suc_eq)

definition reducer :: "map_reduce_recipe \<Rightarrow> node list \<Rightarrow> node" where
  "reducer m nodes = (node_new (fo_node_prefix (mr_map m) @ ''reduce'') (mr_reduce_tool m))
     \<lparr>node_input := JObj [(mr_reduce_input_key m, JArr (map (\<lambda>n. output_ref (node_id n)) nodes))]\<rparr>"

lemma compile_static_map_reduce:
  assumes "compile_map_reduce m = Inr nodes" "static_fan_out tools (mr_map m)"
  shows "\<exists>ms. compile_fan_out (mr_map m) = Inr ms \<and> nodes = ms @ [reducer m ms]"
proof -
  from assms(1) obtain ms where ms: "compile_fan_out (mr_map m) = Inr ms"
    by (auto simp: compile_map_reduce_def)
  have "length ms = 1 \<longrightarrow> node_for_each (hd ms) = None"
    using static_fan_out_nodes [OF assms(2) ms] by (cases ms) auto
  with assms(1) ms show ?thesis by (auto simp: compile_map_reduce_def reducer_def Let_def)
qed

lemma fan_out_id_shape:
  "compile_fan_out f = Inr ms \<Longrightarrow> CHR ''.'' \<notin> set (fo_node_prefix f) \<Longrightarrow> n \<in> set ms \<Longrightarrow>
   node_id n \<noteq> [] \<and> CHR ''.'' \<notin> set (node_id n)"
  using recipe_id_shape [of "FanOut f" ms n] by (simp add: recipe_nodes_def recipe_prefix_def)

lemma reducer_deps:
  assumes "compile_fan_out (mr_map m) = Inr ms" "CHR ''.'' \<notin> set (fo_node_prefix (mr_map m))"
    and "mr_reduce_input_key m \<noteq> REF_KEY" "mr_reduce_input_key m \<noteq> LITERAL_KEY"
  shows "collect_refs (node_input (reducer m ms)) = Inr (map (\<lambda>n. ValueRef (node_id n) []) ms)"
    and "declared_deps (reducer m ms) = map node_id ms"
proof -
  have "collect_refs (JArr (map output_ref (map node_id ms))) = Inr (map (\<lambda>i. ValueRef i []) (map node_id ms))"
    by (rule collect_output_refs) (use fan_out_id_shape [OF assms(1,2)] in auto)
  then show c: "collect_refs (node_input (reducer m ms)) = Inr (map (\<lambda>n. ValueRef (node_id n) []) ms)"
    using collect_refs_single [OF assms(3,4)]
    by (simp add: reducer_def comp_def del: collect_refs.simps)
  show "declared_deps (reducer m ms) = map node_id ms"
    using declared_deps_plain [OF c] by (simp add: reducer_def node_new_def comp_def)
qed

text \<open>
  The reducer of a map-reduce recipe over constant items comes last and depends on every
  mapped node, in item order, and the mapped nodes depend on nothing.
\<close>

theorem map_reduce_gathers_all:
  assumes "compile_map_reduce m = Inr nodes" "static_recipe tools (MapReduce m)"
  shows "\<exists>ms r. compile_fan_out (mr_map m) = Inr ms \<and> nodes = ms @ [r] \<and>
    length ms = length (fo_items (mr_map m)) \<and>
    declared_deps r = map node_id ms \<and> (\<forall>n \<in> set ms. declared_deps n = [])"
proof -
  note S = assms(2) [unfolded static_recipe_def]
  have st: "static_fan_out tools (mr_map m)" using S by simp
  from compile_static_map_reduce [OF assms(1) st] obtain ms where
    ms: "compile_fan_out (mr_map m) = Inr ms" "nodes = ms @ [reducer m ms]" by blast
  have "length ms = length (fo_items (mr_map m))"
    using arg_cong [OF compile_fan_out_ids [OF ms(1)], of length] st
    by (simp add: fan_out_ids_def static_fan_out_def)
  moreover have "declared_deps (reducer m ms) = map node_id ms"
    using reducer_deps(2) [OF ms(1)] S by (simp add: recipe_prefix_def)
  moreover have "\<forall>n \<in> set ms. declared_deps n = []" using static_fan_out_nodes [OF st ms(1)] by blast
  ultimately show ?thesis using ms by blast
qed

lemma static_map_reduce_plain:
  assumes "compile_map_reduce m = Inr nodes" "static_recipe tools (MapReduce m)"
  shows "plain_nodes tools nodes"
proof -
  note S = assms(2) [unfolded static_recipe_def]
  have st: "static_fan_out tools (mr_map m)" using S by simp
  from compile_static_map_reduce [OF assms(1) st] obtain ms where
    ms: "compile_fan_out (mr_map m) = Inr ms" "nodes = ms @ [reducer m ms]" by blast
  have r: "collect_refs (node_input (reducer m ms)) = Inr (map (\<lambda>n. ValueRef (node_id n) []) ms)"
    "declared_deps (reducer m ms) = map node_id ms"
    using reducer_deps [OF ms(1)] S by (simp_all add: recipe_prefix_def)
  have "plain_nodes tools ms" by (rule static_fan_out_plain [OF st ms(1)])
  then have "looks_back nodes" unfolding ms(2) using r(2) by (intro looks_back_snoc) (auto simp: plain_nodes_def)
  moreover have "bt_mem (node_tool (reducer m ms)) tools" using S by (simp add: reducer_def node_new_def)
  ultimately show ?thesis using \<open>plain_nodes tools ms\<close> r(1) unfolding plain_nodes_def ms(2) by auto
qed

lemma static_pipeline_plain:
  assumes "compile_pipeline pl = Inr nodes" "static_recipe tools (Pipeline pl)"
  shows "plain_nodes tools nodes"
proof -
  note S = assms(2) [unfolded static_recipe_def]
  define id_at where "id_at k = pr_node_prefix pl @ dec (k + 1)" for k
  have shape: "CHR ''.'' \<notin> set (id_at k)" "id_at k \<noteq> []" for k
    using S no_dot_dec by (auto simp: id_at_def recipe_prefix_def)
  have len: "length nodes = length (pr_steps pl)"
    using compile_pipeline_ids [OF assms(1)] by (metis diff_zero length_map length_upt)
  have node: "node_id (nodes ! k) = id_at k \<and> node_tool (nodes ! k) = ps_tool (pr_steps pl ! k) \<and>
      node_depends_on (nodes ! k) = [] \<and> node_for_each (nodes ! k) = None \<and> node_when (nodes ! k) = None \<and>
      node_input (nodes ! k) = (case k of 0 \<Rightarrow> ps_input (pr_steps pl ! k)
        | Suc j \<Rightarrow> rewrite_prev_markers (ps_input (pr_steps pl ! k)) (id_at j))"
    if "k < length nodes" for k
    using assms(1) that by (auto simp: compile_pipeline_def nth_enumerate_eq node_new_def id_at_def split: if_splits nat.split)
  have step: "bt_mem (ps_tool (pr_steps pl ! k)) tools" "no_refs (ps_input (pr_steps pl ! k))"
    "\<exists>refs. collect_refs (rewrite_prev_markers (ps_input (pr_steps pl ! k)) (id_at j)) = Inr refs"
    if "k < length nodes" for k j
    using S shape [of j] nth_mem [of k "pr_steps pl"] that len by auto
  have input: "\<exists>refs. collect_refs (node_input (nodes ! k)) = Inr refs \<and>
      set (map ref_node refs) \<subseteq> (case k of 0 \<Rightarrow> {} | Suc j \<Rightarrow> {id_at j})" if kk: "k < length nodes" for k
  proof (cases k)
    case 0
    with node [OF kk] step(2) [OF kk] show ?thesis by (simp add: no_refs_def)
  next
    case (Suc j)
    obtain refs where r: "collect_refs (rewrite_prev_markers (ps_input (pr_steps pl ! k)) (id_at j)) = Inr refs"
      using step(3) [OF kk] by blast
    with rewrite_prev_refs [OF shape(1), of "ps_input (pr_steps pl ! k)" "[]" j refs] step(2) [OF kk]
    have "set (map ref_node refs) \<subseteq> {id_at j}" by (simp add: no_refs_def)
    with r node [OF kk] Suc show ?thesis by simp
  qed
  have "looks_back nodes"
    unfolding looks_back_def
  proof (intro allI impI)
    fix k assume k: "k < length nodes"
    obtain refs where r: "collect_refs (node_input (nodes ! k)) = Inr refs"
      "set (map ref_node refs) \<subseteq> (case k of 0 \<Rightarrow> {} | Suc j \<Rightarrow> {id_at j})" using input [OF k] by blast
    have dd: "declared_deps (nodes ! k) = map ref_node refs"
      using declared_deps_plain [OF r(1)] node [OF k] by simp
    have "node_id (nodes ! j) \<in> node_id ` set (take k nodes)" if "k = Suc j" for j
      using that k by (intro imageI) (metis Suc_lessD in_set_conv_nth length_take lessI min.absorb4 nth_take)
    with r(2) node k show "set (declared_deps (nodes ! k)) \<subseteq> node_id ` set (take k nodes)"
      unfolding dd by (cases k) auto
  qed
  moreover have "bt_mem (node_tool n) tools \<and> (\<exists>refs. collect_refs (node_input n) = Inr refs)"
    if "n \<in> set nodes" for n
  proof -
    from that obtain k where "k < length nodes" "nodes ! k = n" by (auto simp: in_set_conv_nth)
    with node step input show ?thesis by metis
  qed
  ultimately show ?thesis by (auto simp: plain_nodes_def)
qed

lemma recipe_result:
  assumes "compile_recipe_with_params rp values = Inr p"
  obtains r where "instantiated rp values = Inr r" "recipe_nodes r = Inr (plan_nodes p)"
    "plan_version p = CURRENT_VERSION" "plan_tools p = rp_tools rp" "plan_outputs p = rp_outputs rp"
proof -
  from compile_recipe_Inr [OF assms] obtain params r nodes where r:
    "merge_params (rp_params rp) values = Inr params" "substitute_params (rp_recipe rp) params = Inr r"
    "recipe_nodes r = Inr nodes" "p = plan_new\<lparr>plan_name := rp_name rp, plan_tools := rp_tools rp,
          plan_outputs := rp_outputs rp, plan_nodes := nodes\<rparr>" by blast
  then have "instantiated rp values = Inr r" "recipe_nodes r = Inr (plan_nodes p)"
    "plan_version p = CURRENT_VERSION" "plan_tools p = rp_tools rp" "plan_outputs p = rp_outputs rp"
    by (simp_all add: instantiated_def plan_new_def)
  then show ?thesis by (rule that)
qed

text \<open>
  C19. A compiled recipe that refers only to its own nodes is a valid plan, whatever its shape:
  validation can fail only for contradictory effects or an output that names no node.
\<close>

theorem compiled_recipe_valid:
  assumes "compile_recipe_with_params rp values = Inr p" "instantiated rp values = Inr r"
    and "static_recipe (rp_tools rp) r"
    and "\<forall>(t, spec) \<in> set (rp_tools rp). \<forall>e. spec_effects spec = Some e \<longrightarrow> \<not> is_contradictory e"
    and "\<forall>(out, x) \<in> set (rp_outputs rp). ref_node x \<in> set (node_ids p)"
  shows "\<exists>g. validate p = Inr g"
proof -
  from recipe_result [OF assms(1)] assms(2) have r: "recipe_nodes r = Inr (plan_nodes p)"
    "plan_version p = CURRENT_VERSION" "plan_tools p = rp_tools rp" "plan_outputs p = rp_outputs rp"
    by auto
  have "plain_nodes (rp_tools rp) (plan_nodes p)"
  proof (cases r)
    case (FanOut f)
    with r(1) assms(3) static_fan_out_plain show ?thesis by (auto simp: recipe_nodes_def static_recipe_def)
  next
    case (MapReduce m)
    with r(1) assms(3) static_map_reduce_plain show ?thesis by (simp add: recipe_nodes_def)
  next
    case (Pipeline pl)
    with r(1) assms(3) static_pipeline_plain show ?thesis by (simp add: recipe_nodes_def)
  qed
  moreover have "CHR ''.'' \<notin> set (recipe_prefix r)" using assms(3) by (simp add: static_recipe_def)
  ultimately have "valid_plan p"
    using recipe_ids_distinct [OF r(1)] recipe_id_shape [OF r(1)] r(2-4) assms(4,5)
    by (intro looks_back_valid) (auto simp: plain_nodes_def node_ids_def)
  then show ?thesis by (simp only: validate_ok_iff)
qed


text \<open>The runtime collection a recipe maps over, if it does.\<close>

definition runtime_items :: "recipe \<Rightarrow> value_ref option" where
  "runtime_items r = (case r of FanOut f \<Rightarrow> fo_items_ref f | MapReduce m \<Rightarrow> fo_items_ref (mr_map m) | Pipeline pl \<Rightarrow> None)"

definition each_node :: "fan_out_recipe \<Rightarrow> value_ref \<Rightarrow> node" where
  "each_node f x = (node_new (fo_node_prefix f @ ''each'') (fo_tool f))
     \<lparr>node_input := wrap_item (fo_input_key f) (JObj [(ITEM_KEY, JStr [])]), node_for_each := Some x\<rparr>"

lemma compile_each: "fo_items_ref f = Some x \<Longrightarrow> compile_fan_out f = Inr [each_node f x]"
  by (simp add: compile_fan_out_def each_node_def)

lemma each_waits: "ref_node x \<in> set (declared_deps (each_node f x))"
  by (simp add: each_node_def declared_deps_def)

lemma each_reduced:
  assumes "compile_map_reduce m = Inr nodes" "fo_items_ref (mr_map m) = Some x"
  obtains r where "nodes = [each_node (mr_map m) x, r]"
    "node_input r = JObj [(mr_reduce_input_key m, output_ref (node_id (each_node (mr_map m) x)))]"
  using assms by (auto simp: compile_map_reduce_def compile_each) (simp add: each_node_def)

text \<open>The reducer reads the mapped node, unless its key quotes what it holds.\<close>

lemma reducer_waits:
  assumes "node_input r = JObj [(k, output_ref i)]" "k \<noteq> LITERAL_KEY" "CHR ''.'' \<notin> set i" "i \<noteq> []"
    and "collect_refs (node_input r) = Inr refs"
  shows "i \<in> set (declared_deps r)"
proof -
  have "k \<noteq> REF_KEY"
    using assms(1,2,5) by (auto simp: output_ref_def singleton_obj_def)
  from collect_refs_single [OF this assms(2) collect_output_ref [OF assms(3,4)]] assms(1)
  show ?thesis by (simp add: declared_deps_def)
qed

text \<open>
  C20. A fan-out or map-reduce recipe over a runtime collection compiles to a plan that validation
  always rejects: the collection must be the output of another node of the plan, and a fan-out has
  none, while the reducer of a map-reduce waits for the mapped node itself. The one exception is a
  map-reduce whose input key is \<^verbatim>\<open>$literal\<close>, which quotes the reference to the mapped node.
\<close>

theorem dynamic_recipe_rejected:
  assumes "compile_recipe_with_params rp values = Inr p"
    and "instantiated rp values = Inr r" "runtime_items r = Some x"
    and "\<forall>m. r = MapReduce m \<longrightarrow> mr_reduce_input_key m \<noteq> LITERAL_KEY"
  shows "\<not> (\<exists>g. validate p = Inr g)"
proof
  assume "\<exists>g. validate p = Inr g"
  then have wf: "nodes_wf p" and ac: "acyclic (plan_dep_rel p)" by (simp_all add: validate_ok_iff valid_plan_def)
  from recipe_result [OF assms(1)] assms(2) have nodes: "recipe_nodes r = Inr (plan_nodes p)" by auto
  show False
  proof (cases r)
    case (FanOut f)
    with assms(3) nodes have n: "plan_nodes p = [each_node f x]" by (simp add: runtime_items_def recipe_nodes_def compile_each)
    with wf each_waits [of x f] show False unfolding nodes_wf_def node_ids_def by auto
  next
    case (MapReduce m)
    with assms(3) have x: "fo_items_ref (mr_map m) = Some x" by (simp add: runtime_items_def)
    let ?e = "each_node (mr_map m) x"
    from MapReduce nodes have "compile_map_reduce m = Inr (plan_nodes p)" by (simp add: recipe_nodes_def)
    from each_reduced [OF this x] obtain q where q: "plan_nodes p = [?e, q]"
      "node_input q = JObj [(mr_reduce_input_key m, output_ref (node_id ?e))]" by blast
    from wf q have e: "set (declared_deps ?e) \<subseteq> {node_id q}" "CHR ''.'' \<notin> set (node_id ?e)" "node_id ?e \<noteq> []"
      "\<exists>refs. collect_refs (node_input q) = Inr refs"
      unfolding nodes_wf_def node_ids_def by auto
    from e(4) have "node_id ?e \<in> set (declared_deps q)"
      using reducer_waits [OF q(2) _ e(2,3)] assms(4) MapReduce by blast
    moreover have "node_id q \<in> set (declared_deps ?e)" using e(1) each_waits [of x "mr_map m"] by auto
    ultimately have "(node_id ?e, node_id q) \<in> plan_dep_rel p" "(node_id q, node_id ?e) \<in> plan_dep_rel p"
      unfolding plan_dep_rel_def q(1) by auto
    then have "(node_id ?e, node_id ?e) \<in> (plan_dep_rel p)\<^sup>+" by (rule trancl_into_trancl [OF r_into_trancl])
    with ac show False by (simp add: acyclic_def)
  qed (use assms(3) in \<open>simp add: runtime_items_def\<close>)
qed

section \<open>Concrete recipes\<close>

definition echo_tools :: "(tool_name, tool_spec) btree" where
  "echo_tools = [(''read'', read_tool)]"

definition gather_recipe :: map_reduce_recipe where
  "gather_recipe = \<lparr>mr_map = (fan_out_new ''read'' [JStr ''x'', JStr ''y''])\<lparr>fo_input_key := Some ''path''\<rparr>,
     mr_reduce_tool = ''read'', mr_reduce_input_key = default_reduce_key\<rparr>"

definition gather_plan :: recipe_plan where
  "gather_plan = (recipe_plan_new (MapReduce gather_recipe))\<lparr>rp_tools := echo_tools\<rparr>"

definition dynamic_map_reduce :: map_reduce_recipe where
  "dynamic_map_reduce = gather_recipe\<lparr>mr_map := fan_out_over_ref ''read'' (ValueRef ''item_reduce'' [])\<rparr>"

definition dynamic_plan :: recipe_plan where
  "dynamic_plan = (recipe_plan_new (MapReduce dynamic_map_reduce))\<lparr>rp_tools := echo_tools\<rparr>"

definition result_of :: "('e, 'a) result \<Rightarrow> 'a" where
  "result_of r = (case r of Inr x \<Rightarrow> x)"

lemma gather_static: "static_recipe echo_tools (MapReduce gather_recipe)"
proof -
  have "static_fan_out echo_tools (mr_map gather_recipe)" "bt_mem (mr_reduce_tool gather_recipe) echo_tools"
    "mr_reduce_input_key gather_recipe \<noteq> REF_KEY" "mr_reduce_input_key gather_recipe \<noteq> LITERAL_KEY"
    "CHR ''.'' \<notin> set (recipe_prefix (MapReduce gather_recipe))" by code_simp+
  then show ?thesis by (simp add: static_recipe_def)
qed

theorem map_reduce_gathers_all_witness:
  "declared_deps (last (result_of (compile_map_reduce gather_recipe))) = [''item_1'', ''item_2'']"
proof -
  have ok: "compile_map_reduce gather_recipe = Inr (result_of (compile_map_reduce gather_recipe))"
    by code_simp
  from map_reduce_gathers_all [OF ok gather_static] obtain ms r where
    m: "compile_fan_out (mr_map gather_recipe) = Inr ms"
      "result_of (compile_map_reduce gather_recipe) = ms @ [r]" "declared_deps r = map node_id ms" by blast
  have "map node_id (result_of (compile_fan_out (mr_map gather_recipe))) = [''item_1'', ''item_2'']" by code_simp
  with m show ?thesis by (simp add: result_of_def)
qed

theorem compiled_recipe_valid_witness:
  "\<exists>g. validate (result_of (compile_recipe gather_plan)) = Inr g"
proof (rule compiled_recipe_valid [of gather_plan "[]" _ "MapReduce gather_recipe"])
  show "compile_recipe_with_params gather_plan [] = Inr (result_of (compile_recipe gather_plan))"
    by code_simp
  show "instantiated gather_plan [] = Inr (MapReduce gather_recipe)" by code_simp
  show "static_recipe (rp_tools gather_plan) (MapReduce gather_recipe)"
    using gather_static by (simp add: gather_plan_def)
qed (auto simp: gather_plan_def echo_tools_def read_tool_def is_contradictory_def effects_read_only_def
    effects_default_def tool_spec_new_def recipe_plan_new_def bs_of_list_def)

theorem dynamic_recipe_rejected_witness:
  "\<not> (\<exists>g. validate (result_of (compile_recipe dynamic_plan)) = Inr g)"
proof (rule dynamic_recipe_rejected [of dynamic_plan "[]" _ "MapReduce dynamic_map_reduce"])
  show "compile_recipe_with_params dynamic_plan [] = Inr (result_of (compile_recipe dynamic_plan))"
    by code_simp
  show "instantiated dynamic_plan [] = Inr (MapReduce dynamic_map_reduce)" by code_simp
  show "runtime_items (MapReduce dynamic_map_reduce) = Some (ValueRef ''item_reduce'' [])" by code_simp
  show "\<forall>m. MapReduce dynamic_map_reduce = MapReduce m \<longrightarrow> mr_reduce_input_key m \<noteq> LITERAL_KEY"
    by (auto simp: dynamic_map_reduce_def gather_recipe_def default_reduce_key_def LITERAL_KEY_def)
qed

end
