(* ===== verification/Mining.thy ===== *)
theory Mining
  imports Recipes
begin

text \<open>
  Opportunity mining, \<^verbatim>\<open>crates/tool-compiler-planner/src/mining.rs\<close>: a scan over the
  observed calls that proposes one fan-out recipe for each long enough run of calls to the same
  tool. The lemmas say that the proposals are exactly the maximal runs, and that a proposed
  recipe compiles to the observed calls.
\<close>

section \<open>The scan\<close>

record observed_call =
  oc_tool :: string
  oc_input :: json

datatype suggestion_kind = SuggestFanOut

record suggestion =
  sg_kind :: suggestion_kind
  sg_tool :: string
  sg_occurrences :: nat
  sg_start_index :: nat
  sg_recipe :: recipe_plan
  sg_reason :: string

definition DEFAULT_MIN_OCCURRENCES :: nat where
  "DEFAULT_MIN_OCCURRENCES = 3"

definition run_length :: "string \<Rightarrow> observed_call list \<Rightarrow> nat" where
  "run_length tool calls = length (takeWhile (\<lambda>c. oc_tool c = tool) calls)"

definition make_suggestion :: "string \<Rightarrow> nat \<Rightarrow> observed_call list \<Rightarrow> suggestion" where
  "make_suggestion tool index run =
     \<lparr>sg_kind = SuggestFanOut, sg_tool = tool, sg_occurrences = length run, sg_start_index = index,
      sg_recipe = (recipe_plan_new (FanOut (fan_out_new tool (map oc_input run))))
        \<lparr>rp_name := Some (tool @ '' fan-out ('' @ dec (length run) @ '' calls)'')\<rparr>,
      sg_reason = dec (length run) @ '' consecutive '' @ [CHR 0x27] @ tool @ [CHR 0x27]
        @ '' calls; if they are independent, one fan-out recipe replaces '' @ dec (length run)
        @ '' model-visible tool calls with one''\<rparr>"

text \<open>\<open>index\<close> is the position of the head of \<open>calls\<close> in the transcript.\<close>

function suggest_from :: "nat \<Rightarrow> nat \<Rightarrow> observed_call list \<Rightarrow> suggestion list" where
  "suggest_from min_occurrences index [] = []"
| "suggest_from min_occurrences index (c # calls) =
     (let run = 1 + run_length (oc_tool c) calls;
          rest = suggest_from min_occurrences (index + run) (drop (run - 1) calls)
      in if run \<ge> min_occurrences
         then make_suggestion (oc_tool c) index (take run (c # calls)) # rest
         else rest)"
  by pat_completeness auto
termination by (relation "measure (\<lambda>(m, i, calls). length calls)") auto

definition suggest_recipes :: "observed_call list \<Rightarrow> nat \<Rightarrow> suggestion list" where
  "suggest_recipes calls min_occurrences = suggest_from (max min_occurrences 2) 0 calls"

section \<open>The suggestions are the maximal runs\<close>

text \<open>\<open>calls[i ..< j]\<close> is a maximal run of one tool.\<close>

definition maximal_run :: "observed_call list \<Rightarrow> nat \<Rightarrow> nat \<Rightarrow> bool" where
  "maximal_run calls i j \<longleftrightarrow> i < j \<and> j \<le> length calls \<and>
     (\<forall>k. i \<le> k \<longrightarrow> k < j \<longrightarrow> oc_tool (calls ! k) = oc_tool (calls ! i)) \<and>
     (i > 0 \<longrightarrow> oc_tool (calls ! (i - 1)) \<noteq> oc_tool (calls ! i)) \<and>
     (j < length calls \<longrightarrow> oc_tool (calls ! j) \<noteq> oc_tool (calls ! i))"

definition run_of :: "observed_call list \<Rightarrow> nat \<Rightarrow> nat \<Rightarrow> observed_call list" where
  "run_of calls i j = take (j - i) (drop i calls)"

definition run_starts :: "observed_call list \<Rightarrow> nat \<Rightarrow> bool" where
  "run_starts calls i \<longleftrightarrow> i = 0 \<or> (i < length calls \<longrightarrow> oc_tool (calls ! (i - 1)) \<noteq> oc_tool (calls ! i))"

lemma run_length_props:
  "run_length t cs \<le> length cs"
  "k < run_length t cs \<Longrightarrow> oc_tool (cs ! k) = t"
  "run_length t cs < length cs \<Longrightarrow> oc_tool (cs ! run_length t cs) \<noteq> t"
proof -
  show "run_length t cs \<le> length cs" by (simp add: run_length_def length_takeWhile_le)
  show "oc_tool (cs ! k) = t" if "k < run_length t cs"
  proof -
    have "takeWhile (\<lambda>c. oc_tool c = t) cs ! k \<in> set (takeWhile (\<lambda>c. oc_tool c = t) cs)"
      using that by (intro nth_mem) (simp add: run_length_def)
    then have "oc_tool (takeWhile (\<lambda>c. oc_tool c = t) cs ! k) = t" by (rule set_takeWhileD [THEN conjunct2])
    with that show ?thesis by (simp add: run_length_def takeWhile_nth)
  qed
  show "run_length t cs < length cs \<Longrightarrow> oc_tool (cs ! run_length t cs) \<noteq> t"
    using nth_length_takeWhile [of "\<lambda>c. oc_tool c = t" cs] by (simp add: run_length_def)
qed

lemma maximal_run_unique:
  assumes "maximal_run calls i j" "maximal_run calls i j'"
  shows "j = j'"
proof (rule ccontr)
  assume "j \<noteq> j'"
  then consider "j < j'" | "j' < j" by linarith
  then show False
    using assms unfolding maximal_run_def by cases (metis less_imp_le_nat order.strict_trans2)+
qed

lemma upt_split: "i < j \<Longrightarrow> j \<le> n \<Longrightarrow> [i..<n] = i # [Suc i..<j] @ [j..<n]"
  by (metis append_Cons le_add_diff_inverse less_or_eq_imp_le upt_add_eq_append upt_conv_Cons)

lemma suggest_from_spec:
  assumes "calls = pre @ rest" "run_starts calls (length pre)"
  shows "suggest_from m (length pre) rest =
     map (\<lambda>(i, j). make_suggestion (oc_tool (calls ! i)) i (run_of calls i j))
       (filter (\<lambda>(i, j). m \<le> j - i)
         (filter (\<lambda>(i, j). maximal_run calls i j)
           (map (\<lambda>i. (i, i + 1 + run_length (oc_tool (calls ! i)) (drop (i + 1) calls)))
             [length pre..<length calls])))"
  using assms
proof (induction "length rest" arbitrary: pre rest rule: less_induct)
  case less
  show ?case
  proof (cases rest)
    case Nil
    with less.prems show ?thesis by simp
  next
    case (Cons c cs)
    let ?i = "length pre" let ?n = "1 + run_length (oc_tool c) cs"
    let ?E = "\<lambda>i. i + 1 + run_length (oc_tool (calls ! i)) (drop (i + 1) calls)"
    have c: "calls ! ?i = c" "drop (?i + 1) calls = cs" "drop ?i calls = c # cs"
      using less.prems(1) Cons by (simp_all add: nth_append)
    have nth: "calls ! (?i + k) = (c # cs) ! k" for k using less.prems(1) Cons by (simp add: nth_append)
    have len: "length calls = ?i + 1 + length cs" using less.prems(1) Cons by simp
    have n: "?n \<le> length (c # cs)" using run_length_props(1) [of "oc_tool c" cs] by simp
    have same: "oc_tool ((c # cs) ! k) = oc_tool c" if "k < ?n" for k
      using that run_length_props(2) [of "k - 1" "oc_tool c" cs] by (cases k) auto
    have stop: "oc_tool ((c # cs) ! ?n) \<noteq> oc_tool c" if "?n < length (c # cs)"
      using that run_length_props(3) [of "oc_tool c" cs] by simp
    have max: "maximal_run calls ?i (?i + ?n)"
      unfolding maximal_run_def
    proof (intro conjI allI impI)
      show "?i < ?i + ?n" "?i + ?n \<le> length calls" using n len by simp_all
      show "oc_tool (calls ! k) = oc_tool (calls ! ?i)" if "?i \<le> k" "k < ?i + ?n" for k
        using same [of "k - ?i"] nth [of "k - ?i"] that c(1) by simp
      show "oc_tool (calls ! (?i - 1)) \<noteq> oc_tool (calls ! ?i)" if "0 < ?i"
        using less.prems(2) that len by (auto simp: run_starts_def)
      show "oc_tool (calls ! (?i + ?n)) \<noteq> oc_tool (calls ! ?i)" if "?i + ?n < length calls"
        using stop nth [of ?n] that len c(1) by simp
    qed
    have inner: "\<not> maximal_run calls i j" if "?i < i" "i < ?i + ?n" for i j
    proof -
      have "oc_tool (calls ! i) = oc_tool c" "oc_tool (calls ! (i - 1)) = oc_tool c"
        using same [of "i - ?i"] same [of "i - 1 - ?i"] nth [of "i - ?i"] nth [of "i - 1 - ?i"] that by simp_all
      then show ?thesis using that by (auto simp: maximal_run_def)
    qed
    have split: "[?i..<length calls] = ?i # [Suc ?i..<?i + ?n] @ [?i + ?n..<length calls]"
      using n len by (intro upt_split) simp_all
    have mid: "filter (\<lambda>(i, j). maximal_run calls i j) (map (\<lambda>i. (i, ?E i)) [Suc ?i..<?i + ?n]) = []"
      using inner by (auto simp: filter_empty_conv)
    have IH: "suggest_from m (?i + ?n) (drop (run_length (oc_tool c) cs) cs) =
      map (\<lambda>(i, j). make_suggestion (oc_tool (calls ! i)) i (run_of calls i j))
       (filter (\<lambda>(i, j). m \<le> j - i)
         (filter (\<lambda>(i, j). maximal_run calls i j) (map (\<lambda>i. (i, ?E i)) [?i + ?n..<length calls])))"
    proof -
      let ?pre = "pre @ take ?n (c # cs)"
      have l: "length ?pre = ?i + ?n" using n by simp
      have "run_starts calls (length ?pre)"
        unfolding l run_starts_def
      proof (intro disjI2 impI)
        assume lt: "?i + ?n < length calls"
        have "oc_tool (calls ! (?i + ?n - 1)) = oc_tool c" using same [of "?n - 1"] nth [of "?n - 1"] by simp
        moreover have "oc_tool (calls ! (?i + ?n)) \<noteq> oc_tool c" using stop nth [of ?n] lt len by simp
        ultimately show "oc_tool (calls ! (?i + ?n - 1)) \<noteq> oc_tool (calls ! (?i + ?n))" by simp
      qed
      moreover have "calls = ?pre @ drop (run_length (oc_tool c) cs) cs"
        using less.prems(1) Cons by simp
      moreover have "length (drop (run_length (oc_tool c) cs) cs) < length rest" using Cons by simp
      ultimately show ?thesis using less.hyps [of "drop (run_length (oc_tool c) cs) cs" ?pre] l by simp
    qed
    have run: "run_of calls ?i (?i + ?n) = take ?n (c # cs)" by (simp add: run_of_def c(3))
    show ?thesis
      unfolding Cons suggest_from.simps Let_def split list.map filter.simps
      using max mid IH run c by simp
  qed
qed

lemma maximal_runD:
  assumes "maximal_run calls i j"
  shows "i < j" "j \<le> length calls"
    "i \<le> k \<Longrightarrow> k < j \<Longrightarrow> oc_tool (calls ! k) = oc_tool (calls ! i)"
    "j < length calls \<Longrightarrow> oc_tool (calls ! j) \<noteq> oc_tool (calls ! i)"
proof -
  note m = assms [unfolded maximal_run_def]
  show "i < j" "j \<le> length calls" by (rule m [THEN conjunct1], rule m [THEN conjunct2, THEN conjunct1])
  show "i \<le> k \<Longrightarrow> k < j \<Longrightarrow> oc_tool (calls ! k) = oc_tool (calls ! i)"
    by (rule m [THEN conjunct2, THEN conjunct2, THEN conjunct1, rule_format])
  show "j < length calls \<Longrightarrow> oc_tool (calls ! j) \<noteq> oc_tool (calls ! i)"
    by (rule m [THEN conjunct2, THEN conjunct2, THEN conjunct2, THEN conjunct2, rule_format])
qed

lemma maximal_run_end:
  assumes "maximal_run calls i j"
  shows "j = i + 1 + run_length (oc_tool (calls ! i)) (drop (i + 1) calls)"
proof (rule ccontr)
  let ?t = "oc_tool (calls ! i)" let ?r = "run_length ?t (drop (i + 1) calls)"
  note m = maximal_runD [OF assms]
  assume "j \<noteq> i + 1 + ?r"
  then consider "i + 1 + ?r < j" | "j < i + 1 + ?r" by linarith
  then show False
  proof cases
    case 1
    then have "?r < length (drop (i + 1) calls)" using m(2) by simp
    from run_length_props(3) [OF this] have "oc_tool (calls ! (i + 1 + ?r)) \<noteq> ?t" using 1 m(2) by simp
    with m(3) [of "i + 1 + ?r"] 1 show False by simp
  next
    case 2
    then have lt: "j - (i + 1) < ?r" using m(1) by linarith
    then have "j < length calls" using run_length_props(1) [of ?t "drop (i + 1) calls"] m(1)
      by simp
    moreover have "oc_tool (calls ! j) = ?t" using run_length_props(2) [OF lt] m(1) \<open>j < length calls\<close> by simp
    ultimately show False using m(4) by blast
  qed
qed

text \<open>The maximal runs of a transcript, by their first position.\<close>

definition maximal_runs :: "observed_call list \<Rightarrow> (nat \<times> nat) list" where
  "maximal_runs calls = concat (map (\<lambda>i.
     map (\<lambda>j. (i, j)) (filter (maximal_run calls i) [i + 1..<length calls + 1])) [0..<length calls])"

lemma filter_singleton:
  assumes "distinct xs" "\<And>x. x \<in> set xs \<Longrightarrow> P x \<Longrightarrow> x = a" "P a \<Longrightarrow> a \<in> set xs"
  shows "filter P xs = (if P a then [a] else [])"
proof (cases "P a")
  case True
  have "set (filter P xs) \<subseteq> {a}"
  proof
    fix x assume "x \<in> set (filter P xs)"
    then have "x \<in> set xs" "P x" by simp_all
    then show "x \<in> {a}" using assms(2) by blast
  qed
  moreover have "a \<in> set (filter P xs)" using assms(3) [OF True] True by (simp only: set_filter) blast
  ultimately have set: "set (filter P xs) = {a}" by blast
  have dis: "distinct (filter P xs)" using assms(1) by simp
  have "filter P xs = [a]"
  proof (cases "filter P xs")
    case (Cons y ys)
    with set dis have "y = a" "set ys \<subseteq> {a}" "a \<notin> set ys" by auto
    then have "ys = []" by (cases ys) auto
    with Cons \<open>y = a\<close> show ?thesis by simp
  qed (use set in simp)
  then show ?thesis using True by simp
next
  case False
  then show ?thesis using assms(2) by (auto simp: filter_empty_conv)
qed

lemma suggest_recipes_scan:
  "suggest_recipes calls m =
     map (\<lambda>(i, j). make_suggestion (oc_tool (calls ! i)) i (run_of calls i j))
       (filter (\<lambda>(i, j). max m 2 \<le> j - i)
         (filter (\<lambda>(i, j). maximal_run calls i j)
           (map (\<lambda>i. (i, i + 1 + run_length (oc_tool (calls ! i)) (drop (i + 1) calls)))
             [0..<length calls])))"
proof -
  have "run_starts calls (length [])" by (simp add: run_starts_def)
  from suggest_from_spec [OF append_Nil [symmetric] this, of "max m 2"] show ?thesis
    by (simp only: suggest_recipes_def list.size(3))
qed

lemma maximal_runs_scan:
  "filter (\<lambda>(i, j). maximal_run calls i j)
     (map (\<lambda>i. (i, i + 1 + run_length (oc_tool (calls ! i)) (drop (i + 1) calls))) [0..<length calls])
   = maximal_runs calls"
proof -
  let ?E = "\<lambda>i. i + 1 + run_length (oc_tool (calls ! i)) (drop (i + 1) calls)"
  have one: "filter (maximal_run calls i) [i + 1..<length calls + 1]
      = (if maximal_run calls i (?E i) then [?E i] else [])" for i
  proof (rule filter_singleton)
    show "x = ?E i" if "maximal_run calls i x" for x by (rule maximal_run_end [OF that])
    show "?E i \<in> set [i + 1..<length calls + 1]" if "maximal_run calls i (?E i)"
      using maximal_runD(1,2) [OF that] by (simp del: upt_Suc)
  qed simp
  have "filter (\<lambda>(i, j). maximal_run calls i j) (map (\<lambda>i. (i, ?E i)) is)
      = concat (map (\<lambda>i. map (\<lambda>j. (i, j)) (filter (maximal_run calls i) [i + 1..<length calls + 1])) is)" for "is"
    unfolding one by (induction "is") (simp_all del: upt_Suc)
  then show ?thesis by (simp only: maximal_runs_def)
qed

lemma suggest_recipes_list:
  "suggest_recipes calls m =
     map (\<lambda>(i, j). make_suggestion (oc_tool (calls ! i)) i (run_of calls i j))
       (filter (\<lambda>(i, j). max m 2 \<le> j - i) (maximal_runs calls))"
  by (simp only: suggest_recipes_scan maximal_runs_scan)

text \<open>
  Mining returns one suggestion for each maximal run of calls to one tool that has at least
  \<open>max min_occurrences 2\<close> calls, in transcript order, and nothing else.
\<close>

theorem suggest_recipes_spec:
  "suggest_recipes calls m =
     map (\<lambda>(i, j). make_suggestion (oc_tool (calls ! i)) i (run_of calls i j))
       (filter (\<lambda>(i, j). max m 2 \<le> j - i) (maximal_runs calls))"
  by (rule suggest_recipes_list)

lemma compile_suggestion:
  assumes "run \<noteq> []"
  shows "\<exists>p. compile_recipe (sg_recipe (make_suggestion tool i run)) = Inr p \<and>
    map node_input (plan_nodes p) = map oc_input run \<and> (\<forall>n \<in> set (plan_nodes p). node_tool n = tool)"
proof -
  let ?f = "fan_out_new tool (map oc_input run)"
  let ?node = "\<lambda>(k, item). (node_new (fo_node_prefix ?f @ dec (k + 1)) (fo_tool ?f))
      \<lparr>node_input := wrap_item (fo_input_key ?f) item\<rparr>"
  let ?nodes = "map ?node (enumerate 0 (fo_items ?f))"
  have "compile_fan_out ?f = Inr ?nodes"
    using assms by (simp add: compile_fan_out_def fan_out_new_def)
  then have "compile_recipe (sg_recipe (make_suggestion tool i run))
    = Inr (plan_new\<lparr>plan_name := Some (tool @ '' fan-out ('' @ dec (length run) @ '' calls)''),
           plan_nodes := ?nodes\<rparr>)"
    by (simp add: compile_recipe_def compile_recipe_with_params_def make_suggestion_def recipe_plan_new_def
        substitute_params_def plan_new_def)
  moreover have "map node_input ?nodes = map oc_input run"
    by (rule nth_equalityI) (simp_all add: nth_enumerate_eq fan_out_new_def wrap_item_def)
  moreover have "\<forall>n \<in> set ?nodes. node_tool n = tool"
    by (auto simp: fan_out_new_def node_new_def)
  ultimately show ?thesis by auto
qed

text \<open>
  A suggested recipe compiles as it is to one node per observed call of its run, with the
  observed tool and inputs in their order.
\<close>

theorem suggestion_replays_run:
  assumes "s \<in> set (suggest_recipes calls m)"
  shows "\<exists>p i. compile_recipe (sg_recipe s) = Inr p \<and> sg_start_index s = i \<and>
    sg_occurrences s \<ge> 2 \<and> i + sg_occurrences s \<le> length calls \<and>
    map node_input (plan_nodes p) = map oc_input (take (sg_occurrences s) (drop i calls)) \<and>
    (\<forall>n \<in> set (plan_nodes p). node_tool n = oc_tool (calls ! i))"
proof -
  from assms obtain i j where s: "s = make_suggestion (oc_tool (calls ! i)) i (run_of calls i j)"
    "max m 2 \<le> j - i" "(i, j) \<in> set (maximal_runs calls)"
    unfolding suggest_recipes_list by auto
  from s(3) have "maximal_run calls i j" unfolding maximal_runs_def by (auto simp del: upt_Suc)
  note j = maximal_runD(1,2) [OF this]
  then have len: "length (run_of calls i j) = j - i" by (simp add: run_of_def)
  with s(2) have "run_of calls i j \<noteq> []" by auto
  from compile_suggestion [OF this, of "oc_tool (calls ! i)" i] obtain p where
    "compile_recipe (sg_recipe s) = Inr p" "map node_input (plan_nodes p) = map oc_input (run_of calls i j)"
    "\<forall>n \<in> set (plan_nodes p). node_tool n = oc_tool (calls ! i)" unfolding s(1) by blast
  with s(1,2) len j show ?thesis by (simp add: make_suggestion_def run_of_def)
qed

definition example_calls :: "observed_call list" where
  "example_calls = [\<lparr>oc_tool = ''a'', oc_input = JNull\<rparr>, \<lparr>oc_tool = ''b'', oc_input = JStr ''x''\<rparr>,
     \<lparr>oc_tool = ''b'', oc_input = JStr ''y''\<rparr>]"

theorem suggestion_replays_run_witness:
  "\<exists>p. compile_recipe (sg_recipe (hd (suggest_recipes example_calls 2))) = Inr p \<and>
     map node_input (plan_nodes p) = [JStr ''x'', JStr ''y'']"
proof -
  have "suggest_recipes example_calls 2 \<noteq> []" by code_simp
  then have "hd (suggest_recipes example_calls 2) \<in> set (suggest_recipes example_calls 2)" by simp
  from suggestion_replays_run [OF this] obtain p where
    p: "compile_recipe (sg_recipe (hd (suggest_recipes example_calls 2))) = Inr p"
      "map node_input (plan_nodes p) = map oc_input
         (take (sg_occurrences (hd (suggest_recipes example_calls 2)))
           (drop (sg_start_index (hd (suggest_recipes example_calls 2))) example_calls))" by blast
  have "map oc_input (take (sg_occurrences (hd (suggest_recipes example_calls 2)))
      (drop (sg_start_index (hd (suggest_recipes example_calls 2))) example_calls)) = [JStr ''x'', JStr ''y'']"
    by code_simp
  with p show ?thesis by simp
qed

end
