(* ===== verification/Cache.thy ===== *)
theory Cache
  imports Json "HOL-Library.Product_Lexorder" "HOL-Library.Option_ord"
begin

text \<open>
  The in-memory tool cache, \<^verbatim>\<open>crates/tool-compiler-runtime/src/cache.rs\<close>: entries under a cache
  key, an index from resources to the entries that read them, and an index by last use.
  Instants are numbers of a monotonic clock passed as \<open>now\<close>. The tick counter
  \<open>mc_clock\<close> is an unbounded \<^typ>\<open>nat\<close>: the program's is 64 bits wide and moves by one per operation, so
  the two agree for the first \<open>2 ^ 64\<close> operations. The lemmas show that the
  indexes always agree with the entries, that the capacity is respected, and that the cache
  implements the contract of the \<^verbatim>\<open>ToolCache\<close> trait.
\<close>

section \<open>Cache keys\<close>

datatype cache_key = CacheKey
  (ck_adapter: string) (ck_tool: string) (ck_version: "string option") (ck_input: string)

instantiation cache_key :: linorder
begin

definition less_eq_cache_key :: "cache_key \<Rightarrow> cache_key \<Rightarrow> bool" where
  "less_eq_cache_key a b \<longleftrightarrow>
     (ck_adapter a, ck_tool a, ck_version a, ck_input a) \<le> (ck_adapter b, ck_tool b, ck_version b, ck_input b)"

definition less_cache_key :: "cache_key \<Rightarrow> cache_key \<Rightarrow> bool" where
  "less_cache_key a b \<longleftrightarrow>
     (ck_adapter a, ck_tool a, ck_version a, ck_input a) < (ck_adapter b, ck_tool b, ck_version b, ck_input b)"

instance
proof
  fix a b c :: cache_key
  show "(a < b) = (a \<le> b \<and> \<not> b \<le> a)" unfolding less_cache_key_def less_eq_cache_key_def by (rule less_le_not_le)
  show "a \<le> a" unfolding less_eq_cache_key_def by (rule order_refl)
  show "a \<le> b \<Longrightarrow> b \<le> c \<Longrightarrow> a \<le> c" unfolding less_eq_cache_key_def by (rule order_trans)
  show "a \<le> b \<or> b \<le> a" unfolding less_eq_cache_key_def by (rule linear)
  show "a = b" if "a \<le> b" "b \<le> a"
  proof -
    have "(ck_adapter a, ck_tool a, ck_version a, ck_input a) = (ck_adapter b, ck_tool b, ck_version b, ck_input b)"
      using that unfolding less_eq_cache_key_def by (rule order_antisym)
    then show ?thesis by (simp add: cache_key.expand)
  qed
qed

end

section \<open>The cache\<close>

record cache_entry =
  ce_output :: json
  ce_reads :: "string bset"
  ce_inserted :: nat
  ce_last_used :: nat

record memory_cache =
  mc_entries :: "(cache_key, cache_entry) btree"
  mc_by_resource :: "(string, cache_key bset) btree"
  mc_lru :: "(nat, cache_key) btree"
  mc_clock :: nat
  mc_max_entries :: nat
  mc_ttl :: "nat option"

definition DEFAULT_MAX_ENTRIES :: nat where
  "DEFAULT_MAX_ENTRIES = 1024"

definition cache_with_limits :: "nat \<Rightarrow> nat option \<Rightarrow> memory_cache" where
  "cache_with_limits max_entries ttl = \<lparr>mc_entries = [], mc_by_resource = [], mc_lru = [],
     mc_clock = 0, mc_max_entries = max max_entries 1, mc_ttl = ttl\<rparr>"

definition cache_new :: memory_cache where
  "cache_new = cache_with_limits DEFAULT_MAX_ENTRIES None"

definition unlink ::
  "cache_key \<Rightarrow> (string, cache_key bset) btree \<Rightarrow> string \<Rightarrow> (string, cache_key bset) btree" where
  "unlink key m r = (case map_of m r of
       None \<Rightarrow> m
     | Some keys \<Rightarrow>
         (let keys' = bs_remove key keys in if keys' = [] then bt_remove r m else bt_set r keys' m))"

definition cache_remove :: "cache_key \<Rightarrow> memory_cache \<Rightarrow> memory_cache" where
  "cache_remove key c = (case map_of (mc_entries c) key of
       None \<Rightarrow> c
     | Some e \<Rightarrow> c\<lparr>mc_entries := bt_remove key (mc_entries c),
                  mc_lru := bt_remove (ce_last_used e) (mc_lru c),
                  mc_by_resource := foldl (unlink key) (mc_by_resource c) (ce_reads e)\<rparr>)"

definition evict_least_recently_used :: "memory_cache \<Rightarrow> memory_cache" where
  "evict_least_recently_used c = (case mc_lru c of
       [] \<Rightarrow> c
     | (tick, victim) # lru \<Rightarrow>
         (let c1 = c\<lparr>mc_lru := lru\<rparr> in
          case map_of (mc_entries c1) victim of
            None \<Rightarrow> c1
          | Some e \<Rightarrow> c1\<lparr>mc_entries := bt_remove victim (mc_entries c1),
              mc_by_resource := foldl (unlink victim) (mc_by_resource c1) (ce_reads e)\<rparr>))"

definition cache_get :: "nat \<Rightarrow> cache_key \<Rightarrow> memory_cache \<Rightarrow> json option \<times> memory_cache" where
  "cache_get now key c0 =
     (let c = c0\<lparr>mc_clock := mc_clock c0 + 1\<rparr>; clock = mc_clock c in
      case map_of (mc_entries c) key of
        None \<Rightarrow> (None, c)
      | Some e \<Rightarrow>
          if (case mc_ttl c of None \<Rightarrow> False | Some ttl \<Rightarrow> now - ce_inserted e > ttl)
          then (None, cache_remove key c)
          else (Some (ce_output e),
                c\<lparr>mc_lru := bt_insert clock key (bt_remove (ce_last_used e) (mc_lru c)),
                  mc_entries := bt_set key (e\<lparr>ce_last_used := clock\<rparr>) (mc_entries c)\<rparr>))"

text \<open>The eviction loop; with no tick left it would spin, which \<open>None\<close> records.\<close>

function evict_until :: "memory_cache \<Rightarrow> memory_cache option" where
  "evict_until c =
     (if length (mc_entries c) < mc_max_entries c then Some c
      else if mc_lru c = [] then None
      else evict_until (evict_least_recently_used c))"
  by pat_completeness auto
termination
  by (relation "measure (\<lambda>c. length (mc_lru c))")
     (auto simp: evict_least_recently_used_def Let_def split: list.splits option.splits)

definition link :: "cache_key \<Rightarrow> (string, cache_key bset) btree \<Rightarrow> string \<Rightarrow> (string, cache_key bset) btree" where
  "link key m r = bt_insert r (bs_insert key (get_list m r)) m"

definition cache_insert ::
  "nat \<Rightarrow> cache_key \<Rightarrow> json \<Rightarrow> string bset \<Rightarrow> memory_cache \<Rightarrow> memory_cache option" where
  "cache_insert now key output reads c0 =
     (let c = c0\<lparr>mc_clock := mc_clock c0 + 1\<rparr>; clock = mc_clock c in
      case evict_until (cache_remove key c) of
        None \<Rightarrow> None
      | Some c1 \<Rightarrow> Some (c1\<lparr>
          mc_by_resource := foldl (link key) (mc_by_resource c1) reads,
          mc_lru := bt_insert clock key (mc_lru c1),
          mc_entries := bt_insert key \<lparr>ce_output = output, ce_reads = reads, ce_inserted = now,
                                        ce_last_used = clock\<rparr> (mc_entries c1)\<rparr>))"

definition cache_invalidate_reads :: "string bset \<Rightarrow> memory_cache \<Rightarrow> memory_cache" where
  "cache_invalidate_reads resources c =
     (let victims = concat (map (get_list (mc_by_resource c)) resources)
      in foldl (\<lambda>c key. cache_remove key c) c victims)"

definition cache_clear :: "memory_cache \<Rightarrow> memory_cache" where
  "cache_clear c = c\<lparr>mc_entries := [], mc_by_resource := [], mc_lru := []\<rparr>"

declare evict_until.simps [simp del]

section \<open>The indexes agree with the entries\<close>

definition links_ok :: "(cache_key, cache_entry) btree \<Rightarrow> (string, cache_key bset) btree \<Rightarrow> bool" where
  "links_ok es m \<longleftrightarrow> bt_ok m \<and> (\<forall>r ks. map_of m r = Some ks \<longrightarrow> bs_ok ks \<and> ks \<noteq> []) \<and>
     (\<forall>r k. k \<in> set (get_list m r) \<longleftrightarrow> (\<exists>e. map_of es k = Some e \<and> r \<in> set (ce_reads e)))"

definition lru_ok :: "(cache_key, cache_entry) btree \<Rightarrow> (nat, cache_key) btree \<Rightarrow> bool" where
  "lru_ok es lru \<longleftrightarrow> bt_ok lru \<and>
     (\<forall>t k. map_of lru t = Some k \<longleftrightarrow> (\<exists>e. map_of es k = Some e \<and> ce_last_used e = t))"

definition cache_wf :: "memory_cache \<Rightarrow> bool" where
  "cache_wf c \<longleftrightarrow> bt_ok (mc_entries c) \<and> links_ok (mc_entries c) (mc_by_resource c) \<and>
     lru_ok (mc_entries c) (mc_lru c) \<and>
     (\<forall>k e. map_of (mc_entries c) k = Some e \<longrightarrow> ce_last_used e \<le> mc_clock c)"

definition cache_ok :: "memory_cache \<Rightarrow> bool" where
  "cache_ok c \<longleftrightarrow> cache_wf c \<and> 0 < mc_max_entries c \<and> length (mc_entries c) \<le> mc_max_entries c"

text \<open>What a client sees: output, read resources and insertion time of each cached key.\<close>

definition cache_contents :: "memory_cache \<Rightarrow> cache_key \<rightharpoonup> json \<times> string set \<times> nat" where
  "cache_contents c k = map_option (\<lambda>e. (ce_output e, set (ce_reads e), ce_inserted e)) (map_of (mc_entries c) k)"

subsection \<open>The resource index\<close>

definition links_wf :: "(string, cache_key bset) btree \<Rightarrow> bool" where
  "links_wf m \<longleftrightarrow> bt_ok m \<and> (\<forall>r ks. map_of m r = Some ks \<longrightarrow> bs_ok ks \<and> ks \<noteq> [])"

lemma unlink_props:
  assumes "links_wf m"
  shows "links_wf (unlink k m r)"
    and "set (get_list (unlink k m r) r') = (if r' = r then set (get_list m r) - {k} else set (get_list m r'))"
proof -
  show "links_wf (unlink k m r)"
    using assms by (auto simp: unlink_def links_wf_def Let_def split: option.split if_splits)
  have mem: "r \<in> fst ` set m" if "map_of m r = Some ks" for ks using that by (metis domI dom_map_of_conv_image_fst)
  show "set (get_list (unlink k m r) r') = (if r' = r then set (get_list m r) - {k} else set (get_list m r'))"
  proof (cases "map_of m r")
    case None
    then show ?thesis by (auto simp: unlink_def get_list_def)
  next
    case (Some ks)
    show ?thesis
    proof (cases "bs_remove k ks = []")
      case True
      then have "set ks - {k} = {}" by (metis list.set(1) set_bs_remove)
      with True Some show ?thesis by (simp add: unlink_def get_list_def)
    next
      case False
      with Some mem [OF Some] show ?thesis by (auto simp: unlink_def get_list_def)
    qed
  qed
qed

lemma unlink_all:
  assumes "links_wf m"
  shows "links_wf (foldl (unlink k) m rs)"
    and "set (get_list (foldl (unlink k) m rs) r) = (if r \<in> set rs then set (get_list m r) - {k} else set (get_list m r))"
  using assms by (induction rs arbitrary: m) (simp_all add: unlink_props)

lemma link_props:
  assumes "links_wf m"
  shows "links_wf (link k m r)"
    and "set (get_list (link k m r) r') = (if r' = r then insert k (set (get_list m r)) else set (get_list m r'))"
proof -
  have ok: "bs_ok (get_list m r)" using assms by (auto simp: links_wf_def get_list_def bs_ok_def split: option.split)
  have ne: "bs_insert k (get_list m r) \<noteq> []"
  proof
    assume "bs_insert k (get_list m r) = []"
    then have "set (bs_insert k (get_list m r)) = {}" by simp
    then show False by simp
  qed
  show "links_wf (link k m r)"
    using assms ok ne by (auto simp: link_def links_wf_def split: if_splits)
  show "set (get_list (link k m r) r') = (if r' = r then insert k (set (get_list m r)) else set (get_list m r'))"
    by (auto simp: link_def get_list_def)
qed

lemma link_all:
  assumes "links_wf m"
  shows "links_wf (foldl (link k) m rs)"
    and "set (get_list (foldl (link k) m rs) r) = (if r \<in> set rs then insert k (set (get_list m r)) else set (get_list m r))"
  using assms by (induction rs arbitrary: m) (simp_all add: link_props)

lemma links_ok_iff: "links_ok es m \<longleftrightarrow> links_wf m \<and>
    (\<forall>r k. k \<in> set (get_list m r) \<longleftrightarrow> (\<exists>e. map_of es k = Some e \<and> r \<in> set (ce_reads e)))"
  by (simp add: links_ok_def links_wf_def)

subsection \<open>Removing an entry\<close>

lemma links_ok_remove:
  assumes "links_ok es m" "map_of es k = Some e"
  shows "links_ok (bt_remove k es) (foldl (unlink k) m (ce_reads e))"
  using assms by (auto simp: links_ok_iff unlink_all)

lemma lru_ok_remove:
  assumes "lru_ok es lru" "map_of es k = Some e"
  shows "lru_ok (bt_remove k es) (bt_remove (ce_last_used e) lru)"
  using assms by (auto simp: lru_ok_def) (metis option.inject)+

lemma cache_remove_wf: "cache_wf c \<Longrightarrow> cache_wf (cache_remove k c)"
  by (auto simp: cache_wf_def cache_remove_def links_ok_remove lru_ok_remove split: option.split)

lemma cache_remove_contents: "cache_contents (cache_remove k c) = (cache_contents c)(k := None)"
  by (auto simp: cache_contents_def cache_remove_def fun_eq_iff split: option.split)

lemma cache_remove_fields [simp]:
  "mc_max_entries (cache_remove k c) = mc_max_entries c" "mc_ttl (cache_remove k c) = mc_ttl c"
  "mc_clock (cache_remove k c) = mc_clock c"
  by (simp_all add: cache_remove_def split: option.split)

lemma cache_remove_absent: "map_of (mc_entries c) k = None \<Longrightarrow> cache_remove k c = c"
  by (simp add: cache_remove_def)

lemma cache_remove_length: "length (mc_entries (cache_remove k c)) \<le> length (mc_entries c)"
  by (simp add: cache_remove_def bt_remove_def split: option.split)

text \<open>Evicting the smallest tick is removing its key.\<close>

lemma evict_is_remove:
  assumes "cache_wf c" "mc_lru c = (tick, victim) # lru"
  shows "evict_least_recently_used c = cache_remove victim c"
proof -
  have l: "lru_ok (mc_entries c) ((tick, victim) # lru)" using assms by (simp add: cache_wf_def)
  then obtain e where e: "map_of (mc_entries c) victim = Some e" "ce_last_used e = tick"
    unfolding lru_ok_def by (metis map_of_Cons_code(2))
  have "tick \<notin> fst ` set lru" using l bt_ok_distinct [of "(tick, victim) # lru"] by (simp add: lru_ok_def)
  then have "bt_remove tick ((tick, victim) # lru) = lru"
    by (auto simp: bt_remove_def filter_id_conv image_iff)
  with e assms(2) show ?thesis by (simp add: evict_least_recently_used_def cache_remove_def)
qed

lemma lru_head_present:
  assumes "cache_wf c" "mc_lru c = (tick, victim) # lru"
  obtains e where "map_of (mc_entries c) victim = Some e" "ce_last_used e = tick"
    and "\<And>k e'. map_of (mc_entries c) k = Some e' \<Longrightarrow> tick \<le> ce_last_used e'"
proof -
  have l: "lru_ok (mc_entries c) ((tick, victim) # lru)" using assms by (simp add: cache_wf_def)
  then obtain e where e: "map_of (mc_entries c) victim = Some e" "ce_last_used e = tick"
    unfolding lru_ok_def by (metis map_of_Cons_code(2))
  have "tick \<le> ce_last_used e'" if "map_of (mc_entries c) k = Some e'" for k e'
  proof -
    have "map_of ((tick, victim) # lru) (ce_last_used e') = Some k" using l that by (auto simp: lru_ok_def)
    then have "ce_last_used e' \<in> fst ` set ((tick, victim) # lru)"
      by (metis domI dom_map_of_conv_image_fst)
    then show ?thesis using l by (auto simp: lru_ok_def bt_ok_Cons)
  qed
  with e that show ?thesis by blast
qed

lemma lru_nonempty: "cache_wf c \<Longrightarrow> mc_entries c \<noteq> [] \<Longrightarrow> mc_lru c \<noteq> []"
proof
  assume c: "cache_wf c" "mc_entries c \<noteq> []" "mc_lru c = []"
  then obtain k e es where "mc_entries c = (k, e) # es" by (metis list.exhaust surj_pair)
  then have "map_of (mc_entries c) k = Some e" by simp
  with c(1,3) show False by (auto simp: cache_wf_def lru_ok_def)
qed

section \<open>The operations\<close>

lemma cache_clear_ok: "cache_ok c \<Longrightarrow> cache_ok (cache_clear c) \<and> cache_contents (cache_clear c) = Map.empty"
  by (auto simp: cache_ok_def cache_wf_def cache_clear_def links_ok_def lru_ok_def cache_contents_def)

lemma cache_remove_ok: "cache_ok c \<Longrightarrow> cache_ok (cache_remove k c)"
  using cache_remove_wf [of c k] cache_remove_length [of k c] by (simp add: cache_ok_def)

definition expired :: "nat \<Rightarrow> nat option \<Rightarrow> nat \<Rightarrow> bool" where
  "expired now ttl inserted \<longleftrightarrow> (case ttl of None \<Rightarrow> False | Some l \<Rightarrow> now - inserted > l)"

lemma length_bt_set [simp]: "length (bt_set k v m) = length m"
  by (metis keys_bt_set length_map)

lemma touch_lru:
  assumes "lru_ok es lru" "map_of es key = Some e" "\<forall>k e. map_of es k = Some e \<longrightarrow> ce_last_used e < tick"
  shows "lru_ok (bt_set key (e\<lparr>ce_last_used := tick\<rparr>) es)
    (bt_insert tick key (bt_remove (ce_last_used e) lru))"
proof -
  have mem: "key \<in> fst ` set es" using assms(2) by (metis domI dom_map_of_conv_image_fst)
  have fresh: "map_of lru tick = None"
    using assms(1,3) unfolding lru_ok_def by (metis less_irrefl not_None_eq)
  show ?thesis
    unfolding lru_ok_def
  proof (intro conjI allI)
    show "bt_ok (bt_insert tick key (bt_remove (ce_last_used e) lru))" using assms(1) by (simp add: lru_ok_def)
    fix t k
    have L: "map_of lru t' = Some k' \<longleftrightarrow> (\<exists>e'. map_of es k' = Some e' \<and> ce_last_used e' = t')" for t' k'
      using assms(1) by (simp add: lru_ok_def)
    have last: "map_of lru (ce_last_used e) = Some key" using L assms(2) by blast
    show "(map_of (bt_insert tick key (bt_remove (ce_last_used e) lru)) t = Some k) =
      (\<exists>e'. map_of (bt_set key (e\<lparr>ce_last_used := tick\<rparr>) es) k = Some e' \<and> ce_last_used e' = t)"
    proof (cases "k = key")
      case True
      have "map_of lru t = Some key \<longleftrightarrow> t = ce_last_used e" using L [of t key] assms(2) by auto
      with True mem show ?thesis by auto
    next
      case False
      have "map_of lru t = Some k \<Longrightarrow> t \<noteq> tick \<and> t \<noteq> ce_last_used e" using fresh last False by auto
      with False show ?thesis using L [of t k] by auto
    qed
  qed
qed

lemma touch_links:
  assumes "links_ok es m" "map_of es key = Some e" "ce_reads e' = ce_reads e"
  shows "links_ok (bt_set key e' es) m"
proof -
  have "key \<in> fst ` set es" using assms(2) by (metis domI dom_map_of_conv_image_fst)
  with assms show ?thesis by (auto simp: links_ok_def)
qed

lemma cache_get_spec:
  assumes "cache_ok c" "cache_get now key c = (r, c')"
  shows "cache_ok c' \<and> r = (case cache_contents c key of
        Some (v, reads, inserted) \<Rightarrow> if expired now (mc_ttl c) inserted then None else Some v
      | None \<Rightarrow> None) \<and>
    cache_contents c' = (if r = None then (cache_contents c)(key := None) else cache_contents c) \<and>
    mc_ttl c' = mc_ttl c \<and> mc_max_entries c' = mc_max_entries c"
proof -
  define c1 where "c1 = c\<lparr>mc_clock := mc_clock c + 1\<rparr>"
  have c1: "cache_ok c1" "cache_contents c1 = cache_contents c" "mc_entries c1 = mc_entries c"
    using assms(1) by (auto simp: c1_def cache_ok_def cache_wf_def cache_contents_def fun_eq_iff intro: le_SucI)
  show ?thesis
  proof (cases "map_of (mc_entries c) key")
    case None
    then have "r = None" "c' = c1" using assms(2) by (simp_all add: cache_get_def c1_def)
    with None c1 show ?thesis by (auto simp: cache_contents_def fun_eq_iff c1_def)
  next
    case (Some e)
    show ?thesis
    proof (cases "expired now (mc_ttl c) (ce_inserted e)")
      case True
      then have "r = None" "c' = cache_remove key c1"
        using assms(2) Some by (simp_all add: cache_get_def c1_def expired_def)
      with Some True c1 cache_remove_ok [of c1 key] cache_remove_contents [of key c1] show ?thesis
        by (simp add: cache_contents_def [of c] c1_def)
    next
      case False
      let ?tick = "mc_clock c + 1"
      have r: "r = Some (ce_output e)" "c' = c1\<lparr>
          mc_lru := bt_insert ?tick key (bt_remove (ce_last_used e) (mc_lru c)),
          mc_entries := bt_set key (e\<lparr>ce_last_used := ?tick\<rparr>) (mc_entries c)\<rparr>"
        using assms(2) Some False by (simp_all add: cache_get_def c1_def expired_def)
      have wf: "cache_wf c" using assms(1) by (simp add: cache_ok_def)
      have old: "\<forall>k e. map_of (mc_entries c) k = Some e \<longrightarrow> ce_last_used e < ?tick"
        using wf by (auto simp: cache_wf_def less_Suc_eq_le)
      have mem: "key \<in> fst ` set (mc_entries c)" using Some by (metis domI dom_map_of_conv_image_fst)
      have "lru_ok (mc_entries c') (mc_lru c')" "links_ok (mc_entries c') (mc_by_resource c')"
        using touch_lru [OF _ Some old] touch_links [OF _ Some] wf by (simp_all add: r(2) cache_wf_def c1_def)
      moreover have "bt_ok (mc_entries c')" using wf by (simp add: r(2) cache_wf_def)
      moreover have "ce_last_used e' \<le> mc_clock c'" if "map_of (mc_entries c') k = Some e'" for k e'
        using that old mem by (auto simp: r(2) c1_def less_Suc_eq_le le_SucI split: if_splits)
      ultimately have "cache_ok c'" using assms(1) by (simp add: cache_ok_def cache_wf_def r(2) c1_def)
      moreover have "cache_contents c' = cache_contents c"
        using Some mem by (auto simp: cache_contents_def r(2) fun_eq_iff)
      ultimately show ?thesis using Some False r by (simp add: cache_contents_def c1_def)
    qed
  qed
qed

subsection \<open>Insertion\<close>

lemma evict_until_step:
  assumes "cache_wf c" "\<not> length (mc_entries c) < mc_max_entries c" "0 < mc_max_entries c"
  obtains tick victim lru where "mc_lru c = (tick, victim) # lru"
    "evict_until c = evict_until (cache_remove victim c)"
proof -
  from assms(2,3) have "mc_entries c \<noteq> []" by auto
  from lru_nonempty [OF assms(1) this] obtain tick victim lru where l: "mc_lru c = (tick, victim) # lru"
    by (metis list.exhaust surj_pair)
  with evict_until.simps [of c] evict_is_remove [OF assms(1) l] assms(2)
  have "evict_until c = evict_until (cache_remove victim c)" by simp
  with l that show ?thesis by blast
qed

text \<open>The least recently used key: the one whose tick is the smallest.\<close>

definition least_recently_used :: "memory_cache \<Rightarrow> cache_key \<Rightarrow> bool" where
  "least_recently_used c k \<longleftrightarrow> (\<exists>e. map_of (mc_entries c) k = Some e \<and>
     (\<forall>k' e'. map_of (mc_entries c) k' = Some e' \<longrightarrow> ce_last_used e \<le> ce_last_used e'))"

lemma evict_until_spec:
  assumes "cache_wf c" "0 < mc_max_entries c" "length (mc_entries c) \<le> mc_max_entries c"
  shows "\<exists>c'. evict_until c = Some c' \<and> cache_wf c' \<and> length (mc_entries c') < mc_max_entries c' \<and>
    mc_max_entries c' = mc_max_entries c \<and> mc_ttl c' = mc_ttl c \<and> mc_clock c' = mc_clock c \<and>
    (if length (mc_entries c) < mc_max_entries c then c' = c
     else \<exists>victim. least_recently_used c victim \<and> c' = cache_remove victim c)"
proof (cases "length (mc_entries c) < mc_max_entries c")
  case True
  then show ?thesis using assms(1) evict_until.simps [of c] by simp
next
  case False
  from evict_until_step [OF assms(1) False assms(2)] obtain tick victim lru where
    v: "mc_lru c = (tick, victim) # lru" "evict_until c = evict_until (cache_remove victim c)" by blast
  from lru_head_present [OF assms(1) v(1)] obtain e where
    e: "map_of (mc_entries c) victim = Some e" "ce_last_used e = tick"
      "\<And>k e'. map_of (mc_entries c) k = Some e' \<Longrightarrow> tick \<le> ce_last_used e'" by blast
  have "(victim, e) \<in> set (mc_entries c)" using e(1) by (rule map_of_SomeD)
  then have "length (mc_entries (cache_remove victim c)) < length (mc_entries c)"
    using e(1) by (auto simp: cache_remove_def bt_remove_def intro!: length_filter_less)
  then have lt: "length (mc_entries (cache_remove victim c)) < mc_max_entries c" using assms(3) by linarith
  then have "evict_until (cache_remove victim c) = Some (cache_remove victim c)"
    using evict_until.simps [of "cache_remove victim c"] by simp
  moreover have "least_recently_used c victim" using e by (auto simp: least_recently_used_def)
  ultimately show ?thesis using v(2) lt False cache_remove_wf [OF assms(1)] by auto
qed

lemma length_bt_insert: "length (bt_insert k v m) \<le> Suc (length m)"
  by (induction k v m rule: bt_insert.induct) auto

lemma add_entry_wf:
  assumes "cache_wf c" "map_of (mc_entries c) key = None"
    "\<forall>k e. map_of (mc_entries c) k = Some e \<longrightarrow> ce_last_used e < tick" "ce_last_used e = tick"
    "mc_clock c = tick" "ce_reads e = reads"
  shows "cache_wf (c\<lparr>mc_by_resource := foldl (link key) (mc_by_resource c) reads,
      mc_lru := bt_insert tick key (mc_lru c), mc_entries := bt_insert key e (mc_entries c)\<rparr>)"
proof -
  have "map_of (mc_lru c) tick = None"
    using assms(1,3) unfolding cache_wf_def lru_ok_def by (metis less_irrefl not_None_eq)
  moreover have "ce_last_used e' \<noteq> tick" if "map_of (mc_entries c) k = Some e'" for k e'
    using assms(3) that by auto
  ultimately have "lru_ok (bt_insert key e (mc_entries c)) (bt_insert tick key (mc_lru c))"
    using assms(1,2,4) by (auto simp: cache_wf_def lru_ok_def split: if_splits)
  moreover have "links_ok (bt_insert key e (mc_entries c)) (foldl (link key) (mc_by_resource c) reads)"
    using assms(1,2,6) by (auto simp: cache_wf_def links_ok_iff link_all)
  ultimately show ?thesis using assms by (auto simp: cache_wf_def less_imp_le)
qed

lemma cache_remove_entries:
  "map_of (mc_entries (cache_remove v c)) k = Some e \<Longrightarrow> map_of (mc_entries c) k = Some e"
  by (auto simp: cache_remove_def split: option.splits if_splits)

lemma cache_remove_shorter:
  assumes "map_of (mc_entries c) k \<noteq> None"
  shows "length (mc_entries (cache_remove k c)) < length (mc_entries c)"
proof -
  from assms obtain e where e: "map_of (mc_entries c) k = Some e" by blast
  then have "(k, e) \<in> set (mc_entries c)" by (rule map_of_SomeD)
  then show ?thesis using e by (auto simp: cache_remove_def bt_remove_def intro!: length_filter_less)
qed

text \<open>The contents an insertion starts from: full caches give up one least recently used entry.\<close>

definition makes_room :: "memory_cache \<Rightarrow> cache_key \<Rightarrow> (cache_key \<rightharpoonup> json \<times> string set \<times> nat) \<Rightarrow> bool" where
  "makes_room c key m \<longleftrightarrow>
     (if cache_contents c key \<noteq> None \<or> length (mc_entries c) < mc_max_entries c then m = cache_contents c
      else \<exists>victim. least_recently_used c victim \<and> m = (cache_contents c)(victim := None))"

lemma cache_insert_spec:
  assumes "cache_ok c"
  shows "\<exists>c' m. cache_insert now key out reads c = Some c' \<and> cache_ok c' \<and>
    mc_ttl c' = mc_ttl c \<and> mc_max_entries c' = mc_max_entries c \<and>
    makes_room c key m \<and> cache_contents c' = m(key \<mapsto> (out, set reads, now))"
proof -
  let ?tick = "mc_clock c + 1"
  define c0 where "c0 = cache_remove key (c\<lparr>mc_clock := ?tick\<rparr>)"
  have wf: "cache_wf (c\<lparr>mc_clock := ?tick\<rparr>)"
    using assms by (auto simp: cache_ok_def cache_wf_def intro: le_SucI)
  have c0w: "cache_wf c0" unfolding c0_def by (rule cache_remove_wf [OF wf])
  have c0f: "mc_clock c0 = ?tick" "mc_ttl c0 = mc_ttl c" "mc_max_entries c0 = mc_max_entries c"
    by (simp_all add: c0_def)
  have c0l: "length (mc_entries c0) \<le> mc_max_entries c0" "0 < mc_max_entries c0"
    using cache_remove_length [of key "c\<lparr>mc_clock := ?tick\<rparr>"] assms by (simp_all add: c0_def cache_ok_def)
  have "cache_contents (c\<lparr>mc_clock := ?tick\<rparr>) = cache_contents c"
    by (simp add: fun_eq_iff cache_contents_def)
  then have c0c: "cache_contents c0 = (cache_contents c)(key := None)"
    unfolding c0_def by (simp only: cache_remove_contents)
  have "cache_contents c0 key = None" by (simp add: c0c)
  then have c0k: "map_of (mc_entries c0) key = None" by (simp add: cache_contents_def)
  note c0 = c0w c0l(2,1) c0f c0c c0k
  have old: "ce_last_used e < ?tick" if "map_of (mc_entries c0) k = Some e" for k e
  proof -
    have "map_of (mc_entries c) k = Some e"
      using cache_remove_entries [OF that [unfolded c0_def]] by simp
    then have "ce_last_used e \<le> mc_clock c" using assms unfolding cache_ok_def cache_wf_def by blast
    then show ?thesis by simp
  qed
  from evict_until_spec [OF c0(1-3)] obtain c1 where c1: "evict_until c0 = Some c1" "cache_wf c1"
    "length (mc_entries c1) < mc_max_entries c1" "mc_max_entries c1 = mc_max_entries c0" "mc_ttl c1 = mc_ttl c0"
    "mc_clock c1 = mc_clock c0"
    "if length (mc_entries c0) < mc_max_entries c0 then c1 = c0
     else \<exists>victim. least_recently_used c0 victim \<and> c1 = cache_remove victim c0" by blast
  define e where "e = \<lparr>ce_output = out, ce_reads = reads, ce_inserted = now, ce_last_used = ?tick\<rparr>"
  define c' where "c' = c1\<lparr>mc_by_resource := foldl (link key) (mc_by_resource c1) reads,
      mc_lru := bt_insert ?tick key (mc_lru c1), mc_entries := bt_insert key e (mc_entries c1)\<rparr>"
  have ins: "cache_insert now key out reads c = Some c'"
    using c1(1) by (simp add: cache_insert_def c0_def c'_def e_def)
  have sub: "map_of (mc_entries c0) k = Some e'" if "map_of (mc_entries c1) k = Some e'" for k e'
  proof (cases "length (mc_entries c0) < mc_max_entries c0")
    case True
    with c1(7) that show ?thesis by simp
  next
    case False
    with c1(7) obtain victim where v: "c1 = cache_remove victim c0" by auto
    show ?thesis by (rule cache_remove_entries [OF that [unfolded v]])
  qed
  have "map_of (mc_entries c1) key = None" using sub c0(8) by (cases "map_of (mc_entries c1) key") auto
  then have "cache_wf c'"
    unfolding c'_def using c1(2,6) c0(4) old sub by (intro add_entry_wf) (auto simp: e_def)
  moreover have "length (mc_entries c') \<le> mc_max_entries c'"
    using length_bt_insert [of key e "mc_entries c1"] c1(3) by (simp add: c'_def)
  ultimately have ok: "cache_ok c'" using c0(2) c1(4) by (simp add: cache_ok_def c'_def)
  have con: "cache_contents c' = (cache_contents c1)(key \<mapsto> (out, set reads, now))"
    by (auto simp: cache_contents_def c'_def e_def fun_eq_iff)
  have room: "\<exists>m. makes_room c key m \<and> (cache_contents c1)(key \<mapsto> x) = m(key \<mapsto> x)" for x
  proof (cases "length (mc_entries c0) < mc_max_entries c0")
    case True
    then have c1c: "cache_contents c1 = (cache_contents c)(key := None)" using c1(7) c0(7) by simp
    have "cache_contents c key \<noteq> None \<or> length (mc_entries c) < mc_max_entries c"
    proof (rule ccontr)
      assume n: "\<not> ?thesis"
      then have "c0 = c\<lparr>mc_clock := ?tick\<rparr>"
        unfolding c0_def by (intro cache_remove_absent) (simp add: cache_contents_def)
      with True n show False by simp
    qed
    then have "makes_room c key (cache_contents c)" by (simp add: makes_room_def)
    then show ?thesis using c1c by (intro exI [of _ "cache_contents c"]) auto
  next
    case False
    then obtain victim where v: "least_recently_used c0 victim" "c1 = cache_remove victim c0"
      using c1(7) by auto
    have abs: "map_of (mc_entries c) key = None"
    proof (rule ccontr)
      assume "map_of (mc_entries c) key \<noteq> None"
      then have "length (mc_entries c0) < length (mc_entries c)"
        using cache_remove_shorter [of "c\<lparr>mc_clock := ?tick\<rparr>" key] by (simp add: c0_def)
      with False assms c0(6) show False by (simp add: cache_ok_def)
    qed
    then have eq: "c0 = c\<lparr>mc_clock := ?tick\<rparr>" unfolding c0_def by (intro cache_remove_absent) simp
    with v(1) have "least_recently_used c victim" by (simp add: least_recently_used_def)
    moreover have "\<not> length (mc_entries c) < mc_max_entries c" using False eq by simp
    ultimately have "makes_room c key ((cache_contents c)(victim := None))"
      using abs by (auto simp: makes_room_def cache_contents_def)
    moreover have "cache_contents c1 = (cache_contents c)(victim := None, key := None)"
      using v(2) cache_remove_contents [of victim c0] c0(7) by (auto simp: fun_eq_iff)
    ultimately show ?thesis by (intro exI [of _ "(cache_contents c)(victim := None)"]) auto
  qed
  from room [of "(out, set reads, now)"] obtain m where
    "makes_room c key m" "cache_contents c' = m(key \<mapsto> (out, set reads, now))" using con by auto
  with ins ok c1(4,5) c0(5,6) show ?thesis by (auto simp: c'_def)
qed

subsection \<open>Invalidation\<close>

lemma remove_all:
  assumes "cache_ok c"
  shows "cache_ok (foldl (\<lambda>c key. cache_remove key c) c ks) \<and>
    mc_ttl (foldl (\<lambda>c key. cache_remove key c) c ks) = mc_ttl c \<and>
    mc_max_entries (foldl (\<lambda>c key. cache_remove key c) c ks) = mc_max_entries c \<and>
    cache_contents (foldl (\<lambda>c key. cache_remove key c) c ks) = cache_contents c |` (- set ks)"
  using assms
proof (induction ks arbitrary: c)
  case Nil
  then show ?case by simp
next
  case (Cons k ks)
  from Cons.IH [OF cache_remove_ok [OF Cons.prems], of k] show ?case
    by (auto simp: cache_remove_contents fun_eq_iff restrict_map_def)
qed

lemma cache_invalidate_spec:
  assumes "cache_ok c"
  shows "cache_ok (cache_invalidate_reads rs c) \<and>
    mc_ttl (cache_invalidate_reads rs c) = mc_ttl c \<and>
    mc_max_entries (cache_invalidate_reads rs c) = mc_max_entries c \<and>
    cache_contents (cache_invalidate_reads rs c) k = (case cache_contents c k of
        Some (v, reads, t) \<Rightarrow> if reads \<inter> set rs = {} then Some (v, reads, t) else None | None \<Rightarrow> None)"
proof -
  let ?ks = "concat (map (get_list (mc_by_resource c)) rs)"
  have "k \<in> set ?ks \<longleftrightarrow> (\<exists>e. map_of (mc_entries c) k = Some e \<and> set (ce_reads e) \<inter> set rs \<noteq> {})"
    using assms by (auto simp: cache_ok_def cache_wf_def links_ok_def)
  with remove_all [OF assms, of ?ks] show ?thesis
    by (auto simp: cache_invalidate_reads_def Let_def cache_contents_def restrict_map_def split: option.split)
qed

section \<open>The contract of the trait\<close>

text \<open>
  What \<^verbatim>\<open>ToolCache\<close> documents: a hit returns what was stored, every operation may lose
  entries, and no entry whose reads meet an invalidated resource survives. \<open>stored\<close> is the
  observable content. A client lemma compares the cache with an ideal store \<open>m\<close> that keeps
  everything until it is invalidated.
\<close>

locale tool_cache =
  fixes get :: "nat \<Rightarrow> 'k \<Rightarrow> 'c \<Rightarrow> 'v option \<times> 'c"
    and insert :: "nat \<Rightarrow> 'k \<Rightarrow> 'v \<Rightarrow> 'r list \<Rightarrow> 'c \<Rightarrow> 'c option"
    and invalidate_reads :: "'r list \<Rightarrow> 'c \<Rightarrow> 'c"
    and clear :: "'c \<Rightarrow> 'c"
    and inv :: "'c \<Rightarrow> bool"
    and stored :: "'c \<Rightarrow> 'k \<rightharpoonup> 'v \<times> 'r set"
  assumes get_inv: "inv c \<Longrightarrow> inv (snd (get now k c))"
    and get_stored: "inv c \<Longrightarrow> stored (snd (get now k c)) \<subseteq>\<^sub>m stored c"
    and get_hit: "inv c \<Longrightarrow> fst (get now k c) = Some v \<Longrightarrow> \<exists>reads. stored c k = Some (v, reads)"
    and insert_returns: "inv c \<Longrightarrow> \<exists>c'. insert now k v rs c = Some c' \<and> inv c' \<and>
      stored c' \<subseteq>\<^sub>m (stored c)(k \<mapsto> (v, set rs))"
    and invalidate_inv: "inv c \<Longrightarrow> inv (invalidate_reads rs c)"
    and invalidate_stored: "inv c \<Longrightarrow> stored (invalidate_reads rs c) \<subseteq>\<^sub>m stored c"
    and invalidate_drops: "inv c \<Longrightarrow> stored (invalidate_reads rs c) k = Some (v, reads) \<Longrightarrow> reads \<inter> set rs = {}"
    and clear_inv: "inv c \<Longrightarrow> inv (clear c)"
    and clear_stored: "inv c \<Longrightarrow> stored (clear c) = Map.empty"
begin

lemma hit_from_ideal:
  assumes "inv c" "stored c \<subseteq>\<^sub>m m" "fst (get now k c) = Some v"
  shows "map_option fst (m k) = Some v"
proof -
  from get_hit [OF assms(1,3)] obtain reads where "stored c k = Some (v, reads)" by blast
  with assms(2) have "m k = Some (v, reads)" by (metis domI map_le_def)
  then show ?thesis by simp
qed

lemma get_below: "inv c \<Longrightarrow> stored c \<subseteq>\<^sub>m m \<Longrightarrow> stored (snd (get now k c)) \<subseteq>\<^sub>m m"
  using get_stored map_le_trans by blast

lemma insert_below:
  assumes "inv c" "stored c \<subseteq>\<^sub>m m"
  shows "\<exists>c'. insert now k v reads c = Some c' \<and> inv c' \<and> stored c' \<subseteq>\<^sub>m m(k \<mapsto> (v, set reads))"
proof -
  have "(stored c)(k \<mapsto> (v, set reads)) \<subseteq>\<^sub>m m(k \<mapsto> (v, set reads))" by (rule map_le_upd [OF assms(2)])
  with insert_returns [OF assms(1), of now k v reads] show ?thesis using map_le_trans by blast
qed

lemma invalidate_below:
  assumes "inv c" "stored c \<subseteq>\<^sub>m m"
  shows "stored (invalidate_reads rs c) \<subseteq>\<^sub>m
    (\<lambda>k. case m k of Some (v, reads) \<Rightarrow> if reads \<inter> set rs = {} then Some (v, reads) else None | None \<Rightarrow> None)"
proof -
  have below: "stored (invalidate_reads rs c) \<subseteq>\<^sub>m m"
    using invalidate_stored [OF assms(1), of rs] assms(2) by (rule map_le_trans)
  have "m k = Some (v, reads) \<and> reads \<inter> set rs = {}"
    if "stored (invalidate_reads rs c) k = Some (v, reads)" for k v reads
    using invalidate_drops [OF assms(1) that] below that by (metis domI map_le_def)
  then show ?thesis by (force simp: map_le_def dom_def)
qed

end

abbreviation stored_reads :: "memory_cache \<Rightarrow> cache_key \<rightharpoonup> json \<times> string set" where
  "stored_reads c \<equiv> \<lambda>k. map_option (\<lambda>(v, reads, t). (v, reads)) (cache_contents c k)"

lemma makes_room_below: "makes_room c key m \<Longrightarrow> m \<subseteq>\<^sub>m cache_contents c"
  by (auto simp: makes_room_def map_le_def split: if_splits)

lemma map_option_below: "m \<subseteq>\<^sub>m m' \<Longrightarrow> (\<lambda>k. map_option f (m k)) \<subseteq>\<^sub>m (\<lambda>k. map_option f (m' k))"
  by (force simp: map_le_def dom_def)

interpretation memory: tool_cache cache_get cache_insert cache_invalidate_reads cache_clear cache_ok stored_reads
proof unfold_locales
  fix c now key assume c: "cache_ok c"
  obtain r c' where g: "cache_get now key c = (r, c')" by (cases "cache_get now key c")
  note spec = cache_get_spec [OF c g]
  show "cache_ok (snd (cache_get now key c))" using spec g by simp
  have "cache_contents c' \<subseteq>\<^sub>m cache_contents c" using spec by (auto simp: map_le_def)
  then show "stored_reads (snd (cache_get now key c)) \<subseteq>\<^sub>m stored_reads c" using g by (simp add: map_option_below)
  show "\<exists>reads. stored_reads c key = Some (v, reads)" if "fst (cache_get now key c) = Some v" for v
    using that g spec by (auto split: option.splits prod.splits if_splits)
next
  fix c now key v reads assume c: "cache_ok c"
  from cache_insert_spec [OF this, of now key v reads] obtain c' m where
    i: "cache_insert now key v reads c = Some c'" "cache_ok c'" "makes_room c key m"
      "cache_contents c' = m(key \<mapsto> (v, set reads, now))" by blast
  have "cache_contents c' \<subseteq>\<^sub>m (cache_contents c)(key \<mapsto> (v, set reads, now))"
    unfolding i(4) by (rule map_le_upd [OF makes_room_below [OF i(3)]])
  from map_option_below [OF this, of "\<lambda>(v, reads, t). (v, reads)"]
  have "stored_reads c' \<subseteq>\<^sub>m (stored_reads c)(key \<mapsto> (v, set reads))" by (simp add: fun_upd_def if_distrib cong: if_cong)
  with i(1,2) show "\<exists>c'. cache_insert now key v reads c = Some c' \<and> cache_ok c' \<and>
      stored_reads c' \<subseteq>\<^sub>m (stored_reads c)(key \<mapsto> (v, set reads))" by blast
next
  fix c rs assume c: "cache_ok c"
  note spec = cache_invalidate_spec [OF c, of rs]
  show "cache_ok (cache_invalidate_reads rs c)" using spec by blast
  show "stored_reads (cache_invalidate_reads rs c) \<subseteq>\<^sub>m stored_reads c"
    using spec by (auto simp: map_le_def split: option.splits prod.splits if_splits)
  show "reads \<inter> set rs = {}" if "stored_reads (cache_invalidate_reads rs c) k = Some (v, reads)" for k v reads
    using spec [of k] that by (auto split: option.splits prod.splits if_splits)
next
  fix c assume c: "cache_ok c"
  show "cache_ok (cache_clear c)" "stored_reads (cache_clear c) = Map.empty"
    using cache_clear_ok [OF c] by auto
qed

section \<open>Sequences of operations\<close>

datatype cache_op =
    OpGet nat cache_key
  | OpInsert nat cache_key json "string bset"
  | OpInvalidate "string bset"
  | OpClear

text \<open>The results of the lookups; \<open>None\<close> when an operation does not return.\<close>

fun cache_exec :: "cache_op list \<Rightarrow> memory_cache \<Rightarrow> (json option list \<times> memory_cache) option" where
  "cache_exec [] c = Some ([], c)"
| "cache_exec (OpGet now k # ops) c =
     (case cache_get now k c of (r, c') \<Rightarrow> map_option (\<lambda>(rs, d). (r # rs, d)) (cache_exec ops c'))"
| "cache_exec (OpInsert now k v reads # ops) c =
     (case cache_insert now k v reads c of None \<Rightarrow> None | Some c' \<Rightarrow> cache_exec ops c')"
| "cache_exec (OpInvalidate rs # ops) c = cache_exec ops (cache_invalidate_reads rs c)"
| "cache_exec (OpClear # ops) c = cache_exec ops (cache_clear c)"

text \<open>The ideal store: it forgets nothing but what is overwritten, invalidated or cleared.\<close>

fun ideal_exec :: "cache_op list \<Rightarrow> (cache_key \<rightharpoonup> json \<times> string set) \<Rightarrow> json option list" where
  "ideal_exec [] m = []"
| "ideal_exec (OpGet now k # ops) m = map_option fst (m k) # ideal_exec ops m"
| "ideal_exec (OpInsert now k v reads # ops) m = ideal_exec ops (m(k \<mapsto> (v, set reads)))"
| "ideal_exec (OpInvalidate rs # ops) m = ideal_exec ops
     (\<lambda>k. case m k of Some (v, reads) \<Rightarrow> if reads \<inter> set rs = {} then Some (v, reads) else None | None \<Rightarrow> None)"
| "ideal_exec (OpClear # ops) m = ideal_exec ops Map.empty"

definition miss_or_same :: "json option \<Rightarrow> json option \<Rightarrow> bool" where
  "miss_or_same r i \<longleftrightarrow> r = None \<or> r = i"

lemma cache_exec_below:
  assumes "cache_ok c" "stored_reads c \<subseteq>\<^sub>m m"
  shows "\<exists>rs c'. cache_exec ops c = Some (rs, c') \<and> cache_ok c' \<and> list_all2 miss_or_same rs (ideal_exec ops m)"
  using assms
proof (induction ops m arbitrary: c rule: ideal_exec.induct)
  case (2 now k ops m)
  obtain r c1 where g: "cache_get now k c = (r, c1)" by (cases "cache_get now k c")
  have "cache_ok c1" "stored_reads c1 \<subseteq>\<^sub>m m"
    using memory.get_inv [OF "2.prems"(1), of now k] memory.get_below [OF "2.prems", of now k] g by simp_all
  from "2.IH" [OF this] obtain rs c' where
    "cache_exec ops c1 = Some (rs, c')" "cache_ok c'" "list_all2 miss_or_same rs (ideal_exec ops m)" by blast
  moreover have "miss_or_same r (map_option fst (m k))"
    using memory.hit_from_ideal [OF "2.prems", of now k] g by (cases r) (auto simp: miss_or_same_def)
  ultimately show ?case using g by simp
next
  case (3 now k v reads ops m)
  from memory.insert_below [OF "3.prems", of now k v reads] obtain c1 where
    c1: "cache_insert now k v reads c = Some c1" "cache_ok c1" "stored_reads c1 \<subseteq>\<^sub>m m(k \<mapsto> (v, set reads))" by blast
  from "3.IH" [OF c1(2,3)] show ?case by (simp only: cache_exec.simps c1(1) option.case ideal_exec.simps)
next
  case (4 rs ops m)
  from "4.IH" [OF memory.invalidate_inv [OF "4.prems"(1)] memory.invalidate_below [OF "4.prems"]]
  show ?case by simp
next
  case (5 ops m)
  have "stored_reads (cache_clear c) \<subseteq>\<^sub>m Map.empty" using memory.clear_stored [OF "5.prems"(1)] by simp
  from "5.IH" [OF memory.clear_inv [OF "5.prems"(1)] this] show ?case by simp
qed simp

lemma cache_with_limits_ok: "cache_ok (cache_with_limits n ttl)" "cache_contents (cache_with_limits n ttl) = Map.empty"
  by (auto simp: cache_ok_def cache_wf_def cache_with_limits_def links_ok_def lru_ok_def cache_contents_def)

text \<open>
  C22. Whatever operations run on a new cache, all of them return, the indexes agree with the
  entries, the capacity holds, and every lookup misses or returns what an ideal store would:
  the last value inserted under the key and not invalidated or cleared since.
\<close>

theorem cache_refines_ideal_store:
  "\<exists>rs c. cache_exec ops (cache_with_limits n ttl) = Some (rs, c) \<and> cache_ok c \<and>
     list_all2 miss_or_same rs (ideal_exec ops Map.empty)"
  using cache_exec_below [OF cache_with_limits_ok(1), of n ttl Map.empty ops] by (simp add: cache_with_limits_ok)

text \<open>
  An insertion always returns: it replaces the entry of its key or adds one, and only a full
  cache without that key gives up an entry, one that has not been used for longest; a lookup
  before the entry expires then finds the value.
\<close>

theorem cache_insert_evicts_lru:
  assumes "cache_ok c"
  shows "\<exists>c' m. cache_insert now key out reads c = Some c' \<and> cache_ok c' \<and>
    makes_room c key m \<and> cache_contents c' = m(key \<mapsto> (out, set reads, now)) \<and>
    fst (cache_get now key c') = Some out"
proof -
  from cache_insert_spec [OF assms, of now key out reads] obtain c' m where
    c': "cache_insert now key out reads c = Some c'" "cache_ok c'" "makes_room c key m"
      "cache_contents c' = m(key \<mapsto> (out, set reads, now))" by blast
  obtain r c2 where g: "cache_get now key c' = (r, c2)" by (cases "cache_get now key c'")
  from cache_get_spec [OF c'(2) g] c'(4) have "r = Some out" by (simp add: expired_def split: option.split)
  with c' g show ?thesis by auto
qed

definition key_of :: "string \<Rightarrow> cache_key" where
  "key_of input = CacheKey ''fs'' ''read'' None input"

definition full_cache :: memory_cache where
  "full_cache = the (cache_insert 5 (key_of ''a'') (JStr ''A'') [''file:a''] (cache_with_limits 1 None))"

theorem cache_insert_evicts_lru_witness:
  "\<exists>c'. cache_insert 6 (key_of ''b'') (JStr ''B'') [''file:b''] full_cache = Some c' \<and>
     fst (cache_get 6 (key_of ''b'') c') = Some (JStr ''B'')"
proof -
  have "cache_ok full_cache"
    using cache_insert_spec [OF cache_with_limits_ok(1)] unfolding full_cache_def by (metis option.sel)
  from cache_insert_evicts_lru [OF this, of 6 "key_of ''b''" "JStr ''B''" "[''file:b'']"] show ?thesis by blast
qed

end
