(* ===== verification/Flight.thy ===== *)
theory Flight
  imports Cache "HOL-Library.Transitive_Closure_Table"
begin

text \<open>
  Single flight, the second half of \<^verbatim>\<open>crates/tool-compiler-runtime/src/policy.rs\<close>: callers
  of one cache key wait for each other on a lock that the table of calls in flight holds while
  somebody uses it. The two table updates are functions; the asynchronous lock and the callers
  that come, wait, leave and are cancelled form a step relation over them. The lemmas show
  mutual exclusion, that a waiting caller can always be served, and what the table retains.
\<close>

section \<open>The table\<close>

record flight_slot =
  slot_lock :: nat
  slot_guards :: nat

type_synonym flight_table = "cache_key \<rightharpoonup> flight_slot"

text \<open>The synchronous part of \<^verbatim>\<open>acquire\<close>; \<open>fresh\<close> is the identity of a new lock.\<close>

definition flight_enter :: "nat \<Rightarrow> cache_key \<Rightarrow> flight_table \<Rightarrow> nat \<times> flight_table" where
  "flight_enter fresh key m =
     (let slot = (case m key of Some s \<Rightarrow> s | None \<Rightarrow> \<lparr>slot_lock = fresh, slot_guards = 0\<rparr>);
          slot' = slot\<lparr>slot_guards := slot_guards slot + 1\<rparr>
      in (slot_lock slot', m(key \<mapsto> slot')))"

text \<open>\<^verbatim>\<open>drop\<close> of a guard.\<close>

definition flight_leave :: "cache_key \<Rightarrow> flight_table \<Rightarrow> flight_table" where
  "flight_leave key m = (case m key of
       None \<Rightarrow> m
     | Some s \<Rightarrow>
         if slot_guards s - 1 = 0 then m(key := None)
         else m(key \<mapsto> s\<lparr>slot_guards := slot_guards s - 1\<rparr>))"

section \<open>The callers\<close>

text \<open>
  A caller waits for the lock of its key, holds the guard, or has dropped the guard and is about
  to drop the permit inside it.
\<close>

datatype flight_phase = Waiting cache_key nat | Holding cache_key nat | Dropping cache_key nat

record flight_state =
  fl_table :: flight_table
  fl_owner :: "nat \<rightharpoonup> nat"
  fl_task :: "nat \<rightharpoonup> flight_phase"
  fl_next :: nat
  fl_cancelled :: "cache_key \<Rightarrow> nat"

definition flight_start :: flight_state where
  "flight_start = \<lparr>fl_table = Map.empty, fl_owner = Map.empty, fl_task = Map.empty, fl_next = 0,
     fl_cancelled = (\<lambda>_. 0)\<rparr>"

inductive flight_step :: "flight_state \<Rightarrow> flight_state \<Rightarrow> bool" where
  enter: "fl_task st t = None \<Longrightarrow> flight_enter (fl_next st) key (fl_table st) = (l, m) \<Longrightarrow>
    flight_step st (st\<lparr>fl_table := m, fl_task := (fl_task st)(t \<mapsto> Waiting key l), fl_next := Suc (fl_next st)\<rparr>)"
| grant: "fl_task st t = Some (Waiting key l) \<Longrightarrow> fl_owner st l = None \<Longrightarrow>
    flight_step st (st\<lparr>fl_owner := (fl_owner st)(l \<mapsto> t), fl_task := (fl_task st)(t \<mapsto> Holding key l)\<rparr>)"
| leave: "fl_task st t = Some (Holding key l) \<Longrightarrow>
    flight_step st (st\<lparr>fl_table := flight_leave key (fl_table st), fl_task := (fl_task st)(t \<mapsto> Dropping key l)\<rparr>)"
| unlock: "fl_task st t = Some (Dropping key l) \<Longrightarrow>
    flight_step st (st\<lparr>fl_owner := (fl_owner st)(l := None), fl_task := (fl_task st)(t := None)\<rparr>)"
| cancel: "fl_task st t = Some (Waiting key l) \<Longrightarrow>
    flight_step st (st\<lparr>fl_task := (fl_task st)(t := None),
      fl_cancelled := (fl_cancelled st)(key := Suc (fl_cancelled st key))\<rparr>)"

definition flight_reachable :: "flight_state \<Rightarrow> bool" where
  "flight_reachable st \<longleftrightarrow> flight_step\<^sup>*\<^sup>* flight_start st"

inductive_cases flight_stepE: "flight_step st st'"

section \<open>The invariant\<close>

definition in_flight :: "flight_state \<Rightarrow> cache_key \<Rightarrow> nat set" where
  "in_flight st key = {t. \<exists>l. fl_task st t = Some (Waiting key l) \<or> fl_task st t = Some (Holding key l)}"

definition flight_locks :: "flight_state \<Rightarrow> cache_key \<Rightarrow> nat set" where
  "flight_locks st key = {l. \<exists>t. fl_task st t = Some (Waiting key l) \<or> fl_task st t = Some (Holding key l)}"

definition owns :: "flight_state \<Rightarrow> nat \<Rightarrow> nat \<Rightarrow> bool" where
  "owns st t l \<longleftrightarrow> (\<exists>key. fl_task st t = Some (Holding key l) \<or> fl_task st t = Some (Dropping key l))"

definition flight_inv :: "flight_state \<Rightarrow> bool" where
  "flight_inv st \<longleftrightarrow> finite (dom (fl_task st)) \<and>
     (\<forall>l t. fl_owner st l = Some t \<longleftrightarrow> owns st t l) \<and>
     (\<forall>t l. owns st t l \<longrightarrow> l < fl_next st) \<and>
     (\<forall>key. case fl_table st key of
        Some s \<Rightarrow> slot_lock s < fl_next st \<and> 0 < slot_guards s \<and>
          slot_guards s = card (in_flight st key) + fl_cancelled st key \<and>
          flight_locks st key \<subseteq> {slot_lock s}
      | None \<Rightarrow> in_flight st key = {} \<and> fl_cancelled st key = 0)"

lemma in_flight_finite: "finite (dom (fl_task st)) \<Longrightarrow> finite (in_flight st key)"
  by (rule finite_subset [of _ "dom (fl_task st)"]) (auto simp: in_flight_def)

lemma flight_inv_start: "flight_inv flight_start"
  by (simp add: flight_inv_def flight_start_def in_flight_def owns_def)

definition slot_ok :: "flight_state \<Rightarrow> cache_key \<Rightarrow> bool" where
  "slot_ok st key \<longleftrightarrow> (case fl_table st key of
     Some s \<Rightarrow> slot_lock s < fl_next st \<and> 0 < slot_guards s \<and>
       slot_guards s = card (in_flight st key) + fl_cancelled st key \<and>
       flight_locks st key \<subseteq> {slot_lock s}
   | None \<Rightarrow> in_flight st key = {} \<and> fl_cancelled st key = 0)"

lemma flight_inv_iff: "flight_inv st \<longleftrightarrow> finite (dom (fl_task st)) \<and>
    (\<forall>l t. fl_owner st l = Some t \<longleftrightarrow> owns st t l) \<and> (\<forall>t l. owns st t l \<longrightarrow> l < fl_next st) \<and>
    (\<forall>key. slot_ok st key)"
  by (simp add: flight_inv_def slot_ok_def)

lemma slot_ok_other:
  assumes "slot_ok st key" "fl_table st' key = fl_table st key" "fl_next st \<le> fl_next st'"
    and "fl_cancelled st' key = fl_cancelled st key"
    and "\<And>t l. fl_task st' t = Some (Waiting key l) \<longleftrightarrow> fl_task st t = Some (Waiting key l)"
    and "\<And>t l. fl_task st' t = Some (Holding key l) \<longleftrightarrow> fl_task st t = Some (Holding key l)"
  shows "slot_ok st' key"
proof -
  have "in_flight st' key = in_flight st key" "flight_locks st' key = flight_locks st key"
    by (simp_all add: in_flight_def flight_locks_def assms(5,6))
  with assms show ?thesis by (auto simp: slot_ok_def split: option.splits)
qed

lemma in_flight_lock: "slot_ok st key \<Longrightarrow> fl_task st t = Some (Waiting key l) \<or> fl_task st t = Some (Holding key l) \<Longrightarrow>
    \<exists>s. fl_table st key = Some s \<and> l = slot_lock s \<and> 0 < slot_guards s \<and>
      slot_guards s = card (in_flight st key) + fl_cancelled st key \<and> slot_lock s < fl_next st"
  by (auto simp: slot_ok_def in_flight_def flight_locks_def split: option.splits)

lemma in_flight_none: "in_flight st key = {} \<Longrightarrow> flight_locks st key = {}"
  by (auto simp: in_flight_def flight_locks_def)

lemma split_slot: "slot_ok st key \<Longrightarrow> (\<And>k. k \<noteq> key \<Longrightarrow> slot_ok st k) \<Longrightarrow> \<forall>k. slot_ok st k"
  by metis

lemma owner_iff: "flight_inv st \<Longrightarrow> fl_owner st l = Some t \<longleftrightarrow> owns st t l"
  by (simp add: flight_inv_iff)

lemma inv_enter:
  assumes "flight_inv st" "fl_task st t = None" "flight_enter (fl_next st) key (fl_table st) = (l, m)"
  shows "flight_inv (st\<lparr>fl_table := m, fl_task := (fl_task st)(t \<mapsto> Waiting key l), fl_next := Suc (fl_next st)\<rparr>)"
    (is "flight_inv ?st")
proof -
  have fin: "finite (dom (fl_task st))" and ok: "\<And>k. slot_ok st k" using assms(1) by (simp_all add: flight_inv_iff)
  have own: "owns ?st t' l' \<longleftrightarrow> owns st t' l'" for t' l' using assms(2) by (auto simp: owns_def)
  have inf: "in_flight ?st key = insert t (in_flight st key)" "t \<notin> in_flight st key"
    using assms(2) by (auto simp: in_flight_def)
  have card: "card (in_flight ?st key) = card (in_flight st key) + 1"
    using inf in_flight_finite [OF fin, of key] by simp
  have locks: "flight_locks ?st key \<subseteq> insert l (flight_locks st key)"
    using assms(2) by (auto simp: flight_locks_def)
  have "slot_ok ?st key"
  proof (cases "fl_table st key")
    case None
    with ok [of key] have "in_flight st key = {}" "fl_cancelled st key = 0" by (simp_all add: slot_ok_def)
    with assms(3) None card locks in_flight_none [of st key] show ?thesis
      by (auto simp: slot_ok_def flight_enter_def Let_def)
  next
    case (Some s)
    let ?s = "s\<lparr>slot_guards := slot_guards s + 1\<rparr>"
    have l: "l = slot_lock s" and m: "m = (fl_table st)(key \<mapsto> ?s)"
      using assms(3) Some by (simp_all add: flight_enter_def Let_def)
    have o: "slot_lock s < fl_next st" "slot_guards s = card (in_flight st key) + fl_cancelled st key"
      "flight_locks st key \<subseteq> {slot_lock s}" using ok [of key] Some unfolding slot_ok_def by simp_all
    have "slot_guards ?s = card (in_flight ?st key) + fl_cancelled ?st key" using o(2) card by simp
    moreover have "flight_locks ?st key \<subseteq> {slot_lock ?s}" using o(3) locks l by auto
    ultimately show ?thesis using o(1) m by (simp add: slot_ok_def)
  qed
  moreover have "slot_ok ?st k" if "k \<noteq> key" for k
    using assms(2,3) that by (intro slot_ok_other [OF ok]) (auto simp: flight_enter_def Let_def)
  ultimately have "\<forall>k. slot_ok ?st k" by (rule split_slot)
  then show ?thesis using assms(1) by (auto simp: flight_inv_iff own less_SucI)
qed

lemma inv_grant:
  assumes "flight_inv st" "fl_task st t = Some (Waiting key l)" "fl_owner st l = None"
  shows "flight_inv (st\<lparr>fl_owner := (fl_owner st)(l \<mapsto> t), fl_task := (fl_task st)(t \<mapsto> Holding key l)\<rparr>)"
    (is "flight_inv ?st")
proof -
  have ok: "\<And>k. slot_ok st k" using assms(1) by (simp add: flight_inv_iff)
  have own: "owns ?st t' l' \<longleftrightarrow> owns st t' l' \<or> (t' = t \<and> l' = l)" for t' l' using assms(2) by (auto simp: owns_def)
  have free: "\<not> owns st t' l" for t' using owner_iff [OF assms(1), of l t'] assms(3) by simp
  have none: "\<not> owns st t l'" for l' using assms(2) by (auto simp: owns_def)
  have lt: "l < fl_next st" using in_flight_lock [OF ok, of t key l] assms(2) by auto
  have "in_flight ?st key = in_flight st key" using assms(2) by (auto simp: in_flight_def)
  moreover have "flight_locks ?st key \<subseteq> flight_locks st key" using assms(2) by (auto simp: flight_locks_def)
  ultimately have "slot_ok ?st key" using ok [of key] by (auto simp: slot_ok_def split: option.splits)
  moreover have "slot_ok ?st k" if "k \<noteq> key" for k
    using assms(2) that by (intro slot_ok_other [OF ok]) auto
  ultimately have "\<forall>k. slot_ok ?st k" by (rule split_slot)
  then show ?thesis using assms(1) lt free none by (auto simp: flight_inv_iff own)
qed

lemma inv_leave:
  assumes "flight_inv st" "fl_task st t = Some (Holding key l)"
  shows "flight_inv (st\<lparr>fl_table := flight_leave key (fl_table st), fl_task := (fl_task st)(t \<mapsto> Dropping key l)\<rparr>)"
    (is "flight_inv ?st")
proof -
  have fin: "finite (dom (fl_task st))" and ok: "\<And>k. slot_ok st k" using assms(1) by (simp_all add: flight_inv_iff)
  have own: "owns ?st t' l' \<longleftrightarrow> owns st t' l'" for t' l' using assms(2) by (auto simp: owns_def)
  from in_flight_lock [OF ok] assms(2) obtain s where
    s: "fl_table st key = Some s" "slot_guards s = card (in_flight st key) + fl_cancelled st key" by blast
  have inf: "in_flight ?st key = in_flight st key - {t}" "t \<in> in_flight st key"
    using assms(2) by (auto simp: in_flight_def)
  then have card: "card (in_flight st key) = Suc (card (in_flight ?st key))"
    using in_flight_finite [OF fin, of key] by (simp only: card_Suc_Diff1)
  have fin': "finite (in_flight ?st key)" using in_flight_finite [OF fin, of key] inf(1) by simp
  have locks: "flight_locks ?st key \<subseteq> {slot_lock s}"
    using ok [of key] s(1) assms(2) by (auto simp: slot_ok_def flight_locks_def)
  have slot: "slot_lock s < fl_next st" using ok [of key] s(1) by (simp add: slot_ok_def)
  have "slot_ok ?st key"
  proof (cases "slot_guards s - 1 = 0")
    case True
    then have "in_flight ?st key = {}" "fl_cancelled st key = 0" using s(2) card fin' by auto
    with True s show ?thesis by (simp add: slot_ok_def flight_leave_def)
  next
    case False
    then have "fl_table ?st key = Some (s\<lparr>slot_guards := slot_guards s - 1\<rparr>)"
      using s(1) by (simp add: flight_leave_def)
    moreover have "slot_guards s - 1 = card (in_flight ?st key) + fl_cancelled ?st key" using s(2) card by simp
    ultimately show ?thesis using False locks slot by (simp add: slot_ok_def)
  qed
  moreover have "slot_ok ?st k" if "k \<noteq> key" for k
    using assms(2) that by (intro slot_ok_other [OF ok]) (auto simp: flight_leave_def split: option.split)
  ultimately have "\<forall>k. slot_ok ?st k" by (rule split_slot)
  then show ?thesis using assms(1) by (auto simp: flight_inv_iff own)
qed

lemma inv_unlock:
  assumes "flight_inv st" "fl_task st t = Some (Dropping key l)"
  shows "flight_inv (st\<lparr>fl_owner := (fl_owner st)(l := None), fl_task := (fl_task st)(t := None)\<rparr>)"
    (is "flight_inv ?st")
proof -
  have ok: "\<And>k. slot_ok st k" using assms(1) by (simp add: flight_inv_iff)
  have own: "owns ?st t' l' \<longleftrightarrow> owns st t' l' \<and> t' \<noteq> t" for t' l' by (auto simp: owns_def)
  have mine: "owns st t l' \<longleftrightarrow> l' = l" for l' using assms(2) by (auto simp: owns_def)
  have "slot_ok ?st k" for k using assms(2) by (intro slot_ok_other [OF ok]) auto
  moreover have o: "fl_owner st l = Some t" using owner_iff [OF assms(1), of l t] mine by simp
  moreover have "\<not> owns st t' l" if "t' \<noteq> t" for t' using owner_iff [OF assms(1), of l t'] o that by simp
  ultimately show ?thesis using assms(1) mine by (auto simp: flight_inv_iff own)
qed

lemma inv_cancel:
  assumes "flight_inv st" "fl_task st t = Some (Waiting key l)"
  shows "flight_inv (st\<lparr>fl_task := (fl_task st)(t := None),
      fl_cancelled := (fl_cancelled st)(key := Suc (fl_cancelled st key))\<rparr>)" (is "flight_inv ?st")
proof -
  have fin: "finite (dom (fl_task st))" and ok: "\<And>k. slot_ok st k" using assms(1) by (simp_all add: flight_inv_iff)
  have own: "owns ?st t' l' \<longleftrightarrow> owns st t' l'" for t' l' using assms(2) by (auto simp: owns_def)
  from in_flight_lock [OF ok] assms(2) obtain s where
    s: "fl_table st key = Some s" "slot_guards s = card (in_flight st key) + fl_cancelled st key" by blast
  have inf: "in_flight ?st key = in_flight st key - {t}" "t \<in> in_flight st key"
    using assms(2) by (auto simp: in_flight_def)
  then have "card (in_flight st key) = Suc (card (in_flight ?st key))"
    using in_flight_finite [OF fin, of key] by (simp only: card_Suc_Diff1)
  then have "slot_guards s = card (in_flight ?st key) + fl_cancelled ?st key" using s(2) by simp
  moreover have "flight_locks ?st key \<subseteq> flight_locks st key" by (auto simp: flight_locks_def)
  ultimately have "slot_ok ?st key" using s(1) ok [of key] by (auto simp: slot_ok_def)
  moreover have "slot_ok ?st k" if "k \<noteq> key" for k
    using assms(2) that by (intro slot_ok_other [OF ok]) auto
  ultimately have "\<forall>k. slot_ok ?st k" by (rule split_slot)
  then show ?thesis using assms(1) by (auto simp: flight_inv_iff own)
qed

lemma flight_inv_step: "flight_step st st' \<Longrightarrow> flight_inv st \<Longrightarrow> flight_inv st'"
  by (induction rule: flight_step.induct) (rule inv_enter inv_grant inv_leave inv_unlock inv_cancel; assumption)+

lemma flight_inv_reachable: "flight_reachable st \<Longrightarrow> flight_inv st"
  unfolding flight_reachable_def
  by (induction rule: rtranclp_induct) (simp_all add: flight_inv_start flight_inv_step)

text \<open>
  C32. Two callers never hold the guard of one key at the same time, and the slot of a key exists
  exactly while a caller waits for it or holds it, or after a waiting caller was cancelled.
\<close>

theorem single_flight_exclusive:
  assumes "flight_reachable st"
  shows "(fl_task st t = Some (Holding key l) \<and> fl_task st t' = Some (Holding key l') \<longrightarrow> t = t') \<and>
    (fl_table st key \<noteq> None \<longleftrightarrow> in_flight st key \<noteq> {} \<or> fl_cancelled st key > 0)"
proof -
  have inv: "flight_inv st" by (rule flight_inv_reachable [OF assms])
  then have ok: "slot_ok st key" and own: "\<And>l t. fl_owner st l = Some t \<longleftrightarrow> owns st t l"
    and fin: "finite (dom (fl_task st))" by (simp_all add: flight_inv_iff)
  have "t = t'" if h: "fl_task st t = Some (Holding key l)" "fl_task st t' = Some (Holding key l')"
  proof -
    have "l = l'" using in_flight_lock [OF ok, of t l] in_flight_lock [OF ok, of t' l'] h by auto
    then have "fl_owner st l = Some t" "fl_owner st l = Some t'" using own h by (auto simp: owns_def)
    then show ?thesis by simp
  qed
  moreover have "fl_table st key \<noteq> None \<longleftrightarrow> in_flight st key \<noteq> {} \<or> fl_cancelled st key > 0"
  proof (cases "fl_table st key")
    case None
    with ok show ?thesis by (simp add: slot_ok_def)
  next
    case (Some s)
    note o = ok [unfolded slot_ok_def Some option.case]
    have "0 < slot_guards s" by (rule o [THEN conjunct2, THEN conjunct1])
    also have "slot_guards s = card (in_flight st key) + fl_cancelled st key"
      by (rule o [THEN conjunct2, THEN conjunct2, THEN conjunct1])
    finally have "0 < card (in_flight st key) + fl_cancelled st key" .
    with Some show ?thesis by (auto simp: card_gt_0_iff)
  qed
  ultimately show ?thesis by blast
qed

lemma reach_step: "flight_step st st' \<Longrightarrow> flight_step\<^sup>*\<^sup>* st' st'' \<Longrightarrow> flight_step\<^sup>*\<^sup>* st st''"
  by (rule converse_rtranclp_into_rtranclp)

text \<open>
  A waiting caller is never stuck: the caller that owns its lock, if any, can leave, and then
  the waiting caller can be granted the guard.
\<close>

theorem waiting_caller_can_proceed:
  assumes "flight_reachable st" "fl_task st t = Some (Waiting key l)"
  shows "\<exists>st'. flight_step\<^sup>*\<^sup>* st st' \<and> fl_task st' t = Some (Holding key l)"
proof -
  have inv: "flight_inv st" by (rule flight_inv_reachable [OF assms(1)])
  have granted: "\<exists>st'. flight_step\<^sup>*\<^sup>* s st' \<and> fl_task st' t = Some (Holding key l)"
    if "fl_task s t = Some (Waiting key l)" "fl_owner s l = None" for s
  proof -
    have "flight_step\<^sup>*\<^sup>* s (s\<lparr>fl_owner := (fl_owner s)(l \<mapsto> t), fl_task := (fl_task s)(t \<mapsto> Holding key l)\<rparr>)"
      using flight_step.grant [OF that] by blast
    then show ?thesis by force
  qed
  have dropped: "\<exists>st'. flight_step\<^sup>*\<^sup>* s st' \<and> fl_task st' t = Some (Holding key l)"
    if "fl_task s t = Some (Waiting key l)" "fl_task s t' = Some (Dropping key' l)" for s t' key'
  proof -
    let ?s = "s\<lparr>fl_owner := (fl_owner s)(l := None), fl_task := (fl_task s)(t' := None)\<rparr>"
    have "fl_task ?s t = Some (Waiting key l)" "fl_owner ?s l = None" using that by auto
    from granted [OF this] reach_step [OF flight_step.unlock [OF that(2)]] show ?thesis by blast
  qed
  show ?thesis
  proof (cases "fl_owner st l")
    case None
    show ?thesis by (rule granted [OF assms(2) None])
  next
    case (Some t')
    with inv obtain key' where "fl_task st t' = Some (Holding key' l) \<or> fl_task st t' = Some (Dropping key' l)"
      by (auto simp: flight_inv_iff owns_def)
    then consider (holding) "fl_task st t' = Some (Holding key' l)" | (dropping) "fl_task st t' = Some (Dropping key' l)"
      by blast
    then show ?thesis
    proof cases
      case holding
      let ?s = "st\<lparr>fl_table := flight_leave key' (fl_table st), fl_task := (fl_task st)(t' \<mapsto> Dropping key' l)\<rparr>"
      have "fl_task ?s t = Some (Waiting key l)" "fl_task ?s t' = Some (Dropping key' l)"
        using assms(2) holding by auto
      from dropped [OF this] reach_step [OF flight_step.leave [OF holding]] show ?thesis by blast
    next
      case dropping
      show ?thesis by (rule dropped [OF assms(2) dropping])
    qed
  qed
qed

section \<open>A concrete run\<close>

definition example_key :: cache_key where
  "example_key = CacheKey ''fs'' ''read'' None ''{}''"

text \<open>Two callers of one key; the first holds the guard and the second waits, then gives up.\<close>

definition two_callers :: flight_state where
  "two_callers = \<lparr>fl_table = [example_key \<mapsto> \<lparr>slot_lock = 0, slot_guards = 2\<rparr>], fl_owner = [0 \<mapsto> 1],
     fl_task = [1 \<mapsto> Holding example_key 0, 2 \<mapsto> Waiting example_key 0], fl_next = 2,
     fl_cancelled = (\<lambda>_. 0)\<rparr>"

definition after_cancel :: flight_state where
  "after_cancel = \<lparr>fl_table = [example_key \<mapsto> \<lparr>slot_lock = 0, slot_guards = 1\<rparr>], fl_owner = Map.empty,
     fl_task = Map.empty, fl_next = 2, fl_cancelled = (\<lambda>_. 0)(example_key := 1)\<rparr>"

lemma two_callers_reachable: "flight_reachable two_callers"
proof -
  let ?s1 = "flight_start\<lparr>fl_table := [example_key \<mapsto> \<lparr>slot_lock = 0, slot_guards = 1\<rparr>],
    fl_task := (fl_task flight_start)(1 \<mapsto> Waiting example_key 0), fl_next := Suc (fl_next flight_start)\<rparr>"
  have 1: "flight_step flight_start ?s1"
    by (rule flight_step.enter [where key = example_key]) (simp_all add: flight_start_def flight_enter_def)
  let ?s2 = "?s1\<lparr>fl_owner := (fl_owner ?s1)(0 \<mapsto> 1), fl_task := (fl_task ?s1)(1 \<mapsto> Holding example_key 0)\<rparr>"
  have 2: "flight_step ?s1 ?s2"
    by (rule flight_step.grant) (simp_all add: flight_start_def)
  let ?s3 = "?s2\<lparr>fl_table := [example_key \<mapsto> \<lparr>slot_lock = 0, slot_guards = 2\<rparr>],
    fl_task := (fl_task ?s2)(2 \<mapsto> Waiting example_key 0), fl_next := Suc (fl_next ?s2)\<rparr>"
  have 3: "flight_step ?s2 ?s3"
    by (rule flight_step.enter [where key = example_key]) (simp_all add: flight_start_def flight_enter_def numeral_2_eq_2)
  have "?s3 = two_callers"
    by (simp add: two_callers_def flight_start_def fun_upd_twist numeral_2_eq_2)
  moreover have "flight_step\<^sup>*\<^sup>* flight_start ?s3"
    by (rule reach_step [OF 1 reach_step [OF 2 reach_step [OF 3 rtranclp.rtrancl_refl]]])
  ultimately show ?thesis by (simp only: flight_reachable_def)
qed

lemma after_cancel_reachable: "flight_reachable after_cancel"
proof -
  let ?t0 = two_callers
  let ?t1 = "?t0\<lparr>fl_task := (fl_task ?t0)(2 := None),
      fl_cancelled := (fl_cancelled ?t0)(example_key := Suc (fl_cancelled ?t0 example_key))\<rparr>"
  have 1: "flight_step ?t0 ?t1"
    by (rule flight_step.cancel [where l = 0]) (simp add: two_callers_def)
  let ?t2 = "?t1\<lparr>fl_table := flight_leave example_key (fl_table ?t1), fl_task := (fl_task ?t1)(1 \<mapsto> Dropping example_key 0)\<rparr>"
  have 2: "flight_step ?t1 ?t2"
    by (rule flight_step.leave) (simp add: two_callers_def)
  let ?t3 = "?t2\<lparr>fl_owner := (fl_owner ?t2)(0 := None), fl_task := (fl_task ?t2)(1 := None)\<rparr>"
  have 3: "flight_step ?t2 ?t3"
    by (rule flight_step.unlock [where key = example_key]) (simp add: two_callers_def)
  have "?t3 = after_cancel"
    by (simp add: two_callers_def after_cancel_def flight_leave_def fun_eq_iff numeral_2_eq_2)
  moreover have "flight_step\<^sup>*\<^sup>* ?t0 ?t3"
    by (rule reach_step [OF 1 reach_step [OF 2 reach_step [OF 3 rtranclp.rtrancl_refl]]])
  ultimately show ?thesis
    using two_callers_reachable rtranclp_trans [of flight_step flight_start two_callers after_cancel]
    by (simp only: flight_reachable_def)
qed

text \<open>After a cancelled wait the table keeps a slot that no caller uses.\<close>

theorem single_flight_exclusive_witness:
  "fl_table after_cancel example_key \<noteq> None \<and> in_flight after_cancel example_key = {}"
proof -
  have "0 < fl_cancelled after_cancel example_key" "in_flight after_cancel example_key = {}"
    by (simp_all add: after_cancel_def in_flight_def)
  with single_flight_exclusive [OF after_cancel_reachable, of 0 example_key 0 0 0] show ?thesis by blast
qed

theorem waiting_caller_can_proceed_witness:
  "\<exists>st. flight_step\<^sup>*\<^sup>* two_callers st \<and> fl_task st 2 = Some (Holding example_key 0)"
  by (rule waiting_caller_can_proceed [OF two_callers_reachable]) (simp add: two_callers_def)

end
