(* ===== verification/RuntimeRefs.thy ===== *)
theory RuntimeRefs
  imports Graph
begin

text \<open>
  Run-time references, \<^verbatim>\<open>crates/tool-compiler-runtime/src/refs.rs\<close>, and the errors of
  \<^verbatim>\<open>lib.rs\<close>: resolving the references of an input against the recorded outputs, and
  filling a fan-out template with an item. The lemmas connect resolution with the references
  that \<^verbatim>\<open>collect_refs\<close> sees when the plan is validated.
\<close>

section \<open>Errors\<close>

datatype runtime_error =
    GraphFailure graph_error
  | MissingAdapter string
  | InvalidInputSchema string string
  | MissingNodeOutput node_id
  | MissingPath value_ref string
  | InvalidRef string

definition quoted :: "string \<Rightarrow> string" where
  "quoted s = [CHR 0x27] @ s @ [CHR 0x27]"

definition graph_error_to_string :: "graph_error \<Rightarrow> string" where
  "graph_error_to_string e = (case e of
      UnsupportedVersion v \<Rightarrow> ''unsupported plan version '' @ quoted v
    | DuplicateNode i \<Rightarrow> ''duplicate node id '' @ quoted i
    | InvalidNodeId m \<Rightarrow> ''invalid node id: '' @ m
    | UnknownTool i t \<Rightarrow> ''node '' @ quoted i @ '' uses unknown tool '' @ quoted t
    | UnknownDependency i d \<Rightarrow> ''node '' @ quoted i @ '' depends on unknown node '' @ quoted d
    | SelfReference i \<Rightarrow> ''node '' @ quoted i @ '' references itself''
    | UnknownOutputReference out i \<Rightarrow> ''output '' @ quoted out @ '' references unknown node '' @ quoted i
    | InvalidNodeReference i m \<Rightarrow> ''invalid reference in node '' @ quoted i @ '': '' @ m
    | InvalidEffects t m \<Rightarrow> ''tool '' @ quoted t @ '' declares contradictory effects: '' @ m
    | Cycle i \<Rightarrow> ''cycle detected involving node '' @ quoted i
    | GraphPanic \<Rightarrow> [])"

definition runtime_error_to_string :: "runtime_error \<Rightarrow> string" where
  "runtime_error_to_string e = (case e of
      GraphFailure g \<Rightarrow> graph_error_to_string g
    | MissingAdapter a \<Rightarrow> ''no executor registered for adapter '' @ quoted a
    | InvalidInputSchema t m \<Rightarrow> ''input schema for tool '' @ quoted t @ '' is invalid: '' @ m
    | MissingNodeOutput i \<Rightarrow> ''node '' @ quoted i @ '' has no output yet''
    | MissingPath r seg \<Rightarrow>
        ''reference '' @ quoted (value_ref_to_string r) @ '' missing path segment '' @ quoted seg
    | InvalidRef m \<Rightarrow> ''invalid reference: '' @ m)"

section \<open>Resolving references\<close>

definition step_into :: "json \<Rightarrow> string \<Rightarrow> json option" where
  "step_into current segment = (case current of
       JObj kvs \<Rightarrow> map_of kvs segment
     | JArr items \<Rightarrow>
         (case parse_usize segment of
            None \<Rightarrow> None
          | Some i \<Rightarrow> if i < length items then Some (items ! i) else None)
     | _ \<Rightarrow> None)"

fun walk_path :: "value_ref \<Rightarrow> string list \<Rightarrow> json \<Rightarrow> (runtime_error, json) result" where
  "walk_path r [] current = Inr current"
| "walk_path r (segment # path) current =
     res_bind (ok_or (MissingPath r segment) (step_into current segment)) (walk_path r path)"

definition resolve_value_ref :: "value_ref \<Rightarrow> (node_id, json) btree \<Rightarrow> (runtime_error, json) result" where
  "resolve_value_ref r node_outputs =
     res_bind (ok_or (MissingNodeOutput (ref_node r)) (map_of node_outputs (ref_node r)))
       (walk_path r (ref_path r))"

fun resolve_input :: "json \<Rightarrow> (node_id, json) btree \<Rightarrow> (runtime_error, json) result" where
  "resolve_input (JObj kvs) node_outputs =
     (case singleton_obj kvs LITERAL_KEY of
        Some literal \<Rightarrow> Inr literal
      | None \<Rightarrow>
          (case singleton_obj kvs REF_KEY of
             Some (JStr raw_ref) \<Rightarrow>
               res_bind (map_err (\<lambda>e. InvalidRef (ref_parse_error_to_string e)) (parse_value_ref raw_ref))
                 (\<lambda>r. resolve_value_ref r node_outputs)
           | _ \<Rightarrow>
               res_bind (res_map (\<lambda>kv. res_bind (resolve_input (snd kv) node_outputs)
                                          (\<lambda>v. Inr (fst kv, v))) kvs)
                 (\<lambda>resolved. Inr (JObj resolved))))"
| "resolve_input (JArr items) node_outputs =
     res_bind (res_map (\<lambda>item. resolve_input item node_outputs) items) (\<lambda>vs. Inr (JArr vs))"
| "resolve_input v node_outputs = Inr v"

section \<open>Fan-out items\<close>

fun walk_item :: "string list \<Rightarrow> json \<Rightarrow> json option" where
  "walk_item [] current = Some current"
| "walk_item (segment # path) current =
     (case step_into current segment of None \<Rightarrow> None | Some v \<Rightarrow> walk_item path v)"

definition item_at_path :: "json \<Rightarrow> string \<Rightarrow> json option" where
  "item_at_path item path =
     (if path = [] then Some item else walk_item (split_on CHR ''.'' path) item)"

fun substitute_item :: "json \<Rightarrow> json \<Rightarrow> (runtime_error, json) result" where
  "substitute_item (JObj kvs) item =
     (case singleton_obj kvs ITEM_KEY of
        Some (JStr path) \<Rightarrow>
          ok_or (InvalidRef (''fan-out item has no path '' @ quoted path)) (item_at_path item path)
      | Some marker \<Rightarrow>
          Inl (InvalidRef (quoted ''$item'' @ '' path must be a string, found '' @ json_to_string marker))
      | None \<Rightarrow>
          if singleton_obj kvs LITERAL_KEY \<noteq> None then Inr (JObj kvs)
          else res_bind (res_map (\<lambda>kv. res_bind (substitute_item (snd kv) item)
                                          (\<lambda>v. Inr (fst kv, v))) kvs)
                 (\<lambda>resolved. Inr (JObj resolved)))"
| "substitute_item (JArr items) item =
     res_bind (res_map (\<lambda>v. substitute_item v item) items) (\<lambda>vs. Inr (JArr vs))"
| "substitute_item v item = Inr v"

section \<open>Resolution and the collected references\<close>

definition refs_of :: "json \<Rightarrow> value_ref set" where
  "refs_of v = (case collect_refs v of Inr refs \<Rightarrow> set refs | Inl e \<Rightarrow> {})"

lemma collected_union:
  assumes "res_map g xs = Inr rss"
  shows "set (concat rss) = (\<Union>x \<in> set xs. case g x of Inr refs \<Rightarrow> set refs | Inl e \<Rightarrow> {})"
    and "x \<in> set xs \<Longrightarrow> \<exists>refs. g x = Inr refs"
proof -
  show "set (concat rss) = (\<Union>x \<in> set xs. case g x of Inr refs \<Rightarrow> set refs | Inl e \<Rightarrow> {})"
    using assms
  proof (induction xs arbitrary: rss)
    case (Cons a xs)
    then obtain ra rx where r: "g a = Inr ra" "res_map g xs = Inr rx" "rss = ra # rx" by auto
    from Cons.IH [OF r(2)] r show ?case by simp
  qed simp
  show "x \<in> set xs \<Longrightarrow> \<exists>refs. g x = Inr refs" using assms by (induction xs arbitrary: rss) auto
qed

text \<open>The three ways validation accepts an object.\<close>

lemma collect_refs_obj_cases:
  assumes "collect_refs (JObj kvs) = Inr refs"
  obtains (literal) w where "singleton_obj kvs LITERAL_KEY = Some w" "refs = []"
  | (ref) s r where "kvs = [(REF_KEY, JStr s)]" "singleton_obj kvs LITERAL_KEY = None"
      "parse_value_ref s = Inr r" "refs = [r]"
  | (members) "singleton_obj kvs LITERAL_KEY = None" "singleton_obj kvs REF_KEY = None"
      "set refs = (\<Union>kv \<in> set kvs. refs_of (snd kv))" "\<forall>kv \<in> set kvs. \<exists>rs. collect_refs (snd kv) = Inr rs"
proof (cases "singleton_obj kvs LITERAL_KEY")
  case (Some w)
  with assms literal show ?thesis by simp
next
  case lit: None
  show ?thesis
  proof (cases "map_of kvs REF_KEY")
    case None
    with assms lit obtain rss where rss: "res_map (\<lambda>kv. collect_refs (snd kv)) kvs = Inr rss" "refs = concat rss"
      by auto
    have "singleton_obj kvs REF_KEY = None" using None by (auto simp: singleton_obj_def)
    with lit rss collected_union [OF rss(1)] members show ?thesis by (simp add: refs_of_def)
  next
    case (Some raw)
    with assms lit have len: "\<not> length kvs > 1" by (auto split: if_splits)
    from Some obtain kv kvs' where "kvs = kv # kvs'" by (cases kvs) auto
    with len Some have kvs: "kvs = [(REF_KEY, raw)]" by (cases kv) (auto split: if_splits)
    with assms lit Some obtain s r where "raw = JStr s" "parse_value_ref s = Inr r" "refs = [r]"
      by (auto split: json.splits)
    with kvs lit ref show ?thesis by blast
  qed
qed

text \<open>What resolution makes of a list of parts, given what it makes of each.\<close>

lemma res_map_verdict:
  assumes "\<And>x. x \<in> set xs \<Longrightarrow> case f x of Inr y \<Rightarrow> \<forall>r \<in> R x. ok r | Inl e \<Rightarrow> \<exists>r \<in> R x. bad r e"
  shows "case res_map f xs of Inr ys \<Rightarrow> \<forall>r \<in> \<Union> (R ` set xs). ok r | Inl e \<Rightarrow> \<exists>r \<in> \<Union> (R ` set xs). bad r e"
  using assms
proof (induction xs)
  case (Cons x xs)
  from Cons.prems [of x] have x: "case f x of Inr y \<Rightarrow> \<forall>r \<in> R x. ok r | Inl e \<Rightarrow> \<exists>r \<in> R x. bad r e" by simp
  have xs: "case res_map f xs of Inr ys \<Rightarrow> \<forall>r \<in> \<Union> (R ` set xs). ok r | Inl e \<Rightarrow> \<exists>r \<in> \<Union> (R ` set xs). bad r e"
    using Cons.prems by (intro Cons.IH) simp
  show ?case using x xs by (cases "f x"; cases "res_map f xs") auto
qed simp

definition verdict :: "(node_id, json) btree \<Rightarrow> value_ref set \<Rightarrow> (runtime_error, 'a) result \<Rightarrow> bool" where
  "verdict outs R r \<longleftrightarrow> (case r of
       Inr x \<Rightarrow> \<forall>v \<in> R. \<exists>y. resolve_value_ref v outs = Inr y
     | Inl e \<Rightarrow> \<exists>v \<in> R. resolve_value_ref v outs = Inl e)"

lemma verdict_bind: "verdict outs R (res_bind r (\<lambda>x. Inr (f x))) \<longleftrightarrow> verdict outs R r"
  by (cases r) (simp_all add: verdict_def)

lemma verdict_res_map:
  "(\<And>x. x \<in> set xs \<Longrightarrow> verdict outs (R x) (f x)) \<Longrightarrow> verdict outs (\<Union> (R ` set xs)) (res_map f xs)"
  unfolding verdict_def by (rule res_map_verdict)

lemma resolve_input_verdict: "collect_refs v = Inr refs \<Longrightarrow> verdict outs (set refs) (resolve_input v outs)"
proof (induction v arbitrary: refs rule: json_induct)
  case (JArr xs)
  then obtain rss where rss: "res_map collect_refs xs = Inr rss" "refs = concat rss" by auto
  note u = collected_union [OF rss(1)]
  have "verdict outs (refs_of x) (resolve_input x outs)" if "x \<in> set xs" for x
    using JArr.IH [OF that] u(2) [OF that] by (auto simp: refs_of_def)
  from verdict_res_map [OF this] have "verdict outs (set refs) (res_map (\<lambda>x. resolve_input x outs) xs)"
    by (simp only: rss(2) u(1) refs_of_def)
  then show ?case by (simp add: verdict_bind)
next
  case (JObj kvs)
  from JObj.prems show ?case
  proof (cases rule: collect_refs_obj_cases)
    case (literal w)
    then show ?thesis by (simp add: verdict_def)
  next
    case (ref s r)
    moreover from ref have "singleton_obj kvs REF_KEY = Some (JStr s)" by (simp add: singleton_obj_def)
    ultimately show ?thesis by (auto simp: verdict_def split: sum.split)
  next
    case members
    have "verdict outs (refs_of (snd kv)) (res_bind (resolve_input (snd kv) outs) (\<lambda>x. Inr (fst kv, x)))"
      if "kv \<in> set kvs" for kv
    proof -
      from members(4) that obtain rs where rs: "collect_refs (snd kv) = Inr rs" by blast
      have "verdict outs (set rs) (resolve_input (snd kv) outs)"
        by (rule JObj.IH [of "fst kv", OF _ rs]) (use that in simp)
      with rs show ?thesis by (simp add: verdict_bind refs_of_def)
    qed
    from verdict_res_map [OF this] members(3)
    have "verdict outs (set refs) (res_map (\<lambda>kv. res_bind (resolve_input (snd kv) outs) (\<lambda>x. Inr (fst kv, x))) kvs)"
      by simp
    with members(1,2) show ?thesis by (simp add: verdict_bind)
  qed
qed (simp_all add: verdict_def)

lemma resolve_value_ref_local:
  "map_of outs (ref_node r) = map_of outs' (ref_node r) \<Longrightarrow> resolve_value_ref r outs = resolve_value_ref r outs'"
  by (simp add: resolve_value_ref_def)

lemma resolve_input_local:
  "collect_refs v = Inr refs \<Longrightarrow> \<forall>r \<in> set refs. map_of outs (ref_node r) = map_of outs' (ref_node r) \<Longrightarrow>
    resolve_input v outs = resolve_input v outs'"
proof (induction v arbitrary: refs rule: json_induct)
  case (JArr xs)
  then obtain rss where rss: "res_map collect_refs xs = Inr rss" "refs = concat rss" by auto
  note u = collected_union [OF rss(1)]
  have "resolve_input x outs = resolve_input x outs'" if x: "x \<in> set xs" for x
  proof -
    from u(2) [OF x] obtain rs where rs: "collect_refs x = Inr rs" by blast
    have "set rs \<subseteq> set refs" unfolding rss(2) u(1) using x rs by force
    with JArr.prems(2) show ?thesis by (intro JArr.IH [OF x rs]) blast
  qed
  then have "res_map (\<lambda>x. resolve_input x outs) xs = res_map (\<lambda>x. resolve_input x outs') xs"
    by (rule res_map_cong [OF refl])
  then show ?case by simp
next
  case (JObj kvs)
  from JObj.prems(1) show ?case
  proof (cases rule: collect_refs_obj_cases)
    case (literal w)
    then show ?thesis by simp
  next
    case (ref s r)
    then show ?thesis
      using JObj.prems(2) resolve_value_ref_local [of outs r outs'] by (simp add: singleton_obj_def)
  next
    case members
    have "resolve_input (snd kv) outs = resolve_input (snd kv) outs'" if kv: "kv \<in> set kvs" for kv
    proof -
      from members(4) kv obtain rs where rs: "collect_refs (snd kv) = Inr rs" by blast
      have "set rs \<subseteq> set refs" unfolding members(3) using kv rs by (force simp: refs_of_def)
      with JObj.prems(2) show ?thesis
        by (intro JObj.IH [of "fst kv", OF _ rs]) (use kv in auto)
    qed
    then have "res_map (\<lambda>kv. res_bind (resolve_input (snd kv) outs) (\<lambda>x. Inr (fst kv, x))) kvs
        = res_map (\<lambda>kv. res_bind (resolve_input (snd kv) outs') (\<lambda>x. Inr (fst kv, x))) kvs"
      by (intro res_map_cong [OF refl]) simp
    with members(1,2) show ?thesis by simp
  qed
qed simp_all

text \<open>
  C36. An input that validation accepts resolves exactly when each of its collected references
  does, fails with the error of one of them otherwise, and depends on no output but those of
  the referenced nodes.
\<close>

theorem resolve_input_uses_collected_refs:
  assumes "collect_refs v = Inr refs"
  shows "((\<exists>x. resolve_input v outs = Inr x) \<longleftrightarrow> (\<forall>r \<in> set refs. \<exists>x. resolve_value_ref r outs = Inr x)) \<and>
    (\<forall>e. resolve_input v outs = Inl e \<longrightarrow> (\<exists>r \<in> set refs. resolve_value_ref r outs = Inl e)) \<and>
    ((\<forall>r \<in> set refs. map_of outs (ref_node r) = map_of outs' (ref_node r)) \<longrightarrow>
       resolve_input v outs = resolve_input v outs')"
proof -
  from resolve_input_verdict [OF assms, of outs] have
    v: "case resolve_input v outs of Inr x \<Rightarrow> \<forall>r \<in> set refs. \<exists>y. resolve_value_ref r outs = Inr y
       | Inl e \<Rightarrow> \<exists>r \<in> set refs. resolve_value_ref r outs = Inl e" by (simp only: verdict_def)
  show ?thesis
  proof (cases "resolve_input v outs")
    case (Inl e)
    with v have "\<exists>r \<in> set refs. resolve_value_ref r outs = Inl e" by simp
    then have "\<not> (\<forall>r \<in> set refs. \<exists>x. resolve_value_ref r outs = Inr x)" by force
    with Inl v resolve_input_local [OF assms, of outs outs'] show ?thesis by auto
  next
    case (Inr x)
    with v resolve_input_local [OF assms, of outs outs'] show ?thesis by auto
  qed
qed

definition example_input :: json where
  "example_input = JObj [(''a'', JObj [(REF_KEY, JStr ''x.output.v'')]), (''b'', JNull)]"

theorem resolve_input_uses_collected_refs_witness:
  "(\<exists>x. resolve_input example_input [(''x'', JObj [(''v'', JStr ''1'')])] = Inr x) \<and>
     resolve_input example_input [(''x'', JNull)] = Inl (MissingPath (ValueRef ''x'' [''v'']) ''v'')"
proof -
  have refs: "collect_refs example_input = Inr [ValueRef ''x'' [''v'']]" by code_simp
  have ok: "resolve_value_ref (ValueRef ''x'' [''v'']) [(''x'', JObj [(''v'', JStr ''1'')])] = Inr (JStr ''1'')"
    by code_simp
  have bad: "resolve_value_ref (ValueRef ''x'' [''v'']) [(''x'', JNull)] = Inl (MissingPath (ValueRef ''x'' [''v'']) ''v'')"
    by code_simp
  note T = resolve_input_uses_collected_refs [OF refs]
  have "\<exists>x. resolve_input example_input [(''x'', JObj [(''v'', JStr ''1'')])] = Inr x"
    using T [of "[(''x'', JObj [(''v'', JStr ''1'')])]" "[]"] ok by auto
  moreover have "resolve_input example_input [(''x'', JNull)] = Inl (MissingPath (ValueRef ''x'' [''v'']) ''v'')"
    using T [of "[(''x'', JNull)]" "[]"] bad
    by (cases "resolve_input example_input [(''x'', JNull)]") auto
  ultimately show ?thesis by blast
qed

text \<open>
  The escape of a fan-out template is lost before the items are filled in: resolution unwraps
  \<^verbatim>\<open>$literal\<close>, so a marker that was quoted is substituted all the same.
\<close>

lemma quoted_item_marker_is_substituted:
  "resolve_input (JObj [(LITERAL_KEY, JObj [(ITEM_KEY, JStr [])])]) [] = Inr (JObj [(ITEM_KEY, JStr [])])"
  "substitute_item (JObj [(ITEM_KEY, JStr [])]) (JStr ''x'') = Inr (JStr ''x'')"
  by code_simp+

end
