(* ===== verification/AdapterApi.thy ===== *)
theory AdapterApi
  imports Text Json "HOL-Library.Multiset"
begin

text \<open>
  The executor contract, \<^verbatim>\<open>crates/tool-compiler-adapter-api/src/lib.rs\<close>: structured errors,
  batch entries, and the default batch implementation. An adapter is code the program does not
  hold: a record of functions over the state \<open>'w\<close> of the outside world. A call is a timed
  run: its result, the milliseconds it takes, and the world after any elapsed time, so that a
  caller that stops waiting early leaves the world as it then is.
\<close>

section \<open>Errors and batch entries\<close>

record tool_execution_error =
  err_message :: string
  err_code :: "string option"
  err_retryable :: "bool option"

definition error_new :: "string \<Rightarrow> tool_execution_error" where
  "error_new message = \<lparr>err_message = message, err_code = None, err_retryable = None\<rparr>"

definition with_code :: "string \<Rightarrow> tool_execution_error \<Rightarrow> tool_execution_error" where
  "with_code code e = e\<lparr>err_code := Some code\<rparr>"

definition with_retryable :: "bool \<Rightarrow> tool_execution_error \<Rightarrow> tool_execution_error" where
  "with_retryable r e = e\<lparr>err_retryable := Some r\<rparr>"

record batch_input =
  bi_node :: string
  bi_input :: json

record batch_output =
  bo_node :: string
  bo_output :: json

section \<open>Timed runs\<close>

record ('w, 'a) timed_run =
  tr_result :: "(tool_execution_error, 'a) result"
  tr_time :: nat
  tr_world :: "nat \<Rightarrow> 'w"

abbreviation tr_final :: "('w, 'a) timed_run \<Rightarrow> 'w" where
  "tr_final r \<equiv> tr_world r (tr_time r)"

definition tr_return :: "'a \<Rightarrow> 'w \<Rightarrow> ('w, 'a) timed_run" where
  "tr_return x w = \<lparr>tr_result = Inr x, tr_time = 0, tr_world = (\<lambda>_. w)\<rparr>"

text \<open>\<^verbatim>\<open>.await?\<close>: an error ends the run.\<close>

definition tr_bind :: "('w, 'a) timed_run \<Rightarrow> ('a \<Rightarrow> 'w \<Rightarrow> ('w, 'b) timed_run) \<Rightarrow> ('w, 'b) timed_run" where
  "tr_bind r f = (case tr_result r of
       Inl e \<Rightarrow> \<lparr>tr_result = Inl e, tr_time = tr_time r, tr_world = tr_world r\<rparr>
     | Inr x \<Rightarrow>
         (let s = f x (tr_final r) in
          \<lparr>tr_result = tr_result s, tr_time = tr_time r + tr_time s,
           tr_world = (\<lambda>t. if t < tr_time r then tr_world r t else tr_world s (t - tr_time r))\<rparr>))"

section \<open>Executors\<close>

type_synonym 'w tool_call = "string \<Rightarrow> json \<Rightarrow> 'w \<Rightarrow> ('w, json) timed_run"
type_synonym 'w tool_batch = "string \<Rightarrow> batch_input list \<Rightarrow> 'w \<Rightarrow> ('w, batch_output list) timed_run"

record 'w executor =
  ex_call :: "'w tool_call"
  ex_call_batch :: "'w tool_batch"

text \<open>The default \<^verbatim>\<open>call_batch\<close>: one call after the other, up to the first error.\<close>

fun default_call_batch :: "'w tool_call \<Rightarrow> 'w tool_batch" where
  "default_call_batch call tool [] w = tr_return [] w"
| "default_call_batch call tool (i # inputs) w =
     tr_bind (call tool (bi_input i) w) (\<lambda>output w1.
       tr_bind (default_call_batch call tool inputs w1) (\<lambda>outputs w2.
         tr_return (\<lparr>bo_node = bi_node i, bo_output = output\<rparr> # outputs) w2))"

definition executor_of :: "'w tool_call \<Rightarrow> 'w executor" where
  "executor_of call = \<lparr>ex_call = call, ex_call_batch = default_call_batch call\<rparr>"

lemma tr_bind_Inr: "tr_result (tr_bind r f) = Inr y \<longleftrightarrow>
    (\<exists>x. tr_result r = Inr x \<and> tr_result (f x (tr_final r)) = Inr y)"
  by (auto simp: tr_bind_def Let_def split: sum.splits)

lemma tr_bind_final: "tr_result r = Inr x \<Longrightarrow> tr_final (tr_bind r f) = tr_final (f x (tr_final r))"
  by (simp add: tr_bind_def Let_def)

lemma tr_return_simps [simp]:
  "tr_result (tr_return x w) = Inr x" "tr_time (tr_return x w) = 0" "tr_world (tr_return x w) t = w"
  by (simp_all add: tr_return_def)

text \<open>
  What the trait asks of a batch implementation: a batch that succeeds answers each input once,
  under the input's node.
\<close>

locale batch_executor =
  fixes batch :: "'w tool_batch"
  assumes answers_inputs: "tr_result (batch tool inputs w) = Inr outputs \<Longrightarrow>
    mset (map bo_node outputs) = mset (map bi_node inputs)"
begin

lemma answers_length: "tr_result (batch tool inputs w) = Inr outputs \<Longrightarrow> length outputs = length inputs"
  using answers_inputs by (metis length_map size_mset)

lemma answers_nodes:
  "tr_result (batch tool inputs w) = Inr outputs \<Longrightarrow> bo_node ` set outputs = bi_node ` set inputs"
  using answers_inputs by (metis set_map set_mset_mset)

lemma distinct_answers: "tr_result (batch tool inputs w) = Inr outputs \<Longrightarrow>
    distinct (map bi_node inputs) \<Longrightarrow> distinct (map bo_node outputs)"
  using answers_inputs mset_eq_imp_distinct_iff by blast

end

lemma default_batch_nodes:
  "tr_result (default_call_batch call tool inputs w) = Inr outputs \<Longrightarrow> map bo_node outputs = map bi_node inputs"
  by (induction inputs arbitrary: w outputs) (auto simp: tr_bind_Inr)

interpretation default_batch: batch_executor "default_call_batch call"
  by unfold_locales (simp add: default_batch_nodes)

text \<open>A batch of one call is the call.\<close>

lemma default_batch_single:
  "tr_result (default_call_batch call tool [i] w) =
     res_bind (tr_result (call tool (bi_input i) w)) (\<lambda>v. Inr [\<lparr>bo_node = bi_node i, bo_output = v\<rparr>])"
  by (auto simp: tr_bind_def Let_def split: sum.split)

end
