(* ===== verification/RunResult.thy ===== *)
theory RunResult
  imports Optimizer RuntimeRefs AdapterApi
begin

text \<open>
  Run results, \<^verbatim>\<open>crates/tool-compiler-runtime/src/result.rs\<close>: the composite result, trace
  events, and the shaping of outputs (redaction, then truncation). Unicode lower-casing is a
  parameter. The lemmas show that redaction hides everything below a secret key, also from the
  preview of a truncated output.
\<close>

section \<open>Results, metrics, traces\<close>

datatype run_status = RunSuccess | RunFailed | RunCancelled

datatype skip_reason = SkipCondition | SkipFailedDependency | SkipCancelled | SkipNotRun

record run_metrics =
  rm_wall_ms :: "64 word"
  rm_nodes_total :: nat
  rm_nodes_succeeded :: nat
  rm_nodes_failed :: nat
  rm_nodes_skipped :: nat
  rm_cache_hits :: nat
  rm_batch_dispatches :: nat
  rm_retries :: nat

definition run_metrics_default :: run_metrics where
  "run_metrics_default = \<lparr>rm_wall_ms = 0, rm_nodes_total = 0, rm_nodes_succeeded = 0, rm_nodes_failed = 0,
     rm_nodes_skipped = 0, rm_cache_hits = 0, rm_batch_dispatches = 0, rm_retries = 0\<rparr>"

datatype result_mode = ResultFull | ResultCompact

datatype trace_status = Started | Finished | CacheHit | Failed | Retried | Skipped

record trace_event =
  te_node :: node_id
  te_tool :: string
  te_status :: trace_status
  te_at_ms :: "64 word"
  te_duration_ms :: "64 word option"
  te_error :: "string option"
  te_batch_id :: "64 word option"
  te_attempt :: "8 word option"

text \<open>The clock is read when the event is made: \<open>at\<close> is \<^verbatim>\<open>epoch_ms()\<close>.\<close>

definition epoch_ms :: "nat option \<Rightarrow> 64 word" where
  "epoch_ms elapsed_ms = (case elapsed_ms of
     None \<Rightarrow> 0 | Some ms \<Rightarrow> if ms < 2 ^ 64 then of_nat ms else - 1)"

definition trace_new :: "64 word \<Rightarrow> node_id \<Rightarrow> string \<Rightarrow> trace_status \<Rightarrow> trace_event" where
  "trace_new at node tool status = \<lparr>te_node = node, te_tool = tool, te_status = status, te_at_ms = at,
     te_duration_ms = None, te_error = None, te_batch_id = None, te_attempt = None\<rparr>"

definition with_duration :: "64 word \<Rightarrow> trace_event \<Rightarrow> trace_event" where
  "with_duration ms e = e\<lparr>te_duration_ms := Some ms\<rparr>"

definition with_error :: "tool_execution_error \<Rightarrow> trace_event \<Rightarrow> trace_event" where
  "with_error err e = e\<lparr>te_error := Some (err_message err)\<rparr>"

definition with_batch :: "64 word option \<Rightarrow> trace_event \<Rightarrow> trace_event" where
  "with_batch batch_id e = e\<lparr>te_batch_id := batch_id\<rparr>"

definition with_attempt :: "8 word \<Rightarrow> trace_event \<Rightarrow> trace_event" where
  "with_attempt attempt e = e\<lparr>te_attempt := Some attempt\<rparr>"

record run_result =
  rr_status :: run_status
  rr_outputs :: "(string, json) btree"
  rr_node_outputs :: "(node_id, json) btree"
  rr_errors :: "(node_id, tool_execution_error) btree"
  rr_skipped :: "(node_id, skip_reason) btree"
  rr_trace :: "trace_event list"
  rr_optimization :: optimization_report
  rr_metrics :: run_metrics

section \<open>Redaction\<close>

type_synonym redactor = "node_id \<Rightarrow> json \<Rightarrow> json"

record key_redactor =
  kr_keys :: "string list"
  kr_replacement :: string

definition key_redactor_new :: "(string \<Rightarrow> string) \<Rightarrow> string list \<Rightarrow> key_redactor" where
  "key_redactor_new lower keys = \<lparr>kr_keys = map lower keys, kr_replacement = ''[redacted]''\<rparr>"

definition default_secret_keys :: "(string \<Rightarrow> string) \<Rightarrow> key_redactor" where
  "default_secret_keys lower = key_redactor_new lower
     [''token'', ''password'', ''secret'', ''authorization'', ''api_key'', ''apikey'', ''access_key'']"

definition secret_key :: "(string \<Rightarrow> string) \<Rightarrow> key_redactor \<Rightarrow> string \<Rightarrow> bool" where
  "secret_key lower kr key \<longleftrightarrow> (\<exists>needle \<in> set (kr_keys kr). str_contains needle (lower key))"

fun redact_value :: "(string \<Rightarrow> string) \<Rightarrow> key_redactor \<Rightarrow> json \<Rightarrow> json" where
  "redact_value lower kr (JObj kvs) = JObj (map (\<lambda>kv.
     if secret_key lower kr (fst kv) then (fst kv, JStr (kr_replacement kr))
     else (fst kv, redact_value lower kr (snd kv))) kvs)"
| "redact_value lower kr (JArr items) = JArr (map (redact_value lower kr) items)"
| "redact_value lower kr v = v"

definition key_redact_output :: "(string \<Rightarrow> string) \<Rightarrow> key_redactor \<Rightarrow> redactor" where
  "key_redact_output lower kr node output = redact_value lower kr output"

section \<open>Truncation and shaping\<close>

definition truncate_output :: "json \<Rightarrow> nat \<Rightarrow> json" where
  "truncate_output v max_bytes =
     (let serialized = json_to_string v in
      if length serialized \<le> max_bytes then v
      else JObj [(''$truncated'', JBool True), (''bytes'', json_num (length serialized)),
                 (''preview'', JStr (take_chars (min max_bytes 512) serialized))])"

definition shape_output :: "node_id \<Rightarrow> json \<Rightarrow> redactor option \<Rightarrow> nat option \<Rightarrow> json" where
  "shape_output node v red max_output_bytes =
     (let v' = (case red of Some f \<Rightarrow> f node v | None \<Rightarrow> v)
      in case max_output_bytes of Some max_bytes \<Rightarrow> truncate_output v' max_bytes | None \<Rightarrow> v')"

section \<open>What redaction hides\<close>

text \<open>Two values that differ at most below secret keys.\<close>

inductive same_public :: "(string \<Rightarrow> bool) \<Rightarrow> json \<Rightarrow> json \<Rightarrow> bool" for secret where
  same_refl: "same_public secret v v"
| same_arr: "list_all2 (same_public secret) xs ys \<Longrightarrow> same_public secret (JArr xs) (JArr ys)"
| same_obj: "list_all2 (\<lambda>kv kw. fst kv = fst kw \<and> (secret (fst kv) \<or> same_public secret (snd kv) (snd kw))) kvs kws \<Longrightarrow>
    same_public secret (JObj kvs) (JObj kws)"
monos list_all2_mono

lemma list_all2_map_eq: "list_all2 R xs ys \<Longrightarrow> (\<And>x y. R x y \<Longrightarrow> f x = f y) \<Longrightarrow> map f xs = map f ys"
  by (induction rule: list_all2_induct) auto

lemma redact_hides_secrets:
  "same_public (secret_key lower kr) v w \<Longrightarrow> redact_value lower kr v = redact_value lower kr w"
proof (induction rule: same_public.induct)
  case (same_arr xs ys)
  from list_all2_map_eq [OF this, of "redact_value lower kr"] show ?case by simp
next
  case (same_obj kvs kws)
  have "map (\<lambda>kv. if secret_key lower kr (fst kv) then (fst kv, JStr (kr_replacement kr))
      else (fst kv, redact_value lower kr (snd kv))) kvs
    = map (\<lambda>kv. if secret_key lower kr (fst kv) then (fst kv, JStr (kr_replacement kr))
      else (fst kv, redact_value lower kr (snd kv))) kws"
    by (rule list_all2_map_eq [OF same_obj]) auto
  then show ?case by (simp only: redact_value.simps)
qed simp

text \<open>Public members are kept as they are.\<close>

fun has_secret :: "(string \<Rightarrow> bool) \<Rightarrow> json \<Rightarrow> bool" where
  "has_secret secret (JObj kvs) = (\<exists>kv \<in> set kvs. secret (fst kv) \<or> has_secret secret (snd kv))"
| "has_secret secret (JArr xs) = (\<exists>x \<in> set xs. has_secret secret x)"
| "has_secret secret v = False"

lemma redact_public: "\<not> has_secret (secret_key lower kr) v \<Longrightarrow> redact_value lower kr v = v"
proof (induction v rule: json_induct)
  case (JArr xs)
  then show ?case by (simp add: map_idI)
next
  case (JObj kvs)
  then show ?case by (auto intro!: map_idI)
qed simp_all

lemma redact_idempotent:
  "redact_value lower kr (redact_value lower kr v) = redact_value lower kr v"
proof (induction v rule: json_induct)
  case (JObj kvs)
  then show ?case by (auto simp: o_def)
qed (simp_all add: o_def)

text \<open>
  C40. With a key redactor, two outputs that differ only below secret keys leave the runtime as
  the same value, preview of a truncated output included; outputs without secret keys are not
  changed by redaction, and redacting twice is redacting once.
\<close>

theorem shaping_hides_secrets:
  assumes "same_public (secret_key lower kr) v w"
  shows "shape_output node v (Some (key_redact_output lower kr)) limit
      = shape_output node w (Some (key_redact_output lower kr)) limit \<and>
    (\<not> has_secret (secret_key lower kr) v \<longrightarrow> key_redact_output lower kr node v = v) \<and>
    key_redact_output lower kr node (key_redact_output lower kr node v) = key_redact_output lower kr node v"
  using redact_hides_secrets [OF assms] redact_public [of lower kr v] redact_idempotent [of lower kr v]
  by (simp add: shape_output_def key_redact_output_def)

definition ascii_lower :: "string \<Rightarrow> string" where
  "ascii_lower s = map (\<lambda>c. let n = of_char c :: nat in if 65 \<le> n \<and> n \<le> 90 then char_of (n + 32) else c) s"

definition login :: "string \<Rightarrow> json" where
  "login pw = JObj [(''Password'', JStr pw), (''user'', JStr ''ada'')]"

theorem shaping_hides_secrets_witness:
  "shape_output ''n'' (login ''one'') (Some (key_redact_output ascii_lower (default_secret_keys ascii_lower))) (Some 10)
     = shape_output ''n'' (login ''another'') (Some (key_redact_output ascii_lower (default_secret_keys ascii_lower))) (Some 10)"
proof -
  have "secret_key ascii_lower (default_secret_keys ascii_lower) ''Password''" by code_simp
  then have "same_public (secret_key ascii_lower (default_secret_keys ascii_lower)) (login ''one'') (login ''another'')"
    unfolding login_def by (intro same_obj) (simp add: same_refl)
  from shaping_hides_secrets [OF this] show ?thesis by blast
qed

lemma truncated_preview_bound:
  "char_count (take_chars (min max_bytes 512) s) \<le> min max_bytes 512"
  by (rule char_count_take_chars)

end
