(* ===== verification/Policy.thy ===== *)
theory Policy
  imports AdapterApi Cost
begin

text \<open>
  Call policies, \<^verbatim>\<open>crates/tool-compiler-runtime/src/policy.rs\<close>: timeouts, retries and
  backoff. \<^verbatim>\<open>call_with_policy\<close> and \<^verbatim>\<open>call_batch_with_policy\<close> are one loop over the
  attempted call; the nanoseconds of the wall clock that drive the jitter are a function of the
  attempt. The lemmas say when a call is repeated and how long the loop sleeps.
\<close>

definition DEFAULT_BACKOFF_MS :: "64 word" where "DEFAULT_BACKOFF_MS = 100"
definition MAX_BACKOFF_MS :: "64 word" where "MAX_BACKOFF_MS = 5000"

record call_policy =
  cp_timeout :: "64 word option"
  cp_max_attempts :: "8 word"
  cp_backoff_ms :: "64 word"
  cp_retryable_errors :: "string list"

definition policy_from_effects :: "effects option \<Rightarrow> 64 word option \<Rightarrow> call_policy" where
  "policy_from_effects effects default_timeout_ms =
     (let timeout_ms = (case Option.bind effects eff_timeout_ms of
            Some t \<Rightarrow> Some t | None \<Rightarrow> default_timeout_ms);
          retry_allowed = (case effects of None \<Rightarrow> False | Some e \<Rightarrow> eff_idempotent e \<or> eff_pure e);
          retry = Option.bind effects eff_retry
      in \<lparr>cp_timeout = timeout_ms,
          cp_max_attempts = (case (retry_allowed, retry) of
              (True, Some policy) \<Rightarrow> max (retry_max_attempts policy) 1 | _ \<Rightarrow> 1),
          cp_backoff_ms = (case Option.bind retry retry_backoff_ms of
              Some b \<Rightarrow> b | None \<Rightarrow> DEFAULT_BACKOFF_MS),
          cp_retryable_errors = (case retry of None \<Rightarrow> [] | Some policy \<Rightarrow> retry_errors policy)\<rparr>)"

definition is_retryable :: "call_policy \<Rightarrow> tool_execution_error \<Rightarrow> bool" where
  "is_retryable policy e = (case err_retryable e of
       Some verdict \<Rightarrow> verdict
     | None \<Rightarrow> cp_retryable_errors policy = [] \<or>
         (\<exists>needle \<in> set (cp_retryable_errors policy).
            err_code e = Some needle \<or> str_contains needle (err_message e)))"

definition backoff :: "call_policy \<Rightarrow> 8 word \<Rightarrow> 64 word \<Rightarrow> 64 word" where
  "backoff policy attempt nanos =
     (let exponent = min (if attempt = 0 then 0 else attempt - 1) 16;
          base = min (saturating_mul (cp_backoff_ms policy) (push_bit (unat exponent) 1)) MAX_BACKOFF_MS;
          jitter = nanos mod (base div 4 + 1)
      in base + jitter)"

definition with_timeout :: "64 word option \<Rightarrow> ('w, 'a) timed_run
    \<Rightarrow> (tool_execution_error, 'a) result \<times> 'w" where
  "with_timeout timeout run = (case timeout of
       None \<Rightarrow> (tr_result run, tr_final run)
     | Some limit \<Rightarrow>
         if tr_time run \<le> unat limit then (tr_result run, tr_final run)
         else (Inl (with_code ''timeout'' (error_new (''timed out after '' @ dec (unat limit) @ ''ms''))),
               tr_world run (unat limit)))"

section \<open>The retry loop\<close>

record ('w, 'a) policy_outcome =
  po_result :: "(tool_execution_error, 'a) result"
  po_retries :: "tool_execution_error list"
  po_sleeps :: "64 word list"
  po_world :: "'w"

lemma unat_inc: "a < b \<Longrightarrow> unat (a + 1) = unat a + 1" for a b :: "'l::len word"
proof -
  assume "a < b"
  then have "unat a < unat b" by (simp add: word_less_nat_alt)
  moreover have "unat b < 2 ^ LENGTH('l)" by (rule unsigned_less)
  ultimately have "unat a + 1 < 2 ^ LENGTH('l)" by linarith
  then have "unat a + unat (1 :: 'l word) < 2 ^ LENGTH('l)" by (simp only: unsigned_1)
  then have "unat (a + 1) = unat a + unat (1 :: 'l word)" by (rule unat_add_lem [THEN iffD1])
  then show ?thesis by (simp only: unsigned_1)
qed

text \<open>
  \<open>attempted\<close> is the call with its executor, tool and input: every attempt passes the same
  input (a copy, or the value itself for the last attempt the policy allows). Besides the
  outcome the loop returns the milliseconds it slept and the world it leaves.
\<close>

function retry_loop :: "('w \<Rightarrow> ('w, 'a) timed_run) \<Rightarrow> call_policy \<Rightarrow> (8 word \<Rightarrow> 64 word)
    \<Rightarrow> 8 word \<Rightarrow> tool_execution_error list \<Rightarrow> 64 word list \<Rightarrow> 'w \<Rightarrow> ('w, 'a) policy_outcome" where
  "retry_loop attempted policy nanos attempt retries sleeps w =
     (case with_timeout (cp_timeout policy) (attempted w) of
        (Inr x, w1) \<Rightarrow> \<lparr>po_result = Inr x, po_retries = retries, po_sleeps = sleeps, po_world = w1\<rparr>
      | (Inl e, w1) \<Rightarrow>
          if attempt \<ge> cp_max_attempts policy \<or> \<not> is_retryable policy e
          then \<lparr>po_result = Inl e, po_retries = retries, po_sleeps = sleeps, po_world = w1\<rparr>
          else retry_loop attempted policy nanos (attempt + 1) (retries @ [e])
                 (sleeps @ [backoff policy attempt (nanos attempt)]) w1)"
  by pat_completeness auto
termination
  by (relation "measure (\<lambda>(f, p, ns, a, rs, ss, w). unat (cp_max_attempts p) - unat a)")
     (auto simp: not_le unat_inc word_less_nat_alt)

declare retry_loop.simps [simp del]

text \<open>\<^verbatim>\<open>call_with_policy\<close> and \<^verbatim>\<open>call_batch_with_policy\<close>.\<close>

definition call_with_policy :: "'w executor \<Rightarrow> string \<Rightarrow> json \<Rightarrow> call_policy \<Rightarrow> (8 word \<Rightarrow> 64 word)
    \<Rightarrow> 'w \<Rightarrow> ('w, json) policy_outcome" where
  "call_with_policy ex tool input policy nanos w =
     retry_loop (ex_call ex tool input) policy nanos 1 [] [] w"

definition call_batch_with_policy :: "'w executor \<Rightarrow> string \<Rightarrow> batch_input list \<Rightarrow> call_policy
    \<Rightarrow> (8 word \<Rightarrow> 64 word) \<Rightarrow> 'w \<Rightarrow> ('w, batch_output list) policy_outcome" where
  "call_batch_with_policy ex tool inputs policy nanos w =
     retry_loop (ex_call_batch ex tool inputs) policy nanos 1 [] [] w"

section \<open>What the loop does\<close>

text \<open>
  A reference account of the attempts: \<open>attempts f policy w n es w'\<close> says that \<open>n\<close> attempts
  in a row fail with the errors \<open>es\<close> and take the world from \<open>w\<close> to \<open>w'\<close>.
\<close>

fun failed_attempts :: "('w \<Rightarrow> ('w, 'a) timed_run) \<Rightarrow> call_policy \<Rightarrow> 'w \<Rightarrow> tool_execution_error list \<Rightarrow> 'w \<Rightarrow> bool" where
  "failed_attempts f policy w [] w' \<longleftrightarrow> w' = w"
| "failed_attempts f policy w (e # es) w' \<longleftrightarrow>
     fst (with_timeout (cp_timeout policy) (f w)) = Inl e \<and>
     failed_attempts f policy (snd (with_timeout (cp_timeout policy) (f w))) es w'"

text \<open>
  The outcome the loop must produce: retryable failures while attempts remain, then the
  attempt that succeeds, is not worth repeating, or is the last one allowed.
\<close>

definition policy_run :: "('w \<Rightarrow> ('w, 'a) timed_run) \<Rightarrow> call_policy \<Rightarrow> nat \<Rightarrow> 'w \<Rightarrow>
    tool_execution_error list \<Rightarrow> (tool_execution_error, 'a) result \<Rightarrow> 'w \<Rightarrow> bool" where
  "policy_run f policy allowed w es r w' \<longleftrightarrow> length es < allowed \<and> (\<forall>e \<in> set es. is_retryable policy e) \<and>
     (\<exists>w1. failed_attempts f policy w es w1 \<and> with_timeout (cp_timeout policy) (f w1) = (r, w')) \<and>
     (\<forall>e. r = Inl e \<longrightarrow> length es + 1 = allowed \<or> \<not> is_retryable policy e)"

lemma backoff_bound: "unat (backoff policy attempt nanos) \<le> 6250"
proof -
  define base where "base = min (saturating_mul (cp_backoff_ms policy)
      (push_bit (unat (min (if attempt = 0 then 0 else attempt - 1) 16)) 1)) MAX_BACKOFF_MS"
  have "base \<le> 5000" by (simp add: base_def MAX_BACKOFF_MS_def)
  then have b: "unat base \<le> 5000" by (simp add: word_le_nat_alt)
  have q: "unat (base div 4 + 1) = unat base div 4 + 1"
  proof -
    have "unat (base div 4) + unat (1 :: 64 word) < 2 ^ LENGTH(64)" using b by (simp add: unat_div)
    then have "unat (base div 4 + 1) = unat (base div 4) + unat (1 :: 64 word)" by (simp only: unat_add_lem)
    then show ?thesis by (simp add: unat_div)
  qed
  have "unat (nanos mod (base div 4 + 1)) < unat base div 4 + 1" by (simp add: unat_mod q)
  then have "unat base + unat (nanos mod (base div 4 + 1)) \<le> 6250" using b by linarith
  with unat_add_le [of base "nanos mod (base div 4 + 1)"] have "unat (base + nanos mod (base div 4 + 1)) \<le> 6250"
    by linarith
  then show ?thesis unfolding backoff_def Let_def base_def .
qed

lemma failed_attempts_snoc:
  "failed_attempts f policy w (es @ [e]) w' \<longleftrightarrow> (\<exists>w1. failed_attempts f policy w es w1 \<and>
     fst (with_timeout (cp_timeout policy) (f w1)) = Inl e \<and>
     w' = snd (with_timeout (cp_timeout policy) (f w1)))"
  by (induction es arbitrary: w) auto

lemma retry_loop_run:
  assumes "1 \<le> unat attempt" "unat attempt = length retries + 1" "length sleeps = length retries"
    and "unat attempt \<le> max 1 (unat (cp_max_attempts policy))"
    and "failed_attempts f policy w0 retries w" "\<forall>e \<in> set retries. is_retryable policy e"
    and "\<forall>s \<in> set sleeps. unat s \<le> 6250"
  shows "let out = retry_loop f policy nanos attempt retries sleeps w in
    policy_run f policy (max 1 (unat (cp_max_attempts policy))) w0 (po_retries out) (po_result out) (po_world out) \<and>
    length (po_sleeps out) = length (po_retries out) \<and> (\<forall>s \<in> set (po_sleeps out). unat s \<le> 6250)"
  using assms
proof (induction f policy nanos attempt retries sleeps w rule: retry_loop.induct)
  case (1 f policy nanos attempt retries sleeps w)
  let ?M = "max 1 (unat (cp_max_attempts policy))"
  obtain r w1 where t: "with_timeout (cp_timeout policy) (f w) = (r, w1)" by (cases "with_timeout (cp_timeout policy) (f w)")
  note unfold = retry_loop.simps [of f policy nanos attempt retries sleeps w]
  show ?case
  proof (cases r)
    case (Inr x)
    then show ?thesis using "1.prems" t by (simp add: unfold policy_run_def Let_def) blast
  next
    case (Inl e)
    show ?thesis
    proof (cases "attempt \<ge> cp_max_attempts policy \<or> \<not> is_retryable policy e")
      case True
      have "length retries + 1 = ?M \<or> \<not> is_retryable policy e"
        using True "1.prems"(2,4) by (auto simp: word_le_nat_alt)
      moreover have "retry_loop f policy nanos attempt retries sleeps w
          = \<lparr>po_result = Inl e, po_retries = retries, po_sleeps = sleeps, po_world = w1\<rparr>"
        using True t Inl by (simp add: unfold)
      ultimately show ?thesis using "1.prems" t Inl by (auto simp: policy_run_def Let_def)
    next
      case False
      have lt: "attempt < cp_max_attempts policy" using False by (simp add: not_le)
      have n: "unat (attempt + 1) = unat attempt + 1" by (rule unat_inc [OF lt])
      have f: "failed_attempts f policy w0 (retries @ [e]) w1"
        using "1.prems"(5) t Inl by (auto simp: failed_attempts_snoc)
      have le: "unat attempt + 1 \<le> ?M" using lt by (simp add: word_less_nat_alt)
      have "retry_loop f policy nanos attempt retries sleeps w = retry_loop f policy nanos (attempt + 1)
          (retries @ [e]) (sleeps @ [backoff policy attempt (nanos attempt)]) w1"
        using False t Inl by (simp add: unfold)
      moreover have "let out = retry_loop f policy nanos (attempt + 1)
          (retries @ [e]) (sleeps @ [backoff policy attempt (nanos attempt)]) w1 in
        policy_run f policy ?M w0 (po_retries out) (po_result out) (po_world out) \<and>
        length (po_sleeps out) = length (po_retries out) \<and> (\<forall>s \<in> set (po_sleeps out). unat s \<le> 6250)"
        using t Inl False f le n "1.prems" backoff_bound
        by (intro "1.IH" [OF t [symmetric] Inl]) auto
      ultimately show ?thesis by (simp only:)
    qed
  qed
qed

lemma call_with_policy_run:
  "let out = call_with_policy ex tool input policy nanos w in
    policy_run (ex_call ex tool input) policy (max 1 (unat (cp_max_attempts policy))) w
      (po_retries out) (po_result out) (po_world out) \<and>
    length (po_sleeps out) = length (po_retries out) \<and> (\<forall>s \<in> set (po_sleeps out). unat s \<le> 6250)"
  unfolding call_with_policy_def by (rule retry_loop_run) simp_all

lemma call_batch_with_policy_run:
  "let out = call_batch_with_policy ex tool inputs policy nanos w in
    policy_run (ex_call_batch ex tool inputs) policy (max 1 (unat (cp_max_attempts policy))) w
      (po_retries out) (po_result out) (po_world out) \<and>
    length (po_sleeps out) = length (po_retries out) \<and> (\<forall>s \<in> set (po_sleeps out). unat s \<le> 6250)"
  unfolding call_batch_with_policy_def by (rule retry_loop_run) simp_all

lemma max_attempts_spec:
  "unat (cp_max_attempts (policy_from_effects effects t)) =
     (case effects of Some e \<Rightarrow>
        if eff_idempotent e \<or> eff_pure e
        then (case eff_retry e of Some p \<Rightarrow> max 1 (unat (retry_max_attempts p)) | None \<Rightarrow> 1) else 1
      | None \<Rightarrow> 1)"
proof -
  have "unat (max a 1) = max 1 (unat a)" for a :: "8 word"
    by (simp add: max_def word_le_nat_alt)
  then show ?thesis by (auto simp: policy_from_effects_def Let_def split: option.split)
qed

text \<open>
  C30. A call under a policy returns after at most \<open>max_attempts\<close> attempts, every repeated one
  a retryable failure, with the result of the last attempt, and it sleeps once per retry, for at
  most 6.25 seconds.
\<close>

theorem retry_attempts_bounded:
  "let out = call_with_policy ex tool input policy nanos w in
    policy_run (ex_call ex tool input) policy (max 1 (unat (cp_max_attempts policy))) w
      (po_retries out) (po_result out) (po_world out) \<and>
    length (po_sleeps out) = length (po_retries out) \<and> list_all (\<lambda>s. unat s \<le> 6250) (po_sleeps out)"
  using call_with_policy_run [of ex tool input policy nanos w] by (simp add: Let_def list_all_iff)

text \<open>
  C31. Only idempotent or pure tools are ever called again: for any other tool the policy derived
  from its effects allows a single attempt, whatever retries it declares.
\<close>

theorem unsafe_calls_not_repeated:
  assumes "\<forall>e. effects = Some e \<longrightarrow> \<not> eff_idempotent e \<and> \<not> eff_pure e"
  shows "po_retries (call_with_policy ex tool input (policy_from_effects effects t) nanos w) = [] \<and>
    po_retries (call_batch_with_policy ex tool inputs (policy_from_effects effects t) nanos w) = []"
proof -
  have "unat (cp_max_attempts (policy_from_effects effects t)) = 1"
    unfolding max_attempts_spec using assms by (cases effects) auto
  with call_with_policy_run [of ex tool input "policy_from_effects effects t" nanos w]
    call_batch_with_policy_run [of ex tool inputs "policy_from_effects effects t" nanos w]
  show ?thesis by (simp add: Let_def policy_run_def)
qed

definition failing_executor :: "nat executor" where
  "failing_executor = executor_of (\<lambda>tool input n.
     \<lparr>tr_result = Inl (error_new ''down''), tr_time = 1, tr_world = (\<lambda>_. n + 1)\<rparr>)"

theorem unsafe_calls_not_repeated_witness:
  "po_retries (call_with_policy failing_executor ''t'' JNull
     (policy_from_effects (Some effects_default) None) (\<lambda>_. 0) 0) = []"
  using unsafe_calls_not_repeated [of "Some effects_default" failing_executor "''t''" JNull None "\<lambda>_. 0" 0 "[]"]
  by (simp add: effects_default_def)

text \<open>The jitter can take one sleep past the cap of five seconds.\<close>

lemma backoff_exceeds_cap:
  "backoff \<lparr>cp_timeout = None, cp_max_attempts = 10, cp_backoff_ms = 5000, cp_retryable_errors = []\<rparr> 1 1250 = 6250"
  by (simp add: backoff_def Let_def MAX_BACKOFF_MS_def saturating_mul_def)

end
