(* ===== verification/Dispatch.thy ===== *)
theory Dispatch
  imports RunResult Policy Cache
begin

text \<open>
  Unit dispatch, \<^verbatim>\<open>crates/tool-compiler-runtime/src/dispatch.rs\<close>: cache lookups, single
  flight, one call or one batch call under the policy, and the outcome reported to the engine.
  Everything a dispatch shares with the rest of the run (the executor, the cache, the slots of
  single flight, the clocks and the batch counter) is a function over the world \<open>'w\<close> of its
  context, so that other tasks may change it between two steps.
\<close>

section \<open>Units, members, outcomes\<close>

record unit_spec =
  us_tool :: tool_name
  us_adapter :: string
  us_batch :: bool

record prepared_member =
  pm_node :: node_id
  pm_input :: json
  pm_items :: "json list option"
  pm_policy :: call_policy
  pm_cacheable :: bool
  pm_version :: "string option"
  pm_reads :: "resource bset"
  pm_batchable :: bool
  pm_batch_size :: nat

definition member_key :: "unit_spec \<Rightarrow> prepared_member \<Rightarrow> json \<Rightarrow> cache_key option" where
  "member_key spec m input =
     (if pm_cacheable m
      then Some (CacheKey (us_adapter spec) (us_tool spec) (pm_version m) (canonical_json_string input))
      else None)"

type_synonym call_result = "(tool_execution_error, json) result"

record dispatch_outcome =
  do_results :: "(node_id \<times> call_result) list"
  do_events :: "trace_event list"
  do_cache_hits :: nat
  do_retries :: nat
  do_batch_dispatches :: nat

definition outcome_new :: dispatch_outcome where
  "outcome_new = \<lparr>do_results = [], do_events = [], do_cache_hits = 0, do_retries = 0, do_batch_dispatches = 0\<rparr>"

definition push_event :: "trace_event \<Rightarrow> dispatch_outcome \<Rightarrow> dispatch_outcome" where
  "push_event e out = out\<lparr>do_events := do_events out @ [e]\<rparr>"

definition push_result :: "node_id \<Rightarrow> call_result \<Rightarrow> dispatch_outcome \<Rightarrow> dispatch_outcome" where
  "push_result i r out = out\<lparr>do_results := do_results out @ [(i, r)]\<rparr>"

definition count_hit :: "dispatch_outcome \<Rightarrow> dispatch_outcome" where
  "count_hit out = out\<lparr>do_cache_hits := do_cache_hits out + 1\<rparr>"

section \<open>The context\<close>

record 'w dispatch_context =
  dc_executor :: "'w executor"
  dc_cache_get :: "cache_key \<Rightarrow> 'w \<Rightarrow> json option \<times> 'w"
  dc_cache_insert :: "cache_key \<Rightarrow> json \<Rightarrow> resource bset \<Rightarrow> 'w \<Rightarrow> 'w"
  dc_acquire :: "cache_key \<Rightarrow> 'w \<Rightarrow> 'w"
  dc_release :: "cache_key \<Rightarrow> 'w \<Rightarrow> 'w"
  dc_use_cache :: bool
  dc_epoch :: "'w \<Rightarrow> nat option"
  dc_clock :: "'w \<Rightarrow> nat"
  dc_nanos :: "'w \<Rightarrow> 8 word \<Rightarrow> 64 word"
  dc_batch_id :: "'w \<Rightarrow> 64 word \<times> 'w"

definition elapsed_ms :: "nat \<Rightarrow> nat \<Rightarrow> 64 word" where
  "elapsed_ms started now = (if now - started < 2 ^ 64 then of_nat (now - started) else - 1)"

abbreviation event_at :: "'w dispatch_context \<Rightarrow> 'w \<Rightarrow> node_id \<Rightarrow> string \<Rightarrow> trace_status \<Rightarrow> trace_event" where
  "event_at ctx w \<equiv> trace_new (epoch_ms (dc_epoch ctx w))"

definition record_retries :: "'w dispatch_context \<Rightarrow> 'w \<Rightarrow> node_id \<Rightarrow> string \<Rightarrow> tool_execution_error list
    \<Rightarrow> dispatch_outcome \<Rightarrow> dispatch_outcome" where
  "record_retries ctx w node tool retries out =
     foldl (\<lambda>out (attempt, e).
         push_event (with_attempt (of_nat (min (attempt + 1) 255)) (with_error e (event_at ctx w node tool Retried))) out)
       (out\<lparr>do_retries := do_retries out + length retries\<rparr>) (enumerate 0 retries)"

definition cache_lookup :: "'w dispatch_context \<Rightarrow> cache_key option \<Rightarrow> 'w \<Rightarrow> json option \<times> 'w" where
  "cache_lookup ctx key w = (case key of None \<Rightarrow> (None, w) | Some k \<Rightarrow> dc_cache_get ctx k w)"

definition cache_store :: "'w dispatch_context \<Rightarrow> cache_key option \<Rightarrow> json \<Rightarrow> resource bset \<Rightarrow> 'w \<Rightarrow> 'w" where
  "cache_store ctx key output reads w = (case key of None \<Rightarrow> w | Some k \<Rightarrow> dc_cache_insert ctx k output reads w)"

definition unit_key :: "'w dispatch_context \<Rightarrow> unit_spec \<Rightarrow> prepared_member \<Rightarrow> cache_key option" where
  "unit_key ctx spec m = (if dc_use_cache ctx then member_key spec m (pm_input m) else None)"

section \<open>One call\<close>

definition dispatch_single :: "'w dispatch_context \<Rightarrow> unit_spec \<Rightarrow> prepared_member \<Rightarrow> dispatch_outcome \<Rightarrow> 'w
    \<Rightarrow> dispatch_outcome \<times> 'w" where
  "dispatch_single ctx spec m out w0 =
     (let key = unit_key ctx spec m;
          w1 = (case key of None \<Rightarrow> w0 | Some k \<Rightarrow> dc_acquire ctx k w0);
          leave = (\<lambda>w. case key of None \<Rightarrow> w | Some k \<Rightarrow> dc_release ctx k w)
      in case cache_lookup ctx key w1 of
           (Some cached, w2) \<Rightarrow>
             (push_result (pm_node m) (Inr cached)
                (push_event (event_at ctx w2 (pm_node m) (us_tool spec) CacheHit) (count_hit out)), leave w2)
         | (None, w2) \<Rightarrow>
             (let out1 = push_event (event_at ctx w2 (pm_node m) (us_tool spec) Started) out;
                  call = call_with_policy (dc_executor ctx) (us_tool spec) (pm_input m) (pm_policy m) (dc_nanos ctx w2) w2;
                  w3 = po_world call;
                  duration = elapsed_ms (dc_clock ctx w2) (dc_clock ctx w3);
                  out2 = record_retries ctx w3 (pm_node m) (us_tool spec) (po_retries call) out1
              in case po_result call of
                   Inr output \<Rightarrow>
                     (let w4 = cache_store ctx key output (pm_reads m) w3 in
                      (push_result (pm_node m) (Inr output)
                         (push_event (with_duration duration (event_at ctx w4 (pm_node m) (us_tool spec) Finished)) out2),
                       leave w4))
                 | Inl e \<Rightarrow>
                     (push_result (pm_node m) (Inl e)
                        (push_event (with_error e (with_duration duration
                           (event_at ctx w3 (pm_node m) (us_tool spec) Failed))) out2), leave w3)))"

section \<open>One batch\<close>

type_synonym pending_member = "prepared_member \<times> cache_key option"

fun batch_lookups :: "'w dispatch_context \<Rightarrow> unit_spec \<Rightarrow> prepared_member list \<Rightarrow> pending_member list \<Rightarrow>
    dispatch_outcome \<Rightarrow> 'w \<Rightarrow> pending_member list \<times> dispatch_outcome \<times> 'w" where
  "batch_lookups ctx spec [] pending out w = (pending, out, w)"
| "batch_lookups ctx spec (m # ms) pending out w =
     (let key = unit_key ctx spec m in
      case cache_lookup ctx key w of
        (Some cached, w1) \<Rightarrow> batch_lookups ctx spec ms pending
           (push_result (pm_node m) (Inr cached)
              (push_event (event_at ctx w1 (pm_node m) (us_tool spec) CacheHit) (count_hit out))) w1
      | (None, w1) \<Rightarrow> batch_lookups ctx spec ms (pending @ [(m, key)]) out w1)"

definition missing_output :: "node_id \<Rightarrow> tool_execution_error" where
  "missing_output node = with_code ''batch_missing_output''
     (error_new (''batch call did not return output for node '' @ quoted node))"

fun batch_answers :: "'w dispatch_context \<Rightarrow> unit_spec \<Rightarrow> 64 word \<Rightarrow> 64 word \<Rightarrow> (node_id, json) btree \<Rightarrow>
    pending_member list \<Rightarrow> dispatch_outcome \<Rightarrow> 'w \<Rightarrow> dispatch_outcome \<times> 'w" where
  "batch_answers ctx spec batch_id duration by_node [] out w = (out, w)"
| "batch_answers ctx spec batch_id duration by_node ((m, key) # pending) out w =
     (case map_of by_node (pm_node m) of
        Some output \<Rightarrow>
          (let w1 = cache_store ctx key output (pm_reads m) w in
           batch_answers ctx spec batch_id duration (bt_remove (pm_node m) by_node) pending
             (push_result (pm_node m) (Inr output)
                (push_event (with_batch (Some batch_id) (with_duration duration
                   (event_at ctx w1 (pm_node m) (us_tool spec) Finished))) out)) w1)
      | None \<Rightarrow>
          (let e = missing_output (pm_node m) in
           batch_answers ctx spec batch_id duration by_node pending
             (push_result (pm_node m) (Inl e)
                (push_event (with_error e (with_batch (Some batch_id) (with_duration duration
                   (event_at ctx w (pm_node m) (us_tool spec) Failed)))) out)) w))"

definition batch_failure :: "'w dispatch_context \<Rightarrow> unit_spec \<Rightarrow> 64 word \<Rightarrow> 64 word \<Rightarrow> tool_execution_error \<Rightarrow>
    pending_member list \<Rightarrow> dispatch_outcome \<Rightarrow> 'w \<Rightarrow> dispatch_outcome" where
  "batch_failure ctx spec batch_id duration e pending out w =
     foldl (\<lambda>out (m, key). push_result (pm_node m) (Inl e)
         (push_event (with_error e (with_batch (Some batch_id) (with_duration duration
            (event_at ctx w (pm_node m) (us_tool spec) Failed)))) out)) out pending"

definition dispatch_batch :: "'w dispatch_context \<Rightarrow> unit_spec \<Rightarrow> prepared_member list \<Rightarrow> dispatch_outcome \<Rightarrow> 'w
    \<Rightarrow> dispatch_outcome \<times> 'w" where
  "dispatch_batch ctx spec members out w0 =
     (case batch_lookups ctx spec members [] out w0 of
        ([], out1, w1) \<Rightarrow> (out1, w1)
      | (p # ps, out1, w1) \<Rightarrow>
          (let pending = p # ps;
               (batch_id, w2) = dc_batch_id ctx w1;
               out2 = foldl (\<lambda>out (m, key). push_event
                   (with_batch (Some batch_id) (event_at ctx w2 (pm_node m) (us_tool spec) Started)) out)
                 (out1\<lparr>do_batch_dispatches := do_batch_dispatches out1 + 1\<rparr>) pending;
               inputs = map (\<lambda>(m, key). \<lparr>bi_node = pm_node m, bi_input = pm_input m\<rparr>) pending;
               call = call_batch_with_policy (dc_executor ctx) (us_tool spec) inputs (pm_policy (fst p)) (dc_nanos ctx w2) w2;
               w3 = po_world call;
               duration = elapsed_ms (dc_clock ctx w2) (dc_clock ctx w3);
               out3 = out2\<lparr>do_retries := do_retries out2 + length (po_retries call)\<rparr>
           in case po_result call of
                Inr outputs \<Rightarrow>
                  batch_answers ctx spec batch_id duration
                    (bt_of_list (map (\<lambda>o'. (bo_node o', bo_output o')) outputs)) pending out3 w3
              | Inl e \<Rightarrow> (batch_failure ctx spec batch_id duration e pending out3 w3, w3)))"

section \<open>Panics and preparation\<close>

definition panicked_outcome :: "(node_id \<Rightarrow> 64 word) \<Rightarrow> node_id list \<Rightarrow> tool_name \<Rightarrow> string \<Rightarrow> dispatch_outcome" where
  "panicked_outcome at members tool join_error =
     (let e = with_retryable False (with_code ''panic'' (error_new (''adapter panicked: '' @ join_error)))
      in \<lparr>do_results = map (\<lambda>m. (m, Inl e)) members,
          do_events = map (\<lambda>m. with_error e (trace_new (at m) m tool Failed)) members,
          do_cache_hits = 0, do_retries = 0, do_batch_dispatches = 0\<rparr>)"

definition member_from_plan :: "node \<Rightarrow> plan \<Rightarrow> json \<Rightarrow> json list option \<Rightarrow> call_policy \<Rightarrow> resource bset
    \<Rightarrow> prepared_member" where
  "member_from_plan n p input items policy reads =
     (let spec = map_of (plan_tools p) (node_tool n);
          effects = Option.bind spec spec_effects
      in \<lparr>pm_node = node_id n, pm_input = input, pm_items = items, pm_policy = policy,
          pm_cacheable = (case effects of None \<Rightarrow> False | Some e \<Rightarrow> eff_pure e \<or> eff_cacheable e),
          pm_version = Option.bind spec spec_version, pm_reads = reads,
          pm_batchable = (case effects of None \<Rightarrow> False | Some e \<Rightarrow> eff_batchable e),
          pm_batch_size = (case Option.bind (Option.bind spec spec_limits) lim_batch_size of
             None \<Rightarrow> usize_max | Some n \<Rightarrow> n)\<rparr>)"

end
