(* ===== verification/Fanout.thy ===== *)
theory Fanout
  imports Dispatch
begin

text \<open>
  Dynamic fan-out, \<^verbatim>\<open>crates/tool-compiler-runtime/src/fanout.rs\<close>, and the dispatch of a whole
  unit: the items of a \<^verbatim>\<open>for_each\<close> node are looked up in the cache, the others run in
  batches or one after the other, and the output is the array of the results in item order.
\<close>

section \<open>Fan-out\<close>

type_synonym pending_item = "nat \<times> cache_key option"

definition fail_fan_out :: "'w dispatch_context \<Rightarrow> unit_spec \<Rightarrow> prepared_member \<Rightarrow> tool_execution_error \<Rightarrow>
    nat \<Rightarrow> dispatch_outcome \<Rightarrow> 'w \<Rightarrow> dispatch_outcome" where
  "fail_fan_out ctx spec m e started out w =
     push_result (pm_node m) (Inl e)
       (push_event (with_error e (with_duration (elapsed_ms started (dc_clock ctx w))
          (event_at ctx w (pm_node m) (us_tool spec) Failed))) out)"

fun item_lookups :: "'w dispatch_context \<Rightarrow> unit_spec \<Rightarrow> prepared_member \<Rightarrow> (nat \<times> json) list \<Rightarrow>
    json option list \<Rightarrow> pending_item list \<Rightarrow> dispatch_outcome \<Rightarrow> 'w \<Rightarrow>
    json option list \<times> pending_item list \<times> dispatch_outcome \<times> 'w" where
  "item_lookups ctx spec m [] results pending out w = (results, pending, out, w)"
| "item_lookups ctx spec m ((index, input) # inputs) results pending out w =
     (case member_key spec m input of
        Some key \<Rightarrow>
          (case dc_cache_get ctx key w of
             (Some cached, w1) \<Rightarrow>
               item_lookups ctx spec m inputs (results[index := Some cached]) pending (count_hit out) w1
           | (None, w1) \<Rightarrow> item_lookups ctx spec m inputs results (pending @ [(index, Some key)]) out w1)
      | None \<Rightarrow> item_lookups ctx spec m inputs results (pending @ [(index, None)]) out w)"

definition missing_item_output :: "nat \<Rightarrow> tool_execution_error" where
  "missing_item_output index = with_code ''batch_missing_output''
     (error_new (''batch call did not return output for item '' @ dec index))"

fun item_answers :: "'w dispatch_context \<Rightarrow> prepared_member \<Rightarrow> (nat, json) btree \<Rightarrow> pending_item list \<Rightarrow>
    json option list \<Rightarrow> 'w \<Rightarrow> (tool_execution_error, json option list) result \<times> 'w" where
  "item_answers ctx m by_index [] results w = (Inr results, w)"
| "item_answers ctx m by_index ((index, key) # chunk) results w =
     (case map_of by_index index of
        None \<Rightarrow> (Inl (missing_item_output index), w)
      | Some output \<Rightarrow>
          item_answers ctx m (bt_remove index by_index) chunk (results[index := Some output])
            (cache_store ctx key output (pm_reads m) w))"

definition index_outputs :: "batch_output list \<Rightarrow> (nat, json) btree" where
  "index_outputs outputs = bt_of_list (List.map_filter
     (\<lambda>o'. case parse_usize (bo_node o') of None \<Rightarrow> None | Some i \<Rightarrow> Some (i, bo_output o')) outputs)"

fun run_fan_out_batched :: "'w dispatch_context \<Rightarrow> unit_spec \<Rightarrow> prepared_member \<Rightarrow> json list \<Rightarrow>
    pending_item list list \<Rightarrow> json option list \<Rightarrow> dispatch_outcome \<Rightarrow> 'w \<Rightarrow>
    (tool_execution_error, json option list) result \<times> dispatch_outcome \<times> 'w" where
  "run_fan_out_batched ctx spec m item_inputs [] results out w = (Inr results, out, w)"
| "run_fan_out_batched ctx spec m item_inputs (chunk # rest) results out w =
     (let inputs = map (\<lambda>(index, key). \<lparr>bi_node = dec index, bi_input = item_inputs ! index\<rparr>) chunk;
          call = call_batch_with_policy (dc_executor ctx) (us_tool spec) inputs (pm_policy m) (dc_nanos ctx w) w;
          out1 = out\<lparr>do_batch_dispatches := do_batch_dispatches out + 1,
                     do_retries := do_retries out + length (po_retries call)\<rparr>
      in case po_result call of
           Inl e \<Rightarrow> (Inl e, out1, po_world call)
         | Inr outputs \<Rightarrow>
             (case item_answers ctx m (index_outputs outputs) chunk results (po_world call) of
                (Inl e, w1) \<Rightarrow> (Inl e, out1, w1)
              | (Inr results1, w1) \<Rightarrow> run_fan_out_batched ctx spec m item_inputs rest results1 out1 w1))"

definition item_error :: "nat \<Rightarrow> tool_execution_error \<Rightarrow> tool_execution_error" where
  "item_error index e = with_code (case err_code e of None \<Rightarrow> ''item_failed'' | Some c \<Rightarrow> c)
     (error_new (''item '' @ dec index @ '': '' @ err_message e))"

fun run_fan_out_sequential :: "'w dispatch_context \<Rightarrow> unit_spec \<Rightarrow> prepared_member \<Rightarrow> json list \<Rightarrow>
    pending_item list \<Rightarrow> json option list \<Rightarrow> dispatch_outcome \<Rightarrow> 'w \<Rightarrow>
    (tool_execution_error, json option list) result \<times> dispatch_outcome \<times> 'w" where
  "run_fan_out_sequential ctx spec m item_inputs [] results out w = (Inr results, out, w)"
| "run_fan_out_sequential ctx spec m item_inputs ((index, key) # pending) results out w =
     (let call = call_with_policy (dc_executor ctx) (us_tool spec) (item_inputs ! index) (pm_policy m) (dc_nanos ctx w) w;
          out1 = out\<lparr>do_retries := do_retries out + length (po_retries call)\<rparr>
      in case po_result call of
           Inl e \<Rightarrow> (Inl (item_error index e), out1, po_world call)
         | Inr output \<Rightarrow>
             run_fan_out_sequential ctx spec m item_inputs pending (results[index := Some output]) out1
               (cache_store ctx key output (pm_reads m) (po_world call)))"

definition or_null :: "json option \<Rightarrow> json" where
  "or_null r = (case r of None \<Rightarrow> JNull | Some v \<Rightarrow> v)"

definition dispatch_fan_out :: "'w dispatch_context \<Rightarrow> unit_spec \<Rightarrow> prepared_member \<Rightarrow> dispatch_outcome \<Rightarrow> 'w
    \<Rightarrow> dispatch_outcome \<times> 'w" where
  "dispatch_fan_out ctx spec m out w0 =
     (let items = (case pm_items m of None \<Rightarrow> [] | Some xs \<Rightarrow> xs);
          out1 = push_event (event_at ctx w0 (pm_node m) (us_tool spec) Started) out;
          started = dc_clock ctx w0
      in case res_map (substitute_item (pm_input m)) items of
           Inl e \<Rightarrow>
             (fail_fan_out ctx spec m (with_code ''invalid_item'' (error_new (runtime_error_to_string e)))
                started out1 w0, w0)
         | Inr item_inputs \<Rightarrow>
             (let n = length item_inputs;
                  (results, pending, out2, w1) =
                    (if dc_use_cache ctx
                     then item_lookups ctx spec m (enumerate 0 item_inputs) (replicate n None) [] out1 w0
                     else (replicate n None, map (\<lambda>index. (index, None)) [0..<n], out1, w0));
                  (run, out3, w2) =
                    (if pm_batchable m \<and> length pending > 1
                     then run_fan_out_batched ctx spec m item_inputs (chunks (max (pm_batch_size m) 1) pending) results out2 w1
                     else run_fan_out_sequential ctx spec m item_inputs pending results out2 w1)
              in case run of
                   Inl e \<Rightarrow> (fail_fan_out ctx spec m e started out3 w2, w2)
                 | Inr results' \<Rightarrow>
                     (push_result (pm_node m) (Inr (JArr (map or_null results')))
                        (push_event (with_duration (elapsed_ms started (dc_clock ctx w2))
                           (event_at ctx w2 (pm_node m) (us_tool spec) Finished)) out3), w2)))"

section \<open>A whole unit\<close>

fun dispatch_members :: "'w dispatch_context \<Rightarrow> unit_spec \<Rightarrow> prepared_member list \<Rightarrow> dispatch_outcome \<Rightarrow> 'w
    \<Rightarrow> dispatch_outcome \<times> 'w" where
  "dispatch_members ctx spec [] out w = (out, w)"
| "dispatch_members ctx spec (m # ms) out w =
     (case (if pm_items m \<noteq> None then dispatch_fan_out ctx spec m out w else dispatch_single ctx spec m out w) of
        (out1, w1) \<Rightarrow> dispatch_members ctx spec ms out1 w1)"

definition dispatch_unit :: "'w dispatch_context \<Rightarrow> unit_spec \<Rightarrow> prepared_member list \<Rightarrow> 'w
    \<Rightarrow> dispatch_outcome \<times> 'w" where
  "dispatch_unit ctx spec members w =
     (if us_batch spec then dispatch_batch ctx spec members outcome_new w
      else dispatch_members ctx spec members outcome_new w)"

section \<open>Every member gets one result\<close>

lemma push_simps [simp]:
  "do_results (push_event e out) = do_results out"
  "do_results (push_result i r out) = do_results out @ [(i, r)]"
  "do_results (count_hit out) = do_results out"
  by (simp_all add: push_event_def push_result_def count_hit_def)

lemma record_retries_results [simp]: "do_results (record_retries ctx w node tool retries out) = do_results out"
proof -
  have "do_results (foldl (\<lambda>out (attempt, e). push_event (g attempt e) out) out xs) = do_results out" for g out and xs :: "(nat \<times> tool_execution_error) list"
    by (induction xs arbitrary: out) auto
  then show ?thesis by (simp add: record_retries_def)
qed

abbreviation result_nodes :: "dispatch_outcome \<Rightarrow> node_id list" where
  "result_nodes out \<equiv> map fst (do_results out)"

lemma dispatch_single_nodes:
  "result_nodes (fst (dispatch_single ctx spec m out w)) = result_nodes out @ [pm_node m]"
  by (simp add: dispatch_single_def Let_def split: prod.split option.split sum.split)

lemma batch_lookups_nodes:
  "batch_lookups ctx spec ms pending out w = (pending', out', w') \<Longrightarrow>
    mset (result_nodes out') + mset (map (pm_node \<circ> fst) pending') =
    mset (result_nodes out) + mset (map (pm_node \<circ> fst) pending) + mset (map pm_node ms)"
proof (induction ms arbitrary: pending out w)
  case (Cons m ms)
  obtain r w1 where l: "cache_lookup ctx (unit_key ctx spec m) w = (r, w1)" by (cases "cache_lookup ctx (unit_key ctx spec m) w")
  show ?case
  proof (cases r)
    case None
    with Cons.prems l have "batch_lookups ctx spec ms (pending @ [(m, unit_key ctx spec m)]) out w1 = (pending', out', w')"
      by (simp add: Let_def)
    from Cons.IH [OF this] show ?thesis by simp
  next
    case (Some cached)
    with Cons.prems l have "batch_lookups ctx spec ms pending (push_result (pm_node m) (Inr cached)
        (push_event (event_at ctx w1 (pm_node m) (us_tool spec) CacheHit) (count_hit out))) w1 = (pending', out', w')"
      by (simp add: Let_def)
    from Cons.IH [OF this] show ?thesis by simp
  qed
qed simp

lemma batch_answers_nodes:
  "result_nodes (fst (batch_answers ctx spec batch_id duration by_node pending out w)) =
     result_nodes out @ map (pm_node \<circ> fst) pending"
  by (induction ctx spec batch_id duration by_node pending out w rule: batch_answers.induct)
    (simp_all add: Let_def split: option.split)

lemma batch_failure_nodes:
  "result_nodes (batch_failure ctx spec batch_id duration e pending out w) =
     result_nodes out @ map (pm_node \<circ> fst) pending"
  unfolding batch_failure_def by (induction pending arbitrary: out) auto

lemma foldl_push_event_results:
  "do_results (foldl (\<lambda>out (m, key). push_event (g m key) out) out xs) = do_results out"
  by (induction xs arbitrary: out) auto

lemma dispatch_batch_nodes:
  "mset (result_nodes (fst (dispatch_batch ctx spec members out w))) =
     mset (result_nodes out) + mset (map pm_node members)"
proof -
  obtain pending out1 w1 where l: "batch_lookups ctx spec members [] out w = (pending, out1, w1)"
    by (metis prod_cases3)
  note nodes = batch_lookups_nodes [OF l]
  show ?thesis
  proof (cases pending)
    case Nil
    with l nodes show ?thesis by (simp add: dispatch_batch_def)
  next
    case (Cons p ps)
    have "result_nodes (fst (dispatch_batch ctx spec members out w)) = result_nodes out1 @ map (pm_node \<circ> fst) pending"
      using l Cons
      by (simp add: dispatch_batch_def Let_def batch_answers_nodes batch_failure_nodes
          foldl_push_event_results case_prod_beta split: sum.split)
    with nodes show ?thesis by simp
  qed
qed

text \<open>A batch call that answers: the pending members take their outputs from it.\<close>

lemma dispatch_batch_answered:
  assumes "batch_lookups ctx spec ms [] out w = (p # ps, out1, w1)" "dc_batch_id ctx w1 = (batch_id, w2)"
    and "po_result (call_batch_with_policy (dc_executor ctx) (us_tool spec)
        (map (\<lambda>(m, key). \<lparr>bi_node = pm_node m, bi_input = pm_input m\<rparr>) (p # ps))
        (pm_policy (fst p)) (dc_nanos ctx w2) w2) = Inr outputs"
  shows "\<exists>out3 duration. do_results out3 = do_results out1 \<and>
    dispatch_batch ctx spec ms out w = batch_answers ctx spec batch_id duration
      (bt_of_list (map (\<lambda>o'. (bo_node o', bo_output o')) outputs)) (p # ps) out3
      (po_world (call_batch_with_policy (dc_executor ctx) (us_tool spec)
        (map (\<lambda>(m, key). \<lparr>bi_node = pm_node m, bi_input = pm_input m\<rparr>) (p # ps))
        (pm_policy (fst p)) (dc_nanos ctx w2) w2))"
  unfolding dispatch_batch_def assms(1) prod.case list.case Let_def assms(2,3) sum.case
  by (intro exI conjI, rule_tac [2] refl) (simp add: foldl_push_event_results del: foldl_Cons)

lemma item_lookups_results:
  "item_lookups ctx spec m inputs results pending out w = (results', pending', out', w') \<Longrightarrow>
    do_results out' = do_results out"
  by (induction ctx spec m inputs results pending out w rule: item_lookups.induct)
    (auto split: option.splits prod.splits)

lemma batched_results:
  "run_fan_out_batched ctx spec m inputs cs results out w = (r, out', w') \<Longrightarrow> do_results out' = do_results out"
  by (induction ctx spec m inputs cs results out w rule: run_fan_out_batched.induct)
    (auto simp: Let_def split: sum.splits prod.splits)

lemma sequential_results:
  "run_fan_out_sequential ctx spec m inputs pending results out w = (r, out', w') \<Longrightarrow> do_results out' = do_results out"
  by (induction ctx spec m inputs pending results out w rule: run_fan_out_sequential.induct)
    (auto simp: Let_def split: sum.splits)

lemma dispatch_fan_out_nodes:
  "result_nodes (fst (dispatch_fan_out ctx spec m out w)) = result_nodes out @ [pm_node m]"
  by (auto simp: dispatch_fan_out_def Let_def fail_fan_out_def
      dest!: item_lookups_results batched_results sequential_results split: sum.split prod.split if_splits)

lemma dispatch_members_nodes:
  "result_nodes (fst (dispatch_members ctx spec ms out w)) = result_nodes out @ map pm_node ms"
proof (induction ms arbitrary: out w)
  case (Cons m ms)
  obtain out1 w1 where d: "(if pm_items m \<noteq> None then dispatch_fan_out ctx spec m out w
      else dispatch_single ctx spec m out w) = (out1, w1)" by (metis surj_pair)
  then have "result_nodes out1 = result_nodes out @ [pm_node m]"
    using dispatch_fan_out_nodes [of ctx spec m out w] dispatch_single_nodes [of ctx spec m out w]
    by (auto split: if_splits)
  with Cons.IH [of out1 w1] d show ?case by simp
qed simp

text \<open>
  C34. Whatever the executor and the cache do, a dispatched unit reports exactly one result for
  each of its members: hits, outputs, missing batch answers and failures included.
\<close>

theorem dispatch_reports_every_member:
  "mset (map fst (do_results (fst (dispatch_unit ctx spec members w)))) = mset (map pm_node members)"
proof (cases "us_batch spec")
  case True
  with dispatch_batch_nodes [of ctx spec members outcome_new w] show ?thesis
    by (simp add: dispatch_unit_def outcome_new_def)
next
  case False
  with arg_cong [OF dispatch_members_nodes [of ctx spec members outcome_new w], of mset] show ?thesis
    by (simp add: dispatch_unit_def outcome_new_def)
qed

end
