(* ===== verification/Builtin.thy ===== *)
theory Builtin
  imports AdapterApi RuntimeRefs
begin

text \<open>
  The built-in pure data tools, \<^verbatim>\<open>crates/tool-compiler-runtime/src/builtin.rs\<close>: \<open>collect\<close>,
  \<open>pick\<close>, \<open>merge\<close> and \<open>template\<close>, and the executor that serves them.
\<close>

section \<open>The tools\<close>

definition BUILTIN_TOOLS :: "string list" where
  "BUILTIN_TOOLS = [''collect'', ''pick'', ''merge'', ''template'']"

definition missing_field :: "string \<Rightarrow> string \<Rightarrow> tool_execution_error" where
  "missing_field tool field =
     with_code ''invalid_input'' (error_new (tool @ '': missing field '' @ quoted field))"

fun pick_path :: "string list \<Rightarrow> json \<Rightarrow> (tool_execution_error, json) result" where
  "pick_path [] current = Inr current"
| "pick_path (segment # path) current =
     (case step_into current segment of
        None \<Rightarrow> Inl (with_code ''missing_path''
          (error_new (''pick: path segment '' @ quoted segment @ '' not found'')))
      | Some v \<Rightarrow> pick_path path v)"

definition pick :: "json \<Rightarrow> (tool_execution_error, json) result" where
  "pick input =
     res_bind (ok_or (missing_field ''pick'' ''value'') (json_get input ''value'')) (\<lambda>v.
     res_bind (ok_or (missing_field ''pick'' ''path'') (Option.bind (json_get input ''path'') as_str)) (\<lambda>path.
       pick_path (filter (\<lambda>s. s \<noteq> []) (split_on CHR ''.'' path)) v))"

fun merge_objects ::
  "json list \<Rightarrow> (string, json) btree \<Rightarrow> (tool_execution_error, (string, json) btree) result" where
  "merge_objects [] merged = Inr merged"
| "merge_objects (JObj kvs # objects) merged =
     merge_objects objects (foldl (\<lambda>m (k, v). bt_insert k v m) merged kvs)"
| "merge_objects (v # objects) merged =
     Inl (with_code ''invalid_input''
       (error_new (''merge: every element of '' @ quoted ''objects'' @ '' must be an object'')))"

definition merge :: "json \<Rightarrow> (tool_execution_error, json) result" where
  "merge input =
     res_bind (ok_or (missing_field ''merge'' ''objects'') (Option.bind (json_get input ''objects'') as_array))
       (\<lambda>objects. res_bind (merge_objects objects []) (\<lambda>merged. Inr (JObj merged)))"

definition template :: "json \<Rightarrow> (tool_execution_error, json) result" where
  "template input =
     res_bind (ok_or (missing_field ''template'' ''template'') (Option.bind (json_get input ''template'') as_str)) (\<lambda>t.
     res_bind (ok_or (missing_field ''template'' ''values'') (json_get input ''values'')) (\<lambda>values.
       let rendered = resolve_resource_template t values in
       if rendered = t \<and> CHR ''{'' \<in> set t \<and> CHR ''}'' \<in> set t
       then Inl (with_code ''invalid_input''
         (error_new (''template: placeholders could not be resolved from '' @ quoted ''values'')))
       else Inr (JStr rendered)))"

definition builtin_call :: "string \<Rightarrow> json \<Rightarrow> (tool_execution_error, json) result" where
  "builtin_call tool input =
     (if tool = ''collect'' then Inr input
      else if tool = ''pick'' then pick input
      else if tool = ''merge'' then merge input
      else if tool = ''template'' then template input
      else Inl (with_code ''unknown_tool'' (error_new (''unknown builtin tool '' @ quoted tool))))"

text \<open>As an executor the tools answer at once and leave the world alone.\<close>

definition builtin_executor :: "'w executor" where
  "builtin_executor = executor_of (\<lambda>tool input w.
     \<lparr>tr_result = builtin_call tool input, tr_time = 0, tr_world = (\<lambda>_. w)\<rparr>)"

section \<open>What the tools compute\<close>

text \<open>The object a left-to-right shallow merge stands for: the last object with a key wins.\<close>

lemma bt_of_list_append: "foldl (\<lambda>m (k, v). bt_insert k v m) m (xs @ ys)
    = foldl (\<lambda>m (k, v). bt_insert k v m) (foldl (\<lambda>m (k, v). bt_insert k v m) m xs) ys"
  by simp

lemma merge_objects_objects:
  "merge_objects (map JObj objs) m = Inr (foldl (\<lambda>m (k, v). bt_insert k v m) m (concat objs))"
  by (induction objs arbitrary: m) simp_all

lemma merge_objects_Inr:
  "merge_objects objects m = Inr m' \<longleftrightarrow>
     (\<exists>objs. objects = map JObj objs \<and> m' = foldl (\<lambda>m (k, v). bt_insert k v m) m (concat objs))"
proof
  show "merge_objects objects m = Inr m' \<Longrightarrow>
      \<exists>objs. objects = map JObj objs \<and> m' = foldl (\<lambda>m (k, v). bt_insert k v m) m (concat objs)"
  proof (induction objects m rule: merge_objects.induct)
    case (2 kvs objects merged)
    then obtain objs where "objects = map JObj objs"
      "m' = foldl (\<lambda>m (k, v). bt_insert k v m) (foldl (\<lambda>m (k, v). bt_insert k v m) merged kvs) (concat objs)"
      by auto
    then show ?case by (intro exI [of _ "kvs # objs"]) simp
  qed auto
qed (auto simp: merge_objects_objects)

lemma pick_path_Inr: "pick_path path v = Inr x \<longleftrightarrow> walk_item path v = Some x"
  by (induction path arbitrary: v) (simp_all split: option.split)

text \<open>
  \<open>merge\<close> succeeds exactly on an array of objects under \<open>objects\<close>; the result is a
  well-ordered object that maps every key to its value in the last object that has it.
\<close>

theorem merge_spec:
  "merge (JObj kvs) = Inr v \<longleftrightarrow>
     (\<exists>objs. map_of kvs ''objects'' = Some (JArr (map JObj objs)) \<and> v = JObj (bt_of_list (concat objs)))"
proof -
  have "merge (JObj kvs) = Inr v \<longleftrightarrow> (\<exists>objects. map_of kvs ''objects'' = Some (JArr objects) \<and>
      (\<exists>m. merge_objects objects [] = Inr m \<and> v = JObj m))"
  proof (cases "map_of kvs ''objects''")
    case (Some w)
    then show ?thesis by (cases w) (auto simp: merge_def json_get_def as_array_def)
  qed (simp add: merge_def json_get_def)
  also have "\<dots> \<longleftrightarrow> (\<exists>objs. map_of kvs ''objects'' = Some (JArr (map JObj objs)) \<and> v = JObj (bt_of_list (concat objs)))"
    by (auto simp: merge_objects_Inr bt_of_list_def)
  finally show ?thesis .
qed

lemma merged_lookup: "map_of (bt_of_list (concat objs)) k = map_of (rev (concat objs)) k"
  by (rule bt_get_of_list)

text \<open>The built-in executor meets the batch contract and is a function of its input.\<close>

lemma builtin_batch:
  "tr_result (ex_call_batch builtin_executor tool inputs w) =
     res_map (\<lambda>i. res_bind (builtin_call tool (bi_input i)) (\<lambda>v. Inr \<lparr>bo_node = bi_node i, bo_output = v\<rparr>)) inputs"
proof (induction inputs arbitrary: w)
  case Nil
  then show ?case by (simp add: builtin_executor_def executor_of_def)
next
  case (Cons i inputs)
  then show ?case
    by (auto simp: builtin_executor_def executor_of_def tr_bind_def Let_def res_bind_def split: sum.splits)
qed

interpretation builtin_batch: batch_executor "ex_call_batch builtin_executor"
  unfolding builtin_executor_def executor_of_def executor.simps by (rule default_batch.batch_executor_axioms)

lemma builtin_pure: "tr_world (ex_call builtin_executor tool input w) t = w"
  by (simp add: builtin_executor_def executor_of_def)

text \<open>A template without placeholders is rejected when it holds both braces.\<close>

lemma template_rejects_plain_braces:
  "template (JObj [(''template'', JStr ''}{''), (''values'', JObj [])]) =
     Inl (with_code ''invalid_input''
       (error_new (''template: placeholders could not be resolved from '' @ quoted ''values'')))"
  by code_simp

end
