(* ===== verification/Transparent.thy ===== *)
theory Transparent
  imports Fanout Builtin
begin

text \<open>
  Caching, single flight, batching, retries and fan-out do not change what a pure tool
  computes. The interface is a locale: an executor that answers each input with a function of
  it, and a cache that holds nothing else. It is interpreted on the built-in executor behind the
  in-memory cache.
\<close>

section \<open>Cache entries that hold the tool's answers\<close>

definition sound_entry :: "unit_spec \<Rightarrow> (json \<Rightarrow> call_result) \<Rightarrow> cache_key \<Rightarrow> json \<Rightarrow> bool" where
  "sound_entry spec f k v \<longleftrightarrow> (\<forall>input. wf_json input \<longrightarrow> ck_adapter k = us_adapter spec \<longrightarrow>
     ck_tool k = us_tool spec \<longrightarrow> ck_input k = canonical_json_string input \<longrightarrow> f input = Inr v)"

lemma member_key_Some:
  "member_key spec m input = Some k \<Longrightarrow> ck_adapter k = us_adapter spec \<and> ck_tool k = us_tool spec \<and>
     ck_input k = canonical_json_string input"
  by (auto simp: member_key_def split: if_splits)

lemma sound_entry_hit:
  "sound_entry spec f k v \<Longrightarrow> member_key spec m input = Some k \<Longrightarrow> wf_json input \<Longrightarrow> f input = Inr v"
  by (auto simp: sound_entry_def dest: member_key_Some)

lemma sound_entry_store:
  assumes "member_key spec m input = Some k" "wf_json input" "f input = Inr v"
  shows "sound_entry spec f k v"
  unfolding sound_entry_def
proof (intro allI impI)
  fix input' assume w: "wf_json input'" and "ck_input k = canonical_json_string input'"
  with member_key_Some [OF assms(1)] have "canonical_json_string input' = canonical_json_string input" by simp
  with canonical_inj [OF w assms(2)] assms(3) show "f input' = Inr v" by simp
qed

lemma mset_map_filter: "mset xs = mset ys \<Longrightarrow> mset (List.map_filter g xs) = mset (List.map_filter g ys)"
  by (simp add: map_filter_def mset_filter)

lemma not_isl: "\<not> isl x \<Longrightarrow> \<exists>v. x = Inr v"
  by (cases x) auto

section \<open>The interface\<close>

locale pure_dispatch =
  fixes ctx :: "'w dispatch_context" and spec :: unit_spec and timeout :: "64 word option"
    and f :: "json \<Rightarrow> call_result" and inv :: "'w \<Rightarrow> bool"
  assumes call_result: "inv w \<Longrightarrow> fst (with_timeout timeout (ex_call (dc_executor ctx) (us_tool spec) input w)) = f input"
    and call_inv: "inv w \<Longrightarrow> inv (snd (with_timeout timeout (ex_call (dc_executor ctx) (us_tool spec) input w)))"
    and batch_result: "inv w \<Longrightarrow> (\<And>i. i \<in> set inputs \<Longrightarrow> \<exists>v. f (bi_input i) = Inr v) \<Longrightarrow>
      \<exists>outputs. fst (with_timeout timeout (ex_call_batch (dc_executor ctx) (us_tool spec) inputs w)) = Inr outputs \<and>
        mset (map (\<lambda>o'. (bo_node o', Inr (bo_output o'))) outputs) = mset (map (\<lambda>i. (bi_node i, f (bi_input i))) inputs)"
    and batch_inv: "inv w \<Longrightarrow> inv (snd (with_timeout timeout (ex_call_batch (dc_executor ctx) (us_tool spec) inputs w)))"
    and get_sound: "inv w \<Longrightarrow> dc_cache_get ctx k w = (Some v, w') \<Longrightarrow> sound_entry spec f k v"
    and get_inv: "inv w \<Longrightarrow> inv (snd (dc_cache_get ctx k w))"
    and insert_inv: "inv w \<Longrightarrow> sound_entry spec f k v \<Longrightarrow> ck_adapter k = us_adapter spec \<Longrightarrow>
      ck_tool k = us_tool spec \<Longrightarrow> inv (dc_cache_insert ctx k v reads w)"
    and acquire_inv: "inv w \<Longrightarrow> inv (dc_acquire ctx k w)"
    and release_inv: "inv w \<Longrightarrow> inv (dc_release ctx k w)"
    and batch_id_inv: "inv w \<Longrightarrow> inv (snd (dc_batch_id ctx w))"
begin

lemma retried_call:
  assumes "\<And>w. inv w \<Longrightarrow> fst (with_timeout (cp_timeout policy) (run w)) = r"
    and "\<And>w. inv w \<Longrightarrow> inv (snd (with_timeout (cp_timeout policy) (run w)))" and "inv w"
  shows "po_result (retry_loop run policy nanos a rs ss w) = r \<and> inv (po_world (retry_loop run policy nanos a rs ss w))"
  using assms
proof (induction run policy nanos a rs ss w rule: retry_loop.induct)
  case (1 run policy nanos a rs ss w)
  obtain x w1 where t: "with_timeout (cp_timeout policy) (run w) = (x, w1)" by (cases "with_timeout (cp_timeout policy) (run w)")
  with "1.prems"(1) [OF "1.prems"(3)] "1.prems"(2) [OF "1.prems"(3)] have x: "x = r" "inv w1" by simp_all
  show ?case
  proof (cases x)
    case (Inr v)
    then have "r = Inr v" using x(1) by simp
    with t Inr x(2) show ?thesis by (simp add: retry_loop.simps [of run])
  next
    case (Inl e)
    then have r: "r = Inl e" using x(1) by simp
    show ?thesis
    proof (cases "a \<ge> cp_max_attempts policy \<or> \<not> is_retryable policy e")
      case True
      with t Inl r x(2) show ?thesis by (auto simp: retry_loop.simps [of run])
    next
      case False
      from "1.IH" [OF t [symmetric] Inl False "1.prems"(1,2) x(2)] False t Inl show ?thesis
        by (simp add: retry_loop.simps [of run _ _ a rs ss w])
    qed
  qed
qed

lemma call_value:
  assumes "inv w" "cp_timeout policy = timeout"
  shows "po_result (call_with_policy (dc_executor ctx) (us_tool spec) input policy nanos w) = f input"
    and "inv (po_world (call_with_policy (dc_executor ctx) (us_tool spec) input policy nanos w))"
  using retried_call [of policy "ex_call (dc_executor ctx) (us_tool spec) input" "f input" w nanos 1 "[]" "[]"]
    call_result call_inv assms by (simp_all add: call_with_policy_def)

lemma store_inv:
  assumes "inv w" "key = None \<or> key = member_key spec m input" "wf_json input" "f input = Inr v"
  shows "inv (cache_store ctx key v reads w)"
proof (cases key)
  case None
  then show ?thesis using assms(1) by (simp add: cache_store_def)
next
  case (Some k)
  with assms(2) have "member_key spec m input = Some k" by auto
  from sound_entry_store [where f = f, OF this assms(3,4)] have "sound_entry spec f k v" .
  with insert_inv [OF assms(1) this] member_key_Some [OF \<open>member_key spec m input = Some k\<close>] Some
  show ?thesis by (simp add: cache_store_def)
qed

lemma lookup_value:
  assumes "inv w" "cache_lookup ctx key w = (r, w')" "key = None \<or> key = member_key spec m input" "wf_json input"
  shows "inv w'" "r = Some v \<Longrightarrow> f input = Inr v"
proof -
  show "inv w'"
  proof (cases key)
    case (Some k)
    with assms(2) get_inv [OF assms(1), of k] show ?thesis by (simp add: cache_lookup_def)
  qed (use assms(1,2) in \<open>simp add: cache_lookup_def\<close>)
  show "f input = Inr v" if "r = Some v"
  proof (cases key)
    case None
    with assms(2) that show ?thesis by (simp add: cache_lookup_def)
  next
    case (Some k)
    with assms(2) that have g: "dc_cache_get ctx k w = (Some v, w')" by (simp add: cache_lookup_def)
    have "member_key spec m input = Some k" using assms(3) Some by auto
    from sound_entry_hit [OF get_sound [OF assms(1) g] this assms(4)] show ?thesis .
  qed
qed

lemma single_value:
  assumes "inv w" "wf_json (pm_input m)" "cp_timeout (pm_policy m) = timeout"
  shows "do_results (fst (dispatch_single ctx spec m out w)) = do_results out @ [(pm_node m, f (pm_input m))] \<and>
    inv (snd (dispatch_single ctx spec m out w))"
proof -
  let ?key = "unit_key ctx spec m"
  have key: "?key = None \<or> ?key = member_key spec m (pm_input m)" by (simp add: unit_key_def)
  define w1 where "w1 = (case ?key of None \<Rightarrow> w | Some k \<Rightarrow> dc_acquire ctx k w)"
  have w1: "inv w1" using assms(1) acquire_inv by (simp add: w1_def split: option.split)
  have leave: "inv (case ?key of None \<Rightarrow> x | Some k \<Rightarrow> dc_release ctx k x)" if "inv x" for x
    using that release_inv by (simp split: option.split)
  obtain r w2 where l: "cache_lookup ctx ?key w1 = (r, w2)" by (cases "cache_lookup ctx ?key w1")
  note lk = lookup_value [OF w1 l key assms(2)]
  show ?thesis
  proof (cases r)
    case (Some v)
    with l lk leave show ?thesis
      by (simp add: dispatch_single_def Let_def w1_def [symmetric])
  next
    case None
    define call where "call = call_with_policy (dc_executor ctx) (us_tool spec) (pm_input m) (pm_policy m) (dc_nanos ctx w2) w2"
    have c: "po_result call = f (pm_input m)" "inv (po_world call)"
      using call_value [OF lk(1) assms(3)] by (simp_all add: call_def)
    show ?thesis
    proof (cases "f (pm_input m)")
      case (Inl e)
      with None l c leave show ?thesis
        by (simp add: dispatch_single_def Let_def w1_def [symmetric] call_def [symmetric])
    next
      case (Inr v)
      with None l c leave store_inv [OF c(2) key assms(2) Inr] show ?thesis
        by (simp add: dispatch_single_def Let_def w1_def [symmetric] call_def [symmetric])
    qed
  qed
qed

lemma subseq_set: "subseq xs ys \<Longrightarrow> set xs \<subseteq> set ys"
  by (induction rule: list_emb.induct) auto

lemma subseq_distinct: "subseq xs ys \<Longrightarrow> distinct ys \<Longrightarrow> distinct xs"
  by (induction rule: list_emb.induct) (auto dest: subseq_set)

lemma first_success:
  "fst (with_timeout (cp_timeout policy) (run w)) = Inr v \<Longrightarrow>
    po_result (retry_loop run policy nanos a rs ss w) = Inr v \<and>
    po_world (retry_loop run policy nanos a rs ss w) = snd (with_timeout (cp_timeout policy) (run w))"
  by (cases "with_timeout (cp_timeout policy) (run w)") (simp add: retry_loop.simps [of run])

text \<open>A batch: the pending members are answered by the batch call, the others by the cache.\<close>

definition member_ok :: "prepared_member \<Rightarrow> bool" where
  "member_ok m \<longleftrightarrow> wf_json (pm_input m) \<and> cp_timeout (pm_policy m) = timeout"

definition answer :: "prepared_member \<Rightarrow> node_id \<times> call_result" where
  "answer m = (pm_node m, f (pm_input m))"

lemma lookups_value:
  assumes "batch_lookups ctx spec ms pending out w = (pending', out', w')" "inv w" "\<forall>m \<in> set ms. member_ok m"
  shows "inv w' \<and>
    (\<exists>new. pending' = pending @ new \<and> subseq (map fst new) ms \<and>
      (\<forall>(m, key) \<in> set new. key = None \<or> key = member_key spec m (pm_input m)) \<and>
      mset (do_results out') + mset (map (\<lambda>p. answer (fst p)) new) = mset (do_results out) + mset (map answer ms))"
  using assms
proof (induction ms arbitrary: pending out w)
  case Nil
  then show ?case by simp
next
  case (Cons m ms)
  let ?key = "unit_key ctx spec m"
  have key: "?key = None \<or> ?key = member_key spec m (pm_input m)" by (simp add: unit_key_def)
  have m: "wf_json (pm_input m)" using Cons.prems(3) by (simp add: member_ok_def)
  have ms: "\<forall>m \<in> set ms. member_ok m" using Cons.prems(3) by simp
  obtain r w1 where l: "cache_lookup ctx ?key w = (r, w1)" by (cases "cache_lookup ctx ?key w")
  note lk = lookup_value [OF Cons.prems(2) l key m]
  show ?case
  proof (cases r)
    case None
    with Cons.prems(1) l have "batch_lookups ctx spec ms (pending @ [(m, ?key)]) out w1 = (pending', out', w')"
      by (simp add: Let_def)
    from Cons.IH [OF this lk(1) ms] obtain new where n: "inv w'" "pending' = (pending @ [(m, ?key)]) @ new"
      "subseq (map fst new) ms" "\<forall>(m, key) \<in> set new. key = None \<or> key = member_key spec m (pm_input m)"
      "mset (do_results out') + mset (map (\<lambda>p. answer (fst p)) new) = mset (do_results out) + mset (map answer ms)" by blast
    have "mset (do_results out') + mset (map (\<lambda>p. answer (fst p)) ((m, ?key) # new)) = mset (do_results out) + mset (map answer (m # ms))"
      using n(5) by simp
    moreover have "subseq (map fst ((m, ?key) # new)) (m # ms)" using n(3) by simp
    moreover have "\<forall>(m, key) \<in> set ((m, ?key) # new). key = None \<or> key = member_key spec m (pm_input m)" using n(4) key by simp
    ultimately show ?thesis using n(1,2) by (intro conjI exI [of _ "(m, ?key) # new"]) simp_all
  next
    case (Some v)
    define out1 where "out1 = push_result (pm_node m) (Inr v)
      (push_event (event_at ctx w1 (pm_node m) (us_tool spec) CacheHit) (count_hit out))"
    have "batch_lookups ctx spec ms pending out1 w1 = (pending', out', w')"
      using Cons.prems(1) l Some by (simp add: Let_def out1_def)
    from Cons.IH [OF this lk(1) ms] obtain new where n: "inv w'" "pending' = pending @ new"
      "subseq (map fst new) ms" "\<forall>(m, key) \<in> set new. key = None \<or> key = member_key spec m (pm_input m)"
      "mset (do_results out') + mset (map (\<lambda>p. answer (fst p)) new) = mset (do_results out1) + mset (map answer ms)" by blast
    have "do_results out1 = do_results out @ [answer m]" using lk(2) [OF Some] by (simp add: out1_def answer_def)
    then have "mset (do_results out') + mset (map (\<lambda>p. answer (fst p)) new) = mset (do_results out) + mset (map answer (m # ms))"
      using n(5) by simp
    moreover have "subseq (map fst new) (m # ms)" using n(3) by (rule list_emb_Cons)
    ultimately show ?thesis using n(1,2,4) by (intro conjI exI [of _ new]) simp_all
  qed
qed

lemma answers_value:
  assumes "inv w" "\<forall>(m, key) \<in> set pending. member_ok m \<and> (key = None \<or> key = member_key spec m (pm_input m)) \<and>
      map_option Inr (map_of by_node (pm_node m)) = Some (f (pm_input m))"
    and "distinct (map (\<lambda>p. pm_node (fst p)) pending)"
  shows "do_results (fst (batch_answers ctx spec batch_id duration by_node pending out w)) =
      do_results out @ map (\<lambda>p. answer (fst p)) pending \<and>
    inv (snd (batch_answers ctx spec batch_id duration by_node pending out w))"
  using assms
proof (induction pending arbitrary: by_node out w)
  case (Cons p pending)
  obtain m key where p: "p = (m, key)" by (cases p)
  have hd: "member_ok m" "key = None \<or> key = member_key spec m (pm_input m)"
    "map_option Inr (map_of by_node (pm_node m)) = Some (f (pm_input m))"
    using Cons.prems(2) p by simp_all
  from hd(3) obtain v where "map_of by_node (pm_node m) = Some v" "f (pm_input m) = Inr v" by fastforce
  note v = this hd(1,2)
  have inv: "inv (cache_store ctx key v (pm_reads m) w)"
    using store_inv [OF Cons.prems(1) v(4) _ v(2)] v(3) by (simp add: member_ok_def)
  have rest: "\<forall>(m', key') \<in> set pending. member_ok m' \<and> (key' = None \<or> key' = member_key spec m' (pm_input m')) \<and>
      map_option Inr (map_of (bt_remove (pm_node m) by_node) (pm_node m')) = Some (f (pm_input m'))"
  proof (intro ballI, clarify)
    fix m' key' assume k: "(m', key') \<in> set pending"
    have in': "pm_node m' \<in> set (map (\<lambda>p. pm_node (fst p)) pending)" using k by force
    have "pm_node m \<notin> set (map (\<lambda>p. pm_node (fst p)) pending)"
      using Cons.prems(3) unfolding p list.map distinct.simps(2) fst_conv by (rule conjunct1)
    with in' have "pm_node m' \<noteq> pm_node m" by metis
    with Cons.prems(2) k show "member_ok m' \<and> (key' = None \<or> key' = member_key spec m' (pm_input m')) \<and>
      map_option Inr (map_of (bt_remove (pm_node m) by_node) (pm_node m')) = Some (f (pm_input m'))" by auto
  qed
  have "distinct (map (\<lambda>p. pm_node (fst p)) pending)" using Cons.prems(3) by simp
  from Cons.IH [OF inv rest this] v p show ?case by (simp add: Let_def answer_def)
qed simp

lemma answered:
  assumes "mset (map (\<lambda>o'. (bo_node o', Inr (bo_output o'))) outputs) = mset (map (\<lambda>p. answer (fst p)) pending)"
    and "distinct (map (\<lambda>p. pm_node (fst p)) pending)" "(m, key) \<in> set pending"
  shows "map_option Inr (map_of (bt_of_list (map (\<lambda>o'. (bo_node o', bo_output o')) outputs)) (pm_node m)) = Some (f (pm_input m))"
proof -
  have "mset (map bo_node outputs) = mset (map (\<lambda>p. pm_node (fst p)) pending)"
    using arg_cong [OF assms(1), of "image_mset fst"] by (simp add: image_mset.compositionality o_def answer_def)
  then have "distinct (map bo_node outputs)" using assms(2) mset_eq_imp_distinct_iff by blast
  then have dis: "distinct (map fst (map (\<lambda>o'. (bo_node o', bo_output o')) outputs))" by (simp add: o_def)
  have "answer m \<in> set (map (\<lambda>p. answer (fst p)) pending)" using assms(3) by force
  also have "set (map (\<lambda>p. answer (fst p)) pending) = set (map (\<lambda>o'. (bo_node o', Inr (bo_output o'))) outputs)"
    using assms(1) by (metis mset_eq_setD)
  finally obtain o' where o': "o' \<in> set outputs" "pm_node m = bo_node o'" "f (pm_input m) = Inr (bo_output o')"
    by (auto simp: answer_def)
  then have "map_of (map (\<lambda>o'. (bo_node o', bo_output o')) outputs) (pm_node m) = Some (bo_output o')"
    by (intro map_of_is_SomeI [OF dis]) force
  then show ?thesis using o'(3) by (simp add: bt_get_of_list_distinct [OF dis])
qed

lemma batch_value:
  assumes "inv w" "\<forall>m \<in> set ms. member_ok m" "distinct (map pm_node ms)" "\<forall>m \<in> set ms. \<exists>v. f (pm_input m) = Inr v"
  shows "mset (do_results (fst (dispatch_batch ctx spec ms out w))) = mset (do_results out) + mset (map answer ms) \<and>
    inv (snd (dispatch_batch ctx spec ms out w))"
proof -
  obtain pending out1 w1 where l: "batch_lookups ctx spec ms [] out w = (pending, out1, w1)" by (metis prod_cases3)
  from lookups_value [OF l assms(1,2)] have n: "inv w1" "subseq (map fst pending) ms"
    "\<forall>(m, key) \<in> set pending. key = None \<or> key = member_key spec m (pm_input m)"
    "mset (do_results out1) + mset (map (\<lambda>p. answer (fst p)) pending) = mset (do_results out) + mset (map answer ms)" by auto
  have sub: "set (map fst pending) \<subseteq> set ms" using n(2) by (rule subseq_set)
  have dis: "distinct (map (\<lambda>p. pm_node (fst p)) pending)"
    using subseq_distinct [OF subseq_map [OF n(2), of pm_node] assms(3)] by (simp add: o_def)
  show ?thesis
  proof (cases pending)
    case Nil
    with l n show ?thesis by (simp add: dispatch_batch_def)
  next
    case (Cons p ps)
    obtain batch_id w2 where b: "dc_batch_id ctx w1 = (batch_id, w2)" by (cases "dc_batch_id ctx w1")
    have w2: "inv w2" using batch_id_inv [OF n(1)] b by simp
    define inputs where "inputs = map (\<lambda>(m, key :: cache_key option). \<lparr>bi_node = pm_node m, bi_input = pm_input m\<rparr>) pending"
    have "fst p \<in> set ms" using sub unfolding Cons by simp
    then have tmo: "cp_timeout (pm_policy (fst p)) = timeout" using assms(2) unfolding member_ok_def by blast
    have "\<exists>v. f (bi_input i) = Inr v" if "i \<in> set inputs" for i
    proof -
      from that obtain m key where "(m, key) \<in> set pending" "bi_input i = pm_input m" by (auto simp: inputs_def)
      with sub assms(4) show ?thesis by (metis fst_conv image_eqI set_map subsetD)
    qed
    from batch_result [OF w2 this, of inputs] obtain outputs where
      o: "fst (with_timeout timeout (ex_call_batch (dc_executor ctx) (us_tool spec) inputs w2)) = Inr outputs"
        "mset (map (\<lambda>o'. (bo_node o', Inr (bo_output o'))) outputs) = mset (map (\<lambda>i. (bi_node i, f (bi_input i))) inputs)"
      by blast
    have ins: "map (\<lambda>i. (bi_node i, f (bi_input i))) inputs = map (\<lambda>p. answer (fst p)) pending"
      by (simp add: inputs_def answer_def case_prod_beta)
    define call where "call = call_batch_with_policy (dc_executor ctx) (us_tool spec) inputs (pm_policy (fst p)) (dc_nanos ctx w2) w2"
    have c: "po_result call = Inr outputs" "inv (po_world call)"
      using first_success [where run = "ex_call_batch (dc_executor ctx) (us_tool spec) inputs" and w = w2,
          OF o(1) [folded tmo], of "dc_nanos ctx w2" 1 "[]" "[]"] batch_inv [OF w2, of inputs] tmo
      by (simp_all add: call_def call_batch_with_policy_def)
    define by_node where "by_node = bt_of_list (map (\<lambda>o'. (bo_node o', bo_output o')) outputs)"
    have known: "map_option Inr (map_of by_node (pm_node m)) = Some (f (pm_input m))"
      if "(m, key) \<in> set pending" for m and key :: "cache_key option"
      unfolding by_node_def using that by (rule answered [OF o(2) [unfolded ins] dis])
    have "\<forall>(m, key) \<in> set pending. member_ok m \<and> (key = None \<or> key = member_key spec m (pm_input m)) \<and>
        map_option Inr (map_of by_node (pm_node m)) = Some (f (pm_input m))"
    proof (rule ballI, unfold case_prod_beta, intro conjI)
      fix p assume p: "p \<in> set pending"
      have "fst p \<in> set ms" using p sub by auto
      then show "member_ok (fst p)" using assms(2) by blast
      show "snd p = None \<or> snd p = member_key spec (fst p) (pm_input (fst p))" using n(3) p by (simp add: case_prod_beta)
      show "map_option Inr (map_of by_node (pm_node (fst p))) = Some (f (pm_input (fst p)))"
        using known [of "fst p" "snd p"] p by simp
    qed
    note av = answers_value [OF c(2) this dis]
    from dispatch_batch_answered [OF l [unfolded Cons] b, of outputs, folded Cons, folded inputs_def, folded call_def, OF c(1)]
    obtain out3 duration where d: "do_results out3 = do_results out1"
      "dispatch_batch ctx spec ms out w = batch_answers ctx spec batch_id duration by_node pending out3 (po_world call)"
      unfolding by_node_def by blast
    show ?thesis unfolding d(2) using av n(4) d(1) by simp
  qed
qed

text \<open>Fan-out: \<open>inputs\<close> are the item inputs and \<open>vs\<close> the tool's answers to them.\<close>

definition filled :: "json list \<Rightarrow> nat set \<Rightarrow> json option list \<Rightarrow> json option list \<Rightarrow> bool" where
  "filled vs I results results' \<longleftrightarrow> length results' = length results \<and>
     (\<forall>i < length results. results' ! i = (if i \<in> I then Some (vs ! i) else results ! i))"

lemma filled_empty: "filled vs {} results results"
  by (simp add: filled_def)

lemma filled_step:
  "filled vs I (results[i := Some (vs ! i)]) results' \<Longrightarrow> filled vs (insert i I) results results'"
  by (auto simp: filled_def nth_list_update)

lemma filled_trans: "filled vs I r1 r2 \<Longrightarrow> filled vs J r2 r3 \<Longrightarrow> filled vs (I \<union> J) r1 r3"
  by (auto simp: filled_def)

definition items_ok :: "prepared_member \<Rightarrow> json list \<Rightarrow> json list \<Rightarrow> pending_item list \<Rightarrow> bool" where
  "items_ok m inputs vs pending \<longleftrightarrow> distinct (map fst pending) \<and>
     (\<forall>(i, key) \<in> set pending. i < length inputs \<and> wf_json (inputs ! i) \<and> f (inputs ! i) = Inr (vs ! i) \<and>
        (key = None \<or> key = member_key spec m (inputs ! i)))"

lemma items_ok_Cons:
  "items_ok m inputs vs ((i, key) # pending) \<longleftrightarrow> i \<notin> fst ` set pending \<and> i < length inputs \<and>
     wf_json (inputs ! i) \<and> f (inputs ! i) = Inr (vs ! i) \<and> (key = None \<or> key = member_key spec m (inputs ! i)) \<and>
     items_ok m inputs vs pending"
  by (auto simp: items_ok_def)

lemma items_ok_append: "items_ok m inputs vs (xs @ ys) \<Longrightarrow> items_ok m inputs vs xs \<and> items_ok m inputs vs ys"
  by (auto simp: items_ok_def)

lemma item_lookups_value:
  assumes "item_lookups ctx spec m ps results pending out w = (results', pending', out', w')" "inv w"
    and "distinct (map fst ps)"
    and "\<forall>(i, x) \<in> set ps. i < length inputs \<and> x = inputs ! i \<and> wf_json x \<and> f x = Inr (vs ! i)"
  shows "inv w' \<and> (\<exists>new. pending' = pending @ new \<and> items_ok m inputs vs new \<and> fst ` set new \<subseteq> fst ` set ps \<and>
    filled vs (fst ` set ps - fst ` set new) results results')"
  using assms
proof (induction ps arbitrary: results pending out w)
  case Nil
  then show ?case by (auto simp: items_ok_def filled_empty intro!: exI [of _ "[]"])
next
  case (Cons p ps)
  obtain i x where p: "p = (i, x)" by (cases p)
  have "i < length inputs \<and> x = inputs ! i \<and> wf_json x \<and> f x = Inr (vs ! i)"
    using bspec [OF Cons.prems(4), of p] unfolding p by auto
  then have x: "i < length inputs" "x = inputs ! i" "wf_json x" "f x = Inr (vs ! i)" by blast+
  have fresh: "i \<notin> fst ` set ps" "distinct (map fst ps)" using Cons.prems(3) p by simp_all
  have ps: "\<forall>(i, x) \<in> set ps. i < length inputs \<and> x = inputs ! i \<and> wf_json x \<and> f x = Inr (vs ! i)"
    using Cons.prems(4) by simp
  have miss: ?case if l: "item_lookups ctx spec m ps results (pending @ [(i, key)]) out w1 = (results', pending', out', w')"
    and w1: "inv w1" and key: "key = None \<or> key = member_key spec m x" for key w1
  proof -
    from Cons.IH [OF l w1 fresh(2) ps] obtain new where n: "inv w'" "pending' = (pending @ [(i, key)]) @ new"
      "items_ok m inputs vs new" "fst ` set new \<subseteq> fst ` set ps"
      "filled vs (fst ` set ps - fst ` set new) results results'" by blast
    have "items_ok m inputs vs ((i, key) # new)" using n(3,4) fresh x key by (auto simp: items_ok_Cons)
    moreover have "fst ` set (p # ps) - fst ` set ((i, key) # new) = fst ` set ps - fst ` set new" using p fresh by auto
    moreover have "fst ` set ((i, key) # new) \<subseteq> fst ` set (p # ps)" using n(4) p by auto
    ultimately show ?thesis using n(1,2,5) by (intro conjI exI [of _ "(i, key) # new"]) simp_all
  qed
  show ?case
  proof (cases "member_key spec m x")
    case None
    with Cons.prems(1) p have "item_lookups ctx spec m ps results (pending @ [(i, None)]) out w = (results', pending', out', w')"
      by simp
    then show ?thesis by (rule miss [OF _ Cons.prems(2)]) simp
  next
    case (Some k)
    obtain r w1 where g: "dc_cache_get ctx k w = (r, w1)" by (cases "dc_cache_get ctx k w")
    have w1: "inv w1" using get_inv [OF Cons.prems(2), of k] g by simp
    show ?thesis
    proof (cases r)
      case None
      with Cons.prems(1) p Some g have "item_lookups ctx spec m ps results (pending @ [(i, Some k)]) out w1 = (results', pending', out', w')"
        by simp
      then show ?thesis by (rule miss [OF _ w1]) (simp add: Some)
    next
      case cached: (Some v)
      have "v = vs ! i" using sound_entry_hit [OF get_sound [OF Cons.prems(2) g [unfolded cached]] Some x(3)] x(4) by simp
      with Cons.prems(1) p Some g cached
      have "item_lookups ctx spec m ps (results[i := Some (vs ! i)]) pending (count_hit out) w1 = (results', pending', out', w')"
        by simp
      from Cons.IH [OF this w1 fresh(2) ps] obtain new where n: "inv w'" "pending' = pending @ new"
        "items_ok m inputs vs new" "fst ` set new \<subseteq> fst ` set ps"
        "filled vs (fst ` set ps - fst ` set new) (results[i := Some (vs ! i)]) results'" by blast
      have "fst ` set (p # ps) - fst ` set new = insert i (fst ` set ps - fst ` set new)" using p fresh n(4) by auto
      with filled_step [OF n(5)] n(1-4) show ?thesis by (intro conjI exI [of _ new]) auto
    qed
  qed
qed

lemma sequential_value:
  assumes "inv w" "items_ok m inputs vs pending" "cp_timeout (pm_policy m) = timeout"
  shows "\<exists>results' out' w'. run_fan_out_sequential ctx spec m inputs pending results out w = (Inr results', out', w') \<and>
    inv w' \<and> filled vs (fst ` set pending) results results'"
  using assms
proof (induction pending arbitrary: results out w)
  case Nil
  then show ?case by (simp add: filled_empty)
next
  case (Cons p pending)
  obtain i key where p: "p = (i, key)" by (cases p)
  with Cons.prems(2) have i: "wf_json (inputs ! i)" "f (inputs ! i) = Inr (vs ! i)"
    "key = None \<or> key = member_key spec m (inputs ! i)" "items_ok m inputs vs pending" by (simp_all add: items_ok_Cons)
  define call where "call = call_with_policy (dc_executor ctx) (us_tool spec) (inputs ! i) (pm_policy m) (dc_nanos ctx w) w"
  have c: "po_result call = Inr (vs ! i)" "inv (po_world call)"
    using call_value [OF Cons.prems(1,3)] i(2) by (simp_all add: call_def)
  have "inv (cache_store ctx key (vs ! i) (pm_reads m) (po_world call))" by (rule store_inv [OF c(2) i(3,1,2)])
  from Cons.IH [OF this i(4) Cons.prems(3), of "results[i := Some (vs ! i)]" "out\<lparr>do_retries := do_retries out + length (po_retries call)\<rparr>"]
  obtain results' out' w' where r: "run_fan_out_sequential ctx spec m inputs pending (results[i := Some (vs ! i)])
      (out\<lparr>do_retries := do_retries out + length (po_retries call)\<rparr>)
      (cache_store ctx key (vs ! i) (pm_reads m) (po_world call)) = (Inr results', out', w')"
    "inv w'" "filled vs (fst ` set pending) (results[i := Some (vs ! i)]) results'" by blast
  have "run_fan_out_sequential ctx spec m inputs (p # pending) results out w = (Inr results', out', w')"
    using p c(1) r(1) by (simp add: Let_def call_def [symmetric])
  with r(2) filled_step [OF r(3)] p show ?case by simp
qed

lemma item_answers_value:
  assumes "inv w" "items_ok m inputs vs chunk" "\<forall>(i, key) \<in> set chunk. map_of by_index i = Some (vs ! i)"
  shows "\<exists>results' w'. item_answers ctx m by_index chunk results w = (Inr results', w') \<and> inv w' \<and>
    filled vs (fst ` set chunk) results results'"
  using assms
proof (induction chunk arbitrary: by_index results w)
  case Nil
  then show ?case by (simp add: filled_empty)
next
  case (Cons p chunk)
  obtain i key where p: "p = (i, key)" by (cases p)
  with Cons.prems(2) have i: "wf_json (inputs ! i)" "f (inputs ! i) = Inr (vs ! i)" "i \<notin> fst ` set chunk"
    "key = None \<or> key = member_key spec m (inputs ! i)" "items_ok m inputs vs chunk" by (simp_all add: items_ok_Cons)
  have w1: "inv (cache_store ctx key (vs ! i) (pm_reads m) w)" by (rule store_inv [OF Cons.prems(1) i(4,1,2)])
  have "\<forall>(j, key) \<in> set chunk. map_of (bt_remove i by_index) j = Some (vs ! j)"
    using Cons.prems(3) i(3) by (auto dest: img_fst)
  from Cons.IH [OF w1 i(5) this, of "results[i := Some (vs ! i)]"] obtain results' w' where
    r: "item_answers ctx m (bt_remove i by_index) chunk (results[i := Some (vs ! i)])
        (cache_store ctx key (vs ! i) (pm_reads m) w) = (Inr results', w')"
      "inv w'" "filled vs (fst ` set chunk) (results[i := Some (vs ! i)]) results'" by blast
  have "map_of by_index i = Some (vs ! i)" using Cons.prems(3) p by simp
  with r(1,2) filled_step [OF r(3)] p show ?case by simp
qed

lemma indexed_answers:
  assumes "mset (map (\<lambda>o'. (bo_node o', Inr (bo_output o'))) outputs) =
      mset (map (\<lambda>(i, key :: cache_key option). (dec i, f (inputs ! i))) chunk)"
    and "items_ok m inputs vs chunk" "length inputs \<le> usize_max" "(i, key) \<in> set chunk"
  shows "map_of (index_outputs outputs) i = Some (vs ! i)"
proof -
  define parse :: "string \<times> call_result \<Rightarrow> (nat \<times> json) option" where
    "parse = (\<lambda>(s, r). case r of Inl e \<Rightarrow> None | Inr v \<Rightarrow> map_option (\<lambda>i. (i, v)) (parse_usize s))"
  have ok: "i < length inputs \<and> f (inputs ! i) = Inr (vs ! i)" if "(i, key) \<in> set chunk" for i key
    using assms(2) that by (auto simp: items_ok_def)
  have keys: "List.map_filter (\<lambda>o'. case parse_usize (bo_node o') of None \<Rightarrow> None | Some i \<Rightarrow> Some (i, bo_output o')) outputs
      = List.map_filter parse (map (\<lambda>o'. (bo_node o', Inr (bo_output o'))) outputs)"
    by (induction outputs) (auto simp: map_filter_simps parse_def split: option.split)
  have chunk: "List.map_filter parse (map (\<lambda>(i, key :: cache_key option). (dec i, f (inputs ! i))) ps) = map (\<lambda>(i, key). (i, vs ! i)) ps"
    if "set ps \<subseteq> set chunk" for ps using that
  proof (induction ps)
    case (Cons p ps)
    obtain j k where p: "p = (j, k)" by (cases p)
    with ok [of j k] Cons.prems have "j < length inputs" "f (inputs ! j) = Inr (vs ! j)" by simp_all
    moreover from this assms(3) have "parse_usize (dec j) = Some j" by (intro parse_usize_dec) simp
    ultimately show ?case using Cons p by (simp add: map_filter_simps parse_def)
  qed (simp add: map_filter_simps)
  have "mset (List.map_filter parse (map (\<lambda>o'. (bo_node o', Inr (bo_output o'))) outputs)) =
      mset (map (\<lambda>(i, key). (i, vs ! i)) chunk)"
    using mset_map_filter [OF assms(1), of parse] chunk [OF subset_refl] by simp
  then have m: "mset (List.map_filter (\<lambda>o'. case parse_usize (bo_node o') of None \<Rightarrow> None | Some i \<Rightarrow> Some (i, bo_output o')) outputs) =
      mset (map (\<lambda>(i, key). (i, vs ! i)) chunk)" (is "mset ?kvs = mset ?ps") unfolding keys .
  have "distinct (map fst ?ps)" using assms(2) by (simp add: items_ok_def o_def case_prod_beta)
  moreover have "mset (map fst ?kvs) = mset (map fst ?ps)" using arg_cong [OF m, of "image_mset fst"] by (simp only: mset_map)
  ultimately have dis: "distinct (map fst ?kvs)" using mset_eq_imp_distinct_iff by blast
  have "(i, vs ! i) \<in> set ?ps" using assms(4) by force
  then have "(i, vs ! i) \<in> set ?kvs" using mset_eq_setD [OF m] by simp
  then show ?thesis unfolding index_outputs_def bt_get_of_list_distinct [OF dis] by (rule map_of_is_SomeI [OF dis])
qed

lemma batched_value:
  assumes "inv w" "items_ok m inputs vs (concat cs)" "cp_timeout (pm_policy m) = timeout" "length inputs \<le> usize_max"
  shows "\<exists>results' out' w'. run_fan_out_batched ctx spec m inputs cs results out w = (Inr results', out', w') \<and>
    inv w' \<and> filled vs (fst ` set (concat cs)) results results'"
  using assms
proof (induction cs arbitrary: results out w)
  case Nil
  then show ?case by (simp add: filled_empty)
next
  case (Cons chunk cs)
  have ok: "items_ok m inputs vs chunk" "items_ok m inputs vs (concat cs)"
    using items_ok_append [of m inputs vs chunk "concat cs"] Cons.prems(2) by simp_all
  define ins where "ins = map (\<lambda>(index, key :: cache_key option). \<lparr>bi_node = dec index, bi_input = inputs ! index\<rparr>) chunk"
  have "\<exists>v. f (bi_input i) = Inr v" if "i \<in> set ins" for i
    using that ok(1) by (auto simp: ins_def items_ok_def)
  from batch_result [OF Cons.prems(1) this, of ins] obtain outputs where
    o: "fst (with_timeout timeout (ex_call_batch (dc_executor ctx) (us_tool spec) ins w)) = Inr outputs"
      "mset (map (\<lambda>o'. (bo_node o', Inr (bo_output o'))) outputs) = mset (map (\<lambda>i. (bi_node i, f (bi_input i))) ins)"
    by blast
  have "map (\<lambda>i. (bi_node i, f (bi_input i))) ins = map (\<lambda>(i, key). (dec i, f (inputs ! i))) chunk"
    by (simp add: ins_def case_prod_beta)
  note o2 = o(2) [unfolded this]
  define call where "call = call_batch_with_policy (dc_executor ctx) (us_tool spec) ins (pm_policy m) (dc_nanos ctx w) w"
  have c: "po_result call = Inr outputs" "inv (po_world call)"
    using first_success [where run = "ex_call_batch (dc_executor ctx) (us_tool spec) ins" and w = w,
        OF o(1) [folded Cons.prems(3)], of "dc_nanos ctx w" 1 "[]" "[]"] batch_inv [OF Cons.prems(1), of ins] Cons.prems(3)
    by (simp_all add: call_def call_batch_with_policy_def)
  have "\<forall>(i, key) \<in> set chunk. map_of (index_outputs outputs) i = Some (vs ! i)"
    using indexed_answers [OF o2 ok(1) Cons.prems(4)] by blast
  from item_answers_value [OF c(2) ok(1) this, of results] obtain results1 w1 where
    a: "item_answers ctx m (index_outputs outputs) chunk results (po_world call) = (Inr results1, w1)" "inv w1"
      "filled vs (fst ` set chunk) results results1" by blast
  define out1 where "out1 = out\<lparr>do_batch_dispatches := do_batch_dispatches out + 1, do_retries := do_retries out + length (po_retries call)\<rparr>"
  from Cons.IH [OF a(2) ok(2) Cons.prems(3,4), of results1 out1] obtain results' out' w' where
    r: "run_fan_out_batched ctx spec m inputs cs results1 out1 w1 = (Inr results', out', w')" "inv w'"
      "filled vs (fst ` set (concat cs)) results1 results'" by blast
  have "run_fan_out_batched ctx spec m inputs (chunk # cs) results out w = (Inr results', out', w')"
    using c(1) a(1) r(1) by (simp add: Let_def ins_def [symmetric] call_def [symmetric] out1_def)
  with r(2) filled_trans [OF a(3) r(3)] show ?case by (simp add: image_Un)
qed

lemma filled_all:
  assumes "filled vs I (replicate n None) results" "I = {..<n}" "length vs = n"
  shows "map or_null results = vs"
  using assms by (intro nth_equalityI) (auto simp: filled_def or_null_def)

lemma fan_out_value:
  assumes "inv w" "cp_timeout (pm_policy m) = timeout" "pm_items m = Some items"
    and "res_map (substitute_item (pm_input m)) items = Inr inputs" "length inputs \<le> usize_max"
    and "list_all wf_json inputs" "map f inputs = map Inr vs"
  shows "do_results (fst (dispatch_fan_out ctx spec m out w)) = do_results out @ [(pm_node m, Inr (JArr vs))] \<and>
    inv (snd (dispatch_fan_out ctx spec m out w))"
proof -
  define n where "n = length inputs"
  have len: "length vs = n" using arg_cong [OF assms(7), of length] by (simp add: n_def)
  have fv: "wf_json (inputs ! i) \<and> f (inputs ! i) = Inr (vs ! i)" if "i < n" for i
    using that assms(6) arg_cong [OF assms(7), of "\<lambda>xs. xs ! i"] len by (simp add: n_def list_all_length)
  define out1 where "out1 = push_event (event_at ctx w (pm_node m) (us_tool spec) Started) out"
  define start where "start = (if dc_use_cache ctx
      then item_lookups ctx spec m (enumerate 0 inputs) (replicate n None) [] out1 w
      else (replicate n None, map (\<lambda>index. (index, None)) [0..<n], out1, w))"
  obtain results pending out2 w1 where st: "start = (results, pending, out2, w1)" by (metis prod_cases4)
  have first: "inv w1 \<and> items_ok m inputs vs pending \<and> fst ` set pending \<subseteq> {..<n} \<and> do_results out2 = do_results out \<and>
      filled vs ({..<n} - fst ` set pending) (replicate n None) results"
  proof (cases "dc_use_cache ctx")
    case True
    then have l: "item_lookups ctx spec m (enumerate 0 inputs) (replicate n None) [] out1 w = (results, pending, out2, w1)"
      using st by (simp add: start_def)
    have "\<forall>(i, x) \<in> set (enumerate 0 inputs). i < length inputs \<and> x = inputs ! i \<and> wf_json x \<and> f x = Inr (vs ! i)"
      using fv by (auto simp: in_set_enumerate_eq n_def)
    moreover have "fst ` set (enumerate 0 inputs) = {..<n}"
      using arg_cong [OF map_fst_enumerate [of 0 inputs], of set]
      by (simp only: set_map set_upt n_def add_0 atLeast0LessThan)
    ultimately show ?thesis using item_lookups_value [OF l assms(1)] item_lookups_results [OF l]
      by (auto simp: out1_def)
  next
    case False
    with st have "results = replicate n None" "pending = map (\<lambda>index. (index, None)) [0..<n]" "out2 = out1" "w1 = w"
      by (simp_all add: start_def)
    moreover have "items_ok m inputs vs (map (\<lambda>index. (index, None)) [0..<n])"
      using fv by (auto simp: items_ok_def o_def n_def)
    ultimately show ?thesis using assms(1) by (auto simp: out1_def filled_def image_image)
  qed
  define fin where "fin = (if pm_batchable m \<and> length pending > 1
      then run_fan_out_batched ctx spec m inputs (chunks (max (pm_batch_size m) 1) pending) results out2 w1
      else run_fan_out_sequential ctx spec m inputs pending results out2 w1)"
  have "\<exists>results' out3 w2. fin = (Inr results', out3, w2) \<and> inv w2 \<and> filled vs (fst ` set pending) results results'"
  proof (cases "pm_batchable m \<and> length pending > 1")
    case True
    with batched_value [of w1 m inputs vs "chunks (max (pm_batch_size m) 1) pending" results out2] first assms(2,5)
    show ?thesis by (simp add: fin_def)
  next
    case False
    then have "fin = run_fan_out_sequential ctx spec m inputs pending results out2 w1" by (simp only: fin_def if_False)
    with sequential_value [of w1 m inputs vs pending results out2] first assms(2) show ?thesis by metis
  qed
  then obtain results' out3 w2 where r: "fin = (Inr results', out3, w2)" "inv w2" "filled vs (fst ` set pending) results results'"
    by blast
  have res: "do_results out3 = do_results out"
    using r(1) first batched_results sequential_results unfolding fin_def by (metis (no_types, lifting))
  have "({..<n} - fst ` set pending) \<union> fst ` set pending = {..<n}" using first by auto
  from filled_all [OF filled_trans [OF conjunct2 [OF conjunct2 [OF conjunct2 [OF conjunct2 [OF first]]]] r(3)] this len]
  have vs: "map or_null results' = vs" .
  have "dispatch_fan_out ctx spec m out w = (push_result (pm_node m) (Inr (JArr (map or_null results')))
      (push_event (with_duration (elapsed_ms (dc_clock ctx w) (dc_clock ctx w2))
         (event_at ctx w2 (pm_node m) (us_tool spec) Finished)) out3), w2)"
    using st r(1) unfolding start_def fin_def n_def out1_def
    by (simp add: dispatch_fan_out_def Let_def assms(3,4))
  with res vs r(2) show ?thesis by simp
qed

text \<open>What a member's result is, written without any of the machinery.\<close>

end

definition tool_result :: "(json \<Rightarrow> call_result) \<Rightarrow> prepared_member \<Rightarrow> call_result" where
  "tool_result f m = (case pm_items m of
       None \<Rightarrow> f (pm_input m)
     | Some items \<Rightarrow>
         (case res_map (substitute_item (pm_input m)) items of
            Inl e \<Rightarrow> Inl (with_code ''invalid_item'' (error_new (runtime_error_to_string e)))
          | Inr inputs \<Rightarrow> res_bind (res_map f inputs) (\<lambda>vs. Inr (JArr vs))))"

definition plain_member :: "64 word option \<Rightarrow> prepared_member \<Rightarrow> bool" where
  "plain_member timeout m \<longleftrightarrow> pm_items m = None \<and> wf_json (pm_input m) \<and> cp_timeout (pm_policy m) = timeout"

text \<open>A fan-out whose items substitute and whose item calls all succeed.\<close>

definition fan_member :: "(json \<Rightarrow> call_result) \<Rightarrow> 64 word option \<Rightarrow> prepared_member \<Rightarrow> bool" where
  "fan_member f timeout m \<longleftrightarrow> cp_timeout (pm_policy m) = timeout \<and> (case pm_items m of
       None \<Rightarrow> False
     | Some items \<Rightarrow> (case res_map (substitute_item (pm_input m)) items of
           Inl e \<Rightarrow> False
         | Inr inputs \<Rightarrow> length inputs \<le> usize_max \<and> list_all wf_json inputs \<and> \<not> isl (res_map f inputs)))"

definition unit_ok :: "(json \<Rightarrow> call_result) \<Rightarrow> 64 word option \<Rightarrow> unit_spec \<Rightarrow> prepared_member list \<Rightarrow> bool" where
  "unit_ok f timeout spec ms \<longleftrightarrow> (if us_batch spec
     then distinct (map pm_node ms) \<and> list_all (\<lambda>m. plain_member timeout m \<and> \<not> isl (f (pm_input m))) ms
     else list_all (\<lambda>m. plain_member timeout m \<or> fan_member f timeout m) ms)"

lemma res_map_Inr: "res_map f xs = Inr ys \<longleftrightarrow> map f xs = map Inr ys"
  by (auto simp: res_map_Inr_iff list_all2_conv_all_nth list_eq_iff_nth_eq)

context pure_dispatch
begin

lemma member_value:
  assumes "inv w" "plain_member timeout m \<or> fan_member f timeout m"
  shows "\<exists>out1 w1. (if pm_items m \<noteq> None then dispatch_fan_out ctx spec m out w else dispatch_single ctx spec m out w) = (out1, w1) \<and>
    do_results out1 = do_results out @ [(pm_node m, tool_result f m)] \<and> inv w1"
proof (cases "pm_items m")
  case None
  with assms(2) have "wf_json (pm_input m)" "cp_timeout (pm_policy m) = timeout"
    by (auto simp: plain_member_def fan_member_def)
  from single_value [OF assms(1) this, of out] None show ?thesis
    by (cases "dispatch_single ctx spec m out w") (simp add: tool_result_def)
next
  case (Some items)
  then have fan: "fan_member f timeout m" using assms(2) by (simp add: plain_member_def)
  then obtain inputs where i: "res_map (substitute_item (pm_input m)) items = Inr inputs"
    using Some by (auto simp: fan_member_def split: sum.splits)
  with fan Some have ok: "cp_timeout (pm_policy m) = timeout" "length inputs \<le> usize_max" "list_all wf_json inputs"
    "\<not> isl (res_map f inputs)" by (simp_all add: fan_member_def)
  from ok(4) obtain vs where vs: "res_map f inputs = Inr vs" by (cases "res_map f inputs") auto
  have "tool_result f m = Inr (JArr vs)" by (simp add: tool_result_def Some i vs)
  moreover have "map f inputs = map Inr vs" using vs by (simp only: res_map_Inr)
  ultimately show ?thesis using fan_out_value [OF assms(1) ok(1) Some i ok(2,3), of vs out] Some
    by (cases "dispatch_fan_out ctx spec m out w") simp
qed

lemma members_value:
  assumes "inv w" "list_all (\<lambda>m. plain_member timeout m \<or> fan_member f timeout m) ms"
  shows "do_results (fst (dispatch_members ctx spec ms out w)) =
      do_results out @ map (\<lambda>m. (pm_node m, tool_result f m)) ms \<and>
    inv (snd (dispatch_members ctx spec ms out w))"
  using assms
proof (induction ms arbitrary: out w)
  case (Cons m ms)
  from Cons.prems(2) have m: "plain_member timeout m \<or> fan_member f timeout m"
    and ms: "list_all (\<lambda>m. plain_member timeout m \<or> fan_member f timeout m) ms" by simp_all
  from member_value [OF Cons.prems(1) m, of out] obtain out1 w1 where
    d: "(if pm_items m \<noteq> None then dispatch_fan_out ctx spec m out w else dispatch_single ctx spec m out w) = (out1, w1)"
      "do_results out1 = do_results out @ [(pm_node m, tool_result f m)]" "inv w1" by blast
  from Cons.IH [OF d(3) ms, of out1] d(1,2) show ?case by simp
qed simp

lemma unit_value:
  assumes "inv w" "unit_ok f timeout spec ms"
  shows "mset (do_results (fst (dispatch_unit ctx spec ms w))) = mset (map (\<lambda>m. (pm_node m, tool_result f m)) ms) \<and>
    inv (snd (dispatch_unit ctx spec ms w))"
proof (cases "us_batch spec")
  case True
  with assms(2) have ms: "\<forall>m \<in> set ms. member_ok m" "distinct (map pm_node ms)" "\<forall>m \<in> set ms. \<exists>v. f (pm_input m) = Inr v"
    by (auto simp: unit_ok_def list_all_iff plain_member_def member_ok_def dest!: not_isl)
  have "map answer ms = map (\<lambda>m. (pm_node m, tool_result f m)) ms"
    using True assms(2) by (auto simp: unit_ok_def list_all_iff plain_member_def answer_def tool_result_def)
  with batch_value [OF assms(1) ms, of outcome_new] True show ?thesis
    by (simp add: dispatch_unit_def outcome_new_def)
next
  case False
  with assms(2) members_value [OF assms(1), of ms outcome_new] show ?thesis
    by (simp add: dispatch_unit_def outcome_new_def unit_ok_def)
qed

end

section \<open>The built-in tools behind the in-memory cache\<close>

record local_world =
  lw_cache :: memory_cache
  lw_now :: nat
  lw_batches :: "64 word"

definition local_context :: "bool \<Rightarrow> (8 word \<Rightarrow> 64 word) \<Rightarrow> local_world dispatch_context" where
  "local_context use_cache jitter =
     \<lparr>dc_executor = builtin_executor,
      dc_cache_get = (\<lambda>k w. case cache_get (lw_now w) k (lw_cache w) of (r, c) \<Rightarrow> (r, w\<lparr>lw_cache := c\<rparr>)),
      dc_cache_insert = (\<lambda>k v reads w. case cache_insert (lw_now w) k v reads (lw_cache w) of
          None \<Rightarrow> w | Some c \<Rightarrow> w\<lparr>lw_cache := c\<rparr>),
      dc_acquire = (\<lambda>k w. w), dc_release = (\<lambda>k w. w), dc_use_cache = use_cache,
      dc_epoch = (\<lambda>w. Some (lw_now w)), dc_clock = lw_now, dc_nanos = (\<lambda>w. jitter),
      dc_batch_id = (\<lambda>w. (lw_batches w, w\<lparr>lw_batches := lw_batches w + 1\<rparr>))\<rparr>"

text \<open>Every cached value is what its tool computes from the input its key was made of.\<close>

definition cache_sound :: "memory_cache \<Rightarrow> bool" where
  "cache_sound c \<longleftrightarrow> (\<forall>k v. map_option fst (cache_contents c k) = Some v \<longrightarrow>
     (\<forall>input. wf_json input \<longrightarrow> ck_input k = canonical_json_string input \<longrightarrow> builtin_call (ck_tool k) input = Inr v))"

lemma cache_sound_entry:
  "cache_sound c \<Longrightarrow> cache_contents c k = Some (v, r) \<Longrightarrow> sound_entry spec (builtin_call (us_tool spec)) k v"
  unfolding cache_sound_def sound_entry_def by (metis fst_conv option.map(2))

lemma cache_sound_below: "cache_sound c \<Longrightarrow> cache_contents c' \<subseteq>\<^sub>m cache_contents c \<Longrightarrow> cache_sound c'"
  unfolding cache_sound_def map_le_def by (fastforce simp: dom_def)

lemma cache_get_below: "cache_ok c \<Longrightarrow> cache_get now k c = (r, c') \<Longrightarrow> cache_ok c' \<and> cache_contents c' \<subseteq>\<^sub>m cache_contents c"
  using cache_get_spec [of c now k r c'] by (auto simp: map_le_def split: if_splits)

lemma cache_get_hit: "cache_ok c \<Longrightarrow> cache_get now k c = (Some v, c') \<Longrightarrow> \<exists>r. cache_contents c k = Some (v, r)"
  using cache_get_spec [of c now k "Some v" c'] by (auto split: option.splits prod.splits if_splits)

lemma cache_sound_insert:
  assumes "cache_ok c" "cache_sound c" "sound_entry spec (builtin_call (us_tool spec)) k v"
    "ck_adapter k = us_adapter spec" "ck_tool k = us_tool spec"
  shows "\<exists>c'. cache_insert now k v reads c = Some c' \<and> cache_ok c' \<and> cache_sound c'"
proof -
  from cache_insert_spec [OF assms(1), of now k v reads] obtain c' m where
    i: "cache_insert now k v reads c = Some c'" "cache_ok c'" "makes_room c k m"
      "cache_contents c' = m(k \<mapsto> (v, set reads, now))" by blast
  have "m \<subseteq>\<^sub>m cache_contents c" by (rule makes_room_below [OF i(3)])
  then have old: "m k' = Some e \<Longrightarrow> cache_contents c k' = Some e" for k' e by (metis domI map_le_def)
  have "cache_sound c'" unfolding cache_sound_def i(4)
    using old assms(2-5) by (fastforce simp: cache_sound_def sound_entry_def split: if_splits)
  with i(1,2) show ?thesis by blast
qed

lemma builtin_call_value:
  "with_timeout timeout (ex_call builtin_executor tool input w) = (builtin_call tool input, w)"
  by (simp add: with_timeout_def builtin_executor_def executor_of_def split: option.split)

lemma builtin_batch_instant:
  "tr_time (ex_call_batch builtin_executor tool inputs w) = 0 \<and> tr_world (ex_call_batch builtin_executor tool inputs w) t = w"
proof (induction inputs arbitrary: w t)
  case Nil
  then show ?case by (simp add: builtin_executor_def executor_of_def tr_return_def)
next
  case (Cons i inputs)
  then show ?case
    by (auto simp: builtin_executor_def executor_of_def tr_bind_def tr_return_def Let_def split: sum.splits)
qed

lemma builtin_batch_value:
  "with_timeout timeout (ex_call_batch builtin_executor tool inputs w) =
    (res_map (\<lambda>i. res_bind (builtin_call tool (bi_input i)) (\<lambda>v. Inr \<lparr>bo_node = bi_node i, bo_output = v\<rparr>)) inputs, w)"
  using builtin_batch_instant [of tool inputs w] by (simp add: with_timeout_def builtin_batch split: option.split)

lemma builtin_batch_outputs:
  assumes "\<And>i. i \<in> set inputs \<Longrightarrow> \<exists>v. builtin_call tool (bi_input i) = Inr v"
  shows "\<exists>outputs. fst (with_timeout timeout (ex_call_batch builtin_executor tool inputs w)) = Inr outputs \<and>
    map (\<lambda>o'. (bo_node o', Inr (bo_output o'))) outputs = map (\<lambda>i. (bi_node i, builtin_call tool (bi_input i))) inputs"
proof -
  let ?v = "\<lambda>i. projr (builtin_call tool (bi_input i))"
  have v: "builtin_call tool (bi_input i) = Inr (?v i)" if "i \<in> set inputs" for i using assms [OF that] by auto
  have "res_map (\<lambda>i. res_bind (builtin_call tool (bi_input i)) (\<lambda>v. Inr \<lparr>bo_node = bi_node i, bo_output = v\<rparr>)) inputs =
      Inr (map (\<lambda>i. \<lparr>bo_node = bi_node i, bo_output = ?v i\<rparr>) inputs)"
    by (rule res_map_Inr_map) (subst v, assumption, simp add: res_bind_def)
  moreover have "map (\<lambda>i. (bi_node i, Inr (?v i))) inputs = map (\<lambda>i. (bi_node i, builtin_call tool (bi_input i))) inputs"
    by (rule map_cong [OF refl]) (metis v)
  ultimately show ?thesis unfolding builtin_batch_value fst_conv by (simp add: o_def)
qed

interpretation local_builtin: pure_dispatch "local_context use_cache jitter" spec timeout
  "builtin_call (us_tool spec)" "\<lambda>w. cache_ok (lw_cache w) \<and> cache_sound (lw_cache w)"
proof unfold_locales
  fix w :: local_world and inputs :: "batch_input list" assume "\<And>i. i \<in> set inputs \<Longrightarrow> \<exists>v. builtin_call (us_tool spec) (bi_input i) = Inr v"
  from builtin_batch_outputs [OF this, where timeout = timeout and w = w] obtain outputs where
    o: "fst (with_timeout timeout (ex_call_batch builtin_executor (us_tool spec) inputs w)) = Inr outputs"
      "map (\<lambda>o'. (bo_node o', Inr (bo_output o'))) outputs = map (\<lambda>i. (bi_node i, builtin_call (us_tool spec) (bi_input i))) inputs"
    by blast
  have ex: "dc_executor (local_context use_cache jitter) = builtin_executor" by (simp add: local_context_def)
  from o(1) arg_cong [OF o(2), of mset] show "\<exists>outputs. fst (with_timeout timeout
      (ex_call_batch (dc_executor (local_context use_cache jitter)) (us_tool spec) inputs w)) = Inr outputs \<and>
      mset (map (\<lambda>o'. (bo_node o', Inr (bo_output o'))) outputs) =
      mset (map (\<lambda>i. (bi_node i, builtin_call (us_tool spec) (bi_input i))) inputs)"
    unfolding ex by blast
next
  fix w w' k v assume i: "cache_ok (lw_cache w) \<and> cache_sound (lw_cache w)"
    and g: "dc_cache_get (local_context use_cache jitter) k w = (Some v, w')"
  from g obtain c' where "cache_get (lw_now w) k (lw_cache w) = (Some v, c')"
    by (auto simp: local_context_def split: prod.splits)
  with cache_get_hit cache_sound_entry i show "sound_entry spec (builtin_call (us_tool spec)) k v" by blast
next
  fix w :: local_world and k assume i: "cache_ok (lw_cache w) \<and> cache_sound (lw_cache w)"
  obtain r c' where g: "cache_get (lw_now w) k (lw_cache w) = (r, c')" by (cases "cache_get (lw_now w) k (lw_cache w)")
  from cache_get_below [OF conjunct1 [OF i] g] cache_sound_below i g
  show "cache_ok (lw_cache (snd (dc_cache_get (local_context use_cache jitter) k w))) \<and>
      cache_sound (lw_cache (snd (dc_cache_get (local_context use_cache jitter) k w)))"
    by (auto simp: local_context_def)
next
  fix w :: local_world and k v reads
  assume i: "cache_ok (lw_cache w) \<and> cache_sound (lw_cache w)"
    and s: "sound_entry spec (builtin_call (us_tool spec)) k v" "ck_adapter k = us_adapter spec" "ck_tool k = us_tool spec"
  from cache_sound_insert [OF conjunct1 [OF i] conjunct2 [OF i] s, of "lw_now w" reads]
  show "cache_ok (lw_cache (dc_cache_insert (local_context use_cache jitter) k v reads w)) \<and>
      cache_sound (lw_cache (dc_cache_insert (local_context use_cache jitter) k v reads w))"
    by (auto simp: local_context_def)
qed (simp_all add: local_context_def builtin_call_value builtin_batch_value)

text \<open>
  C33. The cache, batching, retries and fan-out are invisible for a pure tool:
  behind a sound cache, a dispatched unit of built-in calls reports for every member exactly what
  the tool computes from its input, and leaves the cache sound for the units that follow. A single
  call may fail; of a batch every call, and of a fan-out every substitution and every item call,
  is assumed to succeed (\<open>unit_ok\<close>), for one failing call of a batch fails all its members. Inputs
  are well-formed JSON, the members of a batch are distinct, and all have the timeout \<open>timeout\<close>.
\<close>

theorem dispatch_is_transparent:
  assumes "cache_ok (lw_cache w)" "cache_sound (lw_cache w)"
    and "unit_ok (builtin_call (us_tool spec)) timeout spec ms"
  shows "mset (do_results (fst (dispatch_unit (local_context use_cache jitter) spec ms w))) =
      mset (map (\<lambda>m. (pm_node m, tool_result (builtin_call (us_tool spec)) m)) ms) \<and>
    cache_ok (lw_cache (snd (dispatch_unit (local_context use_cache jitter) spec ms w))) \<and>
    cache_sound (lw_cache (snd (dispatch_unit (local_context use_cache jitter) spec ms w)))"
  using local_builtin.unit_value assms by blast

definition sample_member :: "node_id \<Rightarrow> json \<Rightarrow> json list option \<Rightarrow> prepared_member" where
  "sample_member i input items = \<lparr>pm_node = i, pm_input = input, pm_items = items,
     pm_policy = \<lparr>cp_timeout = None, cp_max_attempts = 1, cp_backoff_ms = 0, cp_retryable_errors = []\<rparr>,
     pm_cacheable = True, pm_version = None, pm_reads = [], pm_batchable = True, pm_batch_size = 2\<rparr>"

definition sample_members :: "prepared_member list" where
  "sample_members =
     [sample_member ''a'' (JStr ''x'') None,
      sample_member ''b'' (JArr [JObj [(ITEM_KEY, JStr [])]]) (Some [JBool True, JNull, JBool True]),
      sample_member ''c'' (JStr ''x'') None]"

lemma sample_members_ok:
  "unit_ok (builtin_call ''collect'') None \<lparr>us_tool = ''collect'', us_adapter = ''builtin'', us_batch = False\<rparr> sample_members"
proof -
  let ?inputs = "[JArr [JBool True], JArr [JNull], JArr [JBool True]]"
  have inputs: "res_map (substitute_item (JArr [JObj [(ITEM_KEY, JStr [])]])) [JBool True, JNull, JBool True] = Inr ?inputs"
    by code_simp
  have size: "length ?inputs \<le> usize_max" by (simp add: usize_max_def)
  have ok: "list_all wf_json ?inputs" "\<not> isl (res_map (builtin_call ''collect'') ?inputs)" by code_simp+
  have fan: "fan_member (builtin_call ''collect'') None
      (sample_member ''b'' (JArr [JObj [(ITEM_KEY, JStr [])]]) (Some [JBool True, JNull, JBool True]))"
    unfolding fan_member_def sample_member_def prepared_member.simps call_policy.simps inputs option.case sum.case
    using size ok by blast
  have "plain_member None (sample_member i (JStr ''x'') None)" for i
    by (simp add: plain_member_def sample_member_def)
  with fan show ?thesis
    unfolding unit_ok_def sample_members_def unit_spec.simps if_False by (simp only: list.pred_inject simp_thms)
qed

theorem dispatch_is_transparent_witness:
  "mset (do_results (fst (dispatch_unit (local_context True (\<lambda>_. 0))
      \<lparr>us_tool = ''collect'', us_adapter = ''builtin'', us_batch = False\<rparr> sample_members
      \<lparr>lw_cache = cache_with_limits 1 None, lw_now = 5, lw_batches = 0\<rparr>))) =
    {#(''a'', Inr (JStr ''x'')), (''b'', Inr (JArr [JArr [JBool True], JArr [JNull], JArr [JBool True]])), (''c'', Inr (JStr ''x''))#}"
proof -
  let ?w = "\<lparr>lw_cache = cache_with_limits 1 None, lw_now = 5, lw_batches = 0\<rparr>"
  let ?spec = "\<lparr>us_tool = ''collect'', us_adapter = ''builtin'', us_batch = False\<rparr>"
  have w: "cache_ok (lw_cache ?w)" "cache_sound (lw_cache ?w)"
    by (simp_all only: local_world.simps cache_with_limits_ok cache_sound_def option.map option.simps simp_thms)
  have vals: "map (\<lambda>m. (pm_node m, tool_result (builtin_call ''collect'') m)) sample_members =
      [(''a'', Inr (JStr ''x'')), (''b'', Inr (JArr [JArr [JBool True], JArr [JNull], JArr [JBool True]])), (''c'', Inr (JStr ''x''))]"
    by code_simp
  from dispatch_is_transparent [where spec = ?spec and w = ?w and timeout = None, OF w, of sample_members True "\<lambda>_. 0"]
    sample_members_ok vals
  show ?thesis by simp
qed

end
