(* ===== verification/Locks.thy ===== *)
theory Locks
  imports Graph "HOL-Library.Multiset"
begin

text \<open>
  The scheduler's resource locks, \<^verbatim>\<open>crates/tool-compiler-runtime/src/locks.rs\<close>: the lock table,
  the request of a unit, and their two operations. The abstract state is the multiset of the
  requests that hold the table; the lemmas show that the table implements it: a request is
  granted exactly when it is compatible with every holder, and releasing undoes acquiring.
  A request that reads and writes one resource makes the table panic, which the model returns
  as an outcome.
\<close>

section \<open>The table and the requests\<close>

datatype lock_state = ReadLock nat | WriteLock | CommutativeLock (cl_tool: string) (cl_count: nat)

record lock_table =
  lt_resources :: "resource \<rightharpoonup> lock_state"
  lt_running :: nat
  lt_exclusive :: bool

definition lock_table_default :: lock_table where
  "lock_table_default = \<lparr>lt_resources = Map.empty, lt_running = 0, lt_exclusive = False\<rparr>"

record lock_request =
  lr_reads :: "resource bset"
  lr_writes :: "resource bset"
  lr_commutative_tool :: "string option"
  lr_world :: bool

definition lock_request_default :: lock_request where
  "lock_request_default = \<lparr>lr_reads = [], lr_writes = [], lr_commutative_tool = None, lr_world = False\<rparr>"

definition for_effects :: "resolved_effects \<Rightarrow> lock_request" where
  "for_effects fx =
     (if \<not> rfx_declared fx then lock_request_default\<lparr>lr_world := True\<rparr>
      else \<lparr>lr_reads = rfx_reads fx, lr_writes = rfx_writes fx,
            lr_commutative_tool = (if rfx_commutative fx then Some (rfx_tool fx) else None),
            lr_world = False\<rparr>)"

definition merge_request :: "lock_request \<Rightarrow> lock_request \<Rightarrow> lock_request" where
  "merge_request self other =
     \<lparr>lr_reads = bs_union (lr_reads self) (lr_reads other),
      lr_writes = bs_union (lr_writes self) (lr_writes other),
      lr_commutative_tool = (if lr_commutative_tool self \<noteq> lr_commutative_tool other then None
                             else lr_commutative_tool self),
      lr_world = (lr_world self \<or> lr_world other)\<rparr>"

section \<open>Acquiring and releasing\<close>

definition read_compatible :: "lock_state option \<Rightarrow> bool" where
  "read_compatible s = (case s of None \<Rightarrow> True | Some (ReadLock c) \<Rightarrow> True | _ \<Rightarrow> False)"

definition write_compatible :: "lock_state option \<Rightarrow> string option \<Rightarrow> bool" where
  "write_compatible s mine = (case (s, mine) of
       (None, _) \<Rightarrow> True
     | (Some (CommutativeLock tool c), Some m) \<Rightarrow> tool = m
     | _ \<Rightarrow> False)"

definition is_compatible :: "lock_table \<Rightarrow> lock_request \<Rightarrow> bool" where
  "is_compatible t q \<longleftrightarrow>
     (\<forall>r \<in> set (lr_reads q). read_compatible (lt_resources t r)) \<and>
     (\<forall>r \<in> set (lr_writes q). write_compatible (lt_resources t r) (lr_commutative_tool q))"

text \<open>The two update loops; \<open>None\<close> is the \<^verbatim>\<open>unreachable!\<close> arm.\<close>

fun acquire_reads ::
  "resource list \<Rightarrow> (resource \<rightharpoonup> lock_state) \<Rightarrow> (resource \<rightharpoonup> lock_state) option" where
  "acquire_reads [] m = Some m"
| "acquire_reads (r # rs) m = (case m r of
       Some (ReadLock c) \<Rightarrow> acquire_reads rs (m(r \<mapsto> ReadLock (c + 1)))
     | None \<Rightarrow> acquire_reads rs (m(r \<mapsto> ReadLock 1))
     | Some _ \<Rightarrow> None)"

fun acquire_writes :: "string option \<Rightarrow> resource list \<Rightarrow> (resource \<rightharpoonup> lock_state)
    \<Rightarrow> (resource \<rightharpoonup> lock_state) option" where
  "acquire_writes ct [] m = Some m"
| "acquire_writes ct (r # rs) m = (case (ct, m r) of
       (Some _, Some (CommutativeLock tool c)) \<Rightarrow>
         acquire_writes ct rs (m(r \<mapsto> CommutativeLock tool (c + 1)))
     | (Some tool, None) \<Rightarrow> acquire_writes ct rs (m(r \<mapsto> CommutativeLock tool 1))
     | (None, None) \<Rightarrow> acquire_writes ct rs (m(r \<mapsto> WriteLock))
     | _ \<Rightarrow> None)"

datatype acquire_outcome = Acquired lock_table | Refused | AcquirePanic

definition try_acquire :: "lock_table \<Rightarrow> lock_request \<Rightarrow> acquire_outcome" where
  "try_acquire t q =
     (if lt_exclusive t then Refused
      else if lr_world q then
        (if lt_running t > 0 then Refused
         else Acquired (t\<lparr>lt_exclusive := True, lt_running := 1\<rparr>))
      else if \<not> is_compatible t q then Refused
      else case acquire_reads (lr_reads q) (lt_resources t) of
          None \<Rightarrow> AcquirePanic
        | Some m \<Rightarrow>
            (case acquire_writes (lr_commutative_tool q) (lr_writes q) m of
               None \<Rightarrow> AcquirePanic
             | Some m' \<Rightarrow> Acquired (t\<lparr>lt_resources := m', lt_running := lt_running t + 1\<rparr>)))"

definition release_read :: "(resource \<rightharpoonup> lock_state) \<Rightarrow> resource \<Rightarrow> (resource \<rightharpoonup> lock_state)" where
  "release_read m r = (case m r of
       Some (ReadLock c) \<Rightarrow> if c - 1 = 0 then m(r := None) else m(r \<mapsto> ReadLock (c - 1))
     | _ \<Rightarrow> m)"

definition release_write :: "(resource \<rightharpoonup> lock_state) \<Rightarrow> resource \<Rightarrow> (resource \<rightharpoonup> lock_state)" where
  "release_write m r = (case m r of
       Some (CommutativeLock tool c) \<Rightarrow>
         if c - 1 = 0 then m(r := None) else m(r \<mapsto> CommutativeLock tool (c - 1))
     | Some WriteLock \<Rightarrow> m(r := None)
     | _ \<Rightarrow> m)"

definition release_locks :: "lock_table \<Rightarrow> lock_request \<Rightarrow> lock_table" where
  "release_locks t q =
     (let t1 = t\<lparr>lt_running := lt_running t - 1\<rparr> in
      if lr_world q then t1\<lparr>lt_exclusive := False\<rparr>
      else t1\<lparr>lt_resources :=
        foldl release_write (foldl release_read (lt_resources t1) (lr_reads q)) (lr_writes q)\<rparr>)"

section \<open>What the table stands for\<close>

text \<open>What a request locks: a unit with undeclared effects locks no resource, it runs alone.\<close>

definition locks_read :: "lock_request \<Rightarrow> resource \<Rightarrow> bool" where
  "locks_read q r \<longleftrightarrow> \<not> lr_world q \<and> r \<in> set (lr_reads q)"

definition locks_write :: "lock_request \<Rightarrow> resource \<Rightarrow> bool" where
  "locks_write q r \<longleftrightarrow> \<not> lr_world q \<and> r \<in> set (lr_writes q)"

text \<open>Two requests that may hold the table together.\<close>

definition compatible_requests :: "lock_request \<Rightarrow> lock_request \<Rightarrow> bool" where
  "compatible_requests a b \<longleftrightarrow> \<not> lr_world a \<and> \<not> lr_world b \<and>
     set (lr_reads a) \<inter> set (lr_writes b) = {} \<and> set (lr_writes a) \<inter> set (lr_reads b) = {} \<and>
     (set (lr_writes a) \<inter> set (lr_writes b) = {} \<or>
        lr_commutative_tool a \<noteq> None \<and> lr_commutative_tool a = lr_commutative_tool b)"

definition request_wf :: "lock_request \<Rightarrow> bool" where
  "request_wf q \<longleftrightarrow> distinct (lr_reads q) \<and> distinct (lr_writes q)"

definition self_conflicting :: "lock_request \<Rightarrow> bool" where
  "self_conflicting q \<longleftrightarrow> \<not> lr_world q \<and> set (lr_reads q) \<inter> set (lr_writes q) \<noteq> {}"

abbreviation readers :: "lock_request multiset \<Rightarrow> resource \<Rightarrow> nat" where
  "readers M r \<equiv> size (filter_mset (\<lambda>q. locks_read q r) M)"

abbreviation writers :: "lock_request multiset \<Rightarrow> resource \<Rightarrow> nat" where
  "writers M r \<equiv> size (filter_mset (\<lambda>q. locks_write q r) M)"

text \<open>The lock a resource must carry while \<open>M\<close> holds the table.\<close>

definition lock_matches :: "lock_request multiset \<Rightarrow> resource \<Rightarrow> lock_state option \<Rightarrow> bool" where
  "lock_matches M r s = (case s of
       None \<Rightarrow> readers M r = 0 \<and> writers M r = 0
     | Some (ReadLock n) \<Rightarrow> n > 0 \<and> readers M r = n \<and> writers M r = 0
     | Some WriteLock \<Rightarrow> readers M r = 0 \<and> writers M r = 1 \<and>
         (\<forall>q \<in># M. locks_write q r \<longrightarrow> lr_commutative_tool q = None)
     | Some (CommutativeLock tool n) \<Rightarrow> n > 0 \<and> readers M r = 0 \<and> writers M r = n \<and>
         (\<forall>q \<in># M. locks_write q r \<longrightarrow> lr_commutative_tool q = Some tool))"

definition lock_holders :: "lock_request multiset \<Rightarrow> lock_table \<Rightarrow> bool" where
  "lock_holders M t \<longleftrightarrow> lt_running t = size M \<and>
     (lt_exclusive t \<longleftrightarrow> (\<exists>q \<in># M. lr_world q)) \<and> (lt_exclusive t \<longrightarrow> size M = 1) \<and>
     (\<forall>q \<in># M. request_wf q \<and> \<not> self_conflicting q) \<and> (\<forall>r. lock_matches M r (lt_resources t r))"

lemma lock_holders_default: "lock_holders {#} lock_table_default"
  by (simp add: lock_holders_def lock_table_default_def lock_matches_def)

lemma compatible_requests_sym: "compatible_requests a b = compatible_requests b a"
  by (auto simp: compatible_requests_def)

section \<open>The loops\<close>

definition add_read :: "lock_state option \<Rightarrow> lock_state option" where
  "add_read s = Some (ReadLock (case s of Some (ReadLock c) \<Rightarrow> c + 1 | _ \<Rightarrow> 1))"

definition add_write :: "string option \<Rightarrow> lock_state option \<Rightarrow> lock_state option" where
  "add_write ct s = Some (case ct of None \<Rightarrow> WriteLock
     | Some tool \<Rightarrow> CommutativeLock tool (case s of Some (CommutativeLock t c) \<Rightarrow> c + 1 | _ \<Rightarrow> 1))"

definition drop_read :: "lock_state option \<Rightarrow> lock_state option" where
  "drop_read s = (case s of Some (ReadLock c) \<Rightarrow> if c - 1 = 0 then None else Some (ReadLock (c - 1)) | _ \<Rightarrow> s)"

definition drop_write :: "lock_state option \<Rightarrow> lock_state option" where
  "drop_write s = (case s of
       Some (CommutativeLock tool c) \<Rightarrow> if c - 1 = 0 then None else Some (CommutativeLock tool (c - 1))
     | Some WriteLock \<Rightarrow> None | _ \<Rightarrow> s)"

lemmas lock_step_defs = add_read_def add_write_def drop_read_def drop_write_def
  read_compatible_def write_compatible_def

lemma acquire_reads_step:
  "read_compatible (m r) \<Longrightarrow> acquire_reads (r # rs) m = acquire_reads rs (m(r := add_read (m r)))"
  by (auto simp: add_read_def read_compatible_def split: option.splits lock_state.splits)

lemma acquire_writes_step:
  "write_compatible (m r) ct \<Longrightarrow>
     acquire_writes ct (r # rs) m = acquire_writes ct rs (m(r := add_write ct (m r)))"
  by (auto simp: add_write_def write_compatible_def split: option.splits lock_state.splits)

lemma acquire_reads_ok:
  assumes "distinct rs" "\<forall>r \<in> set rs. read_compatible (m r)"
  shows "acquire_reads rs m = Some (\<lambda>x. if x \<in> set rs then add_read (m x) else m x)"
  using assms
proof (induction rs arbitrary: m)
  case (Cons r rs)
  have "acquire_reads rs (m(r := add_read (m r))) =
      Some (\<lambda>x. if x \<in> set rs then add_read ((m(r := add_read (m r))) x) else (m(r := add_read (m r))) x)"
    using Cons.prems by (intro Cons.IH) auto
  with Cons.prems show ?case by (auto simp: acquire_reads_step fun_eq_iff simp del: acquire_reads.simps)
qed simp

lemma acquire_writes_ok:
  assumes "distinct rs" "\<forall>r \<in> set rs. write_compatible (m r) ct"
  shows "acquire_writes ct rs m = Some (\<lambda>x. if x \<in> set rs then add_write ct (m x) else m x)"
  using assms
proof (induction rs arbitrary: m)
  case (Cons r rs)
  have "acquire_writes ct rs (m(r := add_write ct (m r))) = Some (\<lambda>x. if x \<in> set rs
      then add_write ct ((m(r := add_write ct (m r))) x) else (m(r := add_write ct (m r))) x)"
    using Cons.prems by (intro Cons.IH) auto
  with Cons.prems show ?case by (auto simp: acquire_writes_step fun_eq_iff simp del: acquire_writes.simps)
qed simp

lemma acquire_writes_panics:
  assumes "r \<in> set rs" "m r = Some (ReadLock c)"
  shows "acquire_writes ct rs m = None"
  using assms
proof (induction rs arbitrary: m)
  case (Cons a rs)
  show ?case
  proof (cases "a = r")
    case True
    with Cons.prems show ?thesis by (auto split: option.splits)
  next
    case False
    with Cons.prems have "acquire_writes ct rs (m(a := v)) = None" for v by (intro Cons.IH) auto
    then show ?thesis by (auto split: option.splits lock_state.splits)
  qed
qed simp

lemma foldl_update:
  assumes "distinct rs"
  shows "foldl (\<lambda>m r. m(r := f (m r))) m rs = (\<lambda>x. if x \<in> set rs then f (m x) else m x)"
  using assms by (induction rs arbitrary: m) auto

lemma release_read_eq: "release_read m r = m(r := drop_read (m r))"
  by (auto simp: release_read_def drop_read_def fun_eq_iff split: option.splits lock_state.splits)

lemma release_write_eq: "release_write m r = m(r := drop_write (m r))"
  by (auto simp: release_write_def drop_write_def fun_eq_iff split: option.splits lock_state.splits)

lemma release_loops:
  assumes "distinct rs" "distinct ws"
  shows "foldl release_write (foldl release_read m rs) ws =
    (\<lambda>x. let s = (if x \<in> set rs then drop_read (m x) else m x) in if x \<in> set ws then drop_write s else s)"
proof -
  have r: "release_read = (\<lambda>m r. m(r := drop_read (m r)))" by (intro ext) (simp only: release_read_eq)
  have w: "release_write = (\<lambda>m r. m(r := drop_write (m r)))" by (intro ext) (simp only: release_write_eq)
  show ?thesis
    unfolding r w foldl_update [OF assms(1)] foldl_update [OF assms(2)] Let_def ..
qed

section \<open>One resource\<close>

lemma filter_mset_none [simp]: "filter_mset P M = {#} \<longleftrightarrow> (\<forall>q \<in># M. \<not> P q)"
  by (induction M) auto

lemma size_filter_pos: "0 < size (filter_mset P M) \<longleftrightarrow> (\<exists>q \<in># M. P q)"
  using filter_mset_none [of P M] by (simp add: nonempty_has_size [symmetric])

lemma lock_matches_cases:
  assumes "lock_matches M r s"
  obtains (free) "s = None" "\<forall>q \<in># M. \<not> locks_read q r" "\<forall>q \<in># M. \<not> locks_write q r"
  | (reading) n where "s = Some (ReadLock n)" "\<exists>q \<in># M. locks_read q r" "\<forall>q \<in># M. \<not> locks_write q r"
  | (writing) "s = Some WriteLock" "\<forall>q \<in># M. \<not> locks_read q r" "\<exists>q \<in># M. locks_write q r"
      "\<forall>q \<in># M. locks_write q r \<longrightarrow> lr_commutative_tool q = None"
  | (commuting) tool n where "s = Some (CommutativeLock tool n)" "\<forall>q \<in># M. \<not> locks_read q r"
      "\<exists>q \<in># M. locks_write q r" "\<forall>q \<in># M. locks_write q r \<longrightarrow> lr_commutative_tool q = Some tool"
proof (cases s)
  case None
  with assms free show ?thesis by (simp add: lock_matches_def)
next
  case (Some a)
  show ?thesis
  proof (cases a)
    case (ReadLock n)
    with assms Some have "\<exists>q \<in># M. locks_read q r" "\<forall>q \<in># M. \<not> locks_write q r"
      by (auto simp: lock_matches_def size_filter_pos [symmetric])
    with ReadLock Some reading show ?thesis by blast
  next
    case WriteLock
    with assms Some have "0 < writers M r" by (simp add: lock_matches_def)
    with assms Some WriteLock writing show ?thesis
      unfolding size_filter_pos by (simp add: lock_matches_def)
  next
    case (CommutativeLock tool n)
    with assms Some have "0 < writers M r" by (simp add: lock_matches_def)
    with assms Some CommutativeLock commuting show ?thesis
      unfolding size_filter_pos by (simp add: lock_matches_def)
  qed
qed

lemma read_compatible_iff:
  "lock_matches M r s \<Longrightarrow> read_compatible s \<longleftrightarrow> (\<forall>h \<in># M. \<not> locks_write h r)"
  by (erule lock_matches_cases) (auto simp: read_compatible_def)

lemma write_compatible_iff:
  "lock_matches M r s \<Longrightarrow> write_compatible s ct \<longleftrightarrow> (\<forall>h \<in># M. \<not> locks_read h r) \<and>
    (\<forall>h \<in># M. locks_write h r \<longrightarrow> ct \<noteq> None \<and> lr_commutative_tool h = ct)"
  by (erule lock_matches_cases) (auto simp: write_compatible_def split: option.splits)

text \<open>How one holder more or less changes the lock of a resource.\<close>

definition locked :: "lock_request \<Rightarrow> resource \<Rightarrow> lock_state option \<Rightarrow> lock_state option" where
  "locked q r s = (if locks_write q r then add_write (lr_commutative_tool q) s
     else if locks_read q r then add_read s else s)"

definition unlocked :: "lock_request \<Rightarrow> resource \<Rightarrow> lock_state option \<Rightarrow> lock_state option" where
  "unlocked q r s = (if locks_write q r then drop_write s else if locks_read q r then drop_read s else s)"

lemma lock_matches_locked:
  assumes "lock_matches M r s" "\<not> (locks_read q r \<and> locks_write q r)"
    and "locks_read q r \<Longrightarrow> read_compatible s"
    and "locks_write q r \<Longrightarrow> write_compatible s (lr_commutative_tool q)"
  shows "lock_matches (add_mset q M) r (locked q r s)"
  using assms
  by (auto simp: locked_def lock_matches_def lock_step_defs
      split: option.splits lock_state.splits if_splits)

lemma lock_matches_unlocked:
  assumes "lock_matches (add_mset q M) r s" "\<not> (locks_read q r \<and> locks_write q r)"
  shows "lock_matches M r (unlocked q r s)"
  using assms
  by (auto simp: unlocked_def lock_matches_def lock_step_defs
      split: option.splits lock_state.splits if_splits)

section \<open>The table\<close>

lemma lock_matches_world: "lr_world q \<Longrightarrow> lock_matches (add_mset q M) r s = lock_matches M r s"
  by (auto simp: lock_matches_def locks_read_def locks_write_def split: option.split lock_state.split)

lemma is_compatible_iff:
  assumes "\<And>r. lock_matches M r (lt_resources t r)" "\<forall>h \<in># M. \<not> lr_world h" "\<not> lr_world q"
  shows "is_compatible t q \<longleftrightarrow> (\<forall>h \<in># M. compatible_requests h q)"
proof -
  have "is_compatible t q \<longleftrightarrow>
      (\<forall>r \<in> set (lr_reads q). \<forall>h \<in># M. \<not> locks_write h r) \<and>
      (\<forall>r \<in> set (lr_writes q). (\<forall>h \<in># M. \<not> locks_read h r) \<and>
         (\<forall>h \<in># M. locks_write h r \<longrightarrow> lr_commutative_tool q \<noteq> None
            \<and> lr_commutative_tool h = lr_commutative_tool q))"
    unfolding is_compatible_def read_compatible_iff [OF assms(1)] write_compatible_iff [OF assms(1)] ..
  also have "\<dots> \<longleftrightarrow> (\<forall>h \<in># M. compatible_requests h q)"
  proof (intro iffI ballI)
    fix h assume L: "(\<forall>r \<in> set (lr_reads q). \<forall>h \<in># M. \<not> locks_write h r) \<and>
      (\<forall>r \<in> set (lr_writes q). (\<forall>h \<in># M. \<not> locks_read h r) \<and>
         (\<forall>h \<in># M. locks_write h r \<longrightarrow> lr_commutative_tool q \<noteq> None
            \<and> lr_commutative_tool h = lr_commutative_tool q))" and h: "h \<in># M"
    then show "compatible_requests h q"
      using assms(2,3) by (auto simp: compatible_requests_def locks_read_def locks_write_def)
  next
    assume R: "\<forall>h \<in># M. compatible_requests h q"
    then show "(\<forall>r \<in> set (lr_reads q). \<forall>h \<in># M. \<not> locks_write h r) \<and>
      (\<forall>r \<in> set (lr_writes q). (\<forall>h \<in># M. \<not> locks_read h r) \<and>
         (\<forall>h \<in># M. locks_write h r \<longrightarrow> lr_commutative_tool q \<noteq> None
            \<and> lr_commutative_tool h = lr_commutative_tool q))"
      by (fastforce simp: compatible_requests_def locks_read_def locks_write_def)
  qed
  finally show ?thesis .
qed

text \<open>The resources of a table after a compatible request without a read-write overlap.\<close>

lemma acquire_loops:
  assumes "is_compatible t q" "request_wf q" "\<not> lr_world q" "\<not> self_conflicting q"
  shows "try_acquire t q = (if lt_exclusive t then Refused
     else Acquired (t\<lparr>lt_resources := (\<lambda>r. locked q r (lt_resources t r)), lt_running := lt_running t + 1\<rparr>))"
proof -
  let ?m = "\<lambda>x. if x \<in> set (lr_reads q) then add_read (lt_resources t x) else lt_resources t x"
  have dis: "r \<notin> set (lr_reads q)" if "r \<in> set (lr_writes q)" for r
    using assms(3,4) that by (auto simp: self_conflicting_def)
  have r: "acquire_reads (lr_reads q) (lt_resources t) = Some ?m"
    using assms(1,2) by (intro acquire_reads_ok) (auto simp: is_compatible_def request_wf_def)
  have w: "acquire_writes (lr_commutative_tool q) (lr_writes q) ?m
      = Some (\<lambda>x. if x \<in> set (lr_writes q) then add_write (lr_commutative_tool q) (?m x) else ?m x)"
    using assms(1,2) dis by (intro acquire_writes_ok) (auto simp: is_compatible_def request_wf_def)
  have eq: "(\<lambda>x. if x \<in> set (lr_writes q) then add_write (lr_commutative_tool q) (?m x) else ?m x)
      = (\<lambda>r. locked q r (lt_resources t r))"
    using dis assms(3) by (auto simp: fun_eq_iff locked_def locks_read_def locks_write_def)
  show ?thesis using assms(1,3) by (simp add: try_acquire_def r w eq)
qed

lemma overlap_panics:
  assumes "is_compatible t q" "request_wf q" "self_conflicting q" "\<not> lt_exclusive t"
  shows "try_acquire t q = AcquirePanic"
proof -
  let ?m = "\<lambda>x. if x \<in> set (lr_reads q) then add_read (lt_resources t x) else lt_resources t x"
  have r: "acquire_reads (lr_reads q) (lt_resources t) = Some ?m"
    using assms(1,2) by (intro acquire_reads_ok) (auto simp: is_compatible_def request_wf_def)
  from assms(3) obtain x where x: "x \<in> set (lr_reads q)" "x \<in> set (lr_writes q)"
    by (auto simp: self_conflicting_def)
  then obtain c where "?m x = Some (ReadLock c)" by (simp add: add_read_def)
  from acquire_writes_panics [where m = ?m and r = x, OF x(2) this] show ?thesis
    using assms by (simp add: try_acquire_def r self_conflicting_def)
qed

lemma acquired_holders:
  assumes "lock_holders M t" "request_wf q" "\<not> self_conflicting q" "\<forall>h \<in># M. compatible_requests h q"
  shows "\<exists>t'. try_acquire t q = Acquired t' \<and> lock_holders (add_mset q M) t'"
proof (cases "lr_world q")
  case True
  then have "M = {#}" using assms(4) by (cases M) (auto simp: compatible_requests_def)
  with True assms(1,2,3) show ?thesis
    by (auto simp: try_acquire_def lock_holders_def lock_matches_world)
next
  case False
  have "\<forall>h \<in># M. \<not> lr_world h" using assms(4) by (auto simp: compatible_requests_def)
  with assms(1) have M: "\<forall>h \<in># M. \<not> lr_world h" "\<not> lt_exclusive t" "lt_running t = size M"
    "\<And>r. lock_matches M r (lt_resources t r)" "\<forall>h \<in># M. request_wf h \<and> \<not> self_conflicting h"
    unfolding lock_holders_def by blast+
  note comp = is_compatible_iff [OF M(4,1) False]
  have "lock_matches (add_mset q M) r (locked q r (lt_resources t r))" for r
  proof (rule lock_matches_locked [OF M(4)])
    show "\<not> (locks_read q r \<and> locks_write q r)"
      using assms(3) by (auto simp: self_conflicting_def locks_read_def locks_write_def)
    show "read_compatible (lt_resources t r)" if "locks_read q r"
      using comp assms(4) that by (simp add: is_compatible_def locks_read_def)
    show "write_compatible (lt_resources t r) (lr_commutative_tool q)" if "locks_write q r"
      using comp assms(4) that by (simp add: is_compatible_def locks_write_def)
  qed
  moreover have "is_compatible t q" using comp assms(4) by blast
  ultimately show ?thesis
    using acquire_loops [of t q] assms(2,3) False M by (auto simp: lock_holders_def)
qed

lemma refused_iff:
  assumes "lock_holders M t" "request_wf q"
  shows "try_acquire t q = Refused \<longleftrightarrow> (\<exists>h \<in># M. \<not> compatible_requests h q)"
proof (cases "\<forall>h \<in># M. compatible_requests h q")
  case True
  show ?thesis
  proof (cases "self_conflicting q")
    case False
    with acquired_holders [OF assms False True] True show ?thesis by auto
  next
    case sc: True
    then have q: "\<not> lr_world q" by (simp add: self_conflicting_def)
    have M: "\<forall>h \<in># M. \<not> lr_world h" using True by (auto simp: compatible_requests_def)
    with assms(1) have "\<not> lt_exclusive t" "\<And>r. lock_matches M r (lt_resources t r)"
      unfolding lock_holders_def by blast+
    with overlap_panics [of t q] is_compatible_iff [OF _ M q] assms(2) sc True show ?thesis by auto
  qed
next
  case False
  then obtain h where h: "h \<in># M" "\<not> compatible_requests h q" by blast
  then have pos: "0 < size M" by (auto simp: nonempty_has_size [symmetric])
  have "try_acquire t q = Refused"
  proof (cases "lt_exclusive t \<or> lr_world q")
    case True
    with pos assms(1) show ?thesis by (auto simp: try_acquire_def lock_holders_def)
  next
    case nw: False
    with assms(1) have "\<forall>h \<in># M. \<not> lr_world h" "\<And>r. lock_matches M r (lt_resources t r)"
      unfolding lock_holders_def by blast+
    from is_compatible_iff [OF this(2,1)] nw False show ?thesis by (simp add: try_acquire_def)
  qed
  with h show ?thesis by blast
qed

lemma release_holders:
  assumes "lock_holders (add_mset q M) t"
  shows "lock_holders M (release_locks t q)"
proof (cases "lr_world q")
  case True
  with assms have "M = {#}" by (simp add: lock_holders_def)
  with True assms show ?thesis
    by (auto simp: release_locks_def lock_holders_def lock_matches_world)
next
  case False
  have q: "request_wf q" "\<not> self_conflicting q" using assms by (simp_all add: lock_holders_def)
  have dis: "r \<notin> set (lr_reads q)" if "r \<in> set (lr_writes q)" for r
    using q(2) False that by (auto simp: self_conflicting_def)
  have "foldl release_write (foldl release_read (lt_resources t) (lr_reads q)) (lr_writes q)
      = (\<lambda>r. unlocked q r (lt_resources t r))"
    using release_loops [of "lr_reads q" "lr_writes q" "lt_resources t"] q(1) False dis
    by (simp add: request_wf_def unlocked_def locks_read_def locks_write_def fun_eq_iff)
  with False have rel: "release_locks t q
      = t\<lparr>lt_running := lt_running t - 1, lt_resources := (\<lambda>r. unlocked q r (lt_resources t r))\<rparr>"
    by (simp add: release_locks_def)
  have "lock_matches M r (unlocked q r (lt_resources t r))" for r
  proof (rule lock_matches_unlocked)
    show "lock_matches (add_mset q M) r (lt_resources t r)" using assms by (simp only: lock_holders_def)
    show "\<not> (locks_read q r \<and> locks_write q r)" using dis by (auto simp: locks_read_def locks_write_def)
  qed
  moreover have "lt_running t = size (add_mset q M)" "lt_exclusive t = (\<exists>h \<in># add_mset q M. lr_world h)"
    "lt_exclusive t \<longrightarrow> size (add_mset q M) = 1" "\<forall>h \<in># add_mset q M. request_wf h \<and> \<not> self_conflicting h"
    using assms unfolding lock_holders_def by blast+
  moreover from this(2,3) False have "\<not> lt_exclusive t" by (cases M) auto
  ultimately show ?thesis unfolding rel by (simp add: lock_holders_def)
qed

section \<open>The interface\<close>

text \<open>What the scheduler relies on: the holders of the table are a multiset of requests.\<close>

locale lock_manager =
  fixes acquire :: "'t \<Rightarrow> 'q \<Rightarrow> 't option"
    and release :: "'t \<Rightarrow> 'q \<Rightarrow> 't"
    and holders :: "'q multiset \<Rightarrow> 't \<Rightarrow> bool"
    and compat :: "'q \<Rightarrow> 'q \<Rightarrow> bool"
    and wf :: "'q \<Rightarrow> bool"
  assumes compat_sym: "compat a b = compat b a"
    and acquire_iff: "holders M t \<Longrightarrow> wf q \<Longrightarrow> (\<exists>t'. acquire t q = Some t') \<longleftrightarrow> (\<forall>h \<in># M. compat h q)"
    and acquire_holders: "holders M t \<Longrightarrow> wf q \<Longrightarrow> acquire t q = Some t' \<Longrightarrow> holders (add_mset q M) t'"
    and release_holders: "holders (add_mset q M) t \<Longrightarrow> holders M (release t q)"
    and holders_wf: "holders M t \<Longrightarrow> q \<in># M \<Longrightarrow> wf q"
begin

lemma acquire_release: "holders M t \<Longrightarrow> wf q \<Longrightarrow> acquire t q = Some t' \<Longrightarrow> holders M (release t' q)"
  by (rule release_holders [OF acquire_holders])

lemma blocked: "holders M t \<Longrightarrow> wf q \<Longrightarrow> h \<in># M \<Longrightarrow> \<not> compat h q \<Longrightarrow> acquire t q = None"
  using acquire_iff [of M t q] by (cases "acquire t q") auto

lemma granted_after_release:
  assumes "holders (add_mset h M) t" "wf q" "\<forall>k \<in># M. compat k q"
  shows "\<exists>t'. acquire (release t h) q = Some t' \<and> holders (add_mset q M) t'"
  using assms acquire_iff acquire_holders release_holders by metis

lemma idle_grants: "holders {#} t \<Longrightarrow> wf q \<Longrightarrow> \<exists>t'. acquire t q = Some t'"
  using acquire_iff [of "{#}" t q] by simp

end

definition acquire_lock :: "lock_table \<Rightarrow> lock_request \<Rightarrow> lock_table option" where
  "acquire_lock t q = (case try_acquire t q of Acquired t' \<Rightarrow> Some t' | _ \<Rightarrow> None)"

lemma acquire_outcome_cases:
  assumes "lock_holders M t" "request_wf q"
  shows "try_acquire t q = (if \<exists>h \<in># M. \<not> compatible_requests h q then Refused
     else if self_conflicting q then AcquirePanic else Acquired (the (acquire_lock t q)))"
proof (cases "(\<exists>h \<in># M. \<not> compatible_requests h q) \<or> \<not> self_conflicting q")
  case True
  then show ?thesis
    using refused_iff [OF assms] acquired_holders [OF assms] by (auto simp: acquire_lock_def)
next
  case False
  then have q: "\<not> lr_world q" "self_conflicting q" by (simp_all add: self_conflicting_def)
  have M: "\<forall>h \<in># M. \<not> lr_world h" using False by (auto simp: compatible_requests_def)
  with assms(1) have t: "\<not> lt_exclusive t" "\<And>r. lock_matches M r (lt_resources t r)"
    unfolding lock_holders_def by blast+
  have "is_compatible t q" using is_compatible_iff [OF t(2) M q(1)] False by blast
  from overlap_panics [OF this assms(2) q(2) t(1)] show ?thesis using False by simp
qed

interpretation lock_table: lock_manager acquire_lock release_locks lock_holders compatible_requests
  "\<lambda>q. request_wf q \<and> \<not> self_conflicting q"
proof unfold_locales
  fix M t q t'
  assume h: "lock_holders M t" and q: "request_wf q \<and> \<not> self_conflicting q"
  then have q1: "request_wf q" "\<not> self_conflicting q" by simp_all
  show "(\<exists>t'. acquire_lock t q = Some t') \<longleftrightarrow> (\<forall>h \<in># M. compatible_requests h q)"
  proof (cases "\<forall>h \<in># M. compatible_requests h q")
    case True
    with acquired_holders [OF h q1 True] show ?thesis by (auto simp: acquire_lock_def)
  next
    case False
    then have "try_acquire t q = Refused" using refused_iff [OF h q1(1)] by blast
    with False show ?thesis by (simp add: acquire_lock_def)
  qed
  show "lock_holders (add_mset q M) t'" if "acquire_lock t q = Some t'"
  proof (cases "\<forall>h \<in># M. compatible_requests h q")
    case True
    from acquired_holders [OF h q1 True] that show ?thesis by (auto simp: acquire_lock_def)
  next
    case False
    then have "try_acquire t q = Refused" using refused_iff [OF h q1(1)] by blast
    with that show ?thesis by (simp add: acquire_lock_def)
  qed
next
  fix M t q
  show "lock_holders (add_mset q M) t \<Longrightarrow> lock_holders M (release_locks t q)" by (rule release_holders)
  show "lock_holders M t \<Longrightarrow> q \<in># M \<Longrightarrow> request_wf q \<and> \<not> self_conflicting q"
    by (simp add: lock_holders_def)
qed (rule compatible_requests_sym)

section \<open>Locks and effects\<close>

definition effects_wf :: "resolved_effects \<Rightarrow> bool" where
  "effects_wf fx \<longleftrightarrow> distinct (rfx_reads fx) \<and> distinct (rfx_writes fx) \<and> coherent fx"

lemma request_wf_for_effects: "effects_wf fx \<Longrightarrow> request_wf (for_effects fx)"
  by (simp add: effects_wf_def request_wf_def for_effects_def lock_request_default_def)

lemma compatible_for_effects:
  assumes "coherent a" "coherent b"
  shows "compatible_requests (for_effects a) (for_effects b) \<longleftrightarrow> can_run_with a b"
  using assms
  by (auto simp: compatible_requests_def for_effects_def lock_request_default_def can_run_with_def
      bs_disjoint_iff coherent_def)

text \<open>
  C21. The lock table decides the pairwise rule of validation: over the units that hold it, a
  unit is refused exactly when it cannot run with one of them, it is granted and joins them
  otherwise, and the attempt panics only for a unit that reads and writes one resource.
\<close>

theorem try_acquire_decides_can_run_with:
  assumes "lock_holders (image_mset for_effects E) t" "effects_wf fx" "\<forall>e \<in># E. coherent e"
  shows "case try_acquire t (for_effects fx) of
      Refused \<Rightarrow> \<exists>e \<in># E. \<not> can_run_with e fx
    | AcquirePanic \<Rightarrow> (\<forall>e \<in># E. can_run_with e fx) \<and> rfx_declared fx \<and>
        \<not> bs_disjoint (rfx_reads fx) (rfx_writes fx)
    | Acquired t' \<Rightarrow> (\<forall>e \<in># E. can_run_with e fx) \<and>
        lock_holders (image_mset for_effects (add_mset fx E)) t'"
proof -
  have eq: "(\<exists>h \<in># image_mset for_effects E. \<not> compatible_requests h (for_effects fx))
      \<longleftrightarrow> (\<exists>e \<in># E. \<not> can_run_with e fx)"
    using assms(2,3) compatible_for_effects by (auto simp: effects_wf_def)
  have sc: "self_conflicting (for_effects fx) \<longleftrightarrow>
      rfx_declared fx \<and> \<not> bs_disjoint (rfx_reads fx) (rfx_writes fx)"
    by (auto simp: self_conflicting_def for_effects_def lock_request_default_def bs_disjoint_iff)
  note wf = request_wf_for_effects [OF assms(2)]
  note cs = acquire_outcome_cases [OF assms(1) wf, unfolded eq sc]
  show ?thesis
  proof (cases "try_acquire t (for_effects fx)")
    case (Acquired t')
    then have ok: "\<forall>e \<in># E. can_run_with e fx" "\<not> self_conflicting (for_effects fx)"
      using cs unfolding sc by (auto split: if_splits)
    from lock_table.acquire_holders [OF assms(1) conjI [OF wf ok(2)], of t'] Acquired ok(1)
    show ?thesis by (simp add: acquire_lock_def)
  next
    case Refused
    then show ?thesis using cs by (auto split: if_splits)
  next
    case AcquirePanic
    then show ?thesis using cs by (auto split: if_splits)
  qed
qed

text \<open>
  The runs of a client that locks the effects of its units and releases only what it holds.
\<close>

inductive lock_run :: "resolved_effects multiset \<Rightarrow> lock_table \<Rightarrow> bool" where
  lock_start: "lock_run {#} lock_table_default"
| lock_acquire: "lock_run E t \<Longrightarrow> effects_wf fx \<Longrightarrow> try_acquire t (for_effects fx) = Acquired t' \<Longrightarrow>
    lock_run (add_mset fx E) t'"
| lock_release: "lock_run (add_mset fx E) t \<Longrightarrow> lock_run E (release_locks t (for_effects fx))"

lemma lock_run_holders:
  assumes "lock_run E t"
  shows "lock_holders (image_mset for_effects E) t \<and> (\<forall>e \<in># E. effects_wf e) \<and>
    (\<forall>a b F. E = add_mset a (add_mset b F) \<longrightarrow> can_run_with a b)"
  using assms
proof induction
  case lock_start
  then show ?case by (simp add: lock_holders_default)
next
  case (lock_acquire E t fx t')
  have coh: "\<forall>e \<in># E. coherent e" using lock_acquire.IH by (simp add: effects_wf_def)
  from acquire_outcome_cases [OF _ request_wf_for_effects [OF lock_acquire.hyps(2)]] lock_acquire
  have ok: "\<forall>h \<in># image_mset for_effects E. compatible_requests h (for_effects fx)"
    "\<not> self_conflicting (for_effects fx)" by (auto split: if_splits)
  have run: "\<forall>e \<in># E. can_run_with e fx"
    using ok(1) coh lock_acquire.hyps(2) compatible_for_effects by (auto simp: effects_wf_def)
  have pair: "can_run_with a b" if eq: "add_mset fx E = add_mset a (add_mset b F)" for a b F
  proof (cases "a = fx")
    case True
    with eq run show ?thesis by (simp add: can_run_with_sym)
  next
    case False
    with eq obtain G where G: "add_mset b F = add_mset fx G" "E = add_mset a G"
      by (metis add_eq_conv_ex)
    show ?thesis
    proof (cases "b = fx")
      case True
      with G run show ?thesis by simp
    next
      case b: False
      with G(1) obtain H where "G = add_mset b H" by (metis add_eq_conv_ex)
      with G(2) lock_acquire.IH show ?thesis by blast
    qed
  qed
  have "lock_holders (image_mset for_effects (add_mset fx E)) t'"
    using lock_table.acquire_holders [of "image_mset for_effects E" t "for_effects fx" t'] lock_acquire ok(2)
      request_wf_for_effects by (simp add: acquire_lock_def)
  then show ?case using lock_acquire pair by auto
next
  case (lock_release fx E t)
  then have "lock_holders (add_mset (for_effects fx) (image_mset for_effects E)) t" by simp
  from lock_table.release_holders [OF this] lock_release.IH show ?case
    by (metis add_mset_commute union_single_eq_member insert_iff set_mset_add_mset_insert)
qed

text \<open>
  At every moment of every such run, any two units that hold the table can run together by
  the pairwise rule, so no two concurrent units conflict.
\<close>

theorem lock_table_excludes_conflicts:
  assumes "lock_run (add_mset a (add_mset b E)) t"
  shows "can_run_with a b"
  using lock_run_holders [OF assms] by blast

text \<open>
  Releasing a unit restores exactly the locks of the units still running.
\<close>

theorem release_restores_holders:
  assumes "lock_holders (add_mset q M) t"
  shows "lock_holders M (release_locks t q)"
  by (rule lock_table.release_holders [OF assms])

section \<open>Concrete units\<close>

definition read_unit :: "string \<Rightarrow> resolved_effects" where
  "read_unit tool = \<lparr>rfx_tool = tool, rfx_declared = True, rfx_pure = False,
     rfx_reads = [''file:a''], rfx_writes = [], rfx_commutative = False\<rparr>"

definition update_unit :: resolved_effects where
  "update_unit = (read_unit ''append'')\<lparr>rfx_writes := [''file:a'']\<rparr>"

definition one_reader :: lock_table where
  "one_reader = \<lparr>lt_resources = [''file:a'' \<mapsto> ReadLock 1], lt_running = 1, lt_exclusive = False\<rparr>"

definition two_readers :: lock_table where
  "two_readers = \<lparr>lt_resources = [''file:a'' \<mapsto> ReadLock 2], lt_running = 2, lt_exclusive = False\<rparr>"

lemmas unit_defs = read_unit_def update_unit_def effects_wf_def coherent_def one_reader_def two_readers_def

lemma acquire_first: "try_acquire lock_table_default (for_effects (read_unit t)) = Acquired one_reader"
  by (simp add: try_acquire_def lock_table_default_def for_effects_def unit_defs is_compatible_def read_compatible_def)

lemma acquire_second: "try_acquire one_reader (for_effects (read_unit t)) = Acquired two_readers"
  by (simp add: try_acquire_def for_effects_def unit_defs is_compatible_def read_compatible_def numeral_2_eq_2)

text \<open>A unit that reads and writes one resource makes an idle table panic.\<close>

theorem try_acquire_decides_can_run_with_witness:
  "try_acquire lock_table_default (for_effects update_unit) = AcquirePanic \<and>
     \<not> bs_disjoint (rfx_reads update_unit) (rfx_writes update_unit)"
proof -
  have panic: "try_acquire lock_table_default (for_effects update_unit) = AcquirePanic"
    by (simp add: try_acquire_def lock_table_default_def for_effects_def unit_defs is_compatible_def
        read_compatible_def write_compatible_def)
  have "lock_holders (image_mset for_effects {#}) lock_table_default" by (simp add: lock_holders_default)
  from try_acquire_decides_can_run_with [OF this, of update_unit] panic
  show ?thesis by (simp add: unit_defs)
qed

theorem lock_table_excludes_conflicts_witness: "can_run_with (read_unit ''x'') (read_unit ''y'')"
proof (rule lock_table_excludes_conflicts)
  have "lock_run {#read_unit ''y''#} one_reader"
    by (rule lock_acquire [OF lock_start _ acquire_first]) (simp add: unit_defs)
  then show "lock_run {#read_unit ''x'', read_unit ''y''#} two_readers"
    by (rule lock_acquire [OF _ _ acquire_second]) (simp add: unit_defs)
qed

theorem release_restores_holders_witness:
  "lock_holders {#} (release_locks one_reader (for_effects (read_unit ''x'')))"
proof (rule release_restores_holders)
  have "request_wf (for_effects (read_unit ''x'')) \<and> \<not> self_conflicting (for_effects (read_unit ''x''))"
    by (simp add: request_wf_def self_conflicting_def for_effects_def unit_defs)
  from lock_table.acquire_holders [OF lock_holders_default this, of one_reader]
  show "lock_holders {#for_effects (read_unit ''x'')#} one_reader"
    by (simp add: acquire_lock_def acquire_first)
qed

end
