(* ===== verification/Registry.thy ===== *)
theory Registry
  imports Builtin
begin

text \<open>
  The adapter and capability registry, \<^verbatim>\<open>crates/tool-compiler-runtime/src/registry.rs\<close>.
  \<^verbatim>\<open>jsonschema::validator_for\<close> is a parameter \<open>compile\<close>; a validator is a value of \<open>'v\<close>.
\<close>

section \<open>State\<close>

definition BUILTIN_ADAPTER :: string where
  "BUILTIN_ADAPTER = ''builtin''"

record tool_capabilities =
  tc_effects :: "effects option"
  tc_limits :: "tool_limits option"
  tc_cost :: "tool_cost option"
  tc_version :: "string option"
  tc_input_schema :: "json option"
  tc_output_schema :: "json option"

definition capabilities_new :: tool_capabilities where
  "capabilities_new = \<lparr>tc_effects = None, tc_limits = None, tc_cost = None, tc_version = None,
     tc_input_schema = None, tc_output_schema = None\<rparr>"

record ('w, 'v) tool_registry =
  reg_adapters :: "(string, 'w executor) btree"
  reg_capabilities :: "(string, tool_capabilities) btree"
  reg_adapter_capabilities :: "(string, (string, tool_capabilities) btree) btree"
  reg_blocked_tools :: "string bset"
  reg_validator_cache :: "string \<rightharpoonup> 'v"

section \<open>Registration\<close>

definition register_adapter :: "string \<Rightarrow> 'w executor \<Rightarrow> ('w, 'v) tool_registry \<Rightarrow> ('w, 'v) tool_registry" where
  "register_adapter adapter ex r = r\<lparr>reg_adapters := bt_insert adapter ex (reg_adapters r)\<rparr>"

definition register_tool_capabilities ::
  "string \<Rightarrow> tool_capabilities \<Rightarrow> ('w, 'v) tool_registry \<Rightarrow> ('w, 'v) tool_registry" where
  "register_tool_capabilities tool c r =
     r\<lparr>reg_capabilities := bt_insert tool c (reg_capabilities r)\<rparr>"

definition register_adapter_tool_capabilities ::
  "string \<Rightarrow> string \<Rightarrow> tool_capabilities \<Rightarrow> ('w, 'v) tool_registry \<Rightarrow> ('w, 'v) tool_registry" where
  "register_adapter_tool_capabilities adapter tool c r =
     r\<lparr>reg_adapter_capabilities :=
        bt_insert adapter (bt_insert tool c (get_list (reg_adapter_capabilities r) adapter))
          (reg_adapter_capabilities r)\<rparr>"

definition block_tool :: "string \<Rightarrow> ('w, 'v) tool_registry \<Rightarrow> ('w, 'v) tool_registry" where
  "block_tool tool r = r\<lparr>reg_blocked_tools := bs_insert tool (reg_blocked_tools r)\<rparr>"

definition register_builtin_capabilities :: "('w, 'v) tool_registry \<Rightarrow> ('w, 'v) tool_registry" where
  "register_builtin_capabilities r =
     foldl (\<lambda>r tool. register_adapter_tool_capabilities BUILTIN_ADAPTER tool
              (capabilities_new\<lparr>tc_effects := Some effects_pure\<rparr>) r) r BUILTIN_TOOLS"

definition registry_new :: "('w, 'v) tool_registry" where
  "registry_new = register_builtin_capabilities (register_adapter BUILTIN_ADAPTER builtin_executor
     \<lparr>reg_adapters = [], reg_capabilities = [], reg_adapter_capabilities = [], reg_blocked_tools = [],
      reg_validator_cache = Map.empty\<rparr>)"

section \<open>Lookups\<close>

definition is_blocked :: "('w, 'v) tool_registry \<Rightarrow> string \<Rightarrow> bool" where
  "is_blocked r tool \<longleftrightarrow> tool \<in> set (reg_blocked_tools r)"

definition capabilities_for :: "('w, 'v) tool_registry \<Rightarrow> string \<Rightarrow> string \<Rightarrow> tool_capabilities option" where
  "capabilities_for r adapter tool =
     (case Option.bind (map_of (reg_adapter_capabilities r) adapter) (\<lambda>tools. map_of tools tool) of
        Some c \<Rightarrow> Some c
      | None \<Rightarrow> map_of (reg_capabilities r) tool)"

definition registry_executor :: "('w, 'v) tool_registry \<Rightarrow> string \<Rightarrow> 'w executor option" where
  "registry_executor r adapter = map_of (reg_adapters r) adapter"

definition or_else :: "'a option \<Rightarrow> 'a option \<Rightarrow> 'a option" where
  "or_else a b = (case a of None \<Rightarrow> b | Some x \<Rightarrow> Some x)"

definition merge_capabilities :: "tool_spec \<Rightarrow> tool_capabilities \<Rightarrow> tool_spec" where
  "merge_capabilities spec c = spec\<lparr>
     spec_effects := or_else (spec_effects spec) (tc_effects c),
     spec_limits := or_else (spec_limits spec) (tc_limits c),
     spec_cost := or_else (spec_cost spec) (tc_cost c),
     spec_version := or_else (spec_version spec) (tc_version c)\<rparr>"

definition apply_capabilities :: "('w, 'v) tool_registry \<Rightarrow> plan \<Rightarrow> plan" where
  "apply_capabilities r p = p\<lparr>plan_tools := map (\<lambda>(tool, spec).
     (tool, case capabilities_for r (spec_adapter spec) tool of
        None \<Rightarrow> spec | Some c \<Rightarrow> merge_capabilities spec c)) (plan_tools p)\<rparr>"

definition compiled_validator :: "(json \<Rightarrow> (string, 'v) result) \<Rightarrow> json \<Rightarrow> ('w, 'v) tool_registry
    \<Rightarrow> (string, 'v) result \<times> ('w, 'v) tool_registry" where
  "compiled_validator compile schema r =
     (let key = canonical_json_string schema in
      case reg_validator_cache r key of
        Some v \<Rightarrow> (Inr v, r)
      | None \<Rightarrow>
          (case compile schema of
             Inl e \<Rightarrow> (Inl e, r)
           | Inr v \<Rightarrow> (Inr v, r\<lparr>reg_validator_cache := (reg_validator_cache r)(key \<mapsto> v)\<rparr>)))"

section \<open>Lookups after registrations\<close>

lemma capabilities_after_scoped:
  "capabilities_for (register_adapter_tool_capabilities a t c r) a' t' =
     (if a' = a \<and> t' = t then Some c else capabilities_for r a' t')"
  by (auto simp: capabilities_for_def register_adapter_tool_capabilities_def get_list_def
      split: option.split)

lemma capabilities_after_global:
  "capabilities_for (register_tool_capabilities t c r) a' t' =
     (case Option.bind (map_of (reg_adapter_capabilities r) a') (\<lambda>tools. map_of tools t') of
        Some s \<Rightarrow> Some s | None \<Rightarrow> if t' = t then Some c else map_of (reg_capabilities r) t')"
  by (simp add: capabilities_for_def register_tool_capabilities_def split: option.split)

lemma executor_after_register:
  "registry_executor (register_adapter a ex r) a' = (if a' = a then Some ex else registry_executor r a')"
  by (simp add: registry_executor_def register_adapter_def)

lemma blocked_after_block: "is_blocked (block_tool t r) t' \<longleftrightarrow> t' = t \<or> is_blocked r t'"
  by (simp add: is_blocked_def block_tool_def)

section \<open>Hydration\<close>

lemma merge_capabilities_twice:
  "merge_capabilities (merge_capabilities spec c) c = merge_capabilities spec c"
  by (simp add: merge_capabilities_def or_else_def split: option.split)

lemma merge_capabilities_adapter [simp]: "spec_adapter (merge_capabilities spec c) = spec_adapter spec"
  by (simp add: merge_capabilities_def)

definition hydrated :: "('w, 'v) tool_registry \<Rightarrow> tool_name \<Rightarrow> tool_spec \<Rightarrow> tool_spec" where
  "hydrated r tool spec = (case capabilities_for r (spec_adapter spec) tool of
     None \<Rightarrow> spec | Some c \<Rightarrow> merge_capabilities spec c)"

lemma hydrated_twice: "hydrated r tool (hydrated r tool spec) = hydrated r tool spec"
  by (auto simp: hydrated_def merge_capabilities_twice split: option.split)

lemma apply_capabilities_eq:
  "apply_capabilities r p = p\<lparr>plan_tools := map (\<lambda>(t, s). (t, hydrated r t s)) (plan_tools p)\<rparr>"
  by (simp only: apply_capabilities_def hydrated_def)

lemma apply_capabilities_lookup:
  "map_of (plan_tools (apply_capabilities r p)) tool = map_option (hydrated r tool) (map_of (plan_tools p) tool)"
proof -
  have "map_of (map (\<lambda>(t, s). (t, hydrated r t s)) m) tool = map_option (hydrated r tool) (map_of m tool)" for m
    by (induction m) auto
  then show ?thesis by (simp add: apply_capabilities_eq)
qed

text \<open>
  Hydration keeps the plan but for its tool specs, never overrides what a spec declares,
  fills each missing field from the registry, the adapter's own entry first, and a second
  hydration changes nothing.
\<close>

theorem apply_capabilities_spec:
  "plan_nodes (apply_capabilities r p) = plan_nodes p \<and> map fst (plan_tools (apply_capabilities r p)) = map fst (plan_tools p) \<and>
   map_of (plan_tools (apply_capabilities r p)) tool = map_option (hydrated r tool) (map_of (plan_tools p) tool) \<and>
   spec_effects (hydrated r tool spec) = or_else (spec_effects spec)
     (Option.bind (capabilities_for r (spec_adapter spec) tool) tc_effects) \<and>
   apply_capabilities r (apply_capabilities r p) = apply_capabilities r p"
proof -
  have "spec_effects (hydrated r tool spec) = or_else (spec_effects spec)
     (Option.bind (capabilities_for r (spec_adapter spec) tool) tc_effects)"
    by (auto simp: hydrated_def merge_capabilities_def or_else_def split: option.split)
  moreover have "apply_capabilities r (apply_capabilities r p) = apply_capabilities r p"
    by (simp add: apply_capabilities_eq o_def case_prod_beta hydrated_twice)
  moreover have "plan_nodes (apply_capabilities r p) = plan_nodes p"
    "map fst (plan_tools (apply_capabilities r p)) = map fst (plan_tools p)"
    by (simp_all add: apply_capabilities_eq o_def case_prod_beta)
  ultimately show ?thesis using apply_capabilities_lookup by blast
qed

section \<open>The validator memo\<close>

definition memo_ok :: "(json \<Rightarrow> (string, 'v) result) \<Rightarrow> ('w, 'v) tool_registry \<Rightarrow> bool" where
  "memo_ok compile r \<longleftrightarrow> (\<forall>key v. reg_validator_cache r key = Some v \<longrightarrow>
     (\<exists>schema. wf_json schema \<and> canonical_json_string schema = key \<and> compile schema = Inr v))"

text \<open>
  The memo of compiled validators is never observable: a lookup returns what compiling the
  schema anew returns, because equal canonical texts come from equal schemas.
\<close>

theorem validator_memo_transparent:
  assumes "memo_ok compile r" "wf_json schema"
  shows "fst (compiled_validator compile schema r) = compile schema \<and>
    memo_ok compile (snd (compiled_validator compile schema r))"
proof (cases "reg_validator_cache r (canonical_json_string schema)")
  case (Some v)
  with assms(1) obtain schema' where "wf_json schema'"
    "canonical_json_string schema' = canonical_json_string schema" "compile schema' = Inr v"
    unfolding memo_ok_def by blast
  with canonical_inj [of schema' schema] assms(2) have "compile schema = Inr v" by simp
  with Some assms(1) show ?thesis by (simp add: compiled_validator_def)
next
  case None
  show ?thesis
  proof (cases "compile schema")
    case (Inl e)
    with None assms(1) show ?thesis by (simp add: compiled_validator_def Let_def)
  next
    case (Inr v)
    have "memo_ok compile (r\<lparr>reg_validator_cache := (reg_validator_cache r)(canonical_json_string schema \<mapsto> v)\<rparr>)"
      using assms Inr by (auto simp: memo_ok_def)
    with None Inr show ?thesis by (simp add: compiled_validator_def Let_def)
  qed
qed

theorem validator_memo_transparent_witness:
  "fst (compiled_validator (\<lambda>s. if s = JNull then Inl ''bad'' else Inr s) (JBool True)
     (registry_new :: (nat, json) tool_registry)) = Inr (JBool True)"
proof -
  have "memo_ok (\<lambda>s. if s = JNull then Inl ''bad'' else Inr s) (registry_new :: (nat, json) tool_registry)"
    by (simp add: memo_ok_def registry_new_def register_builtin_capabilities_def BUILTIN_TOOLS_def
        register_adapter_tool_capabilities_def register_adapter_def)
  from validator_memo_transparent [OF this, of "JBool True"] show ?thesis by simp
qed

end
