(* ===== verification/Engine.thy ===== *)
theory Engine
  imports Locks Registry RunResult
begin

text \<open>
  The engine of one run before it is scheduled: \<^verbatim>\<open>crates/tool-compiler-runtime/src/engine.rs\<close>
  and the configuration and entry points of \<^verbatim>\<open>lib.rs\<close>. Every index into a map that would
  panic on a missing key is an option here, and the lemmas show that a validated plan never
  reaches one. The sink of live events is left out: it receives what is pushed on the trace.
\<close>

section \<open>Configuration\<close>

datatype error_mode = FailFast | Continue

record run_config =
  rc_on_error :: error_mode
  rc_result_mode :: result_mode
  rc_use_cache :: bool
  rc_max_concurrency :: "nat option"
  rc_default_timeout_ms :: "64 word option"
  rc_max_output_bytes :: "nat option"
  rc_cancel :: bool
  rc_redactor :: "redactor option"

definition run_config_default :: run_config where
  "run_config_default = \<lparr>rc_on_error = FailFast, rc_result_mode = ResultFull, rc_use_cache = False,
     rc_max_concurrency = None, rc_default_timeout_ms = None, rc_max_output_bytes = None,
     rc_cancel = False, rc_redactor = None\<rparr>"

definition run_config_new :: run_config where
  "run_config_new = run_config_default\<lparr>rc_use_cache := True\<rparr>"

text \<open>The derived \<^verbatim>\<open>Default\<close> leaves the cache off; only \<^verbatim>\<open>RunConfig::new\<close> turns it on.\<close>

lemma default_config_disables_cache: "\<not> rc_use_cache run_config_default" "rc_use_cache run_config_new"
  by (simp_all add: run_config_default_def run_config_new_def)

section \<open>Units and the engine\<close>

record sched_unit =
  un_members :: "node_id list"
  un_tool :: tool_name
  un_adapter :: string
  un_batch :: bool
  un_lock :: lock_request
  un_cost :: "64 word"

record ('w, 'v) engine =
  en_plan :: plan
  en_config :: run_config
  en_optimization :: optimization_report
  en_executors :: "(string, 'w executor) btree"
  en_graph :: execution_graph
  en_node_index :: "(node_id, nat) btree"
  en_data_deps :: "(node_id, node_id bset) btree"
  en_units :: "sched_unit list"
  en_unit_deps :: "nat bset list"
  en_unit_dependents :: "nat bset list"
  en_serial_position :: "(nat, nat) btree option"
  en_ready_keys :: "64 word list"
  en_blocked_tools :: "string bset"
  en_validators :: "(tool_name, 'v) btree"
  en_outputs :: "(node_id, json) btree"
  en_dead :: "node_id bset"
  en_errors :: "(node_id, tool_execution_error) btree"
  en_skipped :: "(node_id, skip_reason) btree"
  en_trace :: "trace_event list"
  en_metrics :: run_metrics
  en_locks :: lock_table
  en_tool_in_flight :: "(tool_name, nat) btree"
  en_total_in_flight :: nat
  en_stop :: "skip_reason option"

section \<open>Data dependencies\<close>

definition node_data_deps :: "node \<Rightarrow> node_id bset" where
  "node_data_deps n = bs_of_list (
     (case collect_refs (node_input n) of Inl e \<Rightarrow> [] | Inr refs \<Rightarrow> map ref_node refs) @
     (case node_for_each n of None \<Rightarrow> [] | Some items \<Rightarrow> [ref_node items]) @
     (case node_when n of None \<Rightarrow> [] | Some w \<Rightarrow> [ref_node (when_target w)]))"

definition collect_data_deps :: "plan \<Rightarrow> (node_id, node_id bset) btree" where
  "collect_data_deps p = bt_of_list (map (\<lambda>n. (node_id n, node_data_deps n)) (plan_nodes p))"

section \<open>Construction\<close>

text \<open>Release arithmetic: \<open>+\<close> wraps, the product saturates.\<close>

definition unit_cost :: "plan \<Rightarrow> string \<Rightarrow> 64 word \<Rightarrow> 64 word" where
  "unit_cost p tool calls =
     (let cost = Option.bind (map_of (plan_tools p) tool) spec_cost in
      (case Option.bind cost cost_fixed_ms of None \<Rightarrow> 0 | Some x \<Rightarrow> x) +
      saturating_mul (case Option.bind cost cost_per_call_ms of None \<Rightarrow> 0 | Some x \<Rightarrow> x) calls)"

fun engine_executors :: "('w, 'v) tool_registry \<Rightarrow> tool_spec list \<Rightarrow> (string, 'w executor) btree
    \<Rightarrow> (runtime_error, (string, 'w executor) btree) result" where
  "engine_executors r [] executors = Inr executors"
| "engine_executors r (spec # specs) executors =
     (if bt_mem (spec_adapter spec) executors then engine_executors r specs executors
      else case registry_executor r (spec_adapter spec) of
          None \<Rightarrow> Inl (MissingAdapter (spec_adapter spec))
        | Some ex \<Rightarrow> engine_executors r specs (bt_insert (spec_adapter spec) ex executors))"

fun engine_validators :: "(json \<Rightarrow> (string, 'v) result) \<Rightarrow> (tool_name \<times> tool_spec) list \<Rightarrow>
    (tool_name, 'v) btree \<Rightarrow> ('w, 'v) tool_registry \<Rightarrow>
    (runtime_error, (tool_name, 'v) btree) result \<times> ('w, 'v) tool_registry" where
  "engine_validators compile [] validators r = (Inr validators, r)"
| "engine_validators compile ((tool, spec) # tools) validators r =
     (case Option.bind (capabilities_for r (spec_adapter spec) tool) tc_input_schema of
        None \<Rightarrow> engine_validators compile tools validators r
      | Some schema \<Rightarrow>
          (case compiled_validator compile schema r of
             (Inl message, r1) \<Rightarrow> (Inl (InvalidInputSchema tool message), r1)
           | (Inr v, r1) \<Rightarrow> engine_validators compile tools (bt_insert tool v validators) r1))"

definition node_positions :: "plan \<Rightarrow> (node_id, nat) btree" where
  "node_positions p = bt_of_list (map (\<lambda>(position, n). (node_id n, position)) (enumerate 0 (plan_nodes p)))"

definition group_unit :: "plan \<Rightarrow> execution_graph \<Rightarrow> batch_group \<Rightarrow> sched_unit option" where
  "group_unit p g b =
     map_option (\<lambda>fxs.
         \<lparr>un_members = bg_nodes b, un_tool = bg_tool b, un_adapter = bg_adapter b, un_batch = True,
          un_lock = foldl merge_request lock_request_default (map for_effects fxs),
          un_cost = unit_cost p (bg_tool b) (of_nat (length (bg_nodes b)))\<rparr>)
       (those (map (map_of (g_resolved_effects g)) (bg_nodes b)))"

definition single_unit :: "plan \<Rightarrow> execution_graph \<Rightarrow> node \<Rightarrow> sched_unit option" where
  "single_unit p g n =
     map_option (\<lambda>fx.
         \<lparr>un_members = [node_id n], un_tool = node_tool n,
          un_adapter = (case map_of (plan_tools p) (node_tool n) of None \<Rightarrow> [] | Some spec \<Rightarrow> spec_adapter spec),
          un_batch = False, un_lock = for_effects fx, un_cost = unit_cost p (node_tool n) 1\<rparr>)
       (map_of (g_resolved_effects g) (node_id n))"

text \<open>The units: the batch groups, then the other nodes in id order.\<close>

definition engine_units :: "plan \<Rightarrow> execution_graph \<Rightarrow> batch_group list \<Rightarrow> sched_unit list option" where
  "engine_units p g groups =
     (let grouped = concat (map bg_nodes groups);
          singles = filter (\<lambda>(i, position). i \<notin> set grouped) (node_positions p)
      in Option.bind (those (map (group_unit p g) groups)) (\<lambda>us.
         map_option (\<lambda>vs. us @ vs)
           (those (map (\<lambda>(i, position). single_unit p g (plan_nodes p ! position)) singles))))"

definition unit_index :: "sched_unit list \<Rightarrow> (node_id, nat) btree" where
  "unit_index us = bt_of_list (concat (map (\<lambda>(k, u). map (\<lambda>m. (m, k)) (un_members u)) (enumerate 0 us)))"

fun wire_deps :: "(node_id, nat) btree \<Rightarrow> nat \<Rightarrow> node_id list \<Rightarrow> nat bset list \<times> nat bset list
    \<Rightarrow> (nat bset list \<times> nat bset list) option" where
  "wire_deps unit_of u [] w = Some w"
| "wire_deps unit_of u (dep # deps) (unit_deps, dependents) =
     (case map_of unit_of dep of
        None \<Rightarrow> None
      | Some du \<Rightarrow>
          wire_deps unit_of u deps
            (if du \<noteq> u then (unit_deps[u := bs_insert du (unit_deps ! u)],
                             dependents[du := bs_insert u (dependents ! du)])
             else (unit_deps, dependents)))"

fun wire_units :: "(node_id, nat) btree \<Rightarrow> (node_id \<times> node_id bset) list \<Rightarrow> nat bset list \<times> nat bset list
    \<Rightarrow> (nat bset list \<times> nat bset list) option" where
  "wire_units unit_of [] w = Some w"
| "wire_units unit_of ((n, deps) # rest) w =
     (case map_of unit_of n of
        None \<Rightarrow> None
      | Some u \<Rightarrow> Option.bind (wire_deps unit_of u deps w) (wire_units unit_of rest))"

definition serial_positions :: "(node_id, nat) btree \<Rightarrow> execution_graph \<Rightarrow> (nat, nat) btree option" where
  "serial_positions unit_of g =
     map_option bt_of_list
       (those (map (\<lambda>(position, n). map_option (\<lambda>u. (u, position)) (map_of unit_of n))
          (enumerate 0 (concat (g_layers g)))))"

definition ready_key :: "(nat, nat) btree option \<Rightarrow> sched_unit list \<Rightarrow> nat \<Rightarrow> 64 word" where
  "ready_key serial_position us u = (case serial_position of
       Some order \<Rightarrow> - 1 - of_nat (case map_of order u of None \<Rightarrow> usize_max | Some position \<Rightarrow> position)
     | None \<Rightarrow> un_cost (us ! u))"

definition engine_new :: "(json \<Rightarrow> (string, 'v) result) \<Rightarrow> ('w, 'v) tool_registry \<Rightarrow> plan \<Rightarrow> execution_graph \<Rightarrow>
    (node_id, node_id bset) btree \<Rightarrow> optimization_report \<Rightarrow> run_config \<Rightarrow> bool \<Rightarrow>
    ((runtime_error, ('w, 'v) engine) result \<times> ('w, 'v) tool_registry) option" where
  "engine_new compile r p g data_deps report config serial =
     (case engine_executors r (map snd (plan_tools p)) [] of
        Inl e \<Rightarrow> Some (Inl e, r)
      | Inr executors \<Rightarrow>
          (case engine_validators compile (plan_tools p) [] r of
             (Inl e, r1) \<Rightarrow> Some (Inl e, r1)
           | (Inr validators, r1) \<Rightarrow>
               Option.bind (engine_units p g (if serial then [] else rep_batch_groups report)) (\<lambda>us.
               let unit_of = unit_index us; n = length us in
               Option.bind (wire_units unit_of (g_dependencies g) (replicate n [], replicate n [])) (\<lambda>(unit_deps, dependents).
               Option.bind (if serial then map_option Some (serial_positions unit_of g) else Some None) (\<lambda>serial_position.
                 Some (Inr \<lparr>en_plan = p, en_config = config, en_optimization = report, en_executors = executors,
                   en_graph = g, en_node_index = node_positions p, en_data_deps = data_deps, en_units = us,
                   en_unit_deps = unit_deps, en_unit_dependents = dependents,
                   en_serial_position = serial_position,
                   en_ready_keys = map (ready_key serial_position us) [0..<n],
                   en_blocked_tools = filter (is_blocked r1) (map fst (plan_tools p)),
                   en_validators = validators, en_outputs = [], en_dead = [], en_errors = [],
                   en_skipped = [], en_trace = [],
                   en_metrics = run_metrics_default\<lparr>rm_nodes_total := length (plan_nodes p)\<rparr>,
                   en_locks = lock_table_default, en_tool_in_flight = [], en_total_in_flight = 0,
                   en_stop = None\<rparr>, r1))))))"

definition en_node :: "('w, 'v) engine \<Rightarrow> node_id \<Rightarrow> node" where
  "en_node e member = plan_nodes (en_plan e) ! the (map_of (en_node_index e) member)"

text \<open>The entry points that build an engine.\<close>

definition prepare :: "debug_format \<Rightarrow> ('w, 'v) tool_registry \<Rightarrow> plan
    \<Rightarrow> (runtime_error, optimized_plan \<times> (node_id, node_id bset) btree) result option" where
  "prepare dbg r p =
     map_option (\<lambda>res. res_bind (map_err GraphFailure res) (\<lambda>opt.
         Inr (opt, collect_data_deps (op_plan opt))))
       (optimize dbg (apply_capabilities r p))"

text \<open>The empty report of runs without the optimizer.\<close>

definition report_default :: optimization_report where
  "report_default = \<lparr>rep_passes = [], rep_deduplicated = [], rep_eliminated = [], rep_batch_groups = [],
     rep_summary = \<lparr>os_tool_calls_before = 0, os_tool_calls_after = 0, os_llm_turns_before = 0,
       os_llm_turns_after = 0, os_serial_ms = None, os_compiled_ms = None, os_tokens_before = None,
       os_tokens_after = None\<rparr>\<rparr>"

text \<open>The engine each entry point of \<^verbatim>\<open>Runtime\<close> runs.\<close>

definition engine_prepared :: "(json \<Rightarrow> (string, 'v) result) \<Rightarrow> ('w, 'v) tool_registry \<Rightarrow>
    optimized_plan \<times> (node_id, node_id bset) btree \<Rightarrow> run_config \<Rightarrow>
    ((runtime_error, ('w, 'v) engine) result \<times> ('w, 'v) tool_registry) option" where
  "engine_prepared compile r prepared config =
     (case prepared of (opt, data_deps) \<Rightarrow>
        engine_new compile r (op_plan opt) (op_graph opt) data_deps (op_report opt) config False)"

definition engine_optimized :: "debug_format \<Rightarrow> (json \<Rightarrow> (string, 'v) result) \<Rightarrow> ('w, 'v) tool_registry \<Rightarrow>
    plan \<Rightarrow> run_config \<Rightarrow> ((runtime_error, ('w, 'v) engine) result \<times> ('w, 'v) tool_registry) option" where
  "engine_optimized dbg compile r p config =
     (case prepare dbg r p of
        None \<Rightarrow> None
      | Some (Inl e) \<Rightarrow> Some (Inl e, r)
      | Some (Inr prepared) \<Rightarrow> engine_prepared compile r prepared config)"

definition engine_unoptimized :: "(json \<Rightarrow> (string, 'v) result) \<Rightarrow> ('w, 'v) tool_registry \<Rightarrow> plan \<Rightarrow>
    run_config \<Rightarrow> bool \<Rightarrow> ((runtime_error, ('w, 'v) engine) result \<times> ('w, 'v) tool_registry) option" where
  "engine_unoptimized compile r p config serial =
     (let p' = apply_capabilities r p in
      case validate p' of
        Inl e \<Rightarrow> Some (Inl (GraphFailure e), r)
      | Inr g \<Rightarrow> engine_new compile r p' g (collect_data_deps p') report_default config serial)"

end
