(* ===== verification/EngineSpec.thy ===== *)
theory EngineSpec
  imports Engine
begin

text \<open>
  What engine construction gives for a validated plan: every node is in exactly one unit, the
  units wait for exactly the units of their dependencies, no unit waits for itself through
  others, and nothing panics.
\<close>

section \<open>Lookups\<close>

lemma those_Some: "those xs = Some ys \<longleftrightarrow> xs = map Some ys"
proof (induction xs arbitrary: ys)
  case (Cons x xs)
  then show ?case by (cases x; cases ys) auto
qed auto

lemma those_each:
  assumes "\<And>x. x \<in> set xs \<Longrightarrow> \<exists>y. f x = Some y"
  shows "\<exists>ys. those (map f xs) = Some ys"
proof -
  have "map f xs = map Some (map (\<lambda>x. the (f x)) xs)" using assms by force
  then show ?thesis unfolding those_Some by blast
qed

lemma node_positions_lookup:
  assumes "distinct (node_ids p)"
  shows "map_of (node_positions p) i = Some k \<longleftrightarrow> k < length (plan_nodes p) \<and> node_id (plan_nodes p ! k) = i"
proof -
  have "map fst (map (\<lambda>(position, n). (node_id n, position)) (enumerate 0 (plan_nodes p))) = node_ids p"
    by (rule nth_equalityI) (simp_all add: node_ids_def nth_enumerate_eq)
  with assms have d: "distinct (map fst (map (\<lambda>(position, n). (node_id n, position)) (enumerate 0 (plan_nodes p))))" by simp
  show ?thesis unfolding node_positions_def bt_get_of_list_distinct [OF d] map_of_eq_Some_iff [OF d]
    by (force simp: in_set_enumerate_eq)
qed

lemma node_positions_keys: "fst ` set (node_positions p) = set (node_ids p)"
proof -
  have "map fst (map (\<lambda>(position, n). (node_id n, position)) (enumerate 0 (plan_nodes p))) = node_ids p"
    by (rule nth_equalityI) (simp_all add: node_ids_def nth_enumerate_eq)
  from arg_cong [OF this, of set]
  have "fst ` set (map (\<lambda>(position, n). (node_id n, position)) (enumerate 0 (plan_nodes p))) = set (node_ids p)"
    by (simp only: set_map)
  then show ?thesis by (simp only: node_positions_def fst_set_bt_of_list)
qed

lemma node_positions_ok: "bt_ok (node_positions p)"
  by (simp add: node_positions_def)

lemma unit_index_lookup:
  assumes "distinct (concat (map un_members us))"
  shows "map_of (unit_index us) m = Some k \<longleftrightarrow> k < length us \<and> m \<in> set (un_members (us ! k))"
proof -
  let ?kvs = "concat (map (\<lambda>(k, u). map (\<lambda>m. (m, k)) (un_members u)) (enumerate 0 us))"
  have "map fst ?kvs = concat (map (\<lambda>(k, u). un_members u) (enumerate 0 us))"
    by (simp add: map_concat o_def case_prod_unfold)
  also have "map (\<lambda>(k, u). un_members u) (enumerate 0 us) = map un_members us"
    by (rule nth_equalityI) (simp_all add: nth_enumerate_eq)
  finally have d: "distinct (map fst ?kvs)" using assms by simp
  show ?thesis unfolding unit_index_def bt_get_of_list_distinct [OF d] map_of_eq_Some_iff [OF d]
    by (force simp: in_set_enumerate_eq)
qed

section \<open>The units of a validated plan\<close>

text \<open>The units partition the nodes, and the members of a unit are in one layer.\<close>

definition units_cover :: "plan \<Rightarrow> sched_unit list \<Rightarrow> bool" where
  "units_cover p us \<longleftrightarrow> distinct (concat (map un_members us)) \<and>
     set (concat (map un_members us)) = set (node_ids p) \<and> (\<forall>u \<in> set us. un_members u \<noteq> [])"

lemma cover_member:
  assumes "units_cover p us" "k < length us" "m \<in> set (un_members (us ! k))"
  shows "m \<in> set (node_ids p)"
proof -
  have "us ! k \<in> set us" using assms(2) by simp
  with assms(3) have "m \<in> set (concat (map un_members us))" by auto
  with assms(1) show ?thesis by (simp add: units_cover_def)
qed

text \<open>A request that asks for at least what another asks for.\<close>

definition covers :: "lock_request \<Rightarrow> lock_request \<Rightarrow> bool" where
  "covers big small \<longleftrightarrow> (lr_world small \<longrightarrow> lr_world big) \<and> set (lr_reads small) \<subseteq> set (lr_reads big) \<and>
     set (lr_writes small) \<subseteq> set (lr_writes big) \<and>
     (lr_commutative_tool big \<noteq> None \<longrightarrow> lr_commutative_tool small = lr_commutative_tool big)"

lemma covers_compatible:
  assumes "covers a a'" "covers b b'" "compatible_requests a b"
  shows "compatible_requests a' b'"
  using assms unfolding covers_def compatible_requests_def by auto

lemma merge_requests_cover:
  assumes "lr_commutative_tool q = None"
  shows "lr_commutative_tool (foldl merge_request q qs) = None \<and>
    (lr_world q \<longrightarrow> lr_world (foldl merge_request q qs)) \<and> set (lr_reads q) \<subseteq> set (lr_reads (foldl merge_request q qs)) \<and>
    set (lr_writes q) \<subseteq> set (lr_writes (foldl merge_request q qs)) \<and>
    (\<forall>x \<in> set qs. covers (foldl merge_request q qs) x)"
  using assms
proof (induction qs arbitrary: q)
  case (Cons x qs)
  have m: "lr_commutative_tool (merge_request q x) = None" "lr_world q \<or> lr_world x \<longrightarrow> lr_world (merge_request q x)"
    "set (lr_reads (merge_request q x)) = set (lr_reads q) \<union> set (lr_reads x)"
    "set (lr_writes (merge_request q x)) = set (lr_writes q) \<union> set (lr_writes x)"
    using Cons.prems by (auto simp: merge_request_def)
  from Cons.IH [OF m(1)] m(2-4) show ?case by (auto simp: covers_def)
qed simp

definition unit_ok :: "plan \<Rightarrow> execution_graph \<Rightarrow> sched_unit \<Rightarrow> bool" where
  "unit_ok p g u \<longleftrightarrow> (\<forall>m \<in> set (un_members u). \<exists>fx. map_of (g_resolved_effects g) m = Some fx \<and> covers (un_lock u) (for_effects fx)) \<and> (\<exists>layer \<in> set (g_layers g). set (un_members u) \<subseteq> set layer) \<and>
     un_adapter u = adapter_of p (un_tool u) \<and> request_wf (un_lock u) \<and>
     (\<forall>m \<in> set (un_members u). \<exists>n \<in> set (plan_nodes p). node_id n = m \<and> node_tool n = un_tool u)"

definition groups_ok :: "plan \<Rightarrow> execution_graph \<Rightarrow> batch_group list \<Rightarrow> bool" where
  "groups_ok p g groups \<longleftrightarrow> (\<forall>b \<in> set groups. group_ok p g b) \<and> distinct (concat (map bg_nodes groups))"

lemma request_wf_effects: "bs_ok (rfx_reads fx) \<Longrightarrow> bs_ok (rfx_writes fx) \<Longrightarrow> request_wf (for_effects fx)"
  by (auto simp: request_wf_def for_effects_def lock_request_default_def intro: bs_ok_distinct)

lemma merge_requests_wf:
  "request_wf q \<Longrightarrow> bs_ok (lr_reads q) \<Longrightarrow> bs_ok (lr_writes q) \<Longrightarrow>
    request_wf (foldl merge_request q qs) \<and> bs_ok (lr_reads (foldl merge_request q qs)) \<and>
    bs_ok (lr_writes (foldl merge_request q qs))"
proof (induction qs arbitrary: q)
  case (Cons q' qs)
  have "bs_ok (lr_reads (merge_request q q'))" "bs_ok (lr_writes (merge_request q q'))"
    using Cons.prems by (simp_all add: merge_request_def)
  then show ?case using Cons.IH [of "merge_request q q'"] by (simp add: request_wf_def bs_ok_distinct)
qed simp

lemma group_unit_ok:
  assumes "validate p = Inr g" "group_ok p g b"
  shows "\<exists>u. group_unit p g b = Some u \<and> un_members u = bg_nodes b \<and> bg_nodes b \<noteq> [] \<and> unit_ok p g u"
proof -
  note g = graph_of_validate [OF assms(1)]
  have known: "\<exists>fx. map_of (g_resolved_effects g) m = Some fx" if "m \<in> set (bg_nodes b)" for m
  proof -
    from that assms(2) obtain n where n: "n \<in> set (plan_nodes p)" "node_id n = m" unfolding group_ok_def by blast
    show ?thesis unfolding g(4) n(2) [symmetric] by (rule exI) (rule plan_effects_lookup [OF g(7) n(1)])
  qed
  have "\<exists>fxs. those (map (map_of (g_resolved_effects g)) (bg_nodes b)) = Some fxs"
    by (rule those_each) (rule known)
  then obtain fxs where f: "those (map (map_of (g_resolved_effects g)) (bg_nodes b)) = Some fxs" by (rule exE)
  have "request_wf (foldl merge_request lock_request_default (map for_effects fxs))"
    using merge_requests_wf [of lock_request_default "map for_effects fxs"]
    by (simp add: request_wf_def lock_request_default_def bs_ok_def)
  moreover have "\<exists>fx. map_of (g_resolved_effects g) m = Some fx \<and>
      covers (foldl merge_request lock_request_default (map for_effects fxs)) (for_effects fx)" if "m \<in> set (bg_nodes b)" for m
  proof -
    have "Some ` set fxs = map_of (g_resolved_effects g) ` set (bg_nodes b)"
      using arg_cong [OF f [unfolded those_Some], of set] by simp
    moreover have "map_of (g_resolved_effects g) m \<in> map_of (g_resolved_effects g) ` set (bg_nodes b)"
      using that by (rule imageI)
    ultimately have "map_of (g_resolved_effects g) m \<in> Some ` set fxs" by (simp only:)
    then obtain fx where fx: "map_of (g_resolved_effects g) m = Some fx" "fx \<in> set fxs" by (rule imageE)
    have "lr_commutative_tool lock_request_default = None" by (simp add: lock_request_default_def)
    note merge_requests_cover [OF this, of "map for_effects fxs"]
    with fx show ?thesis by simp
  qed
  ultimately have "unit_ok p g \<lparr>un_members = bg_nodes b, un_tool = bg_tool b, un_adapter = bg_adapter b, un_batch = True,
      un_lock = foldl merge_request lock_request_default (map for_effects fxs),
      un_cost = unit_cost p (bg_tool b) (of_nat (length (bg_nodes b)))\<rparr>"
    using assms(2) by (auto simp: unit_ok_def group_ok_def)
  moreover have "bg_nodes b \<noteq> []" using assms(2) by (auto simp: group_ok_def)
  ultimately show ?thesis using f by (simp add: group_unit_def)
qed

lemma single_unit_ok:
  assumes "validate p = Inr g" "n \<in> set (plan_nodes p)"
  shows "\<exists>u. single_unit p g n = Some u \<and> un_members u = [node_id n] \<and> unit_ok p g u"
proof -
  note g = graph_of_validate [OF assms(1)]
  let ?fx = "for_node n (tool_effects p (node_tool n))"
  have fx: "map_of (g_resolved_effects g) (node_id n) = Some ?fx"
    using plan_effects_lookup [OF g(7) assms(2)] unfolding g(4) .
  have "request_wf (for_effects ?fx)"
    by (rule request_wf_effects) (auto simp: for_node_def resolve_resources_def bs_ok_def [of "[]"] split: option.split)
  moreover have "\<exists>layer \<in> set (g_layers g). node_id n \<in> set layer"
    using g(6) assms(2) by (auto simp: node_ids_def)
  moreover have "covers q q" for q by (simp add: covers_def)
  ultimately show ?thesis using fx assms(2) by (auto simp: single_unit_def unit_ok_def adapter_of_def)
qed

lemma map_Some_members:
  assumes "map f xs = map Some us" "\<And>x. x \<in> set xs \<Longrightarrow> \<exists>u. f x = Some u \<and> un_members u = h x \<and> Q u"
  shows "map un_members us = map h xs \<and> (\<forall>u \<in> set us. Q u)"
  using assms
proof (induction xs arbitrary: us)
  case (Cons x xs)
  then obtain u us' where u: "us = u # us'" "f x = Some u" "map f xs = map Some us'" by auto
  from Cons.prems(2) [of x] u(2) have "un_members u = h x \<and> Q u" by auto
  with Cons.IH [OF u(3)] Cons.prems(2) u(1) show ?case by simp
qed simp

lemma engine_units_ok:
  assumes "validate p = Inr g" "groups_ok p g groups"
  shows "\<exists>us. engine_units p g groups = Some us \<and> units_cover p us \<and> (\<forall>u \<in> set us. unit_ok p g u)"
proof -
  note g = graph_of_validate [OF assms(1)]
  define grouped where "grouped = concat (map bg_nodes groups)"
  define singles where "singles = filter (\<lambda>(i, position). i \<notin> set grouped) (node_positions p)"
  let ?f = "\<lambda>(i, position). single_unit p g (plan_nodes p ! position)"
  have ok: "group_ok p g b" if "b \<in> set groups" for b using assms(2) that by (simp add: groups_ok_def)
  have gu: "\<exists>u. group_unit p g b = Some u \<and> un_members u = bg_nodes b \<and> bg_nodes b \<noteq> [] \<and> unit_ok p g u"
    if "b \<in> set groups" for b using group_unit_ok [OF assms(1) ok [OF that]] .
  have "\<exists>us. those (map (group_unit p g) groups) = Some us"
    by (rule those_each) (drule gu, elim exE conjE, rule exI)
  then obtain us where us: "those (map (group_unit p g) groups) = Some us" by (rule exE)
  have sp: "snd x < length (plan_nodes p) \<and> node_id (plan_nodes p ! snd x) = fst x" if "x \<in> set singles" for x
  proof -
    have "(fst x, snd x) \<in> set (node_positions p)" using that by (simp add: singles_def)
    then have "map_of (node_positions p) (fst x) = Some (snd x)"
      using bt_ok_distinct [OF node_positions_ok] by simp
    then show ?thesis unfolding node_positions_lookup [OF g(7)] .
  qed
  have su: "\<exists>u. ?f x = Some u \<and> un_members u = [fst x] \<and> unit_ok p g u" if "x \<in> set singles" for x
    using single_unit_ok [OF assms(1), OF nth_mem [OF conjunct1 [OF sp [OF that]]]] conjunct2 [OF sp [OF that]]
    unfolding case_prod_beta by metis
  have "\<exists>vs. those (map ?f singles) = Some vs"
    by (rule those_each) (drule su, elim exE conjE, rule exI)
  then obtain vs where vs: "those (map ?f singles) = Some vs" by (rule exE)
  have m1: "map un_members us = map bg_nodes groups \<and> (\<forall>u \<in> set us. un_members u \<noteq> [] \<and> unit_ok p g u)"
    by (rule map_Some_members [OF us [unfolded those_Some]]) (drule gu, elim exE conjE, intro exI conjI, simp_all)
  have m2: "map un_members vs = map (\<lambda>x. [fst x]) singles \<and> (\<forall>u \<in> set vs. un_members u \<noteq> [] \<and> unit_ok p g u)"
    by (rule map_Some_members [OF vs [unfolded those_Some]]) (drule su, elim exE conjE, intro exI conjI, simp_all)
  have c: "concat (map un_members (us @ vs)) = grouped @ map fst singles"
    using m1 m2 by (simp add: grouped_def)
  have "distinct (map fst (node_positions p))" by (rule bt_ok_distinct [OF node_positions_ok])
  then have "distinct (map fst singles)" unfolding singles_def by (rule distinct_map_filter)
  moreover have "distinct grouped" using assms(2) by (simp add: groups_ok_def grouped_def)
  moreover have "set grouped \<inter> fst ` set singles = {}" by (auto simp: singles_def)
  ultimately have dis: "distinct (concat (map un_members (us @ vs)))" unfolding c by simp
  have "set grouped \<subseteq> set (node_ids p)"
    using ok by (fastforce simp: grouped_def group_ok_def node_ids_def)
  moreover have "fst ` set singles = set (node_ids p) - set grouped"
    unfolding node_positions_keys [symmetric] by (force simp: singles_def)
  ultimately have "set (concat (map un_members (us @ vs))) = set (node_ids p)" unfolding c by auto
  with dis m1 m2 have "units_cover p (us @ vs) \<and> (\<forall>u \<in> set (us @ vs). unit_ok p g u)"
    by (auto simp: units_cover_def)
  moreover have "engine_units p g groups = Some (us @ vs)"
    using us vs by (simp add: engine_units_def grouped_def [symmetric] singles_def [symmetric])
  ultimately show ?thesis by blast
qed

section \<open>The dependencies between units\<close>

definition wired :: "nat \<Rightarrow> nat bset list \<times> nat bset list \<Rightarrow> bool" where
  "wired n w \<longleftrightarrow> length (fst w) = n \<and> length (snd w) = n \<and>
     (\<forall>u < n. bs_ok (fst w ! u) \<and> bs_ok (snd w ! u) \<and> set (fst w ! u) \<subseteq> {..<n}) \<and>
     (\<forall>u < n. \<forall>v < n. v \<in> set (fst w ! u) \<longleftrightarrow> u \<in> set (snd w ! v)) \<and>
     (\<forall>u < n. set (snd w ! u) \<subseteq> {..<n})"

lemma wired_start: "wired n (replicate n [], replicate n [])"
  by (simp add: wired_def bs_ok_def)

lemma wired_edge:
  assumes "wired n (a, b)" "u < n" "v < n"
  shows "wired n (a[u := bs_insert v (a ! u)], b[v := bs_insert u (b ! v)])"
  using assms unfolding wired_def by (auto simp: nth_list_update)

lemma wire_deps_ok:
  assumes "wired n w" "u < n" "\<forall>d \<in> set deps. \<exists>v < n. map_of unit_of d = Some v"
  shows "\<exists>w'. wire_deps unit_of u deps w = Some w' \<and> wired n w' \<and>
    (\<forall>x < n. set (fst w' ! x) = set (fst w ! x) \<union>
       (if x = u then {v. v \<noteq> u \<and> (\<exists>d \<in> set deps. map_of unit_of d = Some v)} else {}))"
  using assms
proof (induction deps arbitrary: w)
  case (Cons d deps)
  obtain a b where w: "w = (a, b)" by (cases w)
  from Cons.prems(3) obtain v where v: "v < n" "map_of unit_of d = Some v" by auto
  define w1 where "w1 = (if v \<noteq> u then (a[u := bs_insert v (a ! u)], b[v := bs_insert u (b ! v)]) else (a, b))"
  have w1: "wired n w1" using wired_edge [of n a b u v] Cons.prems(1,2) v(1) w by (simp add: w1_def)
  have len: "length a = n" using Cons.prems(1) w by (simp add: wired_def)
  from Cons.IH [OF w1 Cons.prems(2)] Cons.prems(3) obtain w' where
    i: "wire_deps unit_of u deps w1 = Some w'" "wired n w'"
      "\<forall>x < n. set (fst w' ! x) = set (fst w1 ! x) \<union>
         (if x = u then {v. v \<noteq> u \<and> (\<exists>d \<in> set deps. map_of unit_of d = Some v)} else {})" by auto
  have "wire_deps unit_of u (d # deps) w = Some w'" using i(1) v(2) w by (simp add: w1_def)
  moreover have "set (fst w' ! x) = set (fst w ! x) \<union>
       (if x = u then {v. v \<noteq> u \<and> (\<exists>d \<in> set (d # deps). map_of unit_of d = Some v)} else {})" if "x < n" for x
    using i(3) that v(2) w len Cons.prems(2) by (auto simp: w1_def nth_list_update)
  ultimately show ?case using i(2) by blast
qed simp

lemma wire_units_ok:
  assumes "wired n w" "\<forall>(m, deps) \<in> set dm. (\<exists>u < n. map_of unit_of m = Some u) \<and>
      (\<forall>d \<in> set deps. \<exists>v < n. map_of unit_of d = Some v)"
  shows "\<exists>w'. wire_units unit_of dm w = Some w' \<and> wired n w' \<and>
    (\<forall>x < n. set (fst w' ! x) = set (fst w ! x) \<union>
       {v. v \<noteq> x \<and> (\<exists>(m, deps) \<in> set dm. map_of unit_of m = Some x \<and> (\<exists>d \<in> set deps. map_of unit_of d = Some v))})"
  using assms
proof (induction dm arbitrary: w)
  case (Cons md dm)
  obtain m deps where md: "md = (m, deps)" by (cases md)
  from Cons.prems(2) md obtain u where u: "u < n" "map_of unit_of m = Some u" by auto
  have deps: "\<forall>d \<in> set deps. \<exists>v < n. map_of unit_of d = Some v" using Cons.prems(2) md by auto
  from wire_deps_ok [OF Cons.prems(1) u(1) deps] obtain w1 where
    w1: "wire_deps unit_of u deps w = Some w1" "wired n w1"
      "\<forall>x < n. set (fst w1 ! x) = set (fst w ! x) \<union>
         (if x = u then {v. v \<noteq> u \<and> (\<exists>d \<in> set deps. map_of unit_of d = Some v)} else {})" by blast
  from Cons.IH [OF w1(2)] Cons.prems(2) obtain w' where
    w': "wire_units unit_of dm w1 = Some w'" "wired n w'"
      "\<forall>x < n. set (fst w' ! x) = set (fst w1 ! x) \<union>
       {v. v \<noteq> x \<and> (\<exists>(m, deps) \<in> set dm. map_of unit_of m = Some x \<and> (\<exists>d \<in> set deps. map_of unit_of d = Some v))}"
    by auto
  have "wire_units unit_of (md # dm) w = Some w'" using w'(1) w1(1) u(2) md by simp
  moreover have "set (fst w' ! x) = set (fst w ! x) \<union>
       {v. v \<noteq> x \<and> (\<exists>(m, deps) \<in> set (md # dm). map_of unit_of m = Some x \<and> (\<exists>d \<in> set deps. map_of unit_of d = Some v))}"
    if "x < n" for x
    using w'(3) w1(3) that u md by auto
  ultimately show ?case using w'(2) by blast
qed simp

section \<open>No unit waits for itself\<close>

definition node_layer :: "node_id list list \<Rightarrow> node_id \<Rightarrow> nat" where
  "node_layer layers m = (LEAST i. i < length layers \<and> m \<in> set (layers ! i))"

lemma node_layer_in:
  assumes "m \<in> set (concat layers)"
  shows "node_layer layers m < length layers \<and> m \<in> set (layers ! node_layer layers m)"
proof -
  from assms obtain l where "l \<in> set layers" "m \<in> set l" by auto
  then obtain i where "i < length layers" "m \<in> set (layers ! i)" by (metis in_set_conv_nth)
  then show ?thesis unfolding node_layer_def
    by (intro LeastI [of "\<lambda>i. i < length layers \<and> m \<in> set (layers ! i)" i]) simp
qed

lemma node_layer_unique:
  assumes "distinct (concat layers)" "i < length layers" "m \<in> set (layers ! i)"
  shows "node_layer layers m = i"
proof -
  have "m \<in> set (concat layers)" using assms(2,3) by auto
  from node_layer_in [OF this] have j: "node_layer layers m < length layers" "m \<in> set (layers ! node_layer layers m)" by auto
  have "node_layer layers m \<le> i" unfolding node_layer_def by (rule Least_le) (use assms in simp)
  moreover have False if "node_layer layers m < i"
  proof -
    have "layers = take i layers @ layers ! i # drop (Suc i) layers" using assms(2) by (rule id_take_nth_drop)
    then have "set (concat (take i layers)) \<inter> set (layers ! i) = {}"
      using assms(1) by (metis concat_append concat.simps(2) distinct_append set_append Int_Un_distrib Un_empty)
    moreover have "layers ! node_layer layers m \<in> set (take i layers)"
      using that j(1) by (auto simp: in_set_conv_nth)
    ultimately show False using j(2) assms(3) by auto
  qed
  ultimately show ?thesis by (metis le_neq_implies_less)
qed

lemma dep_layer_less:
  assumes "layers_sound dm effects layers" "m \<in> set (concat layers)" "d \<in> deps_of dm m"
  shows "node_layer layers d < node_layer layers m"
proof -
  let ?i = "node_layer layers m"
  have i: "?i < length layers" "m \<in> set (layers ! ?i)" using node_layer_in [OF assms(2)] by auto
  have "d \<in> set (concat (take ?i layers))" using assms(1,3) i unfolding layers_sound_def by blast
  then obtain l where "l \<in> set (take ?i layers)" "d \<in> set l" by auto
  then obtain j where "j < length (take ?i layers)" "take ?i layers ! j = l" by (meson in_set_conv_nth)
  with \<open>d \<in> set l\<close> have j: "j < ?i" "d \<in> set (layers ! j)" "j < length layers" by auto
  have "node_layer layers d \<le> j" unfolding node_layer_def by (rule Least_le) (use j in simp)
  with j(1) show ?thesis by simp
qed

section \<open>The engine\<close>

definition unit_waits :: "dependency_map \<Rightarrow> sched_unit \<Rightarrow> sched_unit \<Rightarrow> bool" where
  "unit_waits dm u v \<longleftrightarrow> (\<exists>m \<in> set (un_members u). \<exists>d \<in> deps_of dm m. d \<in> set (un_members v))"

definition engine_ok :: "('w, 'v) engine \<Rightarrow> bool" where
  "engine_ok e \<longleftrightarrow> validate (en_plan e) = Inr (en_graph e) \<and> units_cover (en_plan e) (en_units e) \<and>
     (\<forall>u \<in> set (en_units e). unit_ok (en_plan e) (en_graph e) u \<and> map_of (en_executors e) (un_adapter u) \<noteq> None) \<and>
     wired (length (en_units e)) (en_unit_deps e, en_unit_dependents e) \<and>
     (\<forall>u < length (en_units e). \<forall>v < length (en_units e). v \<in> set (en_unit_deps e ! u) \<longleftrightarrow>
        v \<noteq> u \<and> unit_waits (g_dependencies (en_graph e)) (en_units e ! u) (en_units e ! v)) \<and>
     length (en_ready_keys e) = length (en_units e) \<and>
     en_node_index e = node_positions (en_plan e) \<and> en_data_deps e = collect_data_deps (en_plan e)"

definition engine_fresh :: "('w, 'v) engine \<Rightarrow> bool" where
  "engine_fresh e \<longleftrightarrow> en_outputs e = [] \<and> en_dead e = [] \<and> en_errors e = [] \<and> en_skipped e = [] \<and> en_trace e = [] \<and>
     en_metrics e = run_metrics_default\<lparr>rm_nodes_total := length (plan_nodes (en_plan e))\<rparr> \<and>
     en_locks e = lock_table_default \<and> en_tool_in_flight e = [] \<and> en_total_in_flight e = 0 \<and> en_stop e = None"

text \<open>Along the wait relation between units the layer of the members falls.\<close>

definition unit_layer :: "execution_graph \<Rightarrow> sched_unit \<Rightarrow> nat" where
  "unit_layer g u = node_layer (g_layers g) (hd (un_members u))"

lemma unit_layer_member:
  assumes "validate p = Inr g" "unit_ok p g u" "un_members u \<noteq> []" "m \<in> set (un_members u)"
  shows "node_layer (g_layers g) m = unit_layer g u"
proof -
  have d: "distinct (concat (g_layers g))" using graph_of_validate(5) [OF assms(1)] by (simp add: layers_sound_def)
  from assms(2) obtain i where i: "i < length (g_layers g)" "set (un_members u) \<subseteq> set (g_layers g ! i)"
    unfolding unit_ok_def by (metis in_set_conv_nth)
  have "hd (un_members u) \<in> set (un_members u)" using assms(3) by simp
  with i assms(4) node_layer_unique [OF d i(1)] show ?thesis unfolding unit_layer_def by (metis subsetD)
qed

lemma engine_ok_layers:
  assumes "engine_ok e" "u < length (en_units e)" "v \<in> set (en_unit_deps e ! u)"
  shows "v < length (en_units e) \<and> unit_layer (en_graph e) (en_units e ! v) < unit_layer (en_graph e) (en_units e ! u)"
proof -
  have val: "validate (en_plan e) = Inr (en_graph e)" and c: "units_cover (en_plan e) (en_units e)"
    using assms(1) by (simp_all add: engine_ok_def)
  note g = graph_of_validate [OF val]
  have v: "v < length (en_units e)" using assms by (auto simp: engine_ok_def wired_def)
  from assms v have "unit_waits (g_dependencies (en_graph e)) (en_units e ! u) (en_units e ! v)"
    unfolding engine_ok_def by blast
  then obtain m d where md: "m \<in> set (un_members (en_units e ! u))" "d \<in> deps_of (plan_deps (en_plan e)) m"
    "d \<in> set (un_members (en_units e ! v))" unfolding unit_waits_def g(3) by blast
  have "m \<in> set (node_ids (en_plan e))" using cover_member [OF c assms(2) md(1)] .
  then have "node_layer (g_layers (en_graph e)) d < node_layer (g_layers (en_graph e)) m"
    using dep_layer_less [OF g(5) _ md(2)] unfolding g(6) by blast
  moreover have ok: "unit_ok (en_plan e) (en_graph e) (en_units e ! k) \<and> un_members (en_units e ! k) \<noteq> []"
    if "k < length (en_units e)" for k using assms(1) that by (simp add: engine_ok_def units_cover_def)
  ultimately show ?thesis
    using unit_layer_member [OF val conjunct1 [OF ok] conjunct2 [OF ok]] assms(2) v md(1,3) by metis
qed

lemma engine_executors_ok:
  "engine_executors r specs ex = Inr ex' \<Longrightarrow>
    (\<forall>a \<in> fst ` set ex \<union> spec_adapter ` set specs. map_of ex' a \<noteq> None)"
proof (induction r specs ex rule: engine_executors.induct)
  case (1 r ex)
  then show ?case by (auto simp: map_of_eq_None_iff)
next
  case (2 r spec specs ex)
  show ?case
  proof (cases "bt_mem (spec_adapter spec) ex")
    case True
    with "2.prems" "2.IH"(1) show ?thesis by (auto simp: bt_mem_iff)
  next
    case False
    with "2.prems" obtain x where x: "registry_executor r (spec_adapter spec) = Some x"
      "engine_executors r specs (bt_insert (spec_adapter spec) x ex) = Inr ex'" by (auto split: option.splits)
    from "2.IH"(2) [OF False x] show ?thesis by auto
  qed
qed

lemma engine_executors_error:
  "engine_executors r specs ex = Inl e \<Longrightarrow>
    \<exists>spec \<in> set specs. registry_executor r (spec_adapter spec) = None \<and> e = MissingAdapter (spec_adapter spec)"
  by (induction r specs ex rule: engine_executors.induct) (auto split: if_splits option.splits)

text \<open>Compiling validators changes nothing but the memo.\<close>

definition bad_schema :: "(json \<Rightarrow> (string, 'v) result) \<Rightarrow> ('w, 'v) tool_registry \<Rightarrow> (tool_name \<times> tool_spec) list \<Rightarrow> runtime_error \<Rightarrow> bool" where
  "bad_schema compile r tools e \<longleftrightarrow> (\<exists>(tool, spec) \<in> set tools. \<exists>schema m.
     Option.bind (capabilities_for r (spec_adapter spec) tool) tc_input_schema = Some schema \<and>
     compile schema = Inl m \<and> e = InvalidInputSchema tool m)"

lemma capabilities_memo [simp]: "capabilities_for (r\<lparr>reg_validator_cache := m\<rparr>) = capabilities_for r"
  by (intro ext) (simp add: capabilities_for_def split: option.split)

lemma engine_validators_error:
  "engine_validators compile tools vs r = (Inl e, r') \<Longrightarrow> bad_schema compile r tools e"
proof (induction tools arbitrary: vs r)
  case (Cons ts tools)
  obtain tool spec where ts: "ts = (tool, spec)" by (cases ts)
  have later: "bad_schema compile r1 tools e \<Longrightarrow> capabilities_for r1 = capabilities_for r \<Longrightarrow> bad_schema compile r (ts # tools) e" for r1
    by (auto simp: bad_schema_def)
  show ?case
  proof (cases "Option.bind (capabilities_for r (spec_adapter spec) tool) tc_input_schema")
    case None
    with Cons.prems ts have "engine_validators compile tools vs r = (Inl e, r')" by simp
    from later [OF Cons.IH [OF this]] show ?thesis by simp
  next
    case (Some schema)
    obtain v r1 where v: "compiled_validator compile schema r = (v, r1)" by (cases "compiled_validator compile schema r")
    have same: "capabilities_for r1 = capabilities_for r"
      using v by (auto simp: compiled_validator_def Let_def split: option.splits sum.splits)
    show ?thesis
    proof (cases v)
      case (Inl m)
      have "compile schema = Inl m"
        using v Inl by (auto simp: compiled_validator_def Let_def split: option.splits sum.splits)
      with Cons.prems ts Some v Inl show ?thesis by (auto simp: bad_schema_def)
    next
      case (Inr x)
      with Cons.prems ts Some v have "engine_validators compile tools (bt_insert tool x vs) r1 = (Inl e, r')" by simp
      from later [OF Cons.IH [OF this] same] show ?thesis .
    qed
  qed
qed simp

lemma plan_deps_entries:
  assumes "structural p" "(m, deps) \<in> set (plan_deps p)"
  shows "m \<in> set (node_ids p) \<and> set deps \<subseteq> set (node_ids p) \<and> set deps = deps_of (plan_deps p) m"
proof -
  have c: "closed_deps (plan_deps p)" using closed_plan_deps [OF assms(1)] .
  then have "map_of (plan_deps p) m = Some deps"
    using assms(2) bt_ok_distinct map_of_is_SomeI unfolding closed_deps_def by metis
  then have "set deps = deps_of (plan_deps p) m" by (simp add: deps_of_def get_list_def)
  with c assms(2) fst_set_plan_deps [of p] img_fst [OF assms(2)] show ?thesis unfolding closed_deps_def by blast
qed

lemma wire_units_plan:
  assumes "structural p" "units_cover p us"
  shows "\<exists>w. wire_units (unit_index us) (plan_deps p) (replicate (length us) [], replicate (length us) []) = Some w \<and>
    wired (length us) w \<and>
    (\<forall>u < length us. \<forall>v < length us. v \<in> set (fst w ! u) \<longleftrightarrow> v \<noteq> u \<and> unit_waits (plan_deps p) (us ! u) (us ! v))"
proof -
  have d: "distinct (concat (map un_members us))" using assms(2) by (simp add: units_cover_def)
  note idx = unit_index_lookup [OF d]
  have known: "\<exists>u < length us. map_of (unit_index us) m = Some u" if "m \<in> set (node_ids p)" for m
  proof -
    from that assms(2) obtain u where "u \<in> set us" "m \<in> set (un_members u)" unfolding units_cover_def by force
    then show ?thesis unfolding idx by (metis in_set_conv_nth)
  qed
  have "\<forall>(m, deps) \<in> set (plan_deps p). (\<exists>u < length us. map_of (unit_index us) m = Some u) \<and>
      (\<forall>d \<in> set deps. \<exists>v < length us. map_of (unit_index us) d = Some v)"
    using known plan_deps_entries [OF assms(1)] by blast
  from wire_units_ok [OF wired_start this] obtain w where
    w: "wire_units (unit_index us) (plan_deps p) (replicate (length us) [], replicate (length us) []) = Some w"
      "wired (length us) w"
      "\<forall>x < length us. set (fst w ! x) = set (fst (replicate (length us) [], replicate (length us) [] :: nat bset list) ! x) \<union>
       {v. v \<noteq> x \<and> (\<exists>(m, deps) \<in> set (plan_deps p). map_of (unit_index us) m = Some x \<and> (\<exists>d \<in> set deps. map_of (unit_index us) d = Some v))}"
    by blast
  have "(\<exists>(m, deps) \<in> set (plan_deps p). map_of (unit_index us) m = Some u \<and> (\<exists>d \<in> set deps. map_of (unit_index us) d = Some v))
      \<longleftrightarrow> unit_waits (plan_deps p) (us ! u) (us ! v)" if "u < length us" "v < length us" for u v
  proof
    assume "\<exists>(m, deps) \<in> set (plan_deps p). map_of (unit_index us) m = Some u \<and> (\<exists>d \<in> set deps. map_of (unit_index us) d = Some v)"
    then show "unit_waits (plan_deps p) (us ! u) (us ! v)"
      using plan_deps_entries [OF assms(1)] unfolding unit_waits_def idx by blast
  next
    assume "unit_waits (plan_deps p) (us ! u) (us ! v)"
    then obtain m d where md: "m \<in> set (un_members (us ! u))" "d \<in> deps_of (plan_deps p) m" "d \<in> set (un_members (us ! v))"
      unfolding unit_waits_def by blast
    then have "get_list (plan_deps p) m \<noteq> []" by (auto simp: deps_of_def)
    then obtain deps where "(m, deps) \<in> set (plan_deps p)" using get_list_nonempty_key by fastforce
    moreover from this have "d \<in> set deps" using plan_deps_entries [OF assms(1)] md(2) by blast
    ultimately show "\<exists>(m, deps) \<in> set (plan_deps p). map_of (unit_index us) m = Some u \<and> (\<exists>d \<in> set deps. map_of (unit_index us) d = Some v)"
      using md(1,3) that unfolding idx by blast
  qed
  with w show ?thesis by (intro exI [of _ w]) simp
qed

lemma serial_positions_total:
  assumes "units_cover p us" "set (concat (g_layers g)) \<subseteq> set (node_ids p)"
  shows "\<exists>s. serial_positions (unit_index us) g = Some s"
proof -
  have d: "distinct (concat (map un_members us))" using assms(1) by (simp add: units_cover_def)
  let ?f = "\<lambda>(position :: nat, n). map_option (\<lambda>u. (u, position)) (map_of (unit_index us) n)"
  have each: "\<exists>y. ?f x = Some y"
    if "x \<in> set (enumerate 0 (concat (g_layers g)))" for x
  proof -
    obtain position n where x: "x = (position, n)" by (cases x)
    with that have "n \<in> set (concat (g_layers g))" by (metis enumerate_eq_zip in_set_zipE)
    then have "n \<in> set (concat (map un_members us))" using assms unfolding units_cover_def by blast
    then obtain u where "u \<in> set us" "n \<in> set (un_members u)" by auto
    then obtain k where "map_of (unit_index us) n = Some k" unfolding unit_index_lookup [OF d] by (metis in_set_conv_nth)
    with x show ?thesis by simp
  qed
  have "\<exists>ys. those (map ?f (enumerate 0 (concat (g_layers g)))) = Some ys"
    by (rule those_each) (rule each)
  then show ?thesis unfolding serial_positions_def by (elim exE) simp
qed

lemma unit_adapter_registered:
  assumes "validate p = Inr g" "unit_ok p g u" "un_members u \<noteq> []"
    and "engine_executors r (map snd (plan_tools p)) [] = Inr ex"
  shows "map_of ex (un_adapter u) \<noteq> None"
proof -
  from assms(2,3) obtain n where n: "n \<in> set (plan_nodes p)" "node_tool n = un_tool u"
    unfolding unit_ok_def by (metis list.set_sel(1))
  have "nodes_wf p" using graph_of_validate(1) [OF assms(1)] by (simp add: structural_def)
  then have "bt_mem (un_tool u) (plan_tools p)" using n by (auto simp: nodes_wf_def)
  then obtain spec where spec: "map_of (plan_tools p) (un_tool u) = Some spec" by (auto simp: bt_mem_def)
  then have "spec_adapter spec \<in> spec_adapter ` set (map snd (plan_tools p))" by (force dest: map_of_SomeD)
  moreover have "un_adapter u = spec_adapter spec" using assms(2) spec by (simp add: unit_ok_def adapter_of_def)
  ultimately show ?thesis using engine_executors_ok [OF assms(4)] by (metis Un_iff)
qed

lemma engine_built:
  assumes "validate p = Inr g" "groups_ok p g (rep_batch_groups report)"
  shows "\<exists>res r'. engine_new compile r p g (collect_data_deps p) report config serial = Some (res, r') \<and>
    (case res of
       Inl e \<Rightarrow> (\<exists>spec \<in> set (map snd (plan_tools p)). registry_executor r (spec_adapter spec) = None \<and> e = MissingAdapter (spec_adapter spec)) \<or>
                bad_schema compile r (plan_tools p) e
     | Inr e \<Rightarrow> engine_ok e \<and> engine_fresh e \<and> en_plan e = p \<and> en_config e = config)"
proof (cases "engine_executors r (map snd (plan_tools p)) []")
  case (Inl e)
  from engine_executors_error [OF this] Inl show ?thesis by (simp add: engine_new_def)
next
  case (Inr ex)
  note g = graph_of_validate [OF assms(1)]
  obtain vr r1 where v: "engine_validators compile (plan_tools p) [] r = (vr, r1)" by (cases "engine_validators compile (plan_tools p) [] r")
  show ?thesis
  proof (cases vr)
    case (Inl e)
    with v engine_validators_error [of compile "plan_tools p" "[]" r e r1] Inr show ?thesis by (simp add: engine_new_def)
  next
    case vs: (Inr vs)
    define groups where "groups = (if serial then [] else rep_batch_groups report)"
    have "groups_ok p g groups" using assms(2) by (simp add: groups_def groups_ok_def)
    from engine_units_ok [OF assms(1) this] obtain us where
      us: "engine_units p g groups = Some us" "units_cover p us" "\<forall>u \<in> set us. unit_ok p g u" by blast
    from wire_units_plan [OF g(1) us(2)] obtain a b where
      w: "wire_units (unit_index us) (plan_deps p) (replicate (length us) [], replicate (length us) []) = Some (a, b)"
        "wired (length us) (a, b)"
        "\<forall>u < length us. \<forall>v < length us. v \<in> set (a ! u) \<longleftrightarrow> v \<noteq> u \<and> unit_waits (plan_deps p) (us ! u) (us ! v)"
      by auto
    have "\<exists>s. serial_positions (unit_index us) g = Some s" using serial_positions_total [OF us(2)] g(6) by blast
    then obtain sp where sp: "(if serial then map_option Some (serial_positions (unit_index us) g) else Some None) = Some sp"
      by (cases serial) auto
    define e where "e = \<lparr>en_plan = p, en_config = config, en_optimization = report, en_executors = ex,
        en_graph = g, en_node_index = node_positions p, en_data_deps = collect_data_deps p, en_units = us,
        en_unit_deps = a, en_unit_dependents = b, en_serial_position = sp,
        en_ready_keys = map (ready_key sp us) [0..<length us],
        en_blocked_tools = filter (is_blocked r1) (map fst (plan_tools p)),
        en_validators = vs, en_outputs = [], en_dead = [], en_errors = [],
        en_skipped = [], en_trace = [],
        en_metrics = run_metrics_default\<lparr>rm_nodes_total := length (plan_nodes p)\<rparr>,
        en_locks = lock_table_default, en_tool_in_flight = [], en_total_in_flight = 0, en_stop = None\<rparr>"
    have new: "engine_new compile r p g (collect_data_deps p) report config serial = Some (Inr e, r1)"
      unfolding engine_new_def Inr sum.case v vs prod.case groups_def [symmetric] us(1) Option.bind.simps Let_def g(3) w(1) sp e_def ..
    have "map_of ex (un_adapter u) \<noteq> None" if "u \<in> set us" for u
      using unit_adapter_registered [OF assms(1) _ _ Inr] us(2,3) that unfolding units_cover_def by blast
    then have "engine_ok e" using assms(1) us w(2,3) g(3) by (simp add: engine_ok_def e_def)
    moreover have "engine_fresh e" by (simp add: engine_fresh_def e_def)
    ultimately show ?thesis using new by (simp add: e_def)
  qed
qed

text \<open>
  C35. Building the engine of a validated plan with the optimizer's batch groups never panics.
  It fails only for an adapter without executor or an invalid input schema; otherwise the units
  partition the nodes, every unit has an executor, and a unit waits for exactly the other units
  that hold a dependency of one of its members.
\<close>

theorem engine_new_spec:
  assumes "validate p = Inr g" "groups_ok p g (rep_batch_groups report)"
  shows "\<exists>res r'. engine_new compile r p g (collect_data_deps p) report config serial = Some (res, r') \<and>
    (case res of
       Inl e \<Rightarrow> (\<exists>spec \<in> set (map snd (plan_tools p)). registry_executor r (spec_adapter spec) = None \<and> e = MissingAdapter (spec_adapter spec)) \<or>
                bad_schema compile r (plan_tools p) e
     | Inr e \<Rightarrow> engine_ok e \<and> engine_fresh e \<and> en_plan e = p \<and> en_config e = config)"
  using assms by (rule engine_built)

text \<open>The optimizer's groups and the empty report meet the hypothesis.\<close>

lemma optimized_groups_ok:
  assumes "optimize dbg p = Some (Inr opt)"
  shows "validate (op_plan opt) = Inr (op_graph opt)"
    and "groups_ok (op_plan opt) (op_graph opt) (rep_batch_groups (op_report opt))"
proof -
  from assms obtain tools dd p' where "optimize_validated tools dd p' = Inr opt" by (auto simp: optimize_def)
  note o = optimize_validated_graph [OF this]
  show "validate (op_plan opt) = Inr (op_graph opt)" by (rule o(1))
  have "distinct (concat (g_layers (op_graph opt)))"
    using graph_of_validate(5) [OF o(1)] by (simp add: layers_sound_def)
  from find_batch_groups_disjoint [OF this]
  show "groups_ok (op_plan opt) (op_graph opt) (rep_batch_groups (op_report opt))"
    unfolding o(3) groups_ok_def groups_nodes_def using find_batch_groups_ok by blast
qed

lemma no_groups_ok: "groups_ok p g []"
  by (simp add: groups_ok_def)

text \<open>So every entry point of the runtime that gets an engine gets a fresh, well-wired one.\<close>

lemma engine_optimized_ok:
  assumes "engine_optimized dbg compile r p config = Some (Inr e, r')"
  shows "engine_ok e \<and> engine_fresh e \<and> en_config e = config"
proof -
  from assms obtain opt dd where p: "prepare dbg r p = Some (Inr (opt, dd))"
    "engine_prepared compile r (opt, dd) config = Some (Inr e, r')"
    by (auto simp: engine_optimized_def split: option.splits sum.splits)
  then have o: "optimize dbg (apply_capabilities r p) = Some (Inr opt)" "dd = collect_data_deps (op_plan opt)"
    by (auto simp: prepare_def res_bind_eq_Inr map_err_eq_Inr)
  from engine_built [OF optimized_groups_ok [OF o(1)], of compile r config False] p(2) o(2)
  show ?thesis by (auto simp: engine_prepared_def)
qed

lemma engine_unoptimized_ok:
  assumes "engine_unoptimized compile r p config serial = Some (Inr e, r')"
  shows "engine_ok e \<and> engine_fresh e \<and> en_config e = config"
proof -
  let ?p = "apply_capabilities r p"
  from assms obtain g where g: "validate ?p = Inr g"
    "engine_new compile r ?p g (collect_data_deps ?p) report_default config serial = Some (Inr e, r')"
    by (auto simp: engine_unoptimized_def Let_def split: sum.splits)
  have "groups_ok ?p g (rep_batch_groups report_default)" by (simp add: report_default_def no_groups_ok)
  from engine_built [OF g(1) this, of compile r config serial] g(2) show ?thesis by auto
qed

definition example_registry :: "(unit, unit) tool_registry" where
  "example_registry = register_adapter ''builtin'' (executor_of (\<lambda>tool input w.
     \<lparr>tr_result = Inr input, tr_time = 0, tr_world = (\<lambda>_. w)\<rparr>)) registry_new"

lemma example_builds:
  assumes "list_all (\<lambda>(t, spec). spec_adapter spec = ''builtin'') (plan_tools p)"
  shows "\<not> ((\<exists>spec \<in> set (map snd (plan_tools p)). registry_executor example_registry (spec_adapter spec) = None \<and>
      e = MissingAdapter (spec_adapter spec)) \<or> bad_schema (\<lambda>_. Inr ()) example_registry (plan_tools p) e)"
proof -
  have "registry_executor example_registry ''builtin'' \<noteq> None"
    by (simp add: example_registry_def executor_after_register)
  moreover have "spec_adapter spec = ''builtin''" if "spec \<in> set (map snd (plan_tools p))" for spec
    using assms that unfolding list_all_iff by auto
  ultimately have "registry_executor example_registry (spec_adapter spec) \<noteq> None" if "spec \<in> set (map snd (plan_tools p))" for spec
    using that by metis
  moreover have "\<not> bad_schema (\<lambda>_. Inr ()) example_registry (plan_tools p) e" unfolding bad_schema_def by auto
  ultimately show ?thesis by blast
qed

theorem engine_new_spec_witness:
  "\<exists>(e :: (unit, unit) engine) r'. engine_new (\<lambda>_. Inr ()) example_registry example_plan example_graph
      (collect_data_deps example_plan) report_default run_config_new False = Some (Inr e, r') \<and> engine_ok e"
proof -
  have "groups_ok example_plan example_graph (rep_batch_groups report_default)"
    by (simp add: report_default_def no_groups_ok)
  from engine_new_spec [OF example_valid this, of "\<lambda>_. Inr ()" example_registry run_config_new False]
  obtain res r' where n: "engine_new (\<lambda>_. Inr ()) example_registry example_plan example_graph
      (collect_data_deps example_plan) report_default run_config_new False = Some (res, r')"
    "case res of
       Inl e \<Rightarrow> (\<exists>spec \<in> set (map snd (plan_tools example_plan)). registry_executor example_registry (spec_adapter spec) = None \<and>
           e = MissingAdapter (spec_adapter spec)) \<or> bad_schema (\<lambda>_. Inr ()) example_registry (plan_tools example_plan) e
     | Inr e \<Rightarrow> engine_ok e \<and> engine_fresh e \<and> en_plan e = example_plan \<and> en_config e = run_config_new" by blast
  have "list_all (\<lambda>(t, spec). spec_adapter spec = ''builtin'') (plan_tools example_plan)" by code_simp
  note ok = example_builds [OF this]
  show ?thesis
  proof (cases res)
    case (Inl e)
    from ok [of e] n(2) [unfolded Inl sum.case] show ?thesis by (rule notE)
  next
    case (Inr e)
    with n show ?thesis by auto
  qed
qed

end
