(* ===== verification/Scheduler.thy ===== *)
theory Scheduler
  imports Engine Fanout
begin

text \<open>
  The scheduling loop, \<^verbatim>\<open>crates/tool-compiler-runtime/src/scheduler.rs\<close>. The ready heap is a
  list, greatest first; running tasks are the units in flight with their prepared members. The
  schema check is a parameter \<open>check\<close>, the wall clock a function \<open>clock\<close> of the number of events
  on the trace. \<open>None\<close> is a panic or a loop that does not end. What a dispatched task reports
  and which task ends first is not decided here: \<open>sched_step\<close> relates a state to every
  possible next one. The cache is part of the world of a dispatch and not of the run: \<open>absorb_outcome\<close>
  gives the resources a task has written, which the program hands to the invalidation of the
  cache (\<open>cache_invalidate_reads\<close>), and \<open>join_task\<close> has no use for them.
\<close>

section \<open>Loop state\<close>

type_synonym ready_entry = "64 word \<times> nat"

record ('w, 'v) sched =
  sc_engine :: "('w, 'v) engine"
  sc_remaining :: "nat list"
  sc_ready :: "ready_entry list"
  sc_blocked :: "nat list"
  sc_running :: "(nat \<times> prepared_member list) list"

text \<open>\<^verbatim>\<open>BinaryHeap<(u64, Reverse<usize>)>\<close>: the higher key first, then the lower unit.\<close>

definition pops_before :: "ready_entry \<Rightarrow> ready_entry \<Rightarrow> bool" where
  "pops_before a b \<longleftrightarrow> fst a > fst b \<or> fst a = fst b \<and> snd a \<le> snd b"

fun ready_push :: "ready_entry \<Rightarrow> ready_entry list \<Rightarrow> ready_entry list" where
  "ready_push x [] = [x]"
| "ready_push x (y # ys) = (if pops_before x y then x # y # ys else y # ready_push x ys)"

definition unblock :: "nat bset list \<Rightarrow> 64 word list \<Rightarrow> nat \<Rightarrow> nat list \<times> ready_entry list
    \<Rightarrow> nat list \<times> ready_entry list" where
  "unblock dependents keys u rr =
     foldl (\<lambda>(remaining, ready) d.
         let r = remaining ! d - 1 in
         (remaining[d := r], if r = 0 then ready_push (keys ! d, d) ready else ready))
       rr (dependents ! u)"

section \<open>Settling nodes\<close>

definition push_trace :: "trace_event \<Rightarrow> ('w, 'v) engine \<Rightarrow> ('w, 'v) engine" where
  "push_trace ev e = e\<lparr>en_trace := en_trace e @ [ev]\<rparr>"

definition record_failure :: "node_id \<Rightarrow> tool_execution_error \<Rightarrow> ('w, 'v) engine \<Rightarrow> ('w, 'v) engine" where
  "record_failure node err e =
     (let m = en_metrics e in
      e\<lparr>en_metrics := m\<lparr>rm_nodes_failed := rm_nodes_failed m + 1\<rparr>,
        en_dead := bs_insert node (en_dead e),
        en_errors := bt_insert node err (en_errors e),
        en_stop := (if en_stop e = None \<and> rc_on_error (en_config e) = FailFast then Some SkipNotRun
                    else en_stop e)\<rparr>)"

definition complete_error :: "(nat \<Rightarrow> 64 word) \<Rightarrow> node_id \<Rightarrow> tool_execution_error \<Rightarrow> ('w, 'v) engine
    \<Rightarrow> ('w, 'v) engine" where
  "complete_error clock node err e =
     record_failure node err (push_trace (with_error err (with_duration 0
       (trace_new (clock (length (en_trace e))) node (node_tool (en_node e node)) Failed))) e)"

definition complete_skip :: "(nat \<Rightarrow> 64 word) \<Rightarrow> node_id \<Rightarrow> skip_reason \<Rightarrow> ('w, 'v) engine \<Rightarrow> ('w, 'v) engine" where
  "complete_skip clock node reason e =
     (let e1 = push_trace (trace_new (clock (length (en_trace e))) node (node_tool (en_node e node)) Skipped) e;
          m = en_metrics e1
      in e1\<lparr>en_metrics := m\<lparr>rm_nodes_skipped := rm_nodes_skipped m + 1\<rparr>,
            en_dead := bs_insert node (en_dead e1),
            en_skipped := bt_insert node reason (en_skipped e1)\<rparr>)"

definition is_settled :: "('w, 'v) engine \<Rightarrow> node_id \<Rightarrow> bool" where
  "is_settled e node \<longleftrightarrow> bt_mem node (en_outputs e) \<or> bt_mem node (en_errors e) \<or> bt_mem node (en_skipped e)"

definition poisoned :: "('w, 'v) engine \<Rightarrow> node_id \<Rightarrow> bool" where
  "poisoned e member = (case map_of (en_data_deps e) member of
     None \<Rightarrow> False | Some deps \<Rightarrow> (\<exists>dep \<in> set deps. dep \<in> set (en_dead e)))"

section \<open>Preparing the members of a unit\<close>

definition resolution_error :: "runtime_error \<Rightarrow> tool_execution_error" where
  "resolution_error err =
     with_code (case err of MissingNodeOutput i \<Rightarrow> ''missing_node_output''
                 | MissingPath r seg \<Rightarrow> ''missing_path'' | _ \<Rightarrow> ''invalid_ref'')
       (error_new (runtime_error_to_string err))"

definition evaluate_when :: "('w, 'v) engine \<Rightarrow> run_when \<Rightarrow> (tool_execution_error, bool) result" where
  "evaluate_when e w =
     res_bind (map_err resolution_error (resolve_value_ref (when_target w) (en_outputs e))) (\<lambda>v.
       let verdict = (case when_equals w of
             Some expected \<Rightarrow> v = expected
           | None \<Rightarrow> \<not> (v = JNull \<or> v = JBool False))
       in Inr (verdict \<noteq> when_not w))"

type_synonym 'v schema_check = "'v \<Rightarrow> json \<Rightarrow> string option"

definition prepare_one :: "'v schema_check \<Rightarrow> ('w, 'v) engine \<Rightarrow> node \<Rightarrow> (tool_execution_error, prepared_member) result" where
  "prepare_one check e n =
     res_bind (map_err resolution_error (resolve_input (node_input n) (en_outputs e))) (\<lambda>input.
     res_bind (case node_for_each n of
         None \<Rightarrow> Inr None
       | Some items_ref \<Rightarrow>
           res_bind (map_err resolution_error (resolve_value_ref items_ref (en_outputs e))) (\<lambda>resolved.
             case resolved of
               JArr items \<Rightarrow> Inr (Some items)
             | _ \<Rightarrow> Inl (with_code ''invalid_for_each''
                 (error_new (''for_each of node '' @ quoted (node_id n) @ '' must resolve to an array''))))) (\<lambda>items.
     case (if items = None then Option.bind (map_of (en_validators e) (node_tool n)) (\<lambda>v. check v input) else None) of
       Some message \<Rightarrow> Inl (with_code ''invalid_input''
         (error_new (''input of node '' @ quoted (node_id n) @ '' does not match the '' @ quoted (node_tool n)
            @ '' input schema: '' @ message)))
     | None \<Rightarrow>
         (let effects = Option.bind (map_of (plan_tools (en_plan e)) (node_tool n)) spec_effects;
              policy = policy_from_effects effects (rc_default_timeout_ms (en_config e));
              reads = (case map_of (g_resolved_effects (en_graph e)) (node_id n) of None \<Rightarrow> [] | Some fx \<Rightarrow> rfx_reads fx)
          in Inr (member_from_plan n (en_plan e) input items policy reads))))"

text \<open>The body of the member loop: skip, fail, or go on to dispatch.\<close>

datatype gate = GateSkip skip_reason | GateError tool_execution_error | GateOk prepared_member

definition member_gate :: "'v schema_check \<Rightarrow> ('w, 'v) engine \<Rightarrow> node_id \<Rightarrow> gate" where
  "member_gate check e member =
     (let n = en_node e member;
          ready = (if node_tool n \<in> set (en_blocked_tools e)
             then GateError (with_code ''blocked_tool''
               (error_new (''tool '' @ quoted (node_tool n) @ '' is blocked in this runtime'')))
             else case prepare_one check e n of Inr m \<Rightarrow> GateOk m | Inl err \<Rightarrow> GateError err)
      in if poisoned e member then GateSkip SkipFailedDependency
         else case node_when n of
             None \<Rightarrow> ready
           | Some w \<Rightarrow>
               (case evaluate_when e w of
                  Inr True \<Rightarrow> ready
                | Inr False \<Rightarrow> GateSkip SkipCondition
                | Inl err \<Rightarrow> GateError err))"

fun prepare_loop :: "(nat \<Rightarrow> 64 word) \<Rightarrow> 'v schema_check \<Rightarrow> node_id list \<Rightarrow> prepared_member list \<Rightarrow> ('w, 'v) engine
    \<Rightarrow> prepared_member list \<times> ('w, 'v) engine" where
  "prepare_loop clock check [] prepared e = (prepared, e)"
| "prepare_loop clock check (member # members) prepared e =
     (case member_gate check e member of
        GateSkip reason \<Rightarrow> prepare_loop clock check members prepared (complete_skip clock member reason e)
      | GateError err \<Rightarrow> prepare_loop clock check members prepared (complete_error clock member err e)
      | GateOk m \<Rightarrow> prepare_loop clock check members (prepared @ [m]) e)"

definition unblock_unit :: "nat \<Rightarrow> ('w, 'v) sched \<Rightarrow> ('w, 'v) sched" where
  "unblock_unit u s =
     (case unblock (en_unit_dependents (sc_engine s)) (en_ready_keys (sc_engine s)) u (sc_remaining s, sc_ready s) of
        (remaining, ready) \<Rightarrow> s\<lparr>sc_remaining := remaining, sc_ready := ready\<rparr>)"

definition prepare_members :: "(nat \<Rightarrow> 64 word) \<Rightarrow> 'v schema_check \<Rightarrow> nat \<Rightarrow> ('w, 'v) sched
    \<Rightarrow> prepared_member list option \<times> ('w, 'v) sched" where
  "prepare_members clock check u s =
     (case prepare_loop clock check (un_members (en_units (sc_engine s) ! u)) [] (sc_engine s) of
        ([], e) \<Rightarrow> (None, unblock_unit u (s\<lparr>sc_engine := e\<rparr>))
      | (m # ms, e) \<Rightarrow> (Some (m # ms), s\<lparr>sc_engine := e\<rparr>))"

section \<open>Admission and release\<close>

text \<open>\<open>None\<close> is a panic of the lock table.\<close>

definition try_admit :: "nat \<Rightarrow> ('w, 'v) engine \<Rightarrow> (bool \<times> ('w, 'v) engine) option" where
  "try_admit u e =
     (let spec = en_units e ! u;
          global = (if en_serial_position e \<noteq> None then Some 1 else rc_max_concurrency (en_config e));
          tool_limit = Option.bind (Option.bind (map_of (plan_tools (en_plan e)) (un_tool spec)) spec_limits) lim_max_concurrency;
          in_flight = (case map_of (en_tool_in_flight e) (un_tool spec) of None \<Rightarrow> 0 | Some k \<Rightarrow> k)
      in if (case global of None \<Rightarrow> False | Some limit \<Rightarrow> en_total_in_flight e \<ge> limit) then Some (False, e)
         else if (case tool_limit of None \<Rightarrow> False | Some limit \<Rightarrow> in_flight \<ge> limit) then Some (False, e)
         else case try_acquire (en_locks e) (un_lock spec) of
             AcquirePanic \<Rightarrow> None
           | Refused \<Rightarrow> Some (False, e)
           | Acquired t \<Rightarrow> Some (True, e\<lparr>en_locks := t,
               en_tool_in_flight := bt_insert (un_tool spec) (in_flight + 1) (en_tool_in_flight e),
               en_total_in_flight := en_total_in_flight e + 1\<rparr>))"

definition release_unit :: "nat \<Rightarrow> ('w, 'v) engine \<Rightarrow> ('w, 'v) engine" where
  "release_unit u e =
     (let spec = en_units e ! u in
      e\<lparr>en_locks := release_locks (en_locks e) (un_lock spec),
        en_tool_in_flight := (case map_of (en_tool_in_flight e) (un_tool spec) of
            None \<Rightarrow> en_tool_in_flight e
          | Some k \<Rightarrow> bt_set (un_tool spec) (k - 1) (en_tool_in_flight e)),
        en_total_in_flight := en_total_in_flight e - 1\<rparr>)"

section \<open>Absorbing an outcome\<close>

definition absorb_result :: "node_id \<times> call_result \<Rightarrow> ('w, 'v) engine \<times> resource bset \<Rightarrow> ('w, 'v) engine \<times> resource bset" where
  "absorb_result nr ew = (case (nr, ew) of ((node, result), (e, written)) \<Rightarrow>
     (case result of
        Inr output \<Rightarrow>
          (let m = en_metrics e in
           (e\<lparr>en_metrics := m\<lparr>rm_nodes_succeeded := rm_nodes_succeeded m + 1\<rparr>,
              en_outputs := bt_insert node output (en_outputs e)\<rparr>,
            (case map_of (g_resolved_effects (en_graph e)) node of
               None \<Rightarrow> written | Some fx \<Rightarrow> bs_union written (rfx_writes fx))))
      | Inl err \<Rightarrow> (record_failure node err e, written)))"

text \<open>The second component is what \<^verbatim>\<open>invalidate_reads\<close> is called with, when it is not empty.\<close>

definition absorb_outcome :: "dispatch_outcome \<Rightarrow> ('w, 'v) engine \<Rightarrow> ('w, 'v) engine \<times> resource bset" where
  "absorb_outcome out e =
     (let m = en_metrics e;
          e1 = e\<lparr>en_metrics := m\<lparr>rm_cache_hits := rm_cache_hits m + do_cache_hits out,
                 rm_retries := rm_retries m + do_retries out,
                 rm_batch_dispatches := rm_batch_dispatches m + do_batch_dispatches out\<rparr>\<rparr>;
          e2 = foldl (\<lambda>e ev. push_trace ev e) e1 (do_events out)
      in foldl (\<lambda>ew nr. absorb_result nr ew) (e2, []) (do_results out))"

section \<open>The loop\<close>

definition requeue :: "('w, 'v) sched \<Rightarrow> ('w, 'v) sched" where
  "requeue s = s\<lparr>sc_blocked := [],
     sc_ready := foldl (\<lambda>ready u. ready_push (en_ready_keys (sc_engine s) ! u, u) ready) (sc_ready s) (sc_blocked s)\<rparr>"

fun settle_members :: "(nat \<Rightarrow> 64 word) \<Rightarrow> skip_reason \<Rightarrow> node_id list \<Rightarrow> ('w, 'v) engine \<Rightarrow> ('w, 'v) engine" where
  "settle_members clock fallback [] e = e"
| "settle_members clock fallback (member # members) e =
     settle_members clock fallback members
       (if is_settled e member then e
        else complete_skip clock member (if poisoned e member then SkipFailedDependency else fallback) e)"

definition settle_unit :: "(nat \<Rightarrow> 64 word) \<Rightarrow> nat \<Rightarrow> skip_reason \<Rightarrow> ('w, 'v) sched \<Rightarrow> ('w, 'v) sched" where
  "settle_unit clock u fallback s =
     unblock_unit u (s\<lparr>sc_engine := settle_members clock fallback (un_members (en_units (sc_engine s) ! u)) (sc_engine s)\<rparr>)"

partial_function (option) schedule :: "(nat \<Rightarrow> 64 word) \<Rightarrow> 'v schema_check \<Rightarrow> ('w, 'v) sched \<Rightarrow> ('w, 'v) sched option" where
  "schedule clock check s =
     (case sc_ready s of
        [] \<Rightarrow> Some s
      | (key, u) # ready \<Rightarrow>
          (let s1 = s\<lparr>sc_ready := ready\<rparr> in
           case en_stop (sc_engine s) of
             Some reason \<Rightarrow> schedule clock check (settle_unit clock u reason s1)
           | None \<Rightarrow>
               (case prepare_members clock check u s1 of
                  (None, s2) \<Rightarrow> schedule clock check s2
                | (Some members, s2) \<Rightarrow>
                    Option.bind (try_admit u (sc_engine s2)) (\<lambda>(admitted, e).
                      if admitted
                      then schedule clock check (s2\<lparr>sc_engine := e, sc_running := sc_running s2 @ [(u, members)]\<rparr>)
                      else schedule clock check (s2\<lparr>sc_engine := e, sc_blocked := sc_blocked s2 @ [u]\<rparr>)))))"

definition sched_start :: "('w, 'v) engine \<Rightarrow> ('w, 'v) sched" where
  "sched_start e =
     (let remaining = map length (en_unit_deps e) in
      \<lparr>sc_engine = e, sc_remaining = remaining,
       sc_ready = foldl (\<lambda>ready u. ready_push (en_ready_keys e ! u, u) ready) []
         (filter (\<lambda>u. remaining ! u = 0) [0..<length remaining]),
       sc_blocked = [], sc_running = []\<rparr>)"

text \<open>One turn of the loop up to its wait: it ends, goes round again, or waits for a task.\<close>

datatype ('w, 'v) turn = Break "('w, 'v) sched" | Again "('w, 'v) sched" | Wait "('w, 'v) sched"

definition settle_leftovers :: "(nat \<Rightarrow> 64 word) \<Rightarrow> ('w, 'v) sched \<Rightarrow> ('w, 'v) sched" where
  "settle_leftovers clock s =
     foldl (\<lambda>s u. settle_unit clock u SkipNotRun s) (s\<lparr>sc_blocked := [], sc_ready := []\<rparr>)
       (sc_blocked s @ map snd (sc_ready s))"

definition loop_turn :: "(nat \<Rightarrow> 64 word) \<Rightarrow> 'v schema_check \<Rightarrow> ('w, 'v) sched \<Rightarrow> ('w, 'v) turn option" where
  "loop_turn clock check s =
     Option.bind (schedule clock check s) (\<lambda>s1.
       if sc_running s1 \<noteq> [] then Some (Wait s1)
       else if sc_ready s1 = [] \<and> sc_blocked s1 = [] then Some (Break s1)
       else Option.bind (schedule clock check (requeue s1)) (\<lambda>s2.
         if sc_running s2 \<noteq> [] then Some (Again s2)
         else let s3 = settle_leftovers clock s2 in
              if sc_ready s3 = [] then Some (Break s3) else Some (Again s3)))"

definition join_task :: "nat \<Rightarrow> dispatch_outcome \<Rightarrow> ('w, 'v) sched \<Rightarrow> ('w, 'v) sched" where
  "join_task u out s =
     (let e = fst (absorb_outcome out (release_unit u (sc_engine s)));
          s1 = s\<lparr>sc_engine := e, sc_running := filter (\<lambda>r. fst r \<noteq> u) (sc_running s)\<rparr>
      in requeue (unblock_unit u s1))"

definition cancel_run :: "('w, 'v) sched \<Rightarrow> ('w, 'v) sched" where
  "cancel_run s = s\<lparr>sc_engine := (sc_engine s)\<lparr>en_stop := Some SkipCancelled\<rparr>\<rparr>"

section \<open>Steps\<close>

text \<open>
  A task reports one result for each dispatched member (theory \<open>Fanout\<close>);
  when it panicked the engine reports a failure for every member of the unit.
\<close>

definition reports :: "('w, 'v) engine \<Rightarrow> nat \<times> prepared_member list \<Rightarrow> dispatch_outcome \<Rightarrow> bool" where
  "reports e r out \<longleftrightarrow>
     mset (map fst (do_results out)) = mset (map pm_node (snd r)) \<or>
     (\<exists>at message. out = panicked_outcome at (un_members (en_units e ! fst r)) (un_tool (en_units e ! fst r)) message)"

datatype ('w, 'v) run_state = Looping "('w, 'v) sched" | Ended "('w, 'v) sched" | Crashed

inductive sched_step :: "(nat \<Rightarrow> 64 word) \<Rightarrow> 'v schema_check \<Rightarrow> ('w, 'v) run_state \<Rightarrow> ('w, 'v) run_state \<Rightarrow> bool"
  for clock check where
  step_break: "loop_turn clock check s = Some (Break s') \<Longrightarrow> sched_step clock check (Looping s) (Ended s')"
| step_again: "loop_turn clock check s = Some (Again s') \<Longrightarrow> sched_step clock check (Looping s) (Looping s')"
| step_join: "loop_turn clock check s = Some (Wait s') \<Longrightarrow> r \<in> set (sc_running s') \<Longrightarrow> reports (sc_engine s') r out \<Longrightarrow>
    sched_step clock check (Looping s) (Looping (join_task (fst r) out s'))"
| step_cancel: "loop_turn clock check s = Some (Wait s') \<Longrightarrow> rc_cancel (en_config (sc_engine s')) \<Longrightarrow>
    en_stop (sc_engine s') = None \<Longrightarrow> sched_step clock check (Looping s) (Looping (cancel_run s'))"
| step_crash: "loop_turn clock check s = None \<Longrightarrow> sched_step clock check (Looping s) Crashed"

inductive_cases sched_step_LoopingE: "sched_step clock check (Looping s) t"
inductive_simps sched_step_Ended: "sched_step clock check (Ended s) t"
inductive_simps sched_step_Crashed: "sched_step clock check Crashed t"

end
