(* ===== verification/SchedSpec.thy ===== *)
theory SchedSpec
  imports EngineSpec Scheduler
begin

text \<open>
  Invariants of the scheduling loop. \<open>E\<close> is the engine a run started from and \<open>F\<close> the set of
  finished units. The units that are not finished and whose dependencies are, are exactly those
  in the ready heap, blocked or running; the lock table is held by the running units and the
  counters count them.
\<close>

section \<open>What a run does not change\<close>

definition statics :: "('w, 'v) engine \<Rightarrow> ('w, 'v) engine" where
  "statics e = e\<lparr>en_outputs := [], en_dead := [], en_errors := [], en_skipped := [], en_trace := [],
     en_metrics := run_metrics_default, en_locks := lock_table_default, en_tool_in_flight := [],
     en_total_in_flight := 0, en_stop := None\<rparr>"

lemma statics_fields:
  "en_plan (statics e) = en_plan e" "en_config (statics e) = en_config e" "en_graph (statics e) = en_graph e"
  "en_node_index (statics e) = en_node_index e" "en_data_deps (statics e) = en_data_deps e"
  "en_units (statics e) = en_units e" "en_unit_deps (statics e) = en_unit_deps e"
  "en_unit_dependents (statics e) = en_unit_dependents e" "en_serial_position (statics e) = en_serial_position e"
  "en_ready_keys (statics e) = en_ready_keys e" "en_blocked_tools (statics e) = en_blocked_tools e"
  "en_validators (statics e) = en_validators e"
  by (simp_all add: statics_def)

lemma same_statics:
  assumes "statics e = statics e'"
  shows "en_plan e = en_plan e'" "en_config e = en_config e'" "en_graph e = en_graph e'"
    "en_node_index e = en_node_index e'" "en_data_deps e = en_data_deps e'" "en_units e = en_units e'"
    "en_unit_deps e = en_unit_deps e'" "en_unit_dependents e = en_unit_dependents e'"
    "en_serial_position e = en_serial_position e'" "en_ready_keys e = en_ready_keys e'"
    "en_blocked_tools e = en_blocked_tools e'" "en_validators e = en_validators e'"
  using assms statics_fields by metis+

lemma statics_steps [simp]:
  "statics (push_trace ev e) = statics e" "statics (record_failure node err e) = statics e"
  "statics (complete_error clock node err e) = statics e" "statics (complete_skip clock node reason e) = statics e"
  "statics (release_unit u e) = statics e" "statics (e\<lparr>en_stop := x\<rparr>) = statics e"
  by (simp_all add: statics_def push_trace_def record_failure_def complete_error_def complete_skip_def release_unit_def Let_def)

lemma statics_try_admit: "try_admit u e = Some (b, e') \<Longrightarrow> statics e' = statics e"
  by (auto simp: try_admit_def Let_def statics_def split: if_splits acquire_outcome.splits)

lemma statics_absorb_results: "statics (fst (foldl (\<lambda>ew nr. absorb_result nr ew) ew rs)) = statics (fst ew)"
proof (induction rs arbitrary: ew)
  case (Cons r rs)
  have "statics (fst (absorb_result r ew)) = statics (fst ew)"
    by (cases r; cases ew; cases "snd r") (auto simp: absorb_result_def Let_def statics_def record_failure_def)
  with Cons show ?case by simp
qed simp

lemma statics_push_all: "statics (foldl (\<lambda>e ev. push_trace ev e) e evs) = statics e"
  by (induction evs arbitrary: e) simp_all

lemma statics_absorb [simp]: "statics (fst (absorb_outcome out e)) = statics e"
proof -
  have "statics (e\<lparr>en_metrics := m\<rparr>) = statics e" for m by (simp add: statics_def)
  then show ?thesis by (simp add: absorb_outcome_def Let_def statics_absorb_results statics_push_all)
qed

section \<open>Settled nodes stay settled\<close>

lemma settled_steps:
  "is_settled (push_trace ev e) m = is_settled e m"
  "is_settled (record_failure node err e) m \<longleftrightarrow> m = node \<or> is_settled e m"
  "is_settled (complete_error clock node err e) m \<longleftrightarrow> m = node \<or> is_settled e m"
  "is_settled (complete_skip clock node reason e) m \<longleftrightarrow> m = node \<or> is_settled e m"
  "is_settled (release_unit u e) m = is_settled e m" "is_settled (e\<lparr>en_stop := x\<rparr>) m = is_settled e m"
  by (auto simp: is_settled_def push_trace_def record_failure_def complete_error_def complete_skip_def
      release_unit_def Let_def bt_mem_iff)

lemma settled_try_admit: "try_admit u e = Some (b, e') \<Longrightarrow> is_settled e' m = is_settled e m"
  by (auto simp: try_admit_def Let_def is_settled_def split: if_splits acquire_outcome.splits)

lemma settled_absorb_results:
  "is_settled (fst (foldl (\<lambda>ew nr. absorb_result nr ew) ew rs)) m \<longleftrightarrow> m \<in> fst ` set rs \<or> is_settled (fst ew) m"
proof (induction rs arbitrary: ew)
  case (Cons r rs)
  have "is_settled (fst (absorb_result r ew)) m \<longleftrightarrow> m = fst r \<or> is_settled (fst ew) m"
    by (cases r; cases ew; cases "snd r") (auto simp: absorb_result_def Let_def is_settled_def record_failure_def bt_mem_iff)
  with Cons show ?case by auto
qed simp

lemma settled_absorb:
  "is_settled (fst (absorb_outcome out e)) m \<longleftrightarrow> m \<in> fst ` set (do_results out) \<or> is_settled e m"
proof -
  have "is_settled (foldl (\<lambda>e ev. push_trace ev e) e evs) m = is_settled e m" for e :: "('a, 'b) engine" and evs
    by (induction evs arbitrary: e) (simp_all add: settled_steps)
  moreover have "is_settled (e\<lparr>en_metrics := mm\<rparr>) m = is_settled e m" for mm by (simp add: is_settled_def)
  ultimately show ?thesis by (simp add: absorb_outcome_def Let_def settled_absorb_results)
qed

text \<open>The admission state: locks and counters.\<close>

definition admission :: "('w, 'v) engine \<Rightarrow> lock_table \<times> (tool_name, nat) btree \<times> nat" where
  "admission e = (en_locks e, en_tool_in_flight e, en_total_in_flight e)"

lemma admission_steps [simp]:
  "admission (push_trace ev e) = admission e" "admission (record_failure node err e) = admission e"
  "admission (complete_error clock node err e) = admission e" "admission (complete_skip clock node reason e) = admission e"
  "admission (e\<lparr>en_stop := x\<rparr>) = admission e"
  by (simp_all add: admission_def push_trace_def record_failure_def complete_error_def complete_skip_def Let_def)

lemma admission_absorb [simp]: "admission (fst (absorb_outcome out e)) = admission e"
proof -
  have "admission (fst (absorb_result r ew)) = admission (fst ew)" for r and ew :: "('a, 'b) engine \<times> resource bset"
    by (cases r; cases ew; cases "snd r") (auto simp: absorb_result_def Let_def admission_def record_failure_def)
  then have r: "admission (fst (foldl (\<lambda>ew nr. absorb_result nr ew) ew rs)) = admission (fst ew)" for ew :: "('a, 'b) engine \<times> resource bset" and rs
    by (induction rs arbitrary: ew) simp_all
  have "admission (foldl (\<lambda>e ev. push_trace ev e) e evs) = admission e" for e :: "('a, 'b) engine" and evs
    by (induction evs arbitrary: e) simp_all
  moreover have "admission (e\<lparr>en_metrics := mm\<rparr>) = admission e" for mm by (simp add: admission_def)
  ultimately show ?thesis by (simp add: absorb_outcome_def Let_def r)
qed

lemma outputs_steps [simp]:
  "en_outputs (push_trace ev e) = en_outputs e" "en_outputs (record_failure node err e) = en_outputs e"
  "en_outputs (complete_error clock node err e) = en_outputs e" "en_outputs (complete_skip clock node reason e) = en_outputs e"
  by (simp_all add: push_trace_def record_failure_def complete_error_def complete_skip_def Let_def)

section \<open>Preparing members\<close>

lemma engine_ok_statics: "statics e = statics E \<Longrightarrow> engine_ok E \<Longrightarrow>
    en_node_index e = node_positions (en_plan E) \<and> en_plan e = en_plan E \<and> en_units e = en_units E \<and> distinct (node_ids (en_plan E))"
  using same_statics [of e E] graph_of_validate(7) by (auto simp: engine_ok_def)

lemma en_node_known:
  assumes "statics e = statics E" "engine_ok E" "m \<in> set (node_ids (en_plan E))"
  shows "en_node e m \<in> set (plan_nodes (en_plan E)) \<and> node_id (en_node e m) = m"
proof -
  note e = engine_ok_statics [OF assms(1,2)]
  from assms(3) obtain k where "k < length (plan_nodes (en_plan E))" "node_id (plan_nodes (en_plan E) ! k) = m"
    by (auto simp: node_ids_def in_set_conv_nth)
  then have "map_of (node_positions (en_plan E)) m = Some k" using e node_positions_lookup by blast
  with e \<open>k < _\<close> \<open>node_id _ = m\<close> show ?thesis by (simp add: en_node_def)
qed

lemma prepare_one_node: "prepare_one check e n = Inr m \<Longrightarrow> pm_node m = node_id n"
  by (auto simp: prepare_one_def Let_def member_from_plan_def split: option.splits if_splits)

lemma member_gate_node: "member_gate check e member = GateOk m \<Longrightarrow> pm_node m = node_id (en_node e member)"
  by (auto simp: member_gate_def Let_def dest: prepare_one_node split: if_splits option.splits sum.splits bool.splits)

text \<open>A member may be dispatched only when its tool is not blocked.\<close>

definition admissible :: "('w, 'v) engine \<Rightarrow> node_id \<Rightarrow> bool" where
  "admissible E m \<longleftrightarrow> node_tool (en_node E m) \<notin> set (en_blocked_tools E)"

lemma member_gate_admissible:
  assumes "member_gate check e member = GateOk m" "statics e = statics E"
  shows "admissible E member"
proof -
  have "node_tool (en_node e member) \<notin> set (en_blocked_tools e)"
    using assms(1) by (auto simp: member_gate_def Let_def split: if_splits option.splits sum.splits bool.splits)
  moreover have "en_node e member = en_node E member" using same_statics(1,4) [OF assms(2)] by (simp add: en_node_def)
  ultimately show ?thesis using same_statics(11) [OF assms(2)] by (simp add: admissible_def)
qed

lemma prepare_loop_spec:
  assumes "prepare_loop clock check members prepared e = (ps, e')" "statics e = statics E" "engine_ok E"
    and "set members \<subseteq> set (node_ids (en_plan E))"
  shows "statics e' = statics E \<and> admission e' = admission e \<and> en_outputs e' = en_outputs e \<and>
    (\<forall>m. is_settled e m \<longrightarrow> is_settled e' m) \<and>
    (\<exists>new. ps = prepared @ new \<and> subseq (map pm_node new) members \<and> (\<forall>m \<in> set new. admissible E (pm_node m)) \<and>
       (\<forall>m \<in> set members. is_settled e' m \<or> m \<in> pm_node ` set new))"
  using assms
proof (induction members arbitrary: prepared e)
  case (Cons member members)
  have known: "set members \<subseteq> set (node_ids (en_plan E))" "member \<in> set (node_ids (en_plan E))" using Cons.prems(4) by simp_all
  show ?case
  proof (cases "member_gate check e member")
    case (GateOk m)
    then have "prepare_loop clock check members (prepared @ [m]) e = (ps, e')" using Cons.prems(1) by simp
    from Cons.IH [OF this Cons.prems(2,3) known(1)] obtain new where n: "statics e' = statics E" "admission e' = admission e"
      "en_outputs e' = en_outputs e" "\<forall>m. is_settled e m \<longrightarrow> is_settled e' m" "ps = (prepared @ [m]) @ new"
      "subseq (map pm_node new) members" "\<forall>m \<in> set members. is_settled e' m \<or> m \<in> pm_node ` set new"
      "\<forall>m \<in> set new. admissible E (pm_node m)" by blast
    have m: "pm_node m = member" using member_gate_node [OF GateOk] en_node_known [OF Cons.prems(2,3) known(2)] by simp
    with n member_gate_admissible [OF GateOk Cons.prems(2)] show ?thesis by (intro conjI exI [of _ "m # new"]) auto
  next
    case (GateSkip reason)
    define e1 where "e1 = complete_skip clock member reason e"
    have e1: "statics e1 = statics E" "admission e1 = admission e" "en_outputs e1 = en_outputs e"
      "is_settled e1 m \<longleftrightarrow> m = member \<or> is_settled e m" for m
      using Cons.prems(2) by (simp_all add: e1_def settled_steps)
    have "prepare_loop clock check members prepared e1 = (ps, e')" using Cons.prems(1) GateSkip by (simp add: e1_def)
    from Cons.IH [OF this e1(1) Cons.prems(3) known(1)] e1 show ?thesis by (auto intro: list_emb_Cons)
  next
    case (GateError err)
    define e1 where "e1 = complete_error clock member err e"
    have e1: "statics e1 = statics E" "admission e1 = admission e" "en_outputs e1 = en_outputs e"
      "is_settled e1 m \<longleftrightarrow> m = member \<or> is_settled e m" for m
      using Cons.prems(2) by (simp_all add: e1_def settled_steps)
    have "prepare_loop clock check members prepared e1 = (ps, e')" using Cons.prems(1) GateError by (simp add: e1_def)
    from Cons.IH [OF this e1(1) Cons.prems(3) known(1)] e1 show ?thesis by (auto intro: list_emb_Cons)
  qed
qed simp

lemma settle_members_spec:
  "statics (settle_members clock r ms e) = statics e \<and> admission (settle_members clock r ms e) = admission e \<and>
    en_outputs (settle_members clock r ms e) = en_outputs e \<and> en_stop (settle_members clock r ms e) = en_stop e \<and>
    (\<forall>m. is_settled (settle_members clock r ms e) m \<longleftrightarrow> m \<in> set ms \<or> is_settled e m)"
proof (induction ms arbitrary: e)
  case (Cons x ms)
  define e1 where "e1 = (if is_settled e x then e
      else complete_skip clock x (if poisoned e x then SkipFailedDependency else r) e)"
  have "statics e1 = statics e \<and> admission e1 = admission e \<and> en_outputs e1 = en_outputs e \<and> en_stop e1 = en_stop e"
    by (simp add: e1_def) (simp add: complete_skip_def push_trace_def Let_def)
  moreover have "is_settled e1 m \<longleftrightarrow> m = x \<or> is_settled e m" for m by (auto simp: e1_def settled_steps)
  ultimately show ?case using Cons.IH [of e1] by (auto simp: e1_def [symmetric])
qed simp

section \<open>The queues\<close>

lemma snd_ready_push: "mset (map snd (ready_push x ys)) = add_mset (snd x) (mset (map snd ys))"
  by (induction x ys rule: ready_push.induct) auto

lemma set_ready_push [simp]: "set (ready_push x ys) = insert x (set ys)"
  by (induction x ys rule: ready_push.induct) auto

lemma unblock_fold:
  assumes "distinct ds" "\<forall>d \<in> set ds. d < length remaining"
  shows "case foldl (\<lambda>(remaining, ready) d. let r = remaining ! d - 1 in
         (remaining[d := r], if r = 0 then ready_push (keys ! d, d) ready else ready)) (remaining, ready) ds of
      (remaining', ready') \<Rightarrow> length remaining' = length remaining \<and>
        (\<forall>x < length remaining. remaining' ! x = (if x \<in> set ds then remaining ! x - 1 else remaining ! x)) \<and>
        mset (map snd ready') = mset (map snd ready) + mset (filter (\<lambda>d. remaining ! d - 1 = 0) ds)"
  using assms
proof (induction ds arbitrary: remaining ready)
  case (Cons d ds)
  let ?rem = "remaining[d := remaining ! d - 1]"
  let ?ready = "if remaining ! d - 1 = 0 then ready_push (keys ! d, d) ready else ready"
  have d: "d \<notin> set ds" "distinct ds" "d < length remaining" using Cons.prems by simp_all
  have "\<forall>d \<in> set ds. d < length ?rem" using Cons.prems by simp
  note IH = Cons.IH [OF d(2) this, of ?ready]
  have f: "filter (\<lambda>x. ?rem ! x - 1 = 0) ds = filter (\<lambda>x. remaining ! x - 1 = 0) ds"
  proof (rule filter_cong [OF refl])
    fix x assume "x \<in> set ds"
    then have "d \<noteq> x" using d(1) by blast
    then show "(?rem ! x - 1 = 0) = (remaining ! x - 1 = 0)" by simp
  qed
  obtain r1 q1 where fold: "foldl (\<lambda>(remaining, ready) d. let r = remaining ! d - 1 in
         (remaining[d := r], if r = 0 then ready_push (keys ! d, d) ready else ready)) (?rem, ?ready) ds = (r1, q1)"
    by (rule prod.exhaust)
  have i: "length r1 = length remaining" "\<forall>x < length remaining. r1 ! x = (if x \<in> set ds then ?rem ! x - 1 else ?rem ! x)"
    "mset (map snd q1) = mset (map snd ?ready) + mset (filter (\<lambda>d. remaining ! d - 1 = 0) ds)"
    using IH unfolding fold prod.case f length_list_update by blast+
  have "\<forall>x < length remaining. r1 ! x = (if x \<in> set (d # ds) then remaining ! x - 1 else remaining ! x)"
    using i(2) d by (auto simp: nth_list_update)
  moreover have "mset (map snd q1) = mset (map snd ready) + mset (filter (\<lambda>d. remaining ! d - 1 = 0) (d # ds))"
    unfolding i(3) using snd_ready_push [of "(keys ! d, d)" ready] by simp
  ultimately show ?case using i(1) fold by (simp add: Let_def)
qed simp

definition open_units :: "('w, 'v) sched \<Rightarrow> nat list" where
  "open_units s = map snd (sc_ready s) @ sc_blocked s @ map fst (sc_running s)"

text \<open>\<open>L\<close> are units taken from the heap and not yet put anywhere.\<close>

definition queue_inv :: "('w, 'v) engine \<Rightarrow> nat set \<Rightarrow> nat list \<Rightarrow> ('w, 'v) sched \<Rightarrow> bool" where
  "queue_inv E F L s \<longleftrightarrow> statics (sc_engine s) = statics E \<and>
     distinct (L @ open_units s) \<and> F \<inter> set (L @ open_units s) = {} \<and>
     F \<union> set (L @ open_units s) \<subseteq> {..<length (en_units E)} \<and>
     length (sc_remaining s) = length (en_units E) \<and>
     (\<forall>u < length (en_units E). sc_remaining s ! u = card (set (en_unit_deps E ! u) - F)) \<and>
     (\<forall>u < length (en_units E). set (en_unit_deps E ! u) \<subseteq> F \<longleftrightarrow> u \<in> F \<union> set (L @ open_units s)) \<and>
     (\<forall>u \<in> F. \<forall>m \<in> set (un_members (en_units E ! u)). is_settled (sc_engine s) m)"

lemma card_Diff_Suc:
  assumes "finite D" "u \<in> D" "u \<notin> F"
  shows "card (D - F) = Suc (card (D - insert u F))"
proof -
  have "D - F = insert u (D - insert u F)" using assms by auto
  with assms show ?thesis by (metis Diff_iff card_insert_disjoint finite_Diff insertI1)
qed

lemma card_Diff_zero: "finite D \<Longrightarrow> card (D - F) = 0 \<longleftrightarrow> D \<subseteq> F"
  by auto

lemma queue_inv_perm:
  assumes "queue_inv E F L s" "mset (L' @ open_units s') = mset (L @ open_units s)"
    and "sc_engine s' = sc_engine s" "sc_remaining s' = sc_remaining s"
  shows "queue_inv E F L' s'"
proof -
  have "set (L' @ open_units s') = set (L @ open_units s)" using assms(2) by (rule mset_eq_setD)
  moreover have "distinct (L' @ open_units s') = distinct (L @ open_units s)"
    using assms(2) by (rule mset_eq_imp_distinct_iff)
  ultimately show ?thesis using assms(1) unfolding queue_inv_def assms(3,4) by simp
qed

lemma queue_inv_engine:
  assumes "queue_inv E F L s" "statics e = statics E" "\<And>m. is_settled (sc_engine s) m \<Longrightarrow> is_settled e m"
  shows "queue_inv E F L (s\<lparr>sc_engine := e\<rparr>)"
  using assms by (simp add: queue_inv_def open_units_def)

lemma unblock_inv:
  assumes "engine_ok E" "queue_inv E F (u # L) s"
    and "\<forall>m \<in> set (un_members (en_units E ! u)). is_settled (sc_engine s) m"
  shows "queue_inv E (insert u F) L (unblock_unit u s) \<and> sc_engine (unblock_unit u s) = sc_engine s \<and>
    sc_blocked (unblock_unit u s) = sc_blocked s \<and> sc_running (unblock_unit u s) = sc_running s"
proof -
  let ?n = "length (en_units E)"
  let ?D = "\<lambda>u. set (en_unit_deps E ! u)"
  let ?ds = "en_unit_dependents E ! u"
  note st = same_statics [OF conjunct1 [OF assms(2) [unfolded queue_inv_def]]]
  have w: "wired ?n (en_unit_deps E, en_unit_dependents E)" using assms(1) by (simp add: engine_ok_def)
  have u: "u < ?n" "u \<notin> F" using assms(2) by (auto simp: queue_inv_def)
  have len: "length (sc_remaining s) = ?n" using assms(2) by (simp add: queue_inv_def)
  have rem: "sc_remaining s ! x = card (?D x - F)" if "x < ?n" for x using assms(2) that by (simp add: queue_inv_def)
  have opened: "?D x \<subseteq> F \<longleftrightarrow> x \<in> F \<union> set (u # L @ open_units s)" if "x < ?n" for x
    using assms(2) that by (simp add: queue_inv_def)
  have ds: "distinct ?ds" "set ?ds \<subseteq> {..<?n}" using w u(1) by (auto simp: wired_def intro: bs_ok_distinct)
  have waits: "u \<in> ?D x \<longleftrightarrow> x \<in> set ?ds" if "x < ?n" for x using w u(1) that by (auto simp: wired_def)
  obtain r1 q1 where ub: "unblock (en_unit_dependents (sc_engine s)) (en_ready_keys (sc_engine s)) u (sc_remaining s, sc_ready s) = (r1, q1)"
    by (rule prod.exhaust)
  have "\<forall>d \<in> set ?ds. d < length (sc_remaining s)" using ds(2) len by auto
  note spec = unblock_fold [OF ds(1) this, where ready = "sc_ready s" and keys = "en_ready_keys (sc_engine s)"]
  have r: "length r1 = ?n" "\<forall>x < ?n. r1 ! x = (if x \<in> set ?ds then sc_remaining s ! x - 1 else sc_remaining s ! x)"
    "mset (map snd q1) = mset (map snd (sc_ready s)) + mset (filter (\<lambda>d. sc_remaining s ! d - 1 = 0) ?ds)"
    using spec ub unfolding unblock_def st(8) len by simp_all
  let ?new = "filter (\<lambda>d. sc_remaining s ! d - 1 = 0) ?ds"
  define s' where "s' = s\<lparr>sc_remaining := r1, sc_ready := q1\<rparr>"
  have s': "unblock_unit u s = s'" by (simp add: unblock_unit_def ub s'_def)
  have opens: "mset (L @ open_units s') = mset (L @ open_units s) + mset ?new"
    using r(3) by (simp add: open_units_def s'_def)
  have card: "card (?D x - F) = Suc (card (?D x - insert u F))" if "x \<in> set ?ds" for x
    using card_Diff_Suc [of "?D x" u F] waits [of x] that u(2) ds(2) by auto
  have left: "card (?D x - insert u F) = (if x \<in> set ?ds then sc_remaining s ! x - 1 else sc_remaining s ! x)" if x: "x < ?n" for x
  proof (cases "x \<in> set ?ds")
    case True
    then show ?thesis using card [OF True] rem [OF x] by simp
  next
    case False
    then have "?D x - insert u F = ?D x - F" using waits [OF x] by auto
    with False rem [OF x] show ?thesis by simp
  qed
  have new: "x \<in> set ?new \<longleftrightarrow> x \<in> set ?ds \<and> ?D x \<subseteq> insert u F" if x: "x < ?n" for x
    using left [OF x] card_Diff_zero [of "?D x" "insert u F"] by auto
  have fresh: "x \<notin> F \<union> set (u # L @ open_units s)" if "x \<in> set ?new" for x
  proof -
    have x: "x \<in> set ?ds" "x < ?n" using that ds(2) by auto
    then have "\<not> ?D x \<subseteq> F" using waits u(2) by blast
    with opened [OF x(2)] show ?thesis by blast
  qed
  have set': "set (L @ open_units s') = set (L @ open_units s) \<union> set ?new" using mset_eq_setD [of "L @ open_units s'" "(L @ open_units s) @ ?new"] opens by (simp add: Un_assoc)
  have base: "distinct (L @ open_units s)" "u \<notin> set (L @ open_units s)" "F \<inter> set (L @ open_units s) = {}"
    "F \<union> set (L @ open_units s) \<subseteq> {..<?n}"
    using assms(2) by (auto simp: queue_inv_def)
  have disj: "set ?new \<inter> (insert u F \<union> set (L @ open_units s)) = {}" using fresh by fastforce
  have "distinct ?new" using ds(1) by simp
  then have "distinct ((L @ open_units s) @ ?new)" using base(1) disj unfolding distinct_append by blast
  then have "distinct (L @ open_units s')" using mset_eq_imp_distinct_iff [of "L @ open_units s'" "(L @ open_units s) @ ?new"] opens by simp
  moreover have "insert u F \<inter> set (L @ open_units s') = {}"
    unfolding set' using base(2,3) disj by blast
  moreover have "insert u F \<union> set (L @ open_units s') \<subseteq> {..<?n}"
    unfolding set' using base(4) ds(2) u(1) by auto
  moreover have "?D x \<subseteq> insert u F \<longleftrightarrow> x \<in> insert u F \<union> set (L @ open_units s')" if x: "x < ?n" for x
  proof (cases "x \<in> set ?ds")
    case True
    then have "x \<notin> F \<union> set (u # L @ open_units s)" using waits [OF x] u(2) opened [OF x] by blast
    then show ?thesis unfolding set' using new [OF x] True by auto
  next
    case False
    then have "?D x \<subseteq> insert u F \<longleftrightarrow> ?D x \<subseteq> F" using waits [OF x] by auto
    then show ?thesis unfolding set' opened [OF x] using new [OF x] False by auto
  qed
  moreover have "r1 ! x = card (?D x - insert u F)" if "x < ?n" for x using left [OF that] r(2) that by simp
  ultimately have "queue_inv E (insert u F) L s'"
    using assms(2,3) r(1) unfolding queue_inv_def by (simp add: s'_def)
  then show ?thesis unfolding s' by (simp add: s'_def)
qed

section \<open>Locks and limits\<close>

abbreviation unit_at :: "('w, 'v) engine \<Rightarrow> nat \<times> 'a \<Rightarrow> sched_unit" where
  "unit_at E r \<equiv> en_units E ! fst r"

definition held_locks :: "('w, 'v) engine \<Rightarrow> (nat \<times> 'a) list \<Rightarrow> lock_request multiset" where
  "held_locks E running = mset (map (\<lambda>r. un_lock (unit_at E r)) running)"

definition calls_of :: "('w, 'v) engine \<Rightarrow> (nat \<times> 'a) list \<Rightarrow> tool_name \<Rightarrow> nat" where
  "calls_of E running t = length (filter (\<lambda>r. un_tool (unit_at E r) = t) running)"

definition global_limit :: "('w, 'v) engine \<Rightarrow> nat option" where
  "global_limit E = (if en_serial_position E \<noteq> None then Some 1 else rc_max_concurrency (en_config E))"

definition tool_limit :: "('w, 'v) engine \<Rightarrow> tool_name \<Rightarrow> nat option" where
  "tool_limit E t = Option.bind (Option.bind (map_of (plan_tools (en_plan E)) t) spec_limits) lim_max_concurrency"

definition within_limits :: "('w, 'v) engine \<Rightarrow> (nat \<times> 'a) list \<Rightarrow> bool" where
  "within_limits E running \<longleftrightarrow> (\<forall>l. global_limit E = Some l \<longrightarrow> length running \<le> l) \<and>
     (\<forall>t l. tool_limit E t = Some l \<longrightarrow> calls_of E running t \<le> l)"

definition admission_inv :: "('w, 'v) engine \<Rightarrow> (nat \<times> 'a) list \<Rightarrow> lock_table \<times> (tool_name, nat) btree \<times> nat \<Rightarrow> bool" where
  "admission_inv E running adm \<longleftrightarrow> (case adm of (locks, in_flight, flying) \<Rightarrow>
     lock_holders (held_locks E running) locks \<and> flying = length running \<and>
     (\<forall>t. (case map_of in_flight t of None \<Rightarrow> 0 | Some k \<Rightarrow> k) = calls_of E running t) \<and>
     within_limits E running)"

definition no_self_conflict :: "('w, 'v) engine \<Rightarrow> bool" where
  "no_self_conflict E \<longleftrightarrow> list_all (\<lambda>u. \<not> self_conflicting (un_lock u)) (en_units E)"

lemma try_admit_spec:
  assumes "statics e = statics E" "engine_ok E" "no_self_conflict E" "u < length (en_units E)"
    and "admission_inv E running (admission e)"
  shows "\<exists>b e'. try_admit u e = Some (b, e') \<and> en_stop e' = en_stop e \<and> en_outputs e' = en_outputs e \<and>
    en_dead e' = en_dead e \<and> en_errors e' = en_errors e \<and> en_skipped e' = en_skipped e \<and>
    (\<not> b \<longrightarrow> e' = e) \<and> (b \<longrightarrow> admission_inv E (running @ [(u, ms)]) (admission e'))"
proof -
  note st = same_statics [OF assms(1)]
  let ?u = "en_units E ! u"
  have mem: "?u \<in> set (en_units E)" using assms(4) by simp
  have wf: "request_wf (un_lock ?u)" using assms(2) mem by (simp add: engine_ok_def unit_ok_def)
  have nc: "\<not> self_conflicting (un_lock ?u)" using assms(3) mem by (simp add: no_self_conflict_def list_all_iff)
  have inv: "lock_holders (held_locks E running) (en_locks e)" "en_total_in_flight e = length running"
    "\<And>t. (case map_of (en_tool_in_flight e) t of None \<Rightarrow> 0 | Some k \<Rightarrow> k) = calls_of E running t" "within_limits E running"
    using assms(5) by (simp_all add: admission_inv_def admission_def)
  note outcome = acquire_outcome_cases [OF inv(1) wf]
  show ?thesis
  proof (cases "(case global_limit E of None \<Rightarrow> False | Some l \<Rightarrow> length running \<ge> l) \<or>
      (case tool_limit E (un_tool ?u) of None \<Rightarrow> False | Some l \<Rightarrow> calls_of E running (un_tool ?u) \<ge> l) \<or>
      try_acquire (en_locks e) (un_lock ?u) = Refused")
    case True
    then have "try_admit u e = Some (False, e)"
      unfolding try_admit_def Let_def st(1,2,6,9) inv(2,3) global_limit_def [symmetric] tool_limit_def [symmetric]
      by (auto split: option.splits)
    then show ?thesis by blast
  next
    case False
    then obtain t where t: "try_acquire (en_locks e) (un_lock ?u) = Acquired t" using outcome nc by (auto split: if_splits)
    have "acquire_lock (en_locks e) (un_lock ?u) = Some t" using t by (simp add: acquire_lock_def)
    from lock_table.acquire_holders [OF inv(1) conjI [OF wf nc] this]
    have "lock_holders (held_locks E (running @ [(u, ms)])) t" by (simp add: held_locks_def)
    moreover have "within_limits E (running @ [(u, ms)])"
      using inv(4) False by (auto simp: within_limits_def calls_of_def)
    moreover have "calls_of E (running @ [(u, ms)]) x = (if x = un_tool ?u then Suc (calls_of E running x) else calls_of E running x)" for x
      by (simp add: calls_of_def)
    ultimately have "admission_inv E (running @ [(u, ms)]) (t, bt_insert (un_tool ?u) (calls_of E running (un_tool ?u) + 1) (en_tool_in_flight e), en_total_in_flight e + 1)"
      using inv(2,3) by (simp add: admission_inv_def)
    moreover have "try_admit u e = Some (True, e\<lparr>en_locks := t,
        en_tool_in_flight := bt_insert (un_tool ?u) (calls_of E running (un_tool ?u) + 1) (en_tool_in_flight e),
        en_total_in_flight := en_total_in_flight e + 1\<rparr>)"
      using False t unfolding try_admit_def Let_def st(1,2,6,9) inv(2,3) global_limit_def [symmetric] tool_limit_def [symmetric]
      by (auto split: option.splits)
    ultimately show ?thesis by (auto intro!: exI [of _ True] simp: admission_def)
  qed
qed

lemma release_spec:
  assumes "statics e = statics E" "admission_inv E running (admission e)" "distinct (map fst running)" "r \<in> set running"
  shows "admission_inv E (filter (\<lambda>x. fst x \<noteq> fst r) running) (admission (release_unit (fst r) e))"
proof -
  note st = same_statics [OF assms(1)]
  from assms(4) obtain xs ys where run: "running = xs @ r # ys" by (metis split_list)
  have "\<forall>x \<in> set (xs @ ys). fst x \<noteq> fst r" using assms(3) unfolding run by (auto simp: image_iff)
  then have f: "filter (\<lambda>x. fst x \<noteq> fst r) running = xs @ ys" by (simp add: run)
  let ?u = "unit_at E r"
  have inv: "lock_holders (held_locks E running) (en_locks e)" "en_total_in_flight e = length running"
    "\<And>t. (case map_of (en_tool_in_flight e) t of None \<Rightarrow> 0 | Some k \<Rightarrow> k) = calls_of E running t" "within_limits E running"
    using assms(2) by (simp_all add: admission_inv_def admission_def)
  have "held_locks E running = add_mset (un_lock ?u) (held_locks E (xs @ ys))" by (simp add: run held_locks_def)
  with inv(1) have "lock_holders (held_locks E (xs @ ys)) (release_locks (en_locks e) (un_lock ?u))"
    using lock_table.release_holders by metis
  moreover have calls: "calls_of E running x = (if x = un_tool ?u then Suc (calls_of E (xs @ ys) x) else calls_of E (xs @ ys) x)" for x
    by (simp add: run calls_of_def)
  moreover obtain k where k: "map_of (en_tool_in_flight e) (un_tool ?u) = Some k" "k = Suc (calls_of E (xs @ ys) (un_tool ?u))"
    using inv(3) [of "un_tool ?u"] calls [of "un_tool ?u"] by (cases "map_of (en_tool_in_flight e) (un_tool ?u)") auto
  moreover have "un_tool ?u \<in> fst ` set (en_tool_in_flight e)" using k(1) by (metis img_fst map_of_SomeD)
  moreover have "within_limits E (xs @ ys)"
  proof -
    have "length (xs @ ys) \<le> length running" "calls_of E (xs @ ys) x \<le> calls_of E running x" for x
      unfolding calls by (simp_all add: run)
    with inv(4) show ?thesis unfolding within_limits_def by (metis le_trans)
  qed
  ultimately show ?thesis unfolding f using inv(2,3)
    by (auto simp: admission_inv_def admission_def release_unit_def Let_def st(6) run)
qed

section \<open>The invariant of the loop\<close>

text \<open>A running unit has its undecided members dispatched.\<close>

definition running_ok :: "('w, 'v) engine \<Rightarrow> ('w, 'v) sched \<Rightarrow> bool" where
  "running_ok E s \<longleftrightarrow> (\<forall>(u, ms) \<in> set (sc_running s). ms \<noteq> [] \<and>
     subseq (map pm_node ms) (un_members (en_units E ! u)) \<and> (\<forall>m \<in> set ms. admissible E (pm_node m)) \<and>
     (\<forall>m \<in> set (un_members (en_units E ! u)). is_settled (sc_engine s) m \<or> m \<in> pm_node ` set ms))"

definition sched_inv :: "('w, 'v) engine \<Rightarrow> nat set \<Rightarrow> nat list \<Rightarrow> ('w, 'v) sched \<Rightarrow> bool" where
  "sched_inv E F L s \<longleftrightarrow> queue_inv E F L s \<and> admission_inv E (sc_running s) (admission (sc_engine s)) \<and> running_ok E s"

lemma running_ok_engine:
  assumes "running_ok E s" "\<And>m. is_settled (sc_engine s) m \<Longrightarrow> is_settled (sc_engine s') m" "sc_running s' = sc_running s"
  shows "running_ok E s'"
  using assms unfolding running_ok_def by fastforce

lemma sched_inv_unblock:
  assumes "engine_ok E" "sched_inv E F (u # L) s"
    and "\<forall>m \<in> set (un_members (en_units E ! u)). is_settled (sc_engine s) m"
  shows "sched_inv E (insert u F) L (unblock_unit u s)"
  using unblock_inv [OF assms(1) _ assms(3), of F L] assms(2) running_ok_engine [of E s "unblock_unit u s"]
  by (simp add: sched_inv_def)

lemma sched_inv_engine:
  assumes "sched_inv E F L s" "statics e = statics E" "\<And>m. is_settled (sc_engine s) m \<Longrightarrow> is_settled e m"
    and "admission e = admission (sc_engine s)"
  shows "sched_inv E F L (s\<lparr>sc_engine := e\<rparr>)"
  using assms queue_inv_engine [of E F L s e] running_ok_engine [of E s "s\<lparr>sc_engine := e\<rparr>"]
  by (simp add: sched_inv_def)

lemma sched_inv_bound: "sched_inv E F L s \<Longrightarrow> u \<in> set (L @ open_units s) \<Longrightarrow> u < length (en_units E) \<and> u \<notin> F"
  by (auto simp: sched_inv_def queue_inv_def)

lemma members_known:
  assumes "engine_ok E" "u < length (en_units E)"
  shows "set (un_members (en_units E ! u)) \<subseteq> set (node_ids (en_plan E))"
  using assms cover_member [of "en_plan E" "en_units E" u] by (auto simp: engine_ok_def)

lemma settle_unit_inv:
  assumes "engine_ok E" "sched_inv E F (u # L) s"
  shows "sched_inv E (insert u F) L (settle_unit clock u r s) \<and> sc_running (settle_unit clock u r s) = sc_running s \<and>
    sc_blocked (settle_unit clock u r s) = sc_blocked s \<and>
    en_stop (sc_engine (settle_unit clock u r s)) = en_stop (sc_engine s)"
proof -
  have st: "statics (sc_engine s) = statics E" using assms(2) by (simp add: sched_inv_def queue_inv_def)
  have units: "en_units (sc_engine s) = en_units E" using same_statics(6) [OF st] .
  define e where "e = settle_members clock r (un_members (en_units E ! u)) (sc_engine s)"
  note spec = settle_members_spec [of clock r "un_members (en_units E ! u)" "sc_engine s", folded e_def]
  have e: "sched_inv E F (u # L) (s\<lparr>sc_engine := e\<rparr>)"
    using spec st by (intro sched_inv_engine [OF assms(2)]) simp_all
  have eq: "settle_unit clock u r s = unblock_unit u (s\<lparr>sc_engine := e\<rparr>)"
    by (simp add: settle_unit_def units e_def)
  have set: "\<forall>m \<in> set (un_members (en_units E ! u)). is_settled (sc_engine (s\<lparr>sc_engine := e\<rparr>)) m" using spec by simp
  show ?thesis
    unfolding eq using sched_inv_unblock [OF assms(1) e set] unblock_inv [OF assms(1) _ set, of F L] e spec
    by (simp add: sched_inv_def)
qed

lemma prepare_members_inv:
  assumes "engine_ok E" "sched_inv E F (u # L) s" "prepare_members clock check u s = (r, s')"
  shows "(r = None \<longrightarrow> sched_inv E (insert u F) L s') \<and>
    (\<forall>ms. r = Some ms \<longrightarrow> sched_inv E F (u # L) s' \<and> sc_ready s' = sc_ready s \<and> sc_blocked s' = sc_blocked s \<and> ms \<noteq> [] \<and>
       subseq (map pm_node ms) (un_members (en_units E ! u)) \<and> (\<forall>m \<in> set ms. admissible E (pm_node m)) \<and>
       (\<forall>m \<in> set (un_members (en_units E ! u)). is_settled (sc_engine s') m \<or> m \<in> pm_node ` set ms)) \<and>
    sc_running s' = sc_running s \<and> sc_blocked s' = sc_blocked s"
proof -
  have st: "statics (sc_engine s) = statics E" using assms(2) by (simp add: sched_inv_def queue_inv_def)
  have units: "en_units (sc_engine s) = en_units E" using same_statics(6) [OF st] .
  have u: "u < length (en_units E)" using sched_inv_bound [OF assms(2)] by simp
  obtain ps e where p: "prepare_loop clock check (un_members (en_units E ! u)) [] (sc_engine s) = (ps, e)" by (rule prod.exhaust)
  from prepare_loop_spec [OF p st assms(1) members_known [OF assms(1) u]] have spec: "statics e = statics E"
    "admission e = admission (sc_engine s)" "\<And>m. is_settled (sc_engine s) m \<Longrightarrow> is_settled e m"
    "subseq (map pm_node ps) (un_members (en_units E ! u))" "\<forall>m \<in> set ps. admissible E (pm_node m)"
    "\<forall>m \<in> set (un_members (en_units E ! u)). is_settled e m \<or> m \<in> pm_node ` set ps" by auto
  have e: "sched_inv E F (u # L) (s\<lparr>sc_engine := e\<rparr>)" by (rule sched_inv_engine [OF assms(2) spec(1,3,2)])
  show ?thesis
  proof (cases ps)
    case Nil
    then have r: "r = None" "s' = unblock_unit u (s\<lparr>sc_engine := e\<rparr>)"
      using assms(3) p by (simp_all add: prepare_members_def units)
    have set: "\<forall>m \<in> set (un_members (en_units E ! u)). is_settled (sc_engine (s\<lparr>sc_engine := e\<rparr>)) m" using spec(6) Nil by simp
    show ?thesis
      using r sched_inv_unblock [OF assms(1) e set] unblock_inv [OF assms(1) _ set, of F L] e by (simp add: sched_inv_def)
  next
    case (Cons m ms)
    then have r: "r = Some ps" "s' = s\<lparr>sc_engine := e\<rparr>"
      using assms(3) p by (simp_all add: prepare_members_def units)
    then show ?thesis using e spec(4-6) Cons by simp
  qed
qed

section \<open>Scheduling returns\<close>

text \<open>The units scheduling is done with: each turn of its loop adds the one it pops.\<close>

definition handled :: "nat set \<Rightarrow> ('w, 'v) sched \<Rightarrow> nat set" where
  "handled F s = F \<union> set (sc_blocked s) \<union> fst ` set (sc_running s)"

lemma pop_inv:
  assumes "sched_inv E F [] s" "sc_ready s = (key, u) # ready"
  shows "sched_inv E F [u] (s\<lparr>sc_ready := ready\<rparr>)" "u \<notin> handled F s" "u < length (en_units E)"
proof -
  have q: "queue_inv E F [u] (s\<lparr>sc_ready := ready\<rparr>)"
    by (rule queue_inv_perm [of E F "[]" s]) (use assms in \<open>auto simp: sched_inv_def open_units_def\<close>)
  then show "sched_inv E F [u] (s\<lparr>sc_ready := ready\<rparr>)"
    using assms(1) running_ok_engine [of E s "s\<lparr>sc_ready := ready\<rparr>"] by (simp add: sched_inv_def)
  from q show "u \<notin> handled F s" "u < length (en_units E)" by (auto simp: queue_inv_def open_units_def handled_def)
qed

lemma schedule_step:
  assumes "engine_ok E" "no_self_conflict E" "sched_inv E F [] s" "sc_ready s = (key, u) # ready"
  shows "\<exists>F' s'. schedule clock check s = schedule clock check s' \<and> F \<subseteq> F' \<and> sched_inv E F' [] s' \<and>
    handled F' s' = insert u (handled F s) \<and> set (sc_running s) \<subseteq> set (sc_running s') \<and>
    (en_stop (sc_engine s) \<noteq> None \<longrightarrow> en_stop (sc_engine s') \<noteq> None)"
proof -
  let ?s = "s\<lparr>sc_ready := ready\<rparr>"
  note pop = pop_inv [OF assms(3,4)]
  show ?thesis
  proof (cases "en_stop (sc_engine s)")
    case (Some r)
    then have "schedule clock check s = schedule clock check (settle_unit clock u r ?s)"
      using assms(4) by (simp add: schedule.simps [of clock check s] Let_def)
    with settle_unit_inv [OF assms(1) pop(1), of clock r] Some show ?thesis
      by (intro exI [of _ "insert u F"] exI [of _ "settle_unit clock u r ?s"]) (auto simp: handled_def)
  next
    case None
    obtain r s2 where p: "prepare_members clock check u ?s = (r, s2)" by (rule prod.exhaust)
    note inv = prepare_members_inv [OF assms(1) pop(1) p]
    show ?thesis
    proof (cases r)
      case None': None
      then have "schedule clock check s = schedule clock check s2"
        using assms(4) None p by (simp add: schedule.simps [of clock check s] Let_def)
      with inv None' None show ?thesis by (intro exI [of _ "insert u F"] exI [of _ s2]) (auto simp: handled_def)
    next
      case (Some ms)
      with inv have i: "sched_inv E F [u] s2" "sc_running s2 = sc_running s" "sc_blocked s2 = sc_blocked s" "ms \<noteq> []"
        "subseq (map pm_node ms) (un_members (en_units E ! u))" "\<forall>m \<in> set ms. admissible E (pm_node m)"
        "\<forall>m \<in> set (un_members (en_units E ! u)). is_settled (sc_engine s2) m \<or> m \<in> pm_node ` set ms" by simp_all
      have st: "statics (sc_engine s2) = statics E" "admission_inv E (sc_running s2) (admission (sc_engine s2))"
        using i(1) by (simp_all add: sched_inv_def queue_inv_def)
      from try_admit_spec [OF st(1) assms(1,2) pop(3) st(2), of ms] obtain b e where
        a: "try_admit u (sc_engine s2) = Some (b, e)" "\<not> b \<longrightarrow> e = sc_engine s2"
          "b \<longrightarrow> admission_inv E (sc_running s2 @ [(u, ms)]) (admission e)" by blast
      note e = statics_try_admit [OF a(1)] settled_try_admit [OF a(1)]
      show ?thesis
      proof (cases b)
        case False
        let ?s3 = "s2\<lparr>sc_engine := e, sc_blocked := sc_blocked s2 @ [u]\<rparr>"
        have "schedule clock check s = schedule clock check ?s3"
          using assms(4) None p Some a(1) False by (simp add: schedule.simps [of clock check s] Let_def)
        moreover have "queue_inv E F [] ?s3"
          by (rule queue_inv_perm [of E F "[u]" s2]) (use i(1) a(2) False in \<open>auto simp: sched_inv_def open_units_def\<close>)
        then have "sched_inv E F [] ?s3"
          using i(1) a(2) False running_ok_engine [of E s2 ?s3] by (simp add: sched_inv_def)
        ultimately show ?thesis using i(2,3) None by (intro exI [of _ F] exI [of _ ?s3]) (auto simp: handled_def)
      next
        case True
        let ?s3 = "s2\<lparr>sc_engine := e, sc_running := sc_running s2 @ [(u, ms)]\<rparr>"
        have "schedule clock check s = schedule clock check ?s3"
          using assms(4) None p Some a(1) True by (simp add: schedule.simps [of clock check s] Let_def)
        moreover have "queue_inv E F [u] (s2\<lparr>sc_engine := e\<rparr>)"
          by (rule queue_inv_engine) (use i(1) e st(1) in \<open>auto simp: sched_inv_def\<close>)
        then have "queue_inv E F [] ?s3"
          by (rule queue_inv_perm) (auto simp: open_units_def)
        moreover have "running_ok E ?s3"
          using i(1,4-7) e(2) unfolding sched_inv_def running_ok_def by auto
        ultimately show ?thesis using i(2,3) None a(3) True
          by (intro exI [of _ F] exI [of _ ?s3]) (auto simp: handled_def sched_inv_def)
      qed
    qed
  qed
qed

lemma handled_bound: "sched_inv E F L s \<Longrightarrow> handled F s \<subseteq> {..<length (en_units E)}"
  by (auto simp: sched_inv_def queue_inv_def open_units_def handled_def)

lemma schedule_spec:
  assumes "engine_ok E" "no_self_conflict E" "sched_inv E F [] s"
  shows "\<exists>F' s'. schedule clock check s = Some s' \<and> F \<subseteq> F' \<and> sched_inv E F' [] s' \<and> sc_ready s' = [] \<and>
    handled F s \<subseteq> handled F' s' \<and> snd ` set (sc_ready s) \<subseteq> handled F' s' \<and> set (sc_running s) \<subseteq> set (sc_running s') \<and>
    (en_stop (sc_engine s) \<noteq> None \<longrightarrow> en_stop (sc_engine s') \<noteq> None)"
  using assms(3)
proof (induction "length (en_units E) - card (handled F s)" arbitrary: F s rule: less_induct)
  case less
  show ?case
  proof (cases "sc_ready s")
    case Nil
    with less.prems show ?thesis by (intro exI [of _ F] exI [of _ s]) (simp add: schedule.simps)
  next
    case (Cons x ready)
    obtain key u where x: "x = (key, u)" by (cases x)
    note pop = pop_inv [OF less.prems Cons [unfolded x]]
    from schedule_step [OF assms(1,2) less.prems Cons [unfolded x], of clock check] obtain F1 s1 where
      st: "schedule clock check s = schedule clock check s1" "F \<subseteq> F1" "sched_inv E F1 [] s1"
        "handled F1 s1 = insert u (handled F s)" "set (sc_running s) \<subseteq> set (sc_running s1)"
        "en_stop (sc_engine s) \<noteq> None \<longrightarrow> en_stop (sc_engine s1) \<noteq> None" by blast
    have fin: "finite (handled F s)" using handled_bound [OF less.prems] finite_subset by blast
    have "card (handled F1 s1) \<le> length (en_units E)"
      using handled_bound [OF st(3)] card_mono [of "{..<length (en_units E)}"] by simp
    then have "length (en_units E) - card (handled F1 s1) < length (en_units E) - card (handled F s)"
      using st(4) fin pop(2) by simp
    from less.hyps [OF this st(3)] obtain F' s' where i: "schedule clock check s1 = Some s'" "F1 \<subseteq> F'"
      "sched_inv E F' [] s'" "sc_ready s' = []" "handled F1 s1 \<subseteq> handled F' s'" "snd ` set (sc_ready s1) \<subseteq> handled F' s'"
      "set (sc_running s1) \<subseteq> set (sc_running s')" "en_stop (sc_engine s1) \<noteq> None \<longrightarrow> en_stop (sc_engine s') \<noteq> None"
      by blast
    have "snd ` set (sc_ready s) \<subseteq> handled F' s'"
    proof
      fix v assume "v \<in> snd ` set (sc_ready s)"
      then have "v \<in> set (open_units s)" by (auto simp: open_units_def)
      then have "set (en_unit_deps E ! v) \<subseteq> F" "v < length (en_units E)" using less.prems by (auto simp: sched_inv_def queue_inv_def)
      then have "set (en_unit_deps E ! v) \<subseteq> F'" using st(2) i(2) by blast
      with \<open>v < _\<close> i(3) have "v \<in> F' \<union> set (open_units s')" by (auto simp: sched_inv_def queue_inv_def)
      then show "v \<in> handled F' s'" using i(4) by (auto simp: open_units_def handled_def)
    qed
    with i st show ?thesis by (intro exI [of _ F'] exI [of _ s']) auto
  qed
qed

section \<open>One turn of the loop\<close>

lemma snd_ready_push_all:
  "mset (map snd (foldl (\<lambda>ready u. ready_push (k u, u) ready) ready us)) = mset (map snd ready) + mset us"
proof (induction us arbitrary: ready)
  case (Cons u us)
  from Cons [of "ready_push (k u, u) ready"] snd_ready_push [of "(k u, u)" ready] show ?case by simp
qed simp

lemma requeue_inv:
  assumes "sched_inv E F L s"
  shows "sched_inv E F L (requeue s) \<and> sc_blocked (requeue s) = [] \<and> sc_running (requeue s) = sc_running s \<and>
    sc_engine (requeue s) = sc_engine s \<and> snd ` set (sc_ready (requeue s)) = snd ` set (sc_ready s) \<union> set (sc_blocked s)"
proof -
  note m = snd_ready_push_all [where k = "\<lambda>u. en_ready_keys (sc_engine s) ! u" and ready = "sc_ready s" and us = "sc_blocked s"]
  have "mset (L @ open_units (requeue s)) = mset (L @ open_units s)"
    using m by (simp add: open_units_def requeue_def)
  then have "queue_inv E F L (requeue s)"
    by (rule queue_inv_perm [rotated]) (use assms in \<open>simp_all add: sched_inv_def requeue_def\<close>)
  then have "sched_inv E F L (requeue s)"
    using assms running_ok_engine [of E s "requeue s"] by (simp add: sched_inv_def requeue_def)
  moreover have "set (map snd (sc_ready (requeue s))) = set (map snd (sc_ready s) @ sc_blocked s)"
    by (rule mset_eq_setD) (use m in \<open>simp add: requeue_def\<close>)
  ultimately show ?thesis by (simp add: requeue_def)
qed

lemma settle_all_inv:
  assumes "engine_ok E" "sched_inv E F us s"
  shows "sched_inv E (F \<union> set us) [] (foldl (\<lambda>s u. settle_unit clock u r s) s us) \<and>
    sc_running (foldl (\<lambda>s u. settle_unit clock u r s) s us) = sc_running s \<and>
    sc_blocked (foldl (\<lambda>s u. settle_unit clock u r s) s us) = sc_blocked s \<and>
    en_stop (sc_engine (foldl (\<lambda>s u. settle_unit clock u r s) s us)) = en_stop (sc_engine s)"
  using assms(2)
proof (induction us arbitrary: F s)
  case (Cons u us)
  note st = settle_unit_inv [OF assms(1) Cons.prems, of clock r]
  from Cons.IH [OF conjunct1 [OF st]] st show ?case by (simp add: insert_commute)
qed simp

lemma settle_leftovers_inv:
  assumes "engine_ok E" "sched_inv E F [] s"
  shows "sched_inv E (F \<union> set (sc_blocked s) \<union> snd ` set (sc_ready s)) [] (settle_leftovers clock s) \<and>
    sc_running (settle_leftovers clock s) = sc_running s \<and> sc_blocked (settle_leftovers clock s) = [] \<and>
    en_stop (sc_engine (settle_leftovers clock s)) = en_stop (sc_engine s)"
proof -
  let ?us = "sc_blocked s @ map snd (sc_ready s)"
  let ?s = "s\<lparr>sc_blocked := [], sc_ready := []\<rparr>"
  have "queue_inv E F ?us ?s"
    by (rule queue_inv_perm [of E F "[]" s]) (use assms(2) in \<open>simp_all add: sched_inv_def open_units_def\<close>)
  then have "sched_inv E F ?us ?s"
    using assms(2) running_ok_engine [of E s ?s] by (simp add: sched_inv_def)
  from settle_all_inv [OF assms(1) this, of clock SkipNotRun] show ?thesis
    by (simp add: settle_leftovers_def Un_assoc)
qed

lemma handled_unfinished: "sched_inv E F L s \<Longrightarrow> u \<in> set (sc_blocked s) \<Longrightarrow> u \<notin> F"
  by (auto simp: sched_inv_def queue_inv_def open_units_def)

definition turn_ok :: "('w, 'v) engine \<Rightarrow> nat set \<Rightarrow> ('w, 'v) sched \<Rightarrow> ('w, 'v) turn \<Rightarrow> bool" where
  "turn_ok E F s t \<longleftrightarrow> (case t of
       Break s' \<Rightarrow> \<exists>F'. sched_inv E F' [] s' \<and> open_units s' = []
     | Again s' \<Rightarrow> \<exists>F'. F \<subseteq> F' \<and> sched_inv E F' [] s' \<and> sc_running s = [] \<and> (F' \<noteq> F \<or> sc_running s' \<noteq> []) \<and>
         (en_stop (sc_engine s) \<noteq> None \<longrightarrow> en_stop (sc_engine s') \<noteq> None)
     | Wait s' \<Rightarrow> \<exists>F'. F \<subseteq> F' \<and> sched_inv E F' [] s' \<and> sc_running s' \<noteq> [] \<and>
         (en_stop (sc_engine s) \<noteq> None \<longrightarrow> en_stop (sc_engine s') \<noteq> None))"

lemma loop_turn_spec:
  assumes "engine_ok E" "no_self_conflict E" "sched_inv E F [] s"
  shows "\<exists>t. loop_turn clock check s = Some t \<and> turn_ok E F s t"
proof -
  from schedule_spec [OF assms, of clock check] obtain F1 s1 where s1: "schedule clock check s = Some s1" "F \<subseteq> F1"
    "sched_inv E F1 [] s1" "sc_ready s1 = []" "set (sc_running s) \<subseteq> set (sc_running s1)"
    "en_stop (sc_engine s) \<noteq> None \<longrightarrow> en_stop (sc_engine s1) \<noteq> None" by blast
  show ?thesis
  proof (cases "sc_running s1 = []")
    case False
    with s1 have "loop_turn clock check s = Some (Wait s1)" by (simp add: loop_turn_def)
    moreover have "turn_ok E F s (Wait s1)" unfolding turn_ok_def turn.case using s1(2,3,6) False by blast
    ultimately show ?thesis by blast
  next
    case idle: True
    then have idle0: "sc_running s = []" using s1(5) by simp
    show ?thesis
    proof (cases "sc_blocked s1")
      case Nil
      with s1 idle have "loop_turn clock check s = Some (Break s1)" "open_units s1 = []"
        by (simp_all add: loop_turn_def open_units_def)
      moreover from this(2) have "turn_ok E F s (Break s1)" unfolding turn_ok_def turn.case using s1(3) by blast
      ultimately show ?thesis by blast
    next
      case (Cons v vs)
      note rq = requeue_inv [OF s1(3)]
      from schedule_spec [OF assms(1,2) conjunct1 [OF rq], of clock check] obtain F2 s2 where
        s2: "schedule clock check (requeue s1) = Some s2" "F1 \<subseteq> F2" "sched_inv E F2 [] s2" "sc_ready s2 = []"
          "snd ` set (sc_ready (requeue s1)) \<subseteq> handled F2 s2"
          "en_stop (sc_engine (requeue s1)) \<noteq> None \<longrightarrow> en_stop (sc_engine s2) \<noteq> None" by blast
      show ?thesis
      proof (cases "sc_running s2 = []")
        case False
        with s1 s2 idle Cons have "loop_turn clock check s = Some (Again s2)" by (simp add: loop_turn_def)
        moreover have "turn_ok E F s (Again s2)" unfolding turn_ok_def turn.case
          using s1(2,6) s2(2,3,6) rq idle0 False by (intro exI [of _ F2]) auto
        ultimately show ?thesis by blast
      next
        case True
        let ?s3 = "settle_leftovers clock s2"
        let ?F3 = "F2 \<union> set (sc_blocked s2) \<union> snd ` set (sc_ready s2)"
        note left = settle_leftovers_inv [OF assms(1) s2(3), of clock]
        have "v \<in> set (sc_blocked s1)" using Cons by simp
        moreover from this have "v \<in> handled F2 s2" using s2(5) rq by blast
        ultimately have "v \<notin> F" "v \<in> ?F3"
          using handled_unfinished [OF s1(3)] s1(2) True by (auto simp: handled_def)
        then have grow: "?F3 \<noteq> F" "F \<subseteq> ?F3" using s1(2) s2(2) by auto
        show ?thesis
        proof (cases "sc_ready ?s3 = []")
          case True': True
          with s1 s2 idle Cons True have "loop_turn clock check s = Some (Break ?s3)" by (simp add: loop_turn_def Let_def)
          moreover have "open_units ?s3 = []" using True' left True by (simp add: open_units_def)
          then have "turn_ok E F s (Break ?s3)" unfolding turn_ok_def turn.case using left by blast
          ultimately show ?thesis by blast
        next
          case False
          with s1 s2 idle Cons True have "loop_turn clock check s = Some (Again ?s3)" by (simp add: loop_turn_def Let_def)
          moreover have "turn_ok E F s (Again ?s3)" unfolding turn_ok_def turn.case
            using grow left idle0 s1(6) s2(6) rq by (intro exI [of _ ?F3]) auto
          ultimately show ?thesis by blast
        qed
      qed
    qed
  qed
qed

end
