(* ===== verification/SchedRuns.thy ===== *)
theory SchedRuns
  imports SchedSpec
begin

text \<open>
  Runs of the scheduler: every reachable state satisfies the invariant, every step brings the
  run closer to its end, and a run that cannot step has ended with every node settled.
\<close>

section \<open>Joining a task\<close>

lemma reported_nodes:
  assumes "reports e (u, ms) out" "en_units e = en_units E"
  shows "pm_node ` set ms \<subseteq> fst ` set (do_results out) \<or> set (un_members (en_units E ! u)) \<subseteq> fst ` set (do_results out)"
proof -
  from assms(1) show ?thesis
    unfolding reports_def
  proof
    assume "mset (map fst (do_results out)) = mset (map pm_node (snd (u, ms)))"
    then have "set (map fst (do_results out)) = set (map pm_node ms)" by (metis mset_eq_setD snd_conv)
    then show ?thesis by auto
  next
    assume "\<exists>at message. out = panicked_outcome at (un_members (unit_at e (u, ms))) (un_tool (unit_at e (u, ms))) message"
    then show ?thesis using assms(2) by (auto simp: panicked_outcome_def Let_def image_image)
  qed
qed

lemma running_ok_subset:
  assumes "running_ok E s" "\<And>m. is_settled (sc_engine s) m \<Longrightarrow> is_settled (sc_engine s') m"
    and "set (sc_running s') \<subseteq> set (sc_running s)"
  shows "running_ok E s'"
  using assms unfolding running_ok_def case_prod_beta by blast

lemma join_task_inv:
  assumes "engine_ok E" "sched_inv E F [] s" "(u, ms) \<in> set (sc_running s)" "reports (sc_engine s) (u, ms) out"
  shows "sched_inv E (insert u F) [] (join_task u out s) \<and> u \<notin> F \<and> u < length (en_units E)"
proof -
  let ?e = "fst (absorb_outcome out (release_unit u (sc_engine s)))"
  let ?run = "filter (\<lambda>r. fst r \<noteq> u) (sc_running s)"
  let ?s1 = "s\<lparr>sc_engine := ?e, sc_running := ?run\<rparr>"
  have q: "queue_inv E F [] s" and ro: "running_ok E s" using assms(2) by (simp_all add: sched_inv_def)
  have st: "statics (sc_engine s) = statics E" using q by (simp add: queue_inv_def)
  have dis: "distinct (map fst (sc_running s))" "u \<in> set (open_units s)"
    using q assms(3) by (auto simp: queue_inv_def open_units_def intro: img_fst)
  from sched_inv_bound [OF assms(2)] dis(2) have u: "u < length (en_units E)" "u \<notin> F" by simp_all
  have grow: "is_settled ?e m" if "is_settled (sc_engine s) m" for m
    using that by (simp add: settled_absorb settled_steps)
  from split_list [OF assms(3)] obtain xs ys where run: "sc_running s = xs @ (u, ms) # ys" by blast
  have "\<forall>x \<in> set (xs @ ys). fst x \<noteq> u" using dis(1) unfolding run by (auto simp: image_iff)
  then have run': "?run = xs @ ys" by (simp add: run)
  have "queue_inv E F [] (s\<lparr>sc_engine := ?e\<rparr>)" by (rule queue_inv_engine [OF q]) (simp_all add: st grow)
  then have "queue_inv E F [u] ?s1"
    by (rule queue_inv_perm) (simp_all only: open_units_def sched.simps run', simp_all add: run)
  moreover have "admission_inv E ?run (admission ?e)"
    using release_spec [OF st _ dis(1) assms(3)] assms(2) by (simp add: sched_inv_def)
  moreover have "running_ok E ?s1"
    by (rule running_ok_subset [OF ro]) (auto simp: grow)
  ultimately have s1: "sched_inv E F [u] ?s1" by (simp add: sched_inv_def)
  have "\<forall>m \<in> set (un_members (en_units E ! u)). is_settled (sc_engine s) m \<or> m \<in> pm_node ` set ms"
    using ro assms(3) by (auto simp: running_ok_def)
  then have "\<forall>m \<in> set (un_members (en_units E ! u)). is_settled (sc_engine ?s1) m"
    using reported_nodes [OF assms(4) same_statics(6) [OF st]] by (auto simp: settled_absorb settled_steps)
  from conjunct1 [OF requeue_inv [OF sched_inv_unblock [OF assms(1) s1 this]]] show ?thesis
    using u by (simp add: join_task_def Let_def)
qed

lemma cancel_inv: "sched_inv E F [] s \<Longrightarrow> sched_inv E F [] (cancel_run s)"
  unfolding cancel_run_def
  by (rule sched_inv_engine) (auto simp: sched_inv_def queue_inv_def settled_steps)

section \<open>The start\<close>

lemma start_inv:
  assumes "engine_ok E" "engine_fresh E"
  shows "sched_inv E {} [] (sched_start E)"
proof -
  let ?n = "length (en_units E)"
  let ?rem = "map length (en_unit_deps E)"
  let ?ready = "filter (\<lambda>u. ?rem ! u = 0) [0..<length ?rem]"
  have w: "wired ?n (en_unit_deps E, en_unit_dependents E)" using assms(1) by (simp add: engine_ok_def)
  then have len: "length (en_unit_deps E) = ?n" by (simp add: wired_def)
  have rem: "?rem ! u = card (set (en_unit_deps E ! u))" if "u < ?n" for u
    using w that len by (simp add: wired_def distinct_card bs_ok_distinct)
  have "mset (open_units (sched_start E)) = mset ?ready"
    using snd_ready_push_all [where k = "\<lambda>u. en_ready_keys E ! u" and ready = "[]" and us = ?ready]
    by (simp add: open_units_def sched_start_def Let_def)
  then have opens: "set (open_units (sched_start E)) = set ?ready" "distinct (open_units (sched_start E)) = distinct ?ready"
    by (rule mset_eq_setD, rule mset_eq_imp_distinct_iff)
  have "queue_inv E {} [] (sched_start E)"
    unfolding queue_inv_def append_Nil opens
    using len rem by (auto simp: sched_start_def Let_def card_eq_0_iff)
  moreover have "lock_holders {#} lock_table_default" by (rule lock_holders_default)
  then have "admission_inv E [] (admission E)"
    using assms(2) by (simp add: admission_inv_def admission_def engine_fresh_def held_locks_def calls_of_def within_limits_def)
  ultimately show ?thesis by (simp add: sched_inv_def running_ok_def sched_start_def Let_def)
qed

section \<open>Every reachable state\<close>

definition run_inv :: "('w, 'v) engine \<Rightarrow> ('w, 'v) run_state \<Rightarrow> bool" where
  "run_inv E t \<longleftrightarrow> (case t of
       Looping s \<Rightarrow> \<exists>F. sched_inv E F [] s
     | Ended s \<Rightarrow> \<exists>F. sched_inv E F [] s \<and> open_units s = []
     | Crashed \<Rightarrow> False)"

definition finished_units :: "('w, 'v) sched \<Rightarrow> nat set" where
  "finished_units s = {u. u < length (sc_remaining s) \<and> sc_remaining s ! u = 0} - set (open_units s)"

lemma finished_units_eq: "sched_inv E F [] s \<Longrightarrow> finished_units s = F"
proof -
  assume "sched_inv E F [] s"
  then have q: "queue_inv E F [] s" by (simp add: sched_inv_def)
  have "u \<in> finished_units s \<longleftrightarrow> u \<in> F" for u
  proof (cases "u < length (en_units E)")
    case True
    have "sc_remaining s ! u = 0 \<longleftrightarrow> set (en_unit_deps E ! u) \<subseteq> F" using q True by (auto simp: queue_inv_def)
    with q True show ?thesis by (auto simp: queue_inv_def finished_units_def)
  next
    case False
    with q show ?thesis by (auto simp: queue_inv_def finished_units_def)
  qed
  then show ?thesis by blast
qed

text \<open>What every step makes smaller.\<close>

definition run_measure :: "('w, 'v) engine \<Rightarrow> ('w, 'v) run_state \<Rightarrow> nat" where
  "run_measure E t = (case t of
       Looping s \<Rightarrow> 4 * (length (en_units E) - card (finished_units s)) +
         (if en_stop (sc_engine s) = None then 2 else 0) + (if sc_running s = [] then 1 else 0) + 1
     | _ \<Rightarrow> 0)"

lemma finished_card: "sched_inv E F [] s \<Longrightarrow> finite F \<and> card F \<le> length (en_units E)"
  using card_mono [of "{..<length (en_units E)}" F] finite_subset [of F "{..<length (en_units E)}"]
  by (auto simp: sched_inv_def queue_inv_def)

lemma measure_grow:
  assumes "sched_inv E F [] s" "sched_inv E F' [] s'" "F \<subseteq> F'"
  shows "length (en_units E) - card (finished_units s') \<le> length (en_units E) - card (finished_units s) \<and>
    (F \<noteq> F' \<longrightarrow> length (en_units E) - card (finished_units s') < length (en_units E) - card (finished_units s))"
proof -
  note fin = finished_card [OF assms(1)] finished_card [OF assms(2)]
  have "card F \<le> card F'" using fin assms(3) card_mono by blast
  moreover have "card F < card F'" if "F \<noteq> F'" using fin assms(3) that by (simp add: psubset_card_mono psubsetI)
  ultimately show ?thesis using fin unfolding finished_units_eq [OF assms(1)] finished_units_eq [OF assms(2)] by linarith
qed

lemma stop_monotone:
  "en_stop e \<noteq> None \<Longrightarrow> en_stop (record_failure node err e) \<noteq> None"
  by (simp add: record_failure_def Let_def)

lemma absorb_stop: "en_stop e \<noteq> None \<Longrightarrow> en_stop (fst (absorb_outcome out e)) \<noteq> None"
proof -
  assume a: "en_stop e \<noteq> None"
  have push: "en_stop (foldl (\<lambda>e ev. push_trace ev e) e evs) = en_stop e" for e :: "('a, 'b) engine" and evs
    by (induction evs arbitrary: e) (simp_all add: push_trace_def)
  have one: "en_stop (fst ew) \<noteq> None \<Longrightarrow> en_stop (fst (absorb_result r ew)) \<noteq> None" for r and ew :: "('a, 'b) engine \<times> resource bset"
    by (cases r; cases ew; cases "snd r") (auto simp: absorb_result_def Let_def record_failure_def)
  have "en_stop (fst ew) \<noteq> None \<Longrightarrow> en_stop (fst (foldl (\<lambda>ew nr. absorb_result nr ew) ew rs)) \<noteq> None"
    for ew :: "('a, 'b) engine \<times> resource bset" and rs
    using one by (induction rs arbitrary: ew) simp_all
  from this [of "(foldl (\<lambda>e ev. push_trace ev e) (e\<lparr>en_metrics := m\<rparr>) evs, [])" for m evs] a
  show ?thesis unfolding absorb_outcome_def Let_def by (simp add: push)
qed

lemma join_task_stop: "en_stop (sc_engine s) \<noteq> None \<Longrightarrow> en_stop (sc_engine (join_task u out s)) \<noteq> None"
proof -
  assume "en_stop (sc_engine s) \<noteq> None"
  then have "en_stop (release_unit u (sc_engine s)) \<noteq> None" by (simp add: release_unit_def Let_def)
  then have "en_stop (fst (absorb_outcome out (release_unit u (sc_engine s)))) \<noteq> None" by (rule absorb_stop)
  then show ?thesis by (simp add: join_task_def Let_def requeue_def unblock_unit_def split: prod.split)
qed

lemma sched_step_inv:
  assumes "engine_ok E" "no_self_conflict E" "run_inv E t" "sched_step clock check t t'"
  shows "run_inv E t' \<and> run_measure E t' < run_measure E t"
proof (cases t)
  case (Looping s)
  then obtain F where F: "sched_inv E F [] s" using assms(3) by (auto simp: run_inv_def)
  from loop_turn_spec [OF assms(1,2) F, of clock check] obtain turn where
    turn: "loop_turn clock check s = Some turn" "turn_ok E F s turn" by blast
  from assms(4) show ?thesis
  proof (cases rule: sched_step.cases)
    case (step_break s0 s')
    then have "\<exists>F'. sched_inv E F' [] s' \<and> open_units s' = []" using turn Looping by (auto simp: turn_ok_def)
    then show ?thesis using step_break Looping by (simp add: run_inv_def run_measure_def)
  next
    case (step_again s0 s')
    then have eq: "turn = Again s'" using turn(1) Looping by auto
    obtain F' where a: "F \<subseteq> F'" "sched_inv E F' [] s'" "sc_running s = []" "F' \<noteq> F \<or> sc_running s' \<noteq> []"
      "en_stop (sc_engine s) \<noteq> None \<longrightarrow> en_stop (sc_engine s') \<noteq> None" using turn(2) unfolding eq turn_ok_def turn.case by blast
    from measure_grow [OF F a(2,1)] a step_again Looping show ?thesis
      by (auto simp: run_inv_def run_measure_def)
  next
    case (step_join s0 s' r out)
    then have eq: "turn = Wait s'" using turn(1) Looping by auto
    obtain F' where a: "F \<subseteq> F'" "sched_inv E F' [] s'" "sc_running s' \<noteq> []"
      "en_stop (sc_engine s) \<noteq> None \<longrightarrow> en_stop (sc_engine s') \<noteq> None" using turn(2) unfolding eq turn_ok_def turn.case by blast
    obtain u ms where r: "r = (u, ms)" by (cases r)
    from join_task_inv [OF assms(1) a(2), of u ms out] step_join(4,5) r
    have j: "sched_inv E (insert u F') [] (join_task u out s')" "u \<notin> F'" by simp_all
    have "F \<subseteq> insert u F'" "F \<noteq> insert u F'" using a(1) j(2) by auto
    with measure_grow [OF F j(1)] have "length (en_units E) - card (finished_units (join_task u out s')) < length (en_units E) - card (finished_units s)"
      by blast
    with j(1) step_join r Looping a(4) join_task_stop [of s' u out] show ?thesis
      by (auto simp: run_inv_def run_measure_def)
  next
    case (step_cancel s0 s')
    then have eq: "turn = Wait s'" using turn(1) Looping by auto
    obtain F' where a: "F \<subseteq> F'" "sched_inv E F' [] s'" "sc_running s' \<noteq> []"
      "en_stop (sc_engine s) \<noteq> None \<longrightarrow> en_stop (sc_engine s') \<noteq> None" using turn(2) unfolding eq turn_ok_def turn.case by blast
    have c: "sched_inv E F' [] (cancel_run s')" by (rule cancel_inv [OF a(2)])
    have "en_stop (sc_engine s) = None" using a(4) step_cancel Looping by blast
    moreover have "en_stop (sc_engine (cancel_run s')) \<noteq> None" "sc_running (cancel_run s') \<noteq> []"
      using a(3) by (simp_all add: cancel_run_def)
    ultimately show ?thesis using measure_grow [OF F c a(1)] c step_cancel Looping
      by (auto simp: run_inv_def run_measure_def)
  next
    case (step_crash s0)
    with turn Looping show ?thesis by simp
  qed
next
  case (Ended s)
  with assms(4) show ?thesis by (simp add: sched_step_Ended)
next
  case Crashed
  with assms(4) show ?thesis by (simp add: sched_step_Crashed)
qed

end
