(* ===== verification/SchedProps.thy ===== *)
theory SchedProps
  imports SchedRuns
begin

text \<open>
  What every run of the scheduler does, whatever order its tasks end in, for an engine that
  \<^verbatim>\<open>Engine::new\<close> built and no unit of which reads and writes one resource: units in flight do not
  conflict and stay within the limits, a unit starts when its dependencies are settled, the run
  ends, and at its end every node is settled and every lock is free.
\<close>

section \<open>Requests that hold the table together\<close>

lemma holders_compatible:
  assumes "lock_holders (add_mset a (add_mset b M)) t"
  shows "compatible_requests a b"
proof -
  let ?M = "add_mset a (add_mset b M)"
  have "\<not> lt_exclusive t" using assms by (auto simp: lock_holders_def)
  then have w: "\<not> lr_world a" "\<not> lr_world b" using assms by (auto simp: lock_holders_def)
  have lm: "lock_matches ?M r (lt_resources t r)" for r using assms by (simp add: lock_holders_def)
  have rw: False if "locks_read x r" "locks_write y r" "x \<in># ?M" "y \<in># ?M" for x y r
    using lm [of r] that by (cases rule: lock_matches_cases) blast+
  have ww: "lr_commutative_tool a \<noteq> None \<and> lr_commutative_tool a = lr_commutative_tool b"
    if "locks_write a r" "locks_write b r" for r
  proof -
    have two: "writers ?M r \<ge> 2" using that by simp
    show ?thesis using lm [of r] two that
      by (auto simp: lock_matches_def split: option.splits lock_state.splits)
  qed
  have "set (lr_reads a) \<inter> set (lr_writes b) = {}" "set (lr_writes a) \<inter> set (lr_reads b) = {}"
    using rw [of a _ b] rw [of b _ a] w by (auto simp: locks_read_def locks_write_def)
  moreover have "set (lr_writes a) \<inter> set (lr_writes b) = {} \<or>
      lr_commutative_tool a \<noteq> None \<and> lr_commutative_tool a = lr_commutative_tool b"
    using ww w by (auto simp: locks_write_def)
  ultimately show ?thesis using w by (simp add: compatible_requests_def)
qed

lemma held_pair:
  assumes "r \<in> set running" "q \<in> set running" "r \<noteq> q"
  shows "\<exists>M. held_locks E running = add_mset (un_lock (unit_at E r)) (add_mset (un_lock (unit_at E q)) M)"
proof -
  from split_list [OF assms(1)] obtain xs ys where run: "running = xs @ r # ys" by blast
  with assms(2,3) have "q \<in> set (xs @ ys)" by auto
  from split_list [OF this] obtain us vs where "xs @ ys = us @ q # vs" by blast
  then have "mset xs + mset ys = add_mset q (mset us + mset vs)" by (metis mset_append mset.simps(2) union_mset_add_mset_right)
  then have "mset running = add_mset r (add_mset q (mset us + mset vs))" by (simp add: run)
  then show ?thesis by (simp add: held_locks_def)
qed

section \<open>Reachable states\<close>

lemma run_reaches:
  assumes "engine_ok E" "engine_fresh E" "no_self_conflict E"
    and "(sched_step clock check)\<^sup>*\<^sup>* (Looping (sched_start E)) t"
  shows "run_inv E t"
  using assms(4)
proof induction
  case base
  then show ?case using start_inv [OF assms(1,2)] by (auto simp: run_inv_def)
next
  case (step t t')
  then show ?case using sched_step_inv [OF assms(1,3)] by blast
qed

lemma waiting_inv:
  assumes "engine_ok E" "engine_fresh E" "no_self_conflict E"
    and "(sched_step clock check)\<^sup>*\<^sup>* (Looping (sched_start E)) (Looping s)" "loop_turn clock check s = Some (Wait s')"
  shows "\<exists>F. sched_inv E F [] s'"
proof -
  from run_reaches [OF assms(1-4)] obtain F where "sched_inv E F [] s" by (auto simp: run_inv_def)
  from loop_turn_spec [OF assms(1,3) this, of clock check] assms(5) show ?thesis by (auto simp: turn_ok_def)
qed

lemma waiting_unit:
  assumes "engine_ok E" "sched_inv E F [] s" "(u, ms) \<in> set (sc_running s)"
  shows "u < length (en_units E) \<and> unit_ok (en_plan E) (en_graph E) (en_units E ! u) \<and> set (en_unit_deps E ! u) \<subseteq> F"
proof -
  have o: "u \<in> set (open_units s)" using assms(3) by (auto simp: open_units_def intro: img_fst)
  then have u: "u < length (en_units E)" using sched_inv_bound [OF assms(2), of u] by simp
  with o assms(1,2) show ?thesis by (auto simp: engine_ok_def sched_inv_def queue_inv_def)
qed

text \<open>
  C5. At every wait of every run, the members of two different units in flight can run together
  by the pairwise rule of the graph, and neither the number of units in flight nor the number of
  units of one tool exceeds its limit. (No unit both reads and writes one resource.)
\<close>

theorem units_in_flight_do_not_conflict:
  assumes "engine_ok E" "engine_fresh E" "no_self_conflict E"
    and "(sched_step clock check)\<^sup>*\<^sup>* (Looping (sched_start E)) (Looping s)" "loop_turn clock check s = Some (Wait s')"
    and "(u, ms) \<in> set (sc_running s')" "(v, ns) \<in> set (sc_running s')" "u \<noteq> v"
    and "a \<in> set (un_members (en_units E ! u))" "b \<in> set (un_members (en_units E ! v))"
  shows "\<exists>fa fb. map_of (g_resolved_effects (en_graph E)) a = Some fa \<and> map_of (g_resolved_effects (en_graph E)) b = Some fb \<and>
    can_run_with fa fb \<and> within_limits E (sc_running s')"
proof -
  from waiting_inv [OF assms(1-5)] obtain F where F: "sched_inv E F [] s'" by blast
  have val: "validate (en_plan E) = Inr (en_graph E)" using assms(1) by (simp add: engine_ok_def)
  note g = graph_of_validate [OF val]
  note u = waiting_unit [OF assms(1) F assms(6)] and v = waiting_unit [OF assms(1) F assms(7)]
  from u assms(9) obtain fa where fa: "map_of (g_resolved_effects (en_graph E)) a = Some fa"
    "covers (un_lock (en_units E ! u)) (for_effects fa)" unfolding unit_ok_def by blast
  from v assms(10) obtain fb where fb: "map_of (g_resolved_effects (en_graph E)) b = Some fb"
    "covers (un_lock (en_units E ! v)) (for_effects fb)" unfolding unit_ok_def by blast
  have ids: "a \<in> set (node_ids (en_plan E))" "b \<in> set (node_ids (en_plan E))"
    using members_known [OF assms(1)] u v assms(9,10) by blast+
  have co: "coherent fa" "coherent fb"
    using effects_ok_plan [OF g(1)] ids fa(1) fb(1) unfolding g(4) effects_ok_def by force+
  have adm: "admission_inv E (sc_running s') (admission (sc_engine s'))" using F by (simp add: sched_inv_def)
  then have h: "lock_holders (held_locks E (sc_running s')) (en_locks (sc_engine s'))" "within_limits E (sc_running s')"
    by (simp_all add: admission_inv_def admission_def)
  have "(u, ms) \<noteq> (v, ns)" using assms(8) by simp
  from held_pair [OF assms(6,7) this, of E] h(1)
  have "compatible_requests (un_lock (en_units E ! u)) (un_lock (en_units E ! v))"
    using holders_compatible by fastforce
  from covers_compatible [OF fa(2) fb(2) this] have "can_run_with fa fb"
    unfolding compatible_for_effects [OF co] .
  with fa(1) fb(1) h(2) show ?thesis by blast
qed

text \<open>
  C6. At every wait of every run, every dependency of every member of a unit in flight is settled:
  it has an output, an error or a skip reason. (No unit both reads and writes one resource.)
\<close>

theorem units_start_after_dependencies:
  assumes "engine_ok E" "engine_fresh E" "no_self_conflict E"
    and "(sched_step clock check)\<^sup>*\<^sup>* (Looping (sched_start E)) (Looping s)" "loop_turn clock check s = Some (Wait s')"
    and "(u, ms) \<in> set (sc_running s')" "m \<in> set (un_members (en_units E ! u))"
    and "d \<in> deps_of (g_dependencies (en_graph E)) m"
  shows "is_settled (sc_engine s') d"
proof -
  from waiting_inv [OF assms(1-5)] obtain F where F: "sched_inv E F [] s'" by blast
  note u = waiting_unit [OF assms(1) F assms(6)]
  have val: "validate (en_plan E) = Inr (en_graph E)" and cover: "units_cover (en_plan E) (en_units E)"
    using assms(1) by (simp_all add: engine_ok_def)
  note g = graph_of_validate [OF val]
  have m: "m \<in> set (node_ids (en_plan E))" using members_known [OF assms(1)] u assms(7) by blast
  have less: "node_layer (g_layers (en_graph E)) d < node_layer (g_layers (en_graph E)) m"
    using dep_layer_less [OF g(5)] m assms(8) unfolding g(3,6) by blast
  have "d \<in> set (node_ids (en_plan E))"
  proof -
    have "get_list (plan_deps (en_plan E)) m \<noteq> []" using assms(8) unfolding g(3) by (auto simp: deps_of_def)
    then obtain deps where "(m, deps) \<in> set (plan_deps (en_plan E))" using get_list_nonempty_key by fastforce
    with plan_deps_entries [OF g(1)] assms(8) show ?thesis unfolding g(3) by blast
  qed
  then have "d \<in> set (concat (map un_members (en_units E)))" using cover by (simp only: units_cover_def)
  then obtain w where "w \<in> set (en_units E)" "d \<in> set (un_members w)" by auto
  then obtain v where v: "v < length (en_units E)" "d \<in> set (un_members (en_units E ! v))" by (metis in_set_conv_nth)
  have "un_members (en_units E ! u) \<noteq> []" using assms(7) by auto
  then have "v \<noteq> u" using unit_layer_member [OF val, of "en_units E ! u"] u assms(7) v(2) less by fastforce
  moreover have "unit_waits (g_dependencies (en_graph E)) (en_units E ! u) (en_units E ! v)"
    unfolding unit_waits_def using assms(7,8) v(2) by blast
  ultimately have "v \<in> set (en_unit_deps E ! u)" using assms(1) u v(1) unfolding engine_ok_def by blast
  with u have "v \<in> F" by blast
  with F v(2) show ?thesis by (auto simp: sched_inv_def queue_inv_def)
qed

section \<open>The end of a run\<close>

text \<open>Without open units every unit is finished: a least unfinished one would be open.\<close>

lemma all_finished:
  assumes "engine_ok E" "sched_inv E F [] s" "open_units s = []"
  shows "F = {..<length (en_units E)}"
proof (rule ccontr)
  assume "F \<noteq> {..<length (en_units E)}"
  then obtain u where "u < length (en_units E) \<and> u \<notin> F" using assms(2) by (auto simp: sched_inv_def queue_inv_def)
  then obtain v where v: "v < length (en_units E) \<and> v \<notin> F"
    "\<And>x. unit_layer (en_graph E) (en_units E ! x) < unit_layer (en_graph E) (en_units E ! v) \<Longrightarrow> \<not> (x < length (en_units E) \<and> x \<notin> F)"
    using ex_has_least_nat [of "\<lambda>x. x < length (en_units E) \<and> x \<notin> F" u "\<lambda>x. unit_layer (en_graph E) (en_units E ! x)"]
    by (metis not_less)
  have "set (en_unit_deps E ! v) \<subseteq> F" using engine_ok_layers [OF assms(1) conjunct1 [OF v(1)]] v(2) by blast
  with v(1) assms(2,3) show False by (auto simp: sched_inv_def queue_inv_def)
qed

lemma ended_settled:
  assumes "engine_ok E" "engine_fresh E" "no_self_conflict E"
    and "(sched_step clock check)\<^sup>*\<^sup>* (Looping (sched_start E)) (Ended s)"
  shows "(\<forall>m \<in> set (node_ids (en_plan E)). is_settled (sc_engine s) m) \<and> sc_running s = [] \<and>
    en_locks (sc_engine s) = lock_table_default \<and> en_total_in_flight (sc_engine s) = 0 \<and> en_plan (sc_engine s) = en_plan E"
proof -
  from run_reaches [OF assms] obtain F where F: "sched_inv E F [] s" "open_units s = []" by (auto simp: run_inv_def)
  have run: "sc_running s = []" using F(2) by (simp add: open_units_def)
  have st: "statics (sc_engine s) = statics E" using F(1) by (simp add: sched_inv_def queue_inv_def)
  have "is_settled (sc_engine s) m" if "m \<in> set (node_ids (en_plan E))" for m
  proof -
    have "set (concat (map un_members (en_units E))) = set (node_ids (en_plan E))"
      using assms(1) by (simp only: engine_ok_def units_cover_def)
    with that have "m \<in> set (concat (map un_members (en_units E)))" by blast
    then obtain w where "w \<in> set (en_units E)" "m \<in> set (un_members w)" by auto
    then obtain v where "v < length (en_units E)" "m \<in> set (un_members (en_units E ! v))" by (metis in_set_conv_nth)
    with F(1) all_finished [OF assms(1) F] show ?thesis by (auto simp: sched_inv_def queue_inv_def)
  qed
  moreover have adm: "lock_holders {#} (en_locks (sc_engine s))" "en_total_in_flight (sc_engine s) = 0"
    using F(1) run by (simp_all add: sched_inv_def admission_inv_def admission_def held_locks_def)
  have "lock_matches {#} r (lt_resources (en_locks (sc_engine s)) r)" for r using adm(1) by (simp add: lock_holders_def)
  then have "lt_resources (en_locks (sc_engine s)) r = None" for r
    by (rule lock_matches_cases) auto
  then have "en_locks (sc_engine s) = lock_table_default"
    using adm(1) by (intro lock_table.equality) (auto simp: lock_holders_def lock_table_default_def)
  ultimately show ?thesis using run adm(2) same_statics(1) [OF st] by blast
qed

lemma ended_tool_counters:
  assumes "engine_ok E" "engine_fresh E" "no_self_conflict E"
    and "(sched_step clock check)\<^sup>*\<^sup>* (Looping (sched_start E)) (Ended s)"
  shows "map_of (en_tool_in_flight (sc_engine s)) t \<in> {None, Some 0}"
proof -
  from run_reaches [OF assms] obtain F where F: "sched_inv E F [] s" "open_units s = []" by (auto simp: run_inv_def)
  have "sc_running s = []" using F(2) by (simp add: open_units_def)
  then have "(case map_of (en_tool_in_flight (sc_engine s)) t of None \<Rightarrow> 0 | Some k \<Rightarrow> k) = (0 :: nat)"
    using F(1) by (simp add: sched_inv_def admission_inv_def admission_def calls_of_def)
  then show ?thesis by (simp split: option.splits)
qed

text \<open>
  C8. A run that has ended has settled every node of the plan, has no task in flight, and has
  released every lock and every slot: the lock table is empty, the count of tasks in flight is
  zero, and so is the count of every tool. As for C5 to C7, no unit of the engine both reads and
  writes one resource; a plan with such a unit panics in the lock table (C21).
\<close>

theorem ended_run_settles_everything:
  assumes "engine_ok E" "engine_fresh E" "no_self_conflict E"
    and "(sched_step clock check)\<^sup>*\<^sup>* (Looping (sched_start E)) (Ended s)"
  shows "(\<forall>m \<in> set (node_ids (en_plan E)). is_settled (sc_engine s) m) \<and> sc_running s = [] \<and>
    en_locks (sc_engine s) = lock_table_default \<and> en_total_in_flight (sc_engine s) = 0 \<and>
    (\<forall>t. map_of (en_tool_in_flight (sc_engine s)) t \<in> {None, Some 0}) \<and> en_plan (sc_engine s) = en_plan E"
  using ended_settled [OF assms] ended_tool_counters [OF assms] by blast

text \<open>A state that has not ended can go on, and so every run can be brought to its end.\<close>

lemma run_progress:
  assumes "engine_ok E" "no_self_conflict E" "run_inv E t"
  shows "(\<exists>s. t = Ended s) \<or> (\<exists>t'. sched_step clock check t t')"
proof (cases t)
  case (Looping s)
  with assms(3) obtain F where F: "sched_inv E F [] s" by (auto simp: run_inv_def)
  from loop_turn_spec [OF assms(1,2) this, of clock check] obtain turn where
    turn: "loop_turn clock check s = Some turn" "turn_ok E F s turn" by blast
  show ?thesis
  proof (cases turn)
    case (Wait s')
    with turn(2) obtain r rs where r: "sc_running s' = r # rs" by (cases "sc_running s'") (auto simp: turn_ok_def)
    let ?out = "panicked_outcome (\<lambda>_. 0) (un_members (unit_at (sc_engine s') r)) (un_tool (unit_at (sc_engine s') r)) []"
    have "reports (sc_engine s') r ?out" unfolding reports_def by blast
    from step_join [OF _ _ this] turn(1) Wait r Looping show ?thesis by auto
  qed (use turn(1) Looping step_break step_again in blast)+
qed (use assms(3) in \<open>auto simp: run_inv_def\<close>)

lemma run_can_end:
  assumes "engine_ok E" "no_self_conflict E" "run_inv E t"
  shows "\<exists>s. (sched_step clock check)\<^sup>*\<^sup>* t (Ended s)"
  using assms(3)
proof (induction "run_measure E t" arbitrary: t rule: less_induct)
  case less
  from run_progress [OF assms(1,2) less.prems, of clock check] show ?case
  proof
    assume "\<exists>t'. sched_step clock check t t'"
    then obtain t' where t': "sched_step clock check t t'" by blast
    from sched_step_inv [OF assms(1,2) less.prems t'] have inv: "run_inv E t'" "run_measure E t' < run_measure E t" by simp_all
    from less.hyps [OF inv(2,1)] t' show ?thesis by (meson converse_rtranclp_into_rtranclp)
  qed blast
qed

text \<open>
  C7. For an engine none of whose units both reads and writes one resource, no run goes on for more
  than four steps for each unit and four more, none reaches a panic of the lock table or of the
  scheduling loop, and a run that has not ended can go on. The side condition is needed: validation
  accepts a plan whose node reads and writes the same resource, and acquiring the locks of such a
  unit can panic (C21).
\<close>

theorem runs_end:
  assumes "engine_ok E" "engine_fresh E" "no_self_conflict E"
    and "(sched_step clock check ^^ k) (Looping (sched_start E)) t"
  shows "k \<le> 4 * length (en_units E) + 4 \<and> t \<noteq> Crashed \<and> ((\<exists>s. t = Ended s) \<or> (\<exists>t'. sched_step clock check t t'))"
proof -
  have m: "k + run_measure E t \<le> run_measure E (Looping (sched_start E))"
    using assms(4)
  proof (induction k arbitrary: t)
    case (Suc k)
    then obtain t0 where t0: "(sched_step clock check ^^ k) (Looping (sched_start E)) t0" "sched_step clock check t0 t" by auto
    have "run_inv E t0" by (rule run_reaches [OF assms(1-3) relpowp_imp_rtranclp [OF t0(1)]])
    from sched_step_inv [OF assms(1,3) this t0(2)] Suc.IH [OF t0(1)] show ?case by linarith
  qed simp
  have inv: "run_inv E t" by (rule run_reaches [OF assms(1-3) relpowp_imp_rtranclp [OF assms(4)]])
  have "4 * (length (en_units E) - x) \<le> 4 * length (en_units E)" for x by simp
  then have "run_measure E (Looping (sched_start E)) \<le> 4 * length (en_units E) + 4"
    using trans_le_add1 by (auto simp: run_measure_def intro!: le_SucI trans_le_add2)
  then show ?thesis using m inv run_progress [OF assms(1,3) inv, of clock check] by (auto simp: run_inv_def)
qed

section \<open>A concrete run\<close>

text \<open>Two readers of one file, a writer of it, and a reader that waits for the writer.\<close>

definition batches_of_four :: "tool_spec \<Rightarrow> tool_spec" where
  "batches_of_four spec = spec\<lparr>spec_limits := Some \<lparr>lim_max_concurrency = None, lim_batch_size = Some 4\<rparr>\<rparr>"

definition run_plan :: plan where
  "run_plan = example_plan\<lparr>plan_tools := [(''read'', batches_of_four read_tool), (''write'', batches_of_four write_tool)]\<rparr>"

definition run_graph :: execution_graph where
  "run_graph = (case validate run_plan of Inr g \<Rightarrow> g)"

lemma run_plan_valid: "validate run_plan = Inr run_graph"
  by code_simp

definition example_engine :: "(unit, unit) engine" where
  "example_engine = (case engine_new (\<lambda>_. Inr ()) example_registry run_plan run_graph
      (collect_data_deps run_plan) report_default run_config_new False of Some (Inr e, _) \<Rightarrow> e)"

definition example_clock :: "nat \<Rightarrow> 64 word" where "example_clock n = of_nat n"

definition example_check :: "unit schema_check" where "example_check v input = None"

lemma example_engine_ok: "engine_ok example_engine \<and> engine_fresh example_engine"
proof -
  have "groups_ok run_plan run_graph (rep_batch_groups report_default)"
    by (simp add: report_default_def no_groups_ok)
  from engine_built [OF run_plan_valid this, of "\<lambda>_. Inr ()" example_registry run_config_new False]
  obtain res r' where n: "engine_new (\<lambda>_. Inr ()) example_registry run_plan run_graph
      (collect_data_deps run_plan) report_default run_config_new False = Some (res, r')"
    "case res of
       Inl e \<Rightarrow> (\<exists>spec \<in> set (map snd (plan_tools run_plan)). registry_executor example_registry (spec_adapter spec) = None \<and>
           e = MissingAdapter (spec_adapter spec)) \<or> bad_schema (\<lambda>_. Inr ()) example_registry (plan_tools run_plan) e
     | Inr e \<Rightarrow> engine_ok e \<and> engine_fresh e \<and> en_plan e = run_plan \<and> en_config e = run_config_new" by blast
  have "list_all (\<lambda>(t, spec). spec_adapter spec = ''builtin'') (plan_tools run_plan)" by code_simp
  note ok = example_builds [OF this]
  show ?thesis
  proof (cases res)
    case (Inl e)
    from ok [of e] n(2) [unfolded Inl sum.case] show ?thesis by (rule notE)
  next
    case (Inr e)
    with n show ?thesis by (simp add: example_engine_def)
  qed
qed

lemma example_no_self_conflict: "no_self_conflict example_engine"
  by code_simp

text \<open>One unit off the ready heap, for evaluation.\<close>

definition schedule_one :: "(nat \<Rightarrow> 64 word) \<Rightarrow> 'v schema_check \<Rightarrow> ('w, 'v) sched \<Rightarrow> ('w, 'v) sched option" where
  "schedule_one clock check s =
     (let u = snd (hd (sc_ready s)); s1 = s\<lparr>sc_ready := tl (sc_ready s)\<rparr> in
      case en_stop (sc_engine s) of
        Some reason \<Rightarrow> Some (settle_unit clock u reason s1)
      | None \<Rightarrow>
          (let (members, s2) = prepare_members clock check u s1 in
           if members = None then Some s2
           else map_option (\<lambda>(admitted, e).
             if admitted then s2\<lparr>sc_engine := e, sc_running := sc_running s2 @ [(u, the members)]\<rparr>
             else s2\<lparr>sc_engine := e, sc_blocked := sc_blocked s2 @ [u]\<rparr>) (try_admit u (sc_engine s2))))"

lemma schedule_one: "schedule clock check s = (if sc_ready s = [] then Some s else Option.bind (schedule_one clock check s) (schedule clock check))"
  by (subst schedule.simps)
    (auto simp: schedule_one_def Let_def map_option_case Option.bind_map_option split: list.split option.split prod.split)

fun schedule_times :: "nat \<Rightarrow> (nat \<Rightarrow> 64 word) \<Rightarrow> 'v schema_check \<Rightarrow> ('w, 'v) sched \<Rightarrow> ('w, 'v) sched option" where
  "schedule_times 0 clock check s = (if sc_ready s = [] then Some s else None)"
| "schedule_times (Suc n) clock check s =
     (if sc_ready s = [] then Some s else Option.bind (schedule_one clock check s) (schedule_times n clock check))"

lemma schedule_times: "schedule_times n clock check s = Some s' \<Longrightarrow> schedule clock check s = Some s'"
proof (induction n arbitrary: s)
  case (Suc n)
  then show ?case using schedule_one [of clock check s] by (auto split: if_splits simp: Option.bind_eq_Some_conv)
next
  case 0
  then show ?case using schedule_one [of clock check s] by (simp split: if_splits)
qed

text \<open>A run in which the unit that was admitted first always ends first, with a null output.\<close>

definition null_outcome :: "prepared_member list \<Rightarrow> dispatch_outcome" where
  "null_outcome ms = outcome_new\<lparr>do_results := map (\<lambda>m. (pm_node m, Inr JNull)) ms\<rparr>"

definition drive_one :: "(nat \<Rightarrow> 64 word) \<Rightarrow> 'v schema_check \<Rightarrow> ('w, 'v) sched \<Rightarrow> ('w, 'v) sched option" where
  "drive_one clock check s =
     Option.bind (schedule_times (length (en_units (sc_engine s))) clock check s) (\<lambda>s'.
       if sc_running s' = [] then None
       else Some (join_task (fst (hd (sc_running s'))) (null_outcome (snd (hd (sc_running s')))) s'))"

fun drive :: "nat \<Rightarrow> (nat \<Rightarrow> 64 word) \<Rightarrow> 'v schema_check \<Rightarrow> ('w, 'v) sched \<Rightarrow> ('w, 'v) sched option" where
  "drive 0 clock check s = Some s"
| "drive (Suc n) clock check s = Option.bind (drive_one clock check s) (drive n clock check)"

lemma drive_one_step:
  assumes "drive_one clock check s = Some t"
  shows "sched_step clock check (Looping s) (Looping t)"
proof -
  from assms obtain s' where s': "schedule_times (length (en_units (sc_engine s))) clock check s = Some s'"
    "sc_running s' \<noteq> []" "t = join_task (fst (hd (sc_running s'))) (null_outcome (snd (hd (sc_running s')))) s'"
    by (auto simp: drive_one_def Option.bind_eq_Some_conv split: if_splits)
  have w: "loop_turn clock check s = Some (Wait s')"
    using schedule_times [OF s'(1)] s'(2) by (simp add: loop_turn_def)
  have "reports (sc_engine s') (hd (sc_running s')) (null_outcome (snd (hd (sc_running s'))))"
    by (simp add: reports_def null_outcome_def o_def)
  from step_join [OF w hd_in_set [OF s'(2)] this] show ?thesis unfolding s'(3) .
qed

lemma drive_reaches:
  "drive n clock check s = Some t \<Longrightarrow> (sched_step clock check)\<^sup>*\<^sup>* (Looping s) (Looping t)"
proof (induction n arbitrary: s)
  case (Suc n)
  then obtain s' where s': "drive_one clock check s = Some s'" "drive n clock check s' = Some t"
    by (auto simp: Option.bind_eq_Some_conv)
  from Suc.IH [OF s'(2)] drive_one_step [OF s'(1)] show ?case by (rule converse_rtranclp_into_rtranclp [rotated])
qed simp

text \<open>The readers start together, the writer when both have ended, the last reader after the writer.\<close>

definition in_flight_after :: "nat \<Rightarrow> (nat \<times> node_id list) list option" where
  "in_flight_after n = map_option (\<lambda>s. map (\<lambda>(u, ms). (u, map pm_node ms)) (sc_running s))
     (Option.bind (drive n example_clock example_check (sched_start example_engine))
       (schedule_times 4 example_clock example_check))"

lemma example_in_flight:
  "in_flight_after 0 = Some [(0, [''a'']), (1, [''b''])]"
  "in_flight_after 3 = Some [(3, [''d''])]"
  by code_simp+

lemma in_flight_reached:
  assumes "in_flight_after n = Some us" "us \<noteq> []"
  shows "\<exists>s s'. (sched_step example_clock example_check)\<^sup>*\<^sup>* (Looping (sched_start example_engine)) (Looping s) \<and>
    loop_turn example_clock example_check s = Some (Wait s') \<and> map (\<lambda>(u, ms). (u, map pm_node ms)) (sc_running s') = us"
proof -
  from assms(1) obtain s s' where s: "drive n example_clock example_check (sched_start example_engine) = Some s"
    "schedule_times 4 example_clock example_check s = Some s'" "map (\<lambda>(u, ms). (u, map pm_node ms)) (sc_running s') = us"
    unfolding in_flight_after_def map_option_eq_Some Option.bind_eq_Some_conv by blast
  have "loop_turn example_clock example_check s = Some (Wait s')"
    using schedule_times [OF s(2)] s(3) assms(2) by (auto simp: loop_turn_def)
  with drive_reaches [OF s(1)] s(3) show ?thesis by blast
qed

lemma example_members: "map un_members (en_units example_engine) = [[''a''], [''b''], [''c''], [''d'']]"
  by code_simp

lemma example_member: "k < 4 \<Longrightarrow> un_members (en_units example_engine ! k) = [[''a''], [''b''], [''c''], [''d'']] ! k"
  using arg_cong [OF example_members, of "\<lambda>xs. xs ! k"] arg_cong [OF example_members, of length] by simp

theorem units_in_flight_do_not_conflict_witness:
  "\<exists>fa fb. map_of (g_resolved_effects (en_graph example_engine)) ''a'' = Some fa \<and>
    map_of (g_resolved_effects (en_graph example_engine)) ''b'' = Some fb \<and> can_run_with fa fb"
proof -
  from in_flight_reached [OF example_in_flight(1) list.distinct(2)] obtain s s' where
    s: "(sched_step example_clock example_check)\<^sup>*\<^sup>* (Looping (sched_start example_engine)) (Looping s)"
      "loop_turn example_clock example_check s = Some (Wait s')"
      "map (\<lambda>(u, ms). (u, map pm_node ms)) (sc_running s') = [(0, [''a'']), (1, [''b''])]" by (elim exE conjE)
  from s(3) obtain ms ns where r: "sc_running s' = [(0, ms), (1, ns)]" by (auto simp: map_eq_Cons_conv)
  have m: "(0, ms) \<in> set (sc_running s')" "(1, ns) \<in> set (sc_running s')" "(0 :: nat) \<noteq> 1"
    "''a'' \<in> set (un_members (en_units example_engine ! 0))" "''b'' \<in> set (un_members (en_units example_engine ! 1))"
    using r by (simp_all add: example_member)
  from units_in_flight_do_not_conflict [OF conjunct1 [OF example_engine_ok] conjunct2 [OF example_engine_ok]
      example_no_self_conflict s(1,2) m]
  show ?thesis by blast
qed

theorem units_start_after_dependencies_witness:
  "\<exists>s' :: (unit, unit) sched. 3 \<in> fst ` set (sc_running s') \<and> is_settled (sc_engine s') ''c''"
proof -
  from in_flight_reached [OF example_in_flight(2) list.distinct(2)] obtain s s' where
    s: "(sched_step example_clock example_check)\<^sup>*\<^sup>* (Looping (sched_start example_engine)) (Looping s)"
      "loop_turn example_clock example_check s = Some (Wait s')"
      "map (\<lambda>(u, ms). (u, map pm_node ms)) (sc_running s') = [(3, [''d''])]" by (elim exE conjE)
  from s(3) obtain ms where r: "sc_running s' = [(3, ms)]" by (auto simp: map_eq_Cons_conv)
  have "''c'' \<in> deps_of (g_dependencies (en_graph example_engine)) ''d''" by code_simp
  with units_start_after_dependencies [OF conjunct1 [OF example_engine_ok] conjunct2 [OF example_engine_ok]
      example_no_self_conflict s(1,2), of 3 ms "''d''" "''c''"] r
  show ?thesis by (intro exI [of _ s']) (simp add: example_member)
qed

theorem ended_run_settles_everything_witness:
  "\<exists>s :: (unit, unit) sched. sc_running s = [] \<and> is_settled (sc_engine s) ''d''"
proof -
  note ok = conjunct1 [OF example_engine_ok] conjunct2 [OF example_engine_ok] example_no_self_conflict
  have "run_inv example_engine (Looping (sched_start example_engine))" using start_inv [OF ok(1,2)] by (auto simp: run_inv_def)
  from run_can_end [OF ok(1,3) this, of example_clock example_check] obtain s where
    s: "(sched_step example_clock example_check)\<^sup>*\<^sup>* (Looping (sched_start example_engine)) (Ended s)" by blast
  have "''d'' \<in> set (node_ids (en_plan example_engine))" by code_simp
  with ended_run_settles_everything [OF ok s] show ?thesis by (intro exI [of _ s]) simp
qed

theorem runs_end_witness:
  "\<exists>t. (sched_step example_clock example_check ^^ 1) (Looping (sched_start example_engine)) t \<and> t \<noteq> Crashed"
proof -
  note ok = conjunct1 [OF example_engine_ok] conjunct2 [OF example_engine_ok] example_no_self_conflict
  have "run_inv example_engine (Looping (sched_start example_engine))" using start_inv [OF ok(1,2)] by (auto simp: run_inv_def)
  from run_progress [OF ok(1,3) this, of example_clock example_check] obtain t where
    t: "sched_step example_clock example_check (Looping (sched_start example_engine)) t" by blast
  then have "(sched_step example_clock example_check ^^ 1) (Looping (sched_start example_engine)) t" by (simp only: relpowp_1)
  with runs_end [OF ok this] show ?thesis by blast
qed

end
