(* ===== verification/Ledger.thy ===== *)
theory Ledger
  imports SchedProps
begin

text \<open>
  The ledger of a run: the outputs, the dead nodes, the errors and the skip reasons. Every
  operation of the scheduler changes it only by skipping a node, failing a node or recording an
  output; a law of the ledger that these three keep holds in every reachable state. The maps are
  sorted and a node is dead exactly when it has an error or a skip reason.
\<close>

type_synonym ledger = "(node_id, json) btree \<times> node_id bset \<times> (node_id, tool_execution_error) btree \<times> (node_id, skip_reason) btree"

definition ledger :: "('w, 'v) engine \<Rightarrow> ledger" where
  "ledger e = (en_outputs e, en_dead e, en_errors e, en_skipped e)"

definition ledger_skip :: "node_id \<Rightarrow> skip_reason \<Rightarrow> ledger \<Rightarrow> ledger" where
  "ledger_skip m r = (\<lambda>(outs, dead, errs, skips). (outs, bs_insert m dead, errs, bt_insert m r skips))"

definition ledger_fail :: "node_id \<Rightarrow> tool_execution_error \<Rightarrow> ledger \<Rightarrow> ledger" where
  "ledger_fail m err = (\<lambda>(outs, dead, errs, skips). (outs, bs_insert m dead, bt_insert m err errs, skips))"

definition ledger_output :: "node_id \<Rightarrow> json \<Rightarrow> ledger \<Rightarrow> ledger" where
  "ledger_output m v = (\<lambda>(outs, dead, errs, skips). (bt_insert m v outs, dead, errs, skips))"

lemma ledger_steps:
  "ledger (push_trace ev e) = ledger e" "ledger (record_failure m err e) = ledger_fail m err (ledger e)"
  "ledger (complete_error clock m err e) = ledger_fail m err (ledger e)"
  "ledger (complete_skip clock m r e) = ledger_skip m r (ledger e)"
  "ledger (release_unit u e) = ledger e" "ledger (e\<lparr>en_stop := x\<rparr>) = ledger e" "ledger (e\<lparr>en_metrics := mm\<rparr>) = ledger e"
  by (simp_all add: ledger_def ledger_fail_def ledger_skip_def push_trace_def record_failure_def complete_error_def
      complete_skip_def release_unit_def Let_def)

lemma ledger_admit: "try_admit u e = Some (b, e') \<Longrightarrow> ledger e' = ledger e"
  by (auto simp: try_admit_def Let_def ledger_def split: if_splits acquire_outcome.splits)

text \<open>Scheduling that returns took finitely many units off the heap.\<close>

lemma schedule_is_finite: "schedule clock check s = Some s' \<Longrightarrow> \<exists>n. schedule_times n clock check s = Some s'"
proof (induction clock check s s' rule: schedule.raw_induct [rotated, consumes 1])
  case (1 f clock check s s')
  have "sc_ready s = [] \<and> s' = s \<or> sc_ready s \<noteq> [] \<and> Option.bind (schedule_one clock check s) (f clock check) = Some s'"
    using 1(2) by (auto simp: schedule_one_def Let_def map_option_case Option.bind_map_option
      split: list.splits option.splits prod.splits)
  then show ?case
  proof
    assume "sc_ready s \<noteq> [] \<and> Option.bind (schedule_one clock check s) (f clock check) = Some s'"
    then obtain s1 where s1: "sc_ready s \<noteq> []" "schedule_one clock check s = Some s1" "f clock check s1 = Some s'"
      by (auto simp: Option.bind_eq_Some_conv)
    from 1(1) [OF s1(3)] obtain n where "schedule_times n clock check s1 = Some s'" by blast
    with s1 show ?thesis by (intro exI [of _ "Suc n"]) simp
  qed (intro exI [of _ 0], simp)
qed

text \<open>A law of the ledger in a state of the run.\<close>

definition turn_state :: "('w, 'v) turn \<Rightarrow> ('w, 'v) sched" where
  "turn_state t = (case t of Break s \<Rightarrow> s | Again s \<Rightarrow> s | Wait s \<Rightarrow> s)"

definition holds_in :: "(ledger \<Rightarrow> bool) \<Rightarrow> ('w, 'v) run_state \<Rightarrow> bool" where
  "holds_in P t = (case t of Looping s \<Rightarrow> P (ledger (sc_engine s)) | Ended s \<Rightarrow> P (ledger (sc_engine s)) | Crashed \<Rightarrow> True)"

locale ledger_law =
  fixes P :: "ledger \<Rightarrow> bool"
  assumes skip_keeps: "P l \<Longrightarrow> P (ledger_skip m r l)"
    and fail_keeps: "P l \<Longrightarrow> P (ledger_fail m err l)"
    and output_keeps: "P l \<Longrightarrow> P (ledger_output m v l)"
begin

lemma prepare_keeps:
  "P (ledger e) \<Longrightarrow> prepare_loop clock check ms ps e = (ps', e') \<Longrightarrow> P (ledger e')"
proof (induction ms arbitrary: ps e)
  case (Cons m ms)
  have "P (ledger (complete_skip clock m r e))" "P (ledger (complete_error clock m err e))" for r err
    using Cons.prems(1) by (simp_all add: ledger_steps skip_keeps fail_keeps)
  with Cons show ?case by (cases "member_gate check e m") fastforce+
qed simp

lemma settle_keeps: "P (ledger e) \<Longrightarrow> P (ledger (settle_members clock r ms e))"
  by (induction ms arbitrary: e) (simp_all add: ledger_steps skip_keeps)

lemma unblock_unit_engine: "sc_engine (unblock_unit u s) = sc_engine s"
  by (simp add: unblock_unit_def split: prod.split)

lemma settle_unit_keeps: "P (ledger (sc_engine s)) \<Longrightarrow> P (ledger (sc_engine (settle_unit clock u r s)))"
  by (simp add: settle_unit_def unblock_unit_engine settle_keeps)

lemma prepare_members_keeps:
  assumes "P (ledger (sc_engine s))" "prepare_members clock check u s = (ms, s')"
  shows "P (ledger (sc_engine s'))"
proof -
  obtain ps e where p: "prepare_loop clock check (un_members (en_units (sc_engine s) ! u)) [] (sc_engine s) = (ps, e)"
    by (rule prod.exhaust)
  from prepare_keeps [OF assms(1) p] assms(2) p show ?thesis
    by (cases ps) (auto simp: prepare_members_def unblock_unit_engine)
qed

lemma schedule_one_keeps:
  assumes "P (ledger (sc_engine s))" "schedule_one clock check s = Some s'"
  shows "P (ledger (sc_engine s'))"
proof (cases "en_stop (sc_engine s)")
  case (Some r)
  with assms settle_unit_keeps [of "s\<lparr>sc_ready := tl (sc_ready s)\<rparr>" clock "snd (hd (sc_ready s))" r] show ?thesis
    by (simp add: schedule_one_def Let_def)
next
  case None
  obtain ms s2 where p: "prepare_members clock check (snd (hd (sc_ready s))) (s\<lparr>sc_ready := tl (sc_ready s)\<rparr>) = (ms, s2)"
    by (rule prod.exhaust)
  have s2: "P (ledger (sc_engine s2))" by (rule prepare_members_keeps [OF _ p]) (simp add: assms(1))
  with assms(2) None p show ?thesis
    by (auto simp: schedule_one_def Let_def ledger_admit split: if_splits)
qed

lemma schedule_keeps:
  assumes "schedule clock check s = Some s'" "P (ledger (sc_engine s))"
  shows "P (ledger (sc_engine s'))"
proof -
  from schedule_is_finite [OF assms(1)] obtain n where "schedule_times n clock check s = Some s'" by blast
  then show ?thesis using assms(2)
  proof (induction n arbitrary: s)
    case (Suc n)
    then show ?case by (auto simp: Option.bind_eq_Some_conv schedule_one_keeps split: if_splits)
  qed (simp split: if_splits)
qed

lemma settle_all_keeps:
  "P (ledger (sc_engine s)) \<Longrightarrow> P (ledger (sc_engine (foldl (\<lambda>s u. settle_unit clock u r s) s us)))"
  by (induction us arbitrary: s) (simp_all add: settle_unit_keeps)

lemma loop_turn_keeps:
  assumes "loop_turn clock check s = Some t" "P (ledger (sc_engine s))"
  shows "P (ledger (sc_engine (turn_state t)))"
proof -
  from assms(1) obtain s1 where s1: "schedule clock check s = Some s1" by (auto simp: loop_turn_def Option.bind_eq_Some_conv)
  note p1 = schedule_keeps [OF s1 assms(2)]
  have p2: "P (ledger (sc_engine s2))" if "schedule clock check (requeue s1) = Some s2" for s2
    by (rule schedule_keeps [OF that]) (simp add: requeue_def p1)
  have p3: "P (ledger (sc_engine (settle_leftovers clock s2)))" if "P (ledger (sc_engine s2))" for s2 :: "('a, 'c) sched"
    unfolding settle_leftovers_def by (rule settle_all_keeps) (simp add: that)
  show ?thesis using assms(1) s1 p1 p2 p3
    by (auto simp: loop_turn_def Option.bind_eq_Some_conv turn_state_def Let_def split: if_splits)
qed

lemma absorb_keeps:
  assumes "P (ledger e)"
  shows "P (ledger (fst (absorb_outcome out e)))"
proof -
  have one: "P (ledger (fst (absorb_result r ew)))" if "P (ledger (fst ew))" for r and ew :: "('a, 'b) engine \<times> resource bset"
  proof -
    obtain node res where r: "r = (node, res)" by (cases r)
    obtain e0 w where ew: "ew = (e0, w)" by (cases ew)
    show ?thesis
    proof (cases res)
      case (Inl err)
      with that r ew show ?thesis by (simp add: absorb_result_def ledger_steps fail_keeps)
    next
      case (Inr v)
      have "ledger (fst (absorb_result r ew)) = ledger_output node v (ledger e0)"
        using Inr r ew by (simp add: absorb_result_def ledger_def ledger_output_def Let_def)
      with that ew show ?thesis by (simp add: output_keeps)
    qed
  qed
  have all: "P (ledger (fst (foldl (\<lambda>ew nr. absorb_result nr ew) ew rs)))" if "P (ledger (fst ew))" for ew :: "('a, 'b) engine \<times> resource bset" and rs
    using that by (induction rs arbitrary: ew) (simp_all add: one)
  have "ledger (foldl (\<lambda>e ev. push_trace ev e) e evs) = ledger e" for e :: "('a, 'b) engine" and evs
    by (induction evs arbitrary: e) (simp_all add: ledger_steps)
  with assms show ?thesis by (simp add: absorb_outcome_def Let_def all ledger_steps)
qed

lemma step_keeps:
  assumes "sched_step clock check t t'" "holds_in P t"
  shows "holds_in P t'"
  using assms(1)
proof (cases rule: sched_step.cases)
  case (step_join s s' r out)
  with loop_turn_keeps [OF step_join(3)] assms(2) have "P (ledger (sc_engine s'))" by (simp add: holds_in_def turn_state_def)
  from absorb_keeps [of "release_unit (fst r) (sc_engine s')" out] this step_join show ?thesis
    by (simp add: holds_in_def join_task_def Let_def requeue_def unblock_unit_engine ledger_steps)
next
  case (step_cancel s s')
  with loop_turn_keeps [OF step_cancel(3)] assms(2) show ?thesis
    by (simp add: holds_in_def turn_state_def cancel_run_def ledger_steps)
qed (use loop_turn_keeps assms(2) in \<open>force simp: holds_in_def turn_state_def\<close>)+

lemma run_keeps:
  assumes "(sched_step clock check)\<^sup>*\<^sup>* t t'" "holds_in P t"
  shows "holds_in P t'"
  using assms by induction (simp_all add: step_keeps)

end

section \<open>Well-formed ledgers\<close>

definition ledger_wf :: "ledger \<Rightarrow> bool" where
  "ledger_wf l \<longleftrightarrow> (case l of (outs, dead, errs, skips) \<Rightarrow>
     bt_ok outs \<and> bs_ok dead \<and> bt_ok errs \<and> bt_ok skips \<and> set dead = fst ` set errs \<union> fst ` set skips)"

interpretation wf_ledger: ledger_law ledger_wf
  by unfold_locales (simp_all add: ledger_wf_def ledger_skip_def ledger_fail_def ledger_output_def split: prod.splits)

lemma fresh_ledger_wf: "engine_fresh E \<Longrightarrow> ledger_wf (ledger E)"
  by (simp add: engine_fresh_def ledger_def ledger_wf_def bt_ok_def bs_ok_def)

lemma run_ledger_wf:
  assumes "engine_fresh E" "(sched_step clock check)\<^sup>*\<^sup>* (Looping (sched_start E)) t"
  shows "holds_in ledger_wf t"
  by (rule wf_ledger.run_keeps [OF assms(2)]) (simp add: holds_in_def sched_start_def Let_def fresh_ledger_wf assms(1))

text \<open>
  C10. In every state of every run the outputs, errors and skip reasons are sorted maps without
  repeated keys, the dead nodes are a sorted set, and a node is dead exactly when it has an error
  or a skip reason.
\<close>

theorem ledger_stays_well_formed:
  assumes "engine_fresh E" "(sched_step clock check)\<^sup>*\<^sup>* (Looping (sched_start E)) t"
  shows "holds_in ledger_wf t"
  by (rule run_ledger_wf [OF assms])

theorem ledger_stays_well_formed_witness:
  "\<exists>s :: (unit, unit) sched. is_settled (sc_engine s) ''c'' \<and> bt_ok (en_outputs (sc_engine s))"
proof -
  have "map_option (\<lambda>s. is_settled (sc_engine s) ''c'') (drive 3 example_clock example_check (sched_start example_engine)) = Some True"
    by code_simp
  then obtain s where s: "drive 3 example_clock example_check (sched_start example_engine) = Some s" "is_settled (sc_engine s) ''c''"
    by auto
  from ledger_stays_well_formed [OF conjunct2 [OF example_engine_ok] drive_reaches [OF s(1)]]
  have "bt_ok (en_outputs (sc_engine s))" by (simp add: holds_in_def ledger_def ledger_wf_def)
  with s(2) show ?thesis by blast
qed

end
