(* ===== verification/Finish.thy ===== *)
theory Finish
  imports Ledger
begin

text \<open>
  The end of a run, \<^verbatim>\<open>crates/tool-compiler-runtime/src/finish.rs\<close>: nodes that reached no queue
  are skipped, the declared outputs are resolved and shaped, and the status is decided.
\<close>

section \<open>Finishing\<close>

definition unsettled_nodes :: "('w, 'v) engine \<Rightarrow> node_id list" where
  "unsettled_nodes e = filter (\<lambda>n. \<not> is_settled e n) (map fst (en_node_index e))"

definition skip_unsettled :: "(nat \<Rightarrow> 64 word) \<Rightarrow> ('w, 'v) engine \<Rightarrow> ('w, 'v) engine" where
  "skip_unsettled clock e =
     foldl (\<lambda>e n. complete_skip clock n
         (if poisoned e n then SkipFailedDependency
          else case en_stop e of None \<Rightarrow> SkipNotRun | Some reason \<Rightarrow> reason) e)
       e (unsettled_nodes e)"

definition output_key :: "string \<Rightarrow> string" where
  "output_key name = ''outputs.'' @ name"

definition resolve_output :: "string \<times> value_ref \<Rightarrow> (string, json) btree \<times> ('w, 'v) engine
    \<Rightarrow> (string, json) btree \<times> ('w, 'v) engine" where
  "resolve_output nr oe = (case (nr, oe) of ((name, ref), (outs, e)) \<Rightarrow>
     (case resolve_value_ref ref (en_outputs e) of
        Inr v \<Rightarrow> (bt_insert name v outs, e)
      | Inl err \<Rightarrow>
          (outs, if ref_node ref \<in> set (en_dead e) then e
                 else e\<lparr>en_errors := bt_insert (output_key name)
                   (with_code ''unresolved_output'' (resolution_error err)) (en_errors e)\<rparr>)))"

definition resolve_outputs :: "('w, 'v) engine \<Rightarrow> (string, json) btree \<times> ('w, 'v) engine" where
  "resolve_outputs e = foldl (\<lambda>oe nr. resolve_output nr oe) ([], e) (plan_outputs (en_plan e))"

definition shape_all :: "run_config \<Rightarrow> (string \<times> json) list \<Rightarrow> (string \<times> json) list" where
  "shape_all config kvs =
     map (\<lambda>(k, v). (k, shape_output k v (rc_redactor config) (rc_max_output_bytes config))) kvs"

definition wall_ms :: "nat \<Rightarrow> 64 word" where
  "wall_ms elapsed = (if elapsed < 2 ^ 64 then of_nat elapsed else - 1)"

definition run_status_of :: "('w, 'v) engine \<Rightarrow> run_status" where
  "run_status_of e =
     (if en_stop e = Some SkipCancelled then RunCancelled
      else if en_errors e = [] then RunSuccess else RunFailed)"

definition finish :: "(nat \<Rightarrow> 64 word) \<Rightarrow> nat \<Rightarrow> ('w, 'v) engine \<Rightarrow> run_result" where
  "finish clock elapsed e0 =
     (let (outs, e) = resolve_outputs (skip_unsettled clock e0);
          full = (rc_result_mode (en_config e) = ResultFull)
      in \<lparr>rr_status = run_status_of e, rr_outputs = shape_all (en_config e) outs,
          rr_node_outputs = (if full then shape_all (en_config e) (en_outputs e) else []),
          rr_errors = en_errors e, rr_skipped = en_skipped e,
          rr_trace = (if full then en_trace e else []),
          rr_optimization = en_optimization e,
          rr_metrics = (en_metrics e)\<lparr>rm_wall_ms := wall_ms elapsed\<rparr>\<rparr>)"

section \<open>After an ended run\<close>

lemma safety_net_idle:
  assumes "\<forall>n \<in> fst ` set (en_node_index e). is_settled e n"
  shows "skip_unsettled clock e = e"
proof -
  have "unsettled_nodes e = []" using assms by (auto simp: unsettled_nodes_def filter_empty_conv)
  then show ?thesis by (simp add: skip_unsettled_def)
qed

lemma resolve_output_kept:
  "\<exists>errs. snd (resolve_output nr oe) = (snd oe)\<lparr>en_errors := errs\<rparr> \<and> fst ` set (en_errors (snd oe)) \<subseteq> fst ` set errs"
proof -
  obtain name ref where nr: "nr = (name, ref)" by (cases nr)
  obtain outs e where oe: "oe = (outs, e)" by (cases oe)
  have same: ?thesis if "snd (resolve_output nr oe) = e"
    unfolding that by (rule exI [of _ "en_errors e"]) (simp add: oe)
  show ?thesis
  proof (cases "resolve_value_ref ref (en_outputs e)")
    case (Inr v)
    then show ?thesis by (intro same) (simp add: nr oe resolve_output_def)
  next
    case (Inl err)
    show ?thesis
    proof (cases "ref_node ref \<in> set (en_dead e)")
      case True
      with Inl show ?thesis by (intro same) (simp add: nr oe resolve_output_def)
    next
      case False
      let ?errs = "bt_insert (output_key name) (with_code ''unresolved_output'' (resolution_error err)) (en_errors e)"
      have "snd (resolve_output nr oe) = e\<lparr>en_errors := ?errs\<rparr>" using Inl False by (simp add: nr oe resolve_output_def)
      then show ?thesis unfolding oe snd_conv by (intro exI [of _ ?errs] conjI) (simp_all add: subset_insertI)
    qed
  qed
qed

definition resolved_in :: "string \<times> value_ref \<Rightarrow> (string, json) btree \<times> ('w, 'v) engine \<Rightarrow> bool" where
  "resolved_in nr oe \<longleftrightarrow> (case resolve_value_ref (snd nr) (en_outputs (snd oe)) of
       Inr v \<Rightarrow> map_of (fst oe) (fst nr) = Some v
     | Inl err \<Rightarrow> fst nr \<notin> fst ` set (fst oe) \<and>
         (ref_node (snd nr) \<in> set (en_dead (snd oe)) \<or> output_key (fst nr) \<in> fst ` set (en_errors (snd oe))))"

lemma resolved_in_kept:
  assumes "resolved_in nr oe" "en_outputs (snd oe') = en_outputs (snd oe)" "en_dead (snd oe') = en_dead (snd oe)"
    and "fst ` set (en_errors (snd oe)) \<subseteq> fst ` set (en_errors (snd oe'))" "map_of (fst oe') (fst nr) = map_of (fst oe) (fst nr)"
  shows "resolved_in nr oe'"
proof -
  have "fst nr \<notin> fst ` set (fst oe') \<longleftrightarrow> fst nr \<notin> fst ` set (fst oe)"
    using assms(5) unfolding map_of_eq_None_iff [symmetric] by (rule arg_cong)
  with assms show ?thesis unfolding resolved_in_def by (auto split: sum.splits)
qed

lemma resolve_outputs_fold:
  assumes "distinct (map fst nrs)" "\<forall>nr \<in> set nrs. fst nr \<notin> fst ` set (fst oe)"
  shows "\<exists>errs. snd (foldl (\<lambda>oe nr. resolve_output nr oe) oe nrs) = (snd oe)\<lparr>en_errors := errs\<rparr> \<and>
      fst ` set (en_errors (snd oe)) \<subseteq> fst ` set errs \<and>
      (\<forall>name. name \<notin> fst ` set nrs \<longrightarrow>
         map_of (fst (foldl (\<lambda>oe nr. resolve_output nr oe) oe nrs)) name = map_of (fst oe) name) \<and>
      (\<forall>nr \<in> set nrs. resolved_in nr (foldl (\<lambda>oe nr. resolve_output nr oe) oe nrs))"
  using assms
proof (induction nrs arbitrary: oe)
  case (Cons nr nrs)
  obtain name ref where nr: "nr = (name, ref)" by (cases nr)
  let ?oe = "resolve_output nr oe"
  let ?last = "foldl (\<lambda>oe nr. resolve_output nr oe) ?oe nrs"
  have keys: "fst ` set (fst ?oe) \<subseteq> insert name (fst ` set (fst oe))"
    "\<And>x. x \<noteq> name \<Longrightarrow> map_of (fst ?oe) x = map_of (fst oe) x"
    by (auto simp: nr resolve_output_def split: sum.split prod.split)
  have "\<forall>x \<in> set nrs. fst x \<notin> fst ` set (fst ?oe)"
  proof
    fix x assume x: "x \<in> set nrs"
    with Cons.prems nr have "fst x \<noteq> name" "fst x \<notin> fst ` set (fst oe)" by (auto intro: img_fst)
    with keys(1) show "fst x \<notin> fst ` set (fst ?oe)" by blast
  qed
  moreover have "distinct (map fst nrs)" using Cons.prems(1) by simp
  ultimately obtain errs where i: "snd ?last = (snd ?oe)\<lparr>en_errors := errs\<rparr>" "fst ` set (en_errors (snd ?oe)) \<subseteq> fst ` set errs"
    "\<forall>x. x \<notin> fst ` set nrs \<longrightarrow> map_of (fst ?last) x = map_of (fst ?oe) x" "\<forall>nr \<in> set nrs. resolved_in nr ?last"
    using Cons.IH [of ?oe] by blast
  have fresh: "name \<notin> fst ` set nrs" "name \<notin> fst ` set (fst oe)" using Cons.prems nr by auto
  from resolve_output_kept [of nr oe] obtain errs1 where
    k: "snd ?oe = (snd oe)\<lparr>en_errors := errs1\<rparr>" "fst ` set (en_errors (snd oe)) \<subseteq> fst ` set errs1" by blast
  have e: "snd ?last = (snd oe)\<lparr>en_errors := errs\<rparr>" using i(1) k(1) by simp
  have same: "en_outputs (snd ?last) = en_outputs (snd oe)" "en_dead (snd ?last) = en_dead (snd oe)"
    "en_outputs (snd ?oe) = en_outputs (snd oe)" "en_dead (snd ?oe) = en_dead (snd oe)"
    using e k(1) by simp_all
  have grow: "fst ` set (en_errors (snd ?oe)) \<subseteq> fst ` set (en_errors (snd ?last))" using e i(2) by simp
  have here: "resolved_in nr ?oe"
    using fresh(2) nr by (cases oe) (auto simp: resolved_in_def resolve_output_def split: sum.split)
  have kept: "map_of (fst ?last) (fst nr) = map_of (fst ?oe) (fst nr)" using i(3) fresh(1) nr by simp
  have "resolved_in nr ?last"
    by (rule resolved_in_kept [OF here _ _ grow kept]) (simp_all only: same)
  then have all: "\<forall>nr \<in> set (nr # nrs). resolved_in nr ?last" using i(4) by simp
  have "\<forall>x. x \<notin> fst ` set (nr # nrs) \<longrightarrow> map_of (fst ?last) x = map_of (fst oe) x"
    using i(3) keys(2) nr by simp
  moreover have "fst ` set (en_errors (snd oe)) \<subseteq> fst ` set errs" using i(2) k by simp
  ultimately show ?case unfolding foldl_Cons using e all by (intro exI [of _ errs] conjI)
next
  case Nil
  show ?case by (rule exI [of _ "en_errors (snd oe)"]) simp
qed

lemma ended_run_finished:
  assumes "engine_ok E" "engine_fresh E" "no_self_conflict E" "distinct (map fst (plan_outputs (en_plan E)))"
    and "(sched_step clock check)\<^sup>*\<^sup>* (Looping (sched_start E)) (Ended s)"
  shows "\<exists>outs errs. resolve_outputs (skip_unsettled clock (sc_engine s)) = (outs, (sc_engine s)\<lparr>en_errors := errs\<rparr>) \<and>
    fst ` set (en_errors (sc_engine s)) \<subseteq> fst ` set errs \<and>
    (\<forall>nr \<in> set (plan_outputs (en_plan E)). resolved_in nr (outs, (sc_engine s)\<lparr>en_errors := errs\<rparr>)) \<and>
    set (en_dead (sc_engine s)) = fst ` set (en_errors (sc_engine s)) \<union> fst ` set (en_skipped (sc_engine s)) \<and>
    (\<forall>m \<in> set (node_ids (en_plan E)). is_settled (sc_engine s) m) \<and> en_config (sc_engine s) = en_config E"
proof -
  note fin = ended_settled [OF assms(1-3,5)]
  from run_reaches [OF assms(1-3,5)] obtain F where "sched_inv E F [] s" by (auto simp: run_inv_def)
  then have st: "statics (sc_engine s) = statics E" by (simp add: sched_inv_def queue_inv_def)
  have idx: "en_node_index (sc_engine s) = node_positions (en_plan E)"
    using same_statics(4) [OF st] assms(1) by (simp add: engine_ok_def)
  have idle: "skip_unsettled clock (sc_engine s) = sc_engine s"
    by (rule safety_net_idle) (use fin in \<open>simp add: idx node_positions_keys\<close>)
  have dead: "set (en_dead (sc_engine s)) = fst ` set (en_errors (sc_engine s)) \<union> fst ` set (en_skipped (sc_engine s))"
    using run_ledger_wf [OF assms(2,5)] by (simp add: holds_in_def ledger_def ledger_wf_def)
  let ?res = "foldl (\<lambda>oe nr. resolve_output nr oe) ([], sc_engine s) (plan_outputs (en_plan E))"
  from resolve_outputs_fold [OF assms(4), of "([], sc_engine s)"] obtain errs where
    r: "snd ?res = (sc_engine s)\<lparr>en_errors := errs\<rparr>" "fst ` set (en_errors (sc_engine s)) \<subseteq> fst ` set errs"
      "\<forall>nr \<in> set (plan_outputs (en_plan E)). resolved_in nr ?res" by auto
  have res: "resolve_outputs (skip_unsettled clock (sc_engine s)) = ?res"
    using fin by (simp add: idle resolve_outputs_def)
  have "?res = (fst ?res, (sc_engine s)\<lparr>en_errors := errs\<rparr>)" using r(1) by (metis prod.collapse)
  with r(2,3) dead fin same_statics(2) [OF st] show ?thesis unfolding res by metis
qed

lemma shape_all_lookup:
  "map_of (shape_all c kvs) k = map_option (\<lambda>v. shape_output k v (rc_redactor c) (rc_max_output_bytes c)) (map_of kvs k)"
  by (induction kvs) (auto simp: shape_all_def)

lemma shape_all_keys: "fst ` set (shape_all c kvs) = fst ` set kvs"
  by (force simp: shape_all_def)

text \<open>What the result says of one declared output.\<close>

definition output_reported :: "run_config \<Rightarrow> (node_id, json) btree \<Rightarrow> run_result \<Rightarrow> string \<times> value_ref \<Rightarrow> bool" where
  "output_reported c outs res nr \<longleftrightarrow> (case resolve_value_ref (snd nr) outs of
       Inr v \<Rightarrow> map_of (rr_outputs res) (fst nr) = Some (shape_output (fst nr) v (rc_redactor c) (rc_max_output_bytes c))
     | Inl err \<Rightarrow> fst nr \<notin> fst ` set (rr_outputs res) \<and>
         (ref_node (snd nr) \<in> fst ` set (rr_errors res) \<union> fst ` set (rr_skipped res) \<or>
          output_key (fst nr) \<in> fst ` set (rr_errors res)))"

text \<open>
  C4. A run the runtime started from a plan, with the optimizer, and that has ended gives a
  result that accounts for everything (no unit both reads and writes one resource, see C7): each node of the optimized plan has an output, an error or
  a skip reason; each declared output is there with its shaped value, or its node failed or was
  skipped, or an unresolved-output error stands for it; and the status is cancelled exactly when
  the run was, else success exactly when there is no error.
\<close>

theorem finished_run_accounts_for_everything:
  assumes "engine_optimized dbg compile r p config = Some (Inr E, r')" "no_self_conflict E"
    and "distinct (map fst (plan_outputs (en_plan E)))"
    and "(sched_step clock check)\<^sup>*\<^sup>* (Looping (sched_start E)) (Ended s)"
  shows "let res = finish clock elapsed (sc_engine s) in
    (\<forall>m \<in> set (node_ids (en_plan E)). m \<in> fst ` set (en_outputs (sc_engine s)) \<union> fst ` set (rr_errors res) \<union> fst ` set (rr_skipped res)) \<and>
    (\<forall>nr \<in> set (plan_outputs (en_plan E)). output_reported config (en_outputs (sc_engine s)) res nr) \<and>
    rr_status res = (if en_stop (sc_engine s) = Some SkipCancelled then RunCancelled
                     else if rr_errors res = [] then RunSuccess else RunFailed)"
proof -
  from engine_optimized_ok [OF assms(1)] have E: "engine_ok E" "engine_fresh E" "en_config E = config" by simp_all
  from ended_run_finished [OF E(1,2) assms(2-4)] obtain outs errs where
    r: "resolve_outputs (skip_unsettled clock (sc_engine s)) = (outs, (sc_engine s)\<lparr>en_errors := errs\<rparr>)"
      "fst ` set (en_errors (sc_engine s)) \<subseteq> fst ` set errs"
      "\<forall>nr \<in> set (plan_outputs (en_plan E)). resolved_in nr (outs, (sc_engine s)\<lparr>en_errors := errs\<rparr>)"
      "set (en_dead (sc_engine s)) = fst ` set (en_errors (sc_engine s)) \<union> fst ` set (en_skipped (sc_engine s))"
      "\<forall>m \<in> set (node_ids (en_plan E)). is_settled (sc_engine s) m" "en_config (sc_engine s) = config"
    unfolding E(3) by blast
  define res where "res = finish clock elapsed (sc_engine s)"
  have f: "rr_errors res = errs" "rr_skipped res = en_skipped (sc_engine s)" "rr_outputs res = shape_all config outs"
    "rr_status res = (if en_stop (sc_engine s) = Some SkipCancelled then RunCancelled
                     else if errs = [] then RunSuccess else RunFailed)"
    using r(1,6) by (simp_all add: res_def finish_def Let_def run_status_of_def)
  have "m \<in> fst ` set (en_outputs (sc_engine s)) \<union> fst ` set errs \<union> fst ` set (en_skipped (sc_engine s))"
    if "m \<in> set (node_ids (en_plan E))" for m
    using r(2,5) that unfolding is_settled_def bt_mem_iff by blast
  moreover have "output_reported config (en_outputs (sc_engine s)) res nr" if "nr \<in> set (plan_outputs (en_plan E))" for nr
  proof -
    have "resolved_in nr (outs, (sc_engine s)\<lparr>en_errors := errs\<rparr>)" using r(3) that by blast
    then show ?thesis unfolding output_reported_def resolved_in_def f shape_all_keys shape_all_lookup
      using r(2,4) by (cases "resolve_value_ref (snd nr) (en_outputs (sc_engine s))") auto
  qed
  ultimately show ?thesis unfolding res_def [symmetric] Let_def f by blast
qed

definition output_plan :: plan where
  "output_plan = run_plan\<lparr>plan_outputs := [(''last'', ValueRef ''d'' [])]\<rparr>"

definition hydrated_plan :: plan where
  "hydrated_plan = apply_capabilities example_registry output_plan"

definition output_opt :: optimized_plan where
  "output_opt = (case optimize_validated (map node_tool (plan_nodes hydrated_plan))
      (removals json_debug hydrated_plan) (deduplicated_plan json_debug hydrated_plan) of Inr opt \<Rightarrow> opt)"

lemma output_optimize: "optimize json_debug hydrated_plan = Some (Inr output_opt)"
proof -
  have "optimize_validated (map node_tool (plan_nodes hydrated_plan))
      (removals json_debug hydrated_plan) (deduplicated_plan json_debug hydrated_plan) = Inr output_opt"
    by code_simp
  moreover have "distinct (node_ids hydrated_plan)" by code_simp
  ultimately show ?thesis by (simp add: optimize_distinct)
qed

definition output_built :: "(runtime_error, (unit, unit) engine) result \<times> (unit, unit) tool_registry" where
  "output_built = the (engine_new (\<lambda>_. Inr ()) example_registry (op_plan output_opt) (op_graph output_opt)
     (collect_data_deps (op_plan output_opt)) (op_report output_opt) run_config_new False)"

definition output_engine :: "(unit, unit) engine" where
  "output_engine = (case fst output_built of Inr e \<Rightarrow> e)"

lemma output_engine_started:
  "engine_optimized json_debug (\<lambda>_. Inr ()) example_registry output_plan run_config_new = Some (Inr output_engine, snd output_built)"
proof -
  have "prepare json_debug example_registry output_plan = Some (Inr (output_opt, collect_data_deps (op_plan output_opt)))"
    by (simp add: prepare_def hydrated_plan_def [symmetric] output_optimize)
  moreover have "\<not> Option.is_none (engine_new (\<lambda>_. Inr () :: (string, unit) result) example_registry (op_plan output_opt) (op_graph output_opt)
     (collect_data_deps (op_plan output_opt)) (op_report output_opt) run_config_new False)" by code_simp
  moreover have "\<not> isl (fst output_built)" by code_simp
  then have "fst output_built = Inr output_engine" by (auto simp: output_engine_def isl_def split: sum.splits)
  then have "output_built = (Inr output_engine, snd output_built)" by (metis prod.collapse)
  ultimately show ?thesis
    by (auto simp: engine_optimized_def engine_prepared_def output_built_def Option.is_none_def)
qed

lemma output_engine_plan:
  "no_self_conflict output_engine" "map fst (plan_outputs (en_plan output_engine)) = [''last'']"
  "''d'' \<in> set (node_ids (en_plan output_engine))"
  by code_simp+

theorem finished_run_accounts_for_everything_witness:
  "\<exists>s :: (unit, unit) sched. let res = finish example_clock 7 (sc_engine s) in
     ''d'' \<in> fst ` set (en_outputs (sc_engine s)) \<union> fst ` set (rr_errors res) \<union> fst ` set (rr_skipped res)"
proof -
  have ok: "engine_ok output_engine" "engine_fresh output_engine"
    using engine_optimized_ok [OF output_engine_started] by simp_all
  have "run_inv output_engine (Looping (sched_start output_engine))" using start_inv [OF ok] by (auto simp: run_inv_def)
  from run_can_end [OF ok(1) output_engine_plan(1) this, of example_clock example_check] obtain s where
    s: "(sched_step example_clock example_check)\<^sup>*\<^sup>* (Looping (sched_start output_engine)) (Ended s)" by blast
  have "distinct (map fst (plan_outputs (en_plan output_engine)))" unfolding output_engine_plan(2) by simp
  from finished_run_accounts_for_everything [OF output_engine_started output_engine_plan(1) this s, of 7] output_engine_plan(3)
  show ?thesis unfolding Let_def by blast
qed

end
