(* ===== verification/Utf8.thy ===== *)
theory Utf8
  imports Text
begin

text \<open>
  \<^verbatim>\<open>String::from_utf8_lossy\<close> of Rust's standard library: well-formed sequences are kept and every
  maximal ill-formed one becomes U+FFFD. The adapters decode what they read with it. The lemmas
  say what cutting at a character boundary leaves.
\<close>

section \<open>The next sequence\<close>

definition byte :: "char \<Rightarrow> nat" where "byte c = of_char c"

definition seq_width :: "nat \<Rightarrow> nat" where
  "seq_width b = (if b < 128 then 1 else if 194 \<le> b \<and> b < 224 then 2
     else if 224 \<le> b \<and> b < 240 then 3 else if 240 \<le> b \<and> b < 245 then 4 else 0)"

definition second_ok :: "nat \<Rightarrow> nat \<Rightarrow> bool" where
  "second_ok b0 b1 \<longleftrightarrow>
     (if b0 = 224 then 160 \<le> b1 \<and> b1 < 192
      else if b0 = 237 then 128 \<le> b1 \<and> b1 < 160
      else if b0 = 240 then 144 \<le> b1 \<and> b1 < 192
      else if b0 = 244 then 128 \<le> b1 \<and> b1 < 144
      else 128 \<le> b1 \<and> b1 < 192)"

text \<open>The bytes of the next piece, and whether they are a character.\<close>

fun utf8_next :: "string \<Rightarrow> nat \<times> bool" where
  "utf8_next [] = (0, True)"
| "utf8_next (b0 # bs) =
     (let w = seq_width (byte b0) in
      if w = 0 then (1, False)
      else if w = 1 then (1, True)
      else case bs of
          [] \<Rightarrow> (1, False)
        | b1 # cs \<Rightarrow>
            if \<not> second_ok (byte b0) (byte b1) then (1, False)
            else if w = 2 then (2, True)
            else case cs of
                [] \<Rightarrow> (2, False)
              | b2 # ds \<Rightarrow>
                  if \<not> is_continuation b2 then (2, False)
                  else if w = 3 then (3, True)
                  else case ds of
                      [] \<Rightarrow> (3, False)
                    | b3 # es \<Rightarrow> if is_continuation b3 then (4, True) else (3, False))"

lemma utf8_next_pos: "bs \<noteq> [] \<Longrightarrow> 0 < fst (utf8_next bs) \<and> fst (utf8_next bs) \<le> length bs"
  by (cases bs) (auto simp: Let_def split: list.split)

definition replacement_char :: string where
  "replacement_char = [CHR 0xEF, CHR 0xBF, CHR 0xBD]"

function utf8_lossy :: "string \<Rightarrow> string" where
  "utf8_lossy bs =
     (if bs = [] then []
      else (if snd (utf8_next bs) then take (fst (utf8_next bs)) bs else replacement_char)
         @ utf8_lossy (drop (fst (utf8_next bs)) bs))"
  by pat_completeness auto
termination
  by (relation "measure length") (use utf8_next_pos in auto)

function utf8_valid :: "string \<Rightarrow> bool" where
  "utf8_valid bs =
     (if bs = [] then True else snd (utf8_next bs) \<and> utf8_valid (drop (fst (utf8_next bs)) bs))"
  by pat_completeness auto
termination
  by (relation "measure length") (use utf8_next_pos in auto)

declare utf8_lossy.simps [simp del] utf8_valid.simps [simp del]

lemma utf8_lossy_valid: "utf8_valid bs \<Longrightarrow> utf8_lossy bs = bs"
proof (induction bs rule: utf8_valid.induct)
  case (1 bs)
  show ?case
  proof (cases "bs = []")
    case True
    then show ?thesis by (simp add: utf8_lossy.simps)
  next
    case False
    then have v: "snd (utf8_next bs)" "utf8_valid (drop (fst (utf8_next bs)) bs)"
      using "1.prems" by (simp_all add: utf8_valid.simps [of bs])
    from "1.IH" [OF False v(2)] v(1) False show ?thesis by (simp add: utf8_lossy.simps [of bs])
  qed
qed

section \<open>Character boundaries\<close>

definition is_char_boundary_at :: "string \<Rightarrow> nat \<Rightarrow> bool" where
  "is_char_boundary_at bs i \<longleftrightarrow> i = 0 \<or> i \<ge> length bs \<or> \<not> is_continuation (bs ! i)"

lemma second_ok_continuation: "second_ok b0 b1 \<Longrightarrow> 128 \<le> b1 \<and> b1 < 192"
  by (auto simp: second_ok_def split: if_splits)

lemma inside_next:
  assumes "snd (utf8_next bs)" "0 < i" "i < fst (utf8_next bs)"
  shows "is_continuation (bs ! i)"
proof -
  have c: "is_continuation c" if "second_ok b (byte c)" for b c
    using second_ok_continuation [OF that] by (simp add: is_continuation_def byte_def)
  show ?thesis
    using assms by (cases bs)
      (auto simp: Let_def nth_Cons' less_Suc_eq numeral_2_eq_2 numeral_3_eq_3 numeral_eq_Suc intro: c split: list.splits if_splits)
qed

lemma utf8_next_take:
  assumes "snd (utf8_next bs)" "fst (utf8_next bs) \<le> k"
  shows "utf8_next (take k bs) = utf8_next bs"
proof (cases bs)
  case (Cons b cs)
  then obtain j where "k = Suc j" using assms by (cases k) (auto simp: Let_def split: list.splits if_splits)
  with Cons assms show ?thesis
    by (auto simp: Let_def take_Cons' split: list.splits if_splits)
qed simp

text \<open>Cutting a valid string at a boundary leaves a valid string.\<close>

lemma utf8_valid_take:
  "utf8_valid bs \<Longrightarrow> is_char_boundary_at bs k \<Longrightarrow> utf8_valid (take k bs)"
proof (induction bs arbitrary: k rule: utf8_valid.induct)
  case (1 bs)
  let ?n = "fst (utf8_next bs)"
  show ?case
  proof (cases "bs = [] \<or> k = 0 \<or> k \<ge> length bs")
    case True
    then show ?thesis using "1.prems"(1) by (auto simp: utf8_valid.simps [of "[]"])
  next
    case False
    then have bs: "bs \<noteq> []" and k: "0 < k" "k < length bs" by auto
    have v: "snd (utf8_next bs)" "utf8_valid (drop ?n bs)"
      using "1.prems"(1) bs by (simp_all add: utf8_valid.simps [of bs])
    have nc: "\<not> is_continuation (bs ! k)" using "1.prems"(2) k by (auto simp: is_char_boundary_at_def)
    have n: "0 < ?n" "?n \<le> k" using utf8_next_pos [OF bs] inside_next [OF v(1) k(1)] nc by (auto simp: not_less [symmetric])
    have "is_char_boundary_at (drop ?n bs) (k - ?n)" using nc n k by (auto simp: is_char_boundary_at_def)
    from "1.IH" [OF bs v(2) this] have "utf8_valid (take (k - ?n) (drop ?n bs))" .
    moreover have "utf8_next (take k bs) = utf8_next bs" by (rule utf8_next_take [OF v(1) n(2)])
    ultimately show ?thesis using v(1) bs k n(2)
      by (subst utf8_valid.simps) (simp add: drop_take)
  qed
qed

end
