(* ===== verification/Paths.thy ===== *)
theory Paths
  imports Text
begin

text \<open>
  What the adapters use of \<^verbatim>\<open>std::path\<close> and \<^verbatim>\<open>std::io::Error\<close>: a path is the list of its
  components (Unix), an I/O error its message and whether its kind is not-found.
\<close>

datatype path_component = RootDir | CurDir | ParentDir | Normal string

type_synonym path = "path_component list"

text \<open>\<^verbatim>\<open>Path::components\<close>: empty and inner \<^verbatim>\<open>.\<close> segments vanish.\<close>

definition segment_component :: "string \<Rightarrow> path_component list" where
  "segment_component seg =
     (if seg = [] \<or> seg = ''.'' then [] else if seg = ''..'' then [ParentDir] else [Normal seg])"

definition path_components :: "string \<Rightarrow> path" where
  "path_components raw =
     (case split_on (CHR ''/'') raw of
        seg # segs \<Rightarrow>
          (if raw \<noteq> [] \<and> hd raw = CHR ''/'' then [RootDir] else if seg = ''.'' then [CurDir] else segment_component seg)
          @ concat (map segment_component segs)
      | [] \<Rightarrow> [])"

definition path_is_absolute :: "string \<Rightarrow> bool" where
  "path_is_absolute raw \<longleftrightarrow> raw \<noteq> [] \<and> hd raw = CHR ''/''"

text \<open>\<^verbatim>\<open>base.join(p)\<close> for a relative \<open>p\<close>.\<close>

definition path_join :: "path \<Rightarrow> path \<Rightarrow> path" where
  "path_join base p = (if base = [] then p else base @ filter (\<lambda>c. c \<noteq> CurDir) p)"

definition path_parent :: "path \<Rightarrow> path option" where
  "path_parent p = (if p = [] \<or> p = [RootDir] then None else Some (butlast p))"

datatype io_error = IoError (io_not_found: bool) (io_message: string)

end
