(* ===== verification/FsAdapter.thy ===== *)
theory FsAdapter
  imports AdapterApi Ir Utf8 Paths
begin

text \<open>
  The file-system adapter, \<^verbatim>\<open>crates/tool-compiler-adapter-fs\<close>: paths and their containment in
  the root (\<^verbatim>\<open>lib.rs\<close>), and the four tools (\<^verbatim>\<open>ops.rs\<close>). The operating system is a record of
  functions over the state \<open>'w\<close> of the disk.
\<close>

section \<open>The operating system\<close>

datatype file_kind = DirEntry | SymlinkEntry | FileEntry

text \<open>An entry of a directory: its name (bytes) and what asking for its type gives.\<close>

type_synonym dir_entry = "string \<times> (io_error, file_kind) result"

record 'w file_system =
  fs_canonicalize :: "path \<Rightarrow> 'w \<Rightarrow> (io_error, path) result"
  fs_exists :: "path \<Rightarrow> 'w \<Rightarrow> bool"
  fs_read :: "path \<Rightarrow> 'w \<Rightarrow> (io_error, string) result"
  fs_write :: "path \<Rightarrow> string \<Rightarrow> 'w \<Rightarrow> (io_error, unit) result \<times> 'w"
  fs_create_dir_all :: "path \<Rightarrow> 'w \<Rightarrow> (io_error, unit) result \<times> 'w"
  fs_remove_file :: "path \<Rightarrow> 'w \<Rightarrow> (io_error, unit) result \<times> 'w"
  fs_read_dir :: "path \<Rightarrow> 'w \<Rightarrow> (io_error, (io_error, dir_entry) result list) result"

section \<open>The executor and its errors\<close>

record fs_executor =
  fx_root :: path
  fx_max_read_bytes :: nat
  fx_max_entries :: nat

definition fs_executor_new :: "path \<Rightarrow> fs_executor" where
  "fs_executor_new root = \<lparr>fx_root = root, fx_max_read_bytes = 2 * 1024 * 1024, fx_max_entries = 10000\<rparr>"

definition with_max_read_bytes :: "nat \<Rightarrow> fs_executor \<Rightarrow> fs_executor" where
  "with_max_read_bytes n x = x\<lparr>fx_max_read_bytes := max n 1\<rparr>"

definition with_max_entries :: "nat \<Rightarrow> fs_executor \<Rightarrow> fs_executor" where
  "with_max_entries n x = x\<lparr>fx_max_entries := max n 1\<rparr>"

definition max_read_bytes_of :: "fs_executor \<Rightarrow> json \<Rightarrow> nat" where
  "max_read_bytes_of x input =
     max (case Option.bind (json_get input ''max_bytes'') as_u64 of None \<Rightarrow> fx_max_read_bytes x | Some n \<Rightarrow> n) 1"

datatype fs_error =
    FsMissingField string
  | EscapesRoot string
  | InvalidGlob string
  | FsUnknownTool string
  | Rollback string io_error
  | FsIo io_error

definition fs_error_to_string :: "fs_error \<Rightarrow> string" where
  "fs_error_to_string e = (case e of
       FsMissingField f \<Rightarrow> ''missing string field '' @ [CHR 0x27] @ f @ [CHR 0x27]
     | EscapesRoot p \<Rightarrow> ''path escapes filesystem root: '' @ p
     | InvalidGlob m \<Rightarrow> ''invalid glob pattern: '' @ m
     | FsUnknownTool t \<Rightarrow> ''unknown fs tool '' @ [CHR 0x27] @ t @ [CHR 0x27]
     | Rollback p io \<Rightarrow> ''write_files failed on '' @ [CHR 0x27] @ p @ [CHR 0x27] @ '' and was rolled back: '' @ io_message io
     | FsIo io \<Rightarrow> io_message io)"

definition fs_tool_error :: "fs_error \<Rightarrow> tool_execution_error" where
  "fs_tool_error e = with_code (case e of
       FsMissingField _ \<Rightarrow> ''invalid_input'' | InvalidGlob _ \<Rightarrow> ''invalid_input''
     | EscapesRoot _ \<Rightarrow> ''escapes_root'' | FsUnknownTool _ \<Rightarrow> ''unknown_tool''
     | Rollback _ _ \<Rightarrow> ''write_rollback'' | FsIo _ \<Rightarrow> ''io'') (error_new (fs_error_to_string e))"

definition fs_required_str :: "json \<Rightarrow> string \<Rightarrow> (fs_error, string) result" where
  "fs_required_str input key = ok_or (FsMissingField key) (Option.bind (json_get input key) as_str)"

section \<open>Containment\<close>

function existing_ancestor :: "'w file_system \<Rightarrow> 'w \<Rightarrow> path \<Rightarrow> path option" where
  "existing_ancestor fs w p =
     (if fs_exists fs p w then Some p
      else case path_parent p of None \<Rightarrow> None | Some q \<Rightarrow> existing_ancestor fs w q)"
  by pat_completeness auto
termination
  by (relation "measure (\<lambda>(fs, w, p). length p)") (auto simp: path_parent_def split: if_splits)

declare existing_ancestor.simps [simp del]

definition check_containment :: "'w file_system \<Rightarrow> fs_executor \<Rightarrow> string \<Rightarrow> path \<Rightarrow> 'w \<Rightarrow> (fs_error, unit) result" where
  "check_containment fs x raw joined w =
     (case fs_canonicalize fs (fx_root x) w of
        Inl _ \<Rightarrow> Inr ()
      | Inr root \<Rightarrow>
          (case existing_ancestor fs w joined of
             None \<Rightarrow> Inr ()
           | Some probe \<Rightarrow>
               res_bind (map_err FsIo (fs_canonicalize fs probe w)) (\<lambda>canonical.
                 if prefix root canonical then Inr () else Inl (EscapesRoot raw))))"

definition resolve_path :: "'w file_system \<Rightarrow> fs_executor \<Rightarrow> string \<Rightarrow> 'w \<Rightarrow> (fs_error, path) result" where
  "resolve_path fs x raw w =
     (if path_is_absolute raw then Inl (EscapesRoot raw)
      else if ParentDir \<in> set (path_components raw) \<or> RootDir \<in> set (path_components raw) then Inl (EscapesRoot raw)
      else (let joined = path_join (fx_root x) (path_components raw) in
            res_bind (check_containment fs x raw joined w) (\<lambda>_. Inr joined)))"

section \<open>Reading and writing\<close>

fun boundary_cut :: "string \<Rightarrow> nat \<Rightarrow> nat" where
  "boundary_cut bytes 0 = 0"
| "boundary_cut bytes (Suc k) = (if is_char_boundary_at bytes (Suc k) then Suc k else boundary_cut bytes k)"

definition capped_content :: "nat \<Rightarrow> string \<Rightarrow> json" where
  "capped_content max_bytes bytes =
     (if length bytes \<le> max_bytes then JObj [(''content'', JStr (utf8_lossy bytes))]
      else JObj [(''bytes'', json_num (length bytes)),
                 (''content'', JStr (utf8_lossy (take (boundary_cut bytes max_bytes) bytes))),
                 (''truncated'', JBool True)])"

definition read_file :: "'w file_system \<Rightarrow> fs_executor \<Rightarrow> json \<Rightarrow> 'w \<Rightarrow> (fs_error, json) result" where
  "read_file fs x input w =
     res_bind (fs_required_str input ''path'') (\<lambda>raw.
     res_bind (resolve_path fs x raw w) (\<lambda>p.
     res_bind (map_err FsIo (fs_read fs p w)) (\<lambda>bytes.
       Inr (capped_content (max_read_bytes_of x input) bytes))))"

definition create_parent :: "'w file_system \<Rightarrow> path \<Rightarrow> 'w \<Rightarrow> (io_error, unit) result \<times> 'w" where
  "create_parent fs p w = (case path_parent p of None \<Rightarrow> (Inr (), w) | Some d \<Rightarrow> fs_create_dir_all fs d w)"

definition or_null_json :: "json option \<Rightarrow> json" where
  "or_null_json v = (case v of None \<Rightarrow> JNull | Some x \<Rightarrow> x)"

definition write_file :: "'w file_system \<Rightarrow> fs_executor \<Rightarrow> json \<Rightarrow> 'w \<Rightarrow> (fs_error, json) result \<times> 'w" where
  "write_file fs x input w =
     (case res_bind (fs_required_str input ''path'') (\<lambda>raw. resolve_path fs x raw w) of
        Inl e \<Rightarrow> (Inl e, w)
      | Inr p \<Rightarrow>
          (case create_parent fs p w of
             (Inl io, w1) \<Rightarrow> (Inl (FsIo io), w1)
           | (Inr _, w1) \<Rightarrow>
               (case fs_required_str input ''content'' of
                  Inl e \<Rightarrow> (Inl e, w1)
                | Inr content \<Rightarrow>
                    (case fs_write fs p content w1 of
                       (Inl io, w2) \<Rightarrow> (Inl (FsIo io), w2)
                     | (Inr _, w2) \<Rightarrow>
                         (Inr (JObj [(''path'', or_null_json (json_get input ''path'')), (''written'', JBool True)]), w2)))))"

text \<open>The entries are staged before the first write.\<close>

type_synonym staged_write = "string \<times> path \<times> string"
type_synonym backup = "path \<times> string option"

definition stage_file :: "'w file_system \<Rightarrow> fs_executor \<Rightarrow> 'w \<Rightarrow> json \<Rightarrow> (fs_error, staged_write) result" where
  "stage_file fs x w file =
     res_bind (fs_required_str file ''path'') (\<lambda>raw.
     res_bind (fs_required_str file ''content'') (\<lambda>content.
     res_bind (resolve_path fs x raw w) (\<lambda>p. Inr (raw, p, content))))"

fun rollback :: "'w file_system \<Rightarrow> backup list \<Rightarrow> 'w \<Rightarrow> 'w" where
  "rollback fs [] w = w"
| "rollback fs ((p, old) # backups) w =
     rollback fs backups (snd (case old of Some bytes \<Rightarrow> fs_write fs p bytes w | None \<Rightarrow> fs_remove_file fs p w))"

text \<open>The loop over the staged files; the backups are kept newest first, the order of the rollback.\<close>

fun write_staged :: "'w file_system \<Rightarrow> staged_write list \<Rightarrow> backup list \<Rightarrow> 'w \<Rightarrow> (fs_error, unit) result \<times> 'w" where
  "write_staged fs [] backups w = (Inr (), w)"
| "write_staged fs ((raw, p, content) # staged) backups w =
     (case (case fs_read fs p w of
              Inr bytes \<Rightarrow> Inr (Some bytes)
            | Inl io \<Rightarrow> if io_not_found io then Inr None else Inl io) of
        Inl io \<Rightarrow> (Inl (Rollback raw io), rollback fs backups w)
      | Inr old \<Rightarrow>
          (case create_parent fs p w of
             (Inl io, w1) \<Rightarrow> (Inl (Rollback raw io), rollback fs backups w1)
           | (Inr _, w1) \<Rightarrow>
               (case fs_write fs p content w1 of
                  (Inl io, w2) \<Rightarrow> (Inl (Rollback raw io), rollback fs backups w2)
                | (Inr _, w2) \<Rightarrow> write_staged fs staged ((p, old) # backups) w2)))"

definition write_files :: "'w file_system \<Rightarrow> fs_executor \<Rightarrow> json \<Rightarrow> 'w \<Rightarrow> (fs_error, json) result \<times> 'w" where
  "write_files fs x input w =
     (case res_bind (ok_or (FsMissingField ''files'') (Option.bind (json_get input ''files'') as_array))
             (res_map (stage_file fs x w)) of
        Inl e \<Rightarrow> (Inl e, w)
      | Inr staged \<Rightarrow>
          (case write_staged fs staged [] w of
             (Inl e, w1) \<Rightarrow> (Inl e, w1)
           | (Inr _, w1) \<Rightarrow> (Inr (JObj [(''written'', json_num (length staged))]), w1)))"

section \<open>Listing\<close>

text \<open>
  One directory: the stack of directories still to visit, the entries so far, and whether the cap
  was hit. The glob matcher of the crate \<^verbatim>\<open>globset\<close> is a parameter.
\<close>

type_synonym listing = "(path \<times> string) list \<times> (string \<times> file_kind) list \<times> bool"

fun scan_dir :: "path \<Rightarrow> string \<Rightarrow> bool \<Rightarrow> (string \<Rightarrow> bool) \<Rightarrow> nat \<Rightarrow> (io_error, dir_entry) result list \<Rightarrow> listing
    \<Rightarrow> (io_error, listing) result" where
  "scan_dir dir pre recursive matches max_entries [] st = Inr st"
| "scan_dir dir pre recursive matches max_entries (Inl io # es) st = Inl io"
| "scan_dir dir pre recursive matches max_entries (Inr (name, Inl io) # es) st = Inl io"
| "scan_dir dir pre recursive matches max_entries (Inr (name, Inr kind) # es) (queue, entries, truncated) =
     (let shown = utf8_lossy name;
          relative = (if pre = [] then shown else pre @ ''/'' @ shown);
          queue1 = (if kind = DirEntry \<and> recursive then (dir @ [Normal name], relative) # queue else queue)
      in if \<not> matches relative then scan_dir dir pre recursive matches max_entries es (queue1, entries, truncated)
         else if length entries \<ge> max_entries then Inr ([], entries, True)
         else scan_dir dir pre recursive matches max_entries es (queue1, entries @ [(relative, kind)], truncated))"

partial_function (option) list_loop :: "'w file_system \<Rightarrow> 'w \<Rightarrow> bool \<Rightarrow> (string \<Rightarrow> bool) \<Rightarrow> nat \<Rightarrow> listing
    \<Rightarrow> (fs_error, (string \<times> file_kind) list \<times> bool) result option" where
  "list_loop fs w recursive matches max_entries st =
     (case st of
        ([], entries, truncated) \<Rightarrow> Some (Inr (entries, truncated))
      | ((dir, pre) # queue, entries, truncated) \<Rightarrow>
          (case fs_read_dir fs dir w of
             Inl io \<Rightarrow> Some (Inl (FsIo io))
           | Inr es \<Rightarrow>
               (case scan_dir dir pre recursive matches max_entries es (queue, entries, truncated) of
                  Inl io \<Rightarrow> Some (Inl (FsIo io))
                | Inr st' \<Rightarrow> list_loop fs w recursive matches max_entries st')))"

definition kind_name :: "file_kind \<Rightarrow> string" where
  "kind_name k = (case k of DirEntry \<Rightarrow> ''dir'' | SymlinkEntry \<Rightarrow> ''symlink'' | FileEntry \<Rightarrow> ''file'')"

definition entry_json :: "string \<times> file_kind \<Rightarrow> json" where
  "entry_json e = JObj [(''kind'', JStr (kind_name (snd e))), (''name'', JStr (fst e))]"

definition list_matcher :: "(string \<Rightarrow> (string, string \<Rightarrow> bool) result) \<Rightarrow> json \<Rightarrow> (fs_error, string \<Rightarrow> bool) result" where
  "list_matcher glob input = (case Option.bind (json_get input ''glob'') as_str of
     None \<Rightarrow> Inr (\<lambda>_. True) | Some pattern \<Rightarrow> map_err InvalidGlob (glob pattern))"

definition list_dir :: "'w file_system \<Rightarrow> (string \<Rightarrow> (string, string \<Rightarrow> bool) result) \<Rightarrow> fs_executor \<Rightarrow> json \<Rightarrow> 'w
    \<Rightarrow> (fs_error, json) result option" where
  "list_dir fs glob x input w =
     (case res_bind (fs_required_str input ''path'') (\<lambda>raw. resolve_path fs x raw w) of
        Inl e \<Rightarrow> Some (Inl e)
      | Inr base \<Rightarrow>
          (let recursive = (Option.bind (json_get input ''recursive'') as_bool = Some True) in
           case list_matcher glob input of
             Inl e \<Rightarrow> Some (Inl e)
           | Inr matches \<Rightarrow>
               map_option (\<lambda>res. res_bind res (\<lambda>(entries, truncated).
                   Inr (JObj ((''entries'', JArr (map entry_json (sort_key fst entries))) #
                     (if truncated then [(''truncated'', JBool True)] else [])))))
                 (list_loop fs w recursive matches (fx_max_entries x) ([(base, [])], [], False))))"

section \<open>Calls\<close>

definition fs_execute :: "'w file_system \<Rightarrow> (string \<Rightarrow> (string, string \<Rightarrow> bool) result) \<Rightarrow> fs_executor \<Rightarrow> string
    \<Rightarrow> json \<Rightarrow> 'w \<Rightarrow> ((fs_error, json) result \<times> 'w) option" where
  "fs_execute fs glob x tool input w =
     (if tool = ''read_file'' then Some (read_file fs x input w, w)
      else if tool = ''write_file'' then Some (write_file fs x input w)
      else if tool = ''write_files'' then Some (write_files fs x input w)
      else if tool = ''list_dir'' then map_option (\<lambda>r. (r, w)) (list_dir fs glob x input w)
      else Some (Inl (FsUnknownTool tool), w))"

definition fs_call :: "'w file_system \<Rightarrow> (string \<Rightarrow> (string, string \<Rightarrow> bool) result) \<Rightarrow> fs_executor \<Rightarrow> string
    \<Rightarrow> json \<Rightarrow> 'w \<Rightarrow> ((tool_execution_error, json) result \<times> 'w) option" where
  "fs_call fs glob x tool input w =
     map_option (\<lambda>(r, w'). (map_err fs_tool_error r, w')) (fs_execute fs glob x tool input w)"

lemma window_shrinks:
  assumes "running = window @ take free queue" "running \<noteq> []"
    "i = (case picks of [] \<Rightarrow> 0 | p # _ \<Rightarrow> p mod length running)"
  shows "length (drop free queue) + length (take i running @ drop (Suc i) running) < length queue + length window"
proof -
  have "i < length running" using assms(2,3) by (auto split: list.splits)
  then have "length (take i running @ drop (Suc i) running) < length running" by simp
  moreover have "length (drop free queue) + length running = length queue + length window" using assms(1) by simp
  ultimately show ?thesis by linarith
qed

text \<open>
  The native batch: at most sixteen calls run at a time, and the results come in the order in
  which the calls complete, which \<open>picks\<close> decides. A call takes effect when it completes; only
  reads are batchable.
\<close>

function fs_batch_loop :: "(json \<Rightarrow> 'w \<Rightarrow> ((tool_execution_error, json) result \<times> 'w) option) \<Rightarrow> nat list \<Rightarrow> batch_input list
    \<Rightarrow> batch_input list \<Rightarrow> batch_output list \<Rightarrow> 'w \<Rightarrow> ((tool_execution_error, batch_output list) result \<times> 'w) option" where
  "fs_batch_loop call picks queue window outputs w =
     (let free = 16 - length window; running = window @ take free queue in
      if running = [] then Some (Inr outputs, w)
      else (let i = (case picks of [] \<Rightarrow> 0 | p # _ \<Rightarrow> p mod length running); b = running ! i in
            case call (bi_input b) w of
              None \<Rightarrow> None
            | Some (Inl e, w1) \<Rightarrow> Some (Inl e, w1)
            | Some (Inr v, w1) \<Rightarrow>
                fs_batch_loop call (tl picks) (drop free queue) (take i running @ drop (Suc i) running)
                  (outputs @ [\<lparr>bo_node = bi_node b, bo_output = v\<rparr>]) w1))"
  by pat_completeness auto
termination
  by (relation "measure (\<lambda>(call, picks, queue, window, outputs, w). length queue + length window)")
    (rule wf_measure, simp (no_asm) only: in_measure prod.case, rule window_shrinks, assumption+)

declare fs_batch_loop.simps [simp del]

definition fs_call_batch :: "'w file_system \<Rightarrow> (string \<Rightarrow> (string, string \<Rightarrow> bool) result) \<Rightarrow> fs_executor \<Rightarrow> nat list \<Rightarrow> string
    \<Rightarrow> batch_input list \<Rightarrow> 'w \<Rightarrow> ((tool_execution_error, batch_output list) result \<times> 'w) option" where
  "fs_call_batch fs glob x picks tool inputs w = fs_batch_loop (fs_call fs glob x tool) picks inputs [] [] w"

definition read_file_tool :: "resource list \<Rightarrow> tool_spec" where
  "read_file_tool resources = (tool_spec_new ''fs'')\<lparr>spec_effects :=
     Some ((effects_read_only resources)\<lparr>eff_batchable := True\<rparr>)\<rparr>"

definition write_file_tool :: "resource list \<Rightarrow> tool_spec" where
  "write_file_tool resources = (tool_spec_new ''fs'')\<lparr>spec_effects :=
     Some (effects_default\<lparr>eff_writes := bs_of_list resources, eff_idempotent := True\<rparr>)\<rparr>"

definition list_dir_tool :: "resource list \<Rightarrow> tool_spec" where
  "list_dir_tool resources = (tool_spec_new ''fs'')\<lparr>spec_effects := Some (effects_read_only resources)\<rparr>"

end
