(* ===== verification/FsSpec.thy ===== *)
theory FsSpec
  imports FsAdapter
begin

text \<open>
  What the file-system adapter promises: which paths it accepts, that a batch of writes that
  fails leaves every other file as it was, how much it reads, and what it lists. The operating
  system enters by the laws of \<open>file_laws\<close>.
\<close>

section \<open>Accepted paths\<close>

lemma split_on_hd: "s = c # t \<Longrightarrow> split_on c s = [] # split_on c t"
  by simp

lemma segment_component_cases: "c \<in> set (segment_component seg) \<Longrightarrow> c = ParentDir \<or> (\<exists>s. c = Normal s)"
  by (auto simp: segment_component_def split: if_splits)

lemma relative_components:
  assumes "\<not> path_is_absolute raw" "ParentDir \<notin> set (path_components raw)"
  shows "\<forall>c \<in> set (filter (\<lambda>c. c \<noteq> CurDir) (path_components raw)). \<exists>s. c = Normal s"
proof -
  obtain seg segs where sp: "split_on (CHR ''/'') raw = seg # segs" by (meson neq_Nil_conv split_on_ne)
  have "\<not> (raw \<noteq> [] \<and> hd raw = CHR ''/'')" using assms(1) by (simp add: path_is_absolute_def)
  then have "path_components raw = (if seg = ''.'' then [CurDir] else segment_component seg) @ concat (map segment_component segs)"
    unfolding path_components_def sp list.case by (rule arg_cong [OF if_not_P])
  with assms(2) show ?thesis using segment_component_cases by (fastforce split: if_splits)
qed

text \<open>
  The ancestors of a path are its prefixes, itself among them; those of an absolute path end at the
  root directory. A path leaves the root when its longest ancestor that exists has its canonical
  place outside the canonical root. The search of the code does not occur here.
\<close>

definition ancestor_of :: "path \<Rightarrow> path \<Rightarrow> bool" where
  "ancestor_of q p \<longleftrightarrow> prefix q p \<and> (q = [] \<longrightarrow> take 1 p \<noteq> [RootDir])"

definition deepest_existing :: "'w file_system \<Rightarrow> 'w \<Rightarrow> path \<Rightarrow> path \<Rightarrow> bool" where
  "deepest_existing fs w p q \<longleftrightarrow> ancestor_of q p \<and> fs_exists fs q w \<and>
     (\<forall>q'. ancestor_of q' p \<longrightarrow> fs_exists fs q' w \<longrightarrow> length q' \<le> length q)"

definition leaves_root :: "'w file_system \<Rightarrow> 'w \<Rightarrow> path \<Rightarrow> path \<Rightarrow> bool" where
  "leaves_root fs w root p \<longleftrightarrow> (\<exists>r q c. fs_canonicalize fs root w = Inr r \<and> deepest_existing fs w p q \<and>
     fs_canonicalize fs q w = Inr c \<and> \<not> prefix r c)"

lemma ancestor_of_parent:
  assumes "path_parent p = Some q'"
  shows "ancestor_of q p \<longleftrightarrow> q = p \<or> ancestor_of q q'"
proof -
  have p: "p \<noteq> []" "p \<noteq> [RootDir]" "q' = butlast p" using assms by (auto simp: path_parent_def split: if_splits)
  then obtain c where c: "p = q' @ [c]" by (metis append_butlast_last_id)
  have "take 1 q' = [RootDir] \<longleftrightarrow> take 1 p = [RootDir]" using p(2) c by (cases q') auto
  then show ?thesis using c by (auto simp: ancestor_of_def)
qed

lemma ancestor_of_top: "path_parent p = None \<Longrightarrow> ancestor_of q p \<longleftrightarrow> q = p"
  by (auto simp: path_parent_def ancestor_of_def prefix_Cons split: if_splits)

lemma ancestor_of_length: "ancestor_of q p \<Longrightarrow> length q \<le> length p"
  by (simp add: ancestor_of_def prefix_length_le)

lemma ancestor_same_length: "ancestor_of q p \<Longrightarrow> ancestor_of q' p \<Longrightarrow> length q = length q' \<Longrightarrow> q = q'"
  by (auto simp: ancestor_of_def prefix_def append_eq_append_conv)

lemma existing_ancestor_deepest: "existing_ancestor fs w p = Some q \<longleftrightarrow> deepest_existing fs w p q"
proof (induction fs w p rule: existing_ancestor.induct)
  case (1 fs w p)
  have self: "ancestor_of p p" by (cases p) (auto simp: ancestor_of_def)
  show ?case
  proof (cases "fs_exists fs p w")
    case True
    then have "deepest_existing fs w p q \<longleftrightarrow> p = q"
      using self ancestor_of_length [of _ p] ancestor_same_length [OF self, of q]
      by (auto simp: deepest_existing_def dest: le_antisym)
    with True show ?thesis by (simp add: existing_ancestor.simps)
  next
    case False
    show ?thesis
    proof (cases "path_parent p")
      case None
      with False show ?thesis
        by (auto simp: existing_ancestor.simps [of fs w p] deepest_existing_def ancestor_of_top)
    next
      case (Some q')
      from False Some have "existing_ancestor fs w p = existing_ancestor fs w q'" by (simp add: existing_ancestor.simps [of fs w p])
      moreover have "deepest_existing fs w p q \<longleftrightarrow> deepest_existing fs w q' q"
        using False unfolding deepest_existing_def ancestor_of_parent [OF Some] by auto
      ultimately show ?thesis using 1 [OF False Some] by simp
    qed
  qed
qed

lemma leaves_root_probe:
  "leaves_root fs w root p \<longleftrightarrow> (case (fs_canonicalize fs root w, existing_ancestor fs w p) of
     (Inr r, Some probe) \<Rightarrow> (case fs_canonicalize fs probe w of Inr c \<Rightarrow> \<not> prefix r c | Inl _ \<Rightarrow> False)
   | _ \<Rightarrow> False)"
  unfolding leaves_root_def existing_ancestor_deepest [symmetric]
  by (cases "fs_canonicalize fs root w"; cases "existing_ancestor fs w p";
      cases "fs_canonicalize fs (the (existing_ancestor fs w p)) w") auto

lemma check_containment_cases:
  "(check_containment fs x raw p w = Inr () \<longrightarrow> \<not> leaves_root fs w (fx_root x) p) \<and>
   (check_containment fs x raw p w = Inl (EscapesRoot raw) \<longleftrightarrow> leaves_root fs w (fx_root x) p)"
proof (cases "fs_canonicalize fs (fx_root x) w")
  case (Inr r)
  show ?thesis
  proof (cases "existing_ancestor fs w p")
    case (Some probe)
    then show ?thesis using Inr
      by (cases "fs_canonicalize fs probe w") (simp_all add: check_containment_def leaves_root_probe)
  qed (simp add: Inr check_containment_def leaves_root_probe)
qed (simp add: check_containment_def leaves_root_probe)

text \<open>
  C37. A path is accepted only when it is relative and without parent components; it is then the
  root followed by plain names, and its longest existing ancestor lies inside the canonical root
  (when both have a canonical place). A path is refused as escaping exactly when it is absolute,
  climbs, or leaves the root through a link.
\<close>

theorem resolve_path_spec:
  "(resolve_path fs x raw w = Inr p \<longrightarrow>
      (fx_root x \<noteq> [] \<longrightarrow> (\<exists>names. p = fx_root x @ map Normal names)) \<and> \<not> leaves_root fs w (fx_root x) p) \<and>
   (resolve_path fs x raw w = Inl (EscapesRoot raw) \<longleftrightarrow>
      path_is_absolute raw \<or> ParentDir \<in> set (path_components raw) \<or> RootDir \<in> set (path_components raw) \<or>
      leaves_root fs w (fx_root x) (path_join (fx_root x) (path_components raw)))"
proof (cases "path_is_absolute raw \<or> ParentDir \<in> set (path_components raw) \<or> RootDir \<in> set (path_components raw)")
  case True
  then show ?thesis by (auto simp: resolve_path_def)
next
  case False
  let ?p = "path_join (fx_root x) (path_components raw)"
  have "\<exists>names. filter (\<lambda>c. c \<noteq> CurDir) (path_components raw) = map Normal names"
    using relative_components [of raw] False by (metis ex_map_conv)
  then have names: "fx_root x \<noteq> [] \<longrightarrow> (\<exists>names. ?p = fx_root x @ map Normal names)" by (auto simp: path_join_def)
  note c = check_containment_cases [of fs x raw ?p w]
  from False have r: "resolve_path fs x raw w = res_bind (check_containment fs x raw ?p w) (\<lambda>_. Inr ?p)"
    by (simp add: resolve_path_def Let_def)
  have "resolve_path fs x raw w = Inr p \<longleftrightarrow> check_containment fs x raw ?p w = Inr () \<and> p = ?p"
    "resolve_path fs x raw w = Inl (EscapesRoot raw) \<longleftrightarrow> check_containment fs x raw ?p w = Inl (EscapesRoot raw)"
    unfolding r by (cases "check_containment fs x raw ?p w"; auto)+
  with False names c show ?thesis by auto
qed

section \<open>Bounded reads\<close>

lemma boundary_cut_le: "boundary_cut bytes k \<le> k"
  by (induction bytes k rule: boundary_cut.induct) auto

lemma boundary_cut_boundary: "is_char_boundary_at bytes (boundary_cut bytes k)"
  by (induction bytes k rule: boundary_cut.induct) (auto simp: is_char_boundary_at_def)

text \<open>
  Reading a valid UTF-8 file gives its text, cut at a character boundary when it is longer
  than the cap: never more bytes than the cap, always a valid string and a prefix of the file,
  with the full length and a truncation mark beside it.
\<close>

theorem capped_content_spec:
  assumes "utf8_valid bytes"
  shows "\<exists>content. json_get (capped_content max_bytes bytes) ''content'' = Some (JStr content) \<and>
    prefix content bytes \<and> utf8_valid content \<and> length content \<le> max_bytes \<and>
    (length bytes \<le> max_bytes \<longrightarrow> content = bytes \<and> json_get (capped_content max_bytes bytes) ''truncated'' = None) \<and>
    (length bytes > max_bytes \<longrightarrow> json_get (capped_content max_bytes bytes) ''truncated'' = Some (JBool True) \<and>
       json_get (capped_content max_bytes bytes) ''bytes'' = Some (json_num (length bytes)))"
proof (cases "length bytes \<le> max_bytes")
  case True
  then show ?thesis using assms by (simp add: capped_content_def json_get_def utf8_lossy_valid)
next
  case False
  let ?c = "take (boundary_cut bytes max_bytes) bytes"
  have v: "utf8_valid ?c" by (rule utf8_valid_take [OF assms boundary_cut_boundary])
  have "length ?c \<le> max_bytes" using boundary_cut_le [of bytes max_bytes] by simp
  with False v show ?thesis by (simp add: capped_content_def json_get_def utf8_lossy_valid take_is_prefix)
qed

section \<open>Writing several files\<close>

text \<open>
  The laws of the operating system. \<open>dv_loc\<close> is the file a path names (links and repeated names may
  share one) and \<open>dv_contents\<close> what the files hold; they are good for the states of \<open>dv_layout\<close>, in
  which the links are as they were. A write that fails may leave anything in its own file. Removing
  the path of a link takes the link away and leaves the file it names, and so nothing is assumed
  of it: the law is about paths that are no links.
\<close>

record ('w, 'l) disk_view =
  dv_loc :: "path \<Rightarrow> 'l"
  dv_contents :: "'w \<Rightarrow> 'l \<Rightarrow> string option"
  dv_link :: "path \<Rightarrow> bool"
  dv_layout :: "'w \<Rightarrow> bool"

definition file_laws :: "'w file_system \<Rightarrow> ('w, 'l) disk_view \<Rightarrow> bool" where
  "file_laws fs v \<longleftrightarrow> (\<forall>p w. dv_layout v w \<longrightarrow>
     (\<forall>b. fs_read fs p w = Inr b \<longrightarrow> dv_contents v w (dv_loc v p) = Some b) \<and>
     (\<forall>io. fs_read fs p w = Inl io \<longrightarrow> io_not_found io \<longrightarrow> dv_contents v w (dv_loc v p) = None) \<and>
     (\<forall>b. dv_layout v (snd (fs_write fs p b w)) \<and>
        (\<forall>l. l \<noteq> dv_loc v p \<longrightarrow> dv_contents v (snd (fs_write fs p b w)) l = dv_contents v w l) \<and>
        (fst (fs_write fs p b w) = Inr () \<longrightarrow> dv_contents v (snd (fs_write fs p b w)) (dv_loc v p) = Some b)) \<and>
     dv_layout v (snd (fs_create_dir_all fs p w)) \<and> dv_contents v (snd (fs_create_dir_all fs p w)) = dv_contents v w \<and>
     (\<not> dv_link v p \<longrightarrow> dv_layout v (snd (fs_remove_file fs p w)) \<and>
        (\<forall>l. l \<noteq> dv_loc v p \<longrightarrow> dv_contents v (snd (fs_remove_file fs p w)) l = dv_contents v w l) \<and>
        dv_contents v (snd (fs_remove_file fs p w)) (dv_loc v p) =
          (if fst (fs_remove_file fs p w) = Inr () then None else dv_contents v w (dv_loc v p))))"

text \<open>
  What the file of \<open>p\<close> held at first can be put back: writing it back does not fail, and a file that
  was not there is not behind a dangling link and can be removed.
\<close>

definition restorable :: "'w file_system \<Rightarrow> ('w, 'l) disk_view \<Rightarrow> 'w \<Rightarrow> path \<Rightarrow> bool" where
  "restorable fs v w0 p \<longleftrightarrow> (case dv_contents v w0 (dv_loc v p) of
     Some b \<Rightarrow> \<forall>w. dv_layout v w \<longrightarrow> fst (fs_write fs p b w) = Inr ()
   | None \<Rightarrow> \<not> dv_link v p \<and>
       (\<forall>w. dv_layout v w \<longrightarrow> dv_contents v w (dv_loc v p) \<noteq> None \<longrightarrow> fst (fs_remove_file fs p w) = Inr ()))"

lemma file_laws_facts:
  assumes "file_laws fs v" "dv_layout v w"
  shows read_ok: "fs_read fs p w = Inr b \<Longrightarrow> dv_contents v w (dv_loc v p) = Some b"
    and read_missing: "fs_read fs p w = Inl io \<Longrightarrow> io_not_found io \<Longrightarrow> dv_contents v w (dv_loc v p) = None"
    and write_layout: "dv_layout v (snd (fs_write fs p b w))"
    and write_frame: "l \<noteq> dv_loc v p \<Longrightarrow> dv_contents v (snd (fs_write fs p b w)) l = dv_contents v w l"
    and write_done: "fst (fs_write fs p b w) = Inr () \<Longrightarrow> dv_contents v (snd (fs_write fs p b w)) (dv_loc v p) = Some b"
    and mkdir_layout: "dv_layout v (snd (fs_create_dir_all fs p w))"
    and mkdir_frame: "dv_contents v (snd (fs_create_dir_all fs p w)) = dv_contents v w"
    and remove_layout: "\<not> dv_link v p \<Longrightarrow> dv_layout v (snd (fs_remove_file fs p w))"
    and remove_frame: "\<not> dv_link v p \<Longrightarrow> l \<noteq> dv_loc v p \<Longrightarrow> dv_contents v (snd (fs_remove_file fs p w)) l = dv_contents v w l"
    and remove_done: "\<not> dv_link v p \<Longrightarrow> dv_contents v (snd (fs_remove_file fs p w)) (dv_loc v p) =
        (if fst (fs_remove_file fs p w) = Inr () then None else dv_contents v w (dv_loc v p))"
  using assms unfolding file_laws_def by blast+

lemma create_parent_frame:
  assumes "file_laws fs v" "dv_layout v w"
  shows "dv_contents v (snd (create_parent fs p w)) = dv_contents v w \<and> dv_layout v (snd (create_parent fs p w))"
  using mkdir_frame [OF assms] mkdir_layout [OF assms] assms(2) by (auto simp: create_parent_def split: option.split)

text \<open>The oldest backup of each file is what it held at first, and a missing one was missing at first.\<close>

fun sound_backups :: "(path \<Rightarrow> 'l) \<Rightarrow> ('l \<Rightarrow> string option) \<Rightarrow> backup list \<Rightarrow> bool" where
  "sound_backups loc c0 [] = True"
| "sound_backups loc c0 ((p, old) # backups) =
     (sound_backups loc c0 backups \<and> (loc p \<notin> loc ` fst ` set backups \<longrightarrow> old = c0 (loc p)) \<and>
      (old = None \<longrightarrow> c0 (loc p) = None))"

lemma restore_one:
  assumes laws: "file_laws fs v" "dv_layout v w" and r: "restorable fs v w0 p"
    and old: "old = None \<longrightarrow> dv_contents v w0 (dv_loc v p) = None"
  defines "w1 \<equiv> snd (case old of Some bytes \<Rightarrow> fs_write fs p bytes w | None \<Rightarrow> fs_remove_file fs p w)"
  shows "dv_layout v w1 \<and> (\<forall>l. l \<noteq> dv_loc v p \<longrightarrow> dv_contents v w1 l = dv_contents v w l) \<and>
    (old = dv_contents v w0 (dv_loc v p) \<longrightarrow> dv_contents v w1 (dv_loc v p) = old)"
proof (cases old)
  case None
  with old r have p: "\<not> dv_link v p" "dv_contents v w (dv_loc v p) \<noteq> None \<longrightarrow> fst (fs_remove_file fs p w) = Inr ()"
    using laws(2) by (simp_all add: restorable_def)
  with None show ?thesis
    using remove_layout [OF laws p(1)] remove_frame [OF laws p(1)] remove_done [OF laws p(1)]
    by (cases "dv_contents v w (dv_loc v p)") (simp_all add: w1_def)
next
  case (Some b)
  then have w1: "w1 = snd (fs_write fs p b w)" by (simp add: w1_def)
  have "dv_contents v w1 (dv_loc v p) = old" if "old = dv_contents v w0 (dv_loc v p)"
  proof -
    have "fst (fs_write fs p b w) = Inr ()" using r laws(2) by (simp add: restorable_def that [symmetric] Some)
    from write_done [OF laws this] show ?thesis by (simp add: w1 Some)
  qed
  then show ?thesis using write_layout [OF laws, of p b] write_frame [OF laws, of _ p b] unfolding w1 by blast
qed

lemma rollback_restores:
  assumes "file_laws fs v" "dv_layout v w" "sound_backups (dv_loc v) (dv_contents v w0) backups"
    and "\<forall>(p, old) \<in> set backups. restorable fs v w0 p"
  shows "dv_contents v (rollback fs backups w) l =
    (if l \<in> dv_loc v ` fst ` set backups then dv_contents v w0 l else dv_contents v w l)"
  using assms(2-)
proof (induction backups arbitrary: w)
  case (Cons bk backups)
  obtain p old where bk: "bk = (p, old)" by (cases bk)
  let ?w1 = "snd (case old of Some bytes \<Rightarrow> fs_write fs p bytes w | None \<Rightarrow> fs_remove_file fs p w)"
  have "restorable fs v w0 p" "old = None \<longrightarrow> dv_contents v w0 (dv_loc v p) = None"
    using Cons.prems(2,3) bk by auto
  from restore_one [OF assms(1) Cons.prems(1) this]
  have one: "dv_layout v ?w1" "\<forall>l. l \<noteq> dv_loc v p \<longrightarrow> dv_contents v ?w1 l = dv_contents v w l"
    "old = dv_contents v w0 (dv_loc v p) \<longrightarrow> dv_contents v ?w1 (dv_loc v p) = old" by blast+
  have IH: "dv_contents v (rollback fs backups ?w1) l =
      (if l \<in> dv_loc v ` fst ` set backups then dv_contents v w0 l else dv_contents v ?w1 l)"
    using Cons.prems(2,3) bk by (intro Cons.IH [OF one(1)]) auto
  show ?case using IH one(2,3) Cons.prems(2) bk by (auto split: if_splits)
qed simp

definition put_all :: "(path \<Rightarrow> 'l) \<Rightarrow> staged_write list \<Rightarrow> ('l \<Rightarrow> string option) \<Rightarrow> ('l \<Rightarrow> string option)" where
  "put_all loc staged c = foldl (\<lambda>c (raw, p, content). c(loc p := Some content)) c staged"

text \<open>The backups of a run of writes: each file has one, they hold what was there, and nothing else changed.\<close>

definition backed_up :: "'w file_system \<Rightarrow> ('w, 'l) disk_view \<Rightarrow> 'w \<Rightarrow> backup list \<Rightarrow> 'w \<Rightarrow> bool" where
  "backed_up fs v w0 backups w \<longleftrightarrow> dv_layout v w \<and> sound_backups (dv_loc v) (dv_contents v w0) backups \<and>
     (\<forall>(q, old) \<in> set backups. restorable fs v w0 q \<and> dv_contents v w (dv_loc v q) \<noteq> None) \<and>
     (\<forall>l. l \<notin> dv_loc v ` fst ` set backups \<longrightarrow> dv_contents v w l = dv_contents v w0 l)"

text \<open>One failure: everything but the file at hand is as it was at first.\<close>

lemma failed_write_restores:
  assumes "file_laws fs v" "backed_up fs v w0 backups w" "dv_layout v w1"
    and "\<And>l. l \<noteq> dv_loc v p \<Longrightarrow> dv_contents v w1 l = dv_contents v w l" "l \<noteq> dv_loc v p"
  shows "dv_contents v (rollback fs backups w1) l = dv_contents v w0 l"
proof -
  have b: "sound_backups (dv_loc v) (dv_contents v w0) backups" "\<forall>(q, old) \<in> set backups. restorable fs v w0 q"
    "\<forall>l. l \<notin> dv_loc v ` fst ` set backups \<longrightarrow> dv_contents v w l = dv_contents v w0 l"
    using assms(2) unfolding backed_up_def by blast+
  show ?thesis
    by (cases "l \<in> dv_loc v ` fst ` set backups")
      (simp_all only: rollback_restores [OF assms(1,3) b(1,2)] assms(4) [OF assms(5)] b(3) if_True if_False simp_thms)
qed

text \<open>One success: the file has a backup now.\<close>

lemma write_backed_up:
  assumes "file_laws fs v" "backed_up fs v w0 backups w" "restorable fs v w0 p"
    and "old = dv_contents v w (dv_loc v p)" "dv_layout v w2" "dv_contents v w2 = (dv_contents v w)(dv_loc v p := Some content)"
  shows "backed_up fs v w0 ((p, old) # backups) w2"
proof -
  have b: "sound_backups (dv_loc v) (dv_contents v w0) backups"
    "\<forall>(q, old) \<in> set backups. restorable fs v w0 q \<and> dv_contents v w (dv_loc v q) \<noteq> None"
    "\<forall>l. l \<notin> dv_loc v ` fst ` set backups \<longrightarrow> dv_contents v w l = dv_contents v w0 l"
    using assms(2) unfolding backed_up_def by blast+
  have first: "old = dv_contents v w0 (dv_loc v p)" if "dv_loc v p \<notin> dv_loc v ` fst ` set backups"
    using b(3) assms(4) that by simp
  have "dv_loc v p \<notin> dv_loc v ` fst ` set backups" if "old = None"
    using b(2) assms(4) that by (fastforce simp: case_prod_beta)
  then have "old = None \<longrightarrow> dv_contents v w0 (dv_loc v p) = None" using first by metis
  then have "sound_backups (dv_loc v) (dv_contents v w0) ((p, old) # backups)" using first b(1) by simp
  moreover have "\<forall>(q, old) \<in> set ((p, old) # backups). restorable fs v w0 q \<and> dv_contents v w2 (dv_loc v q) \<noteq> None"
    using b(2) assms(3,6) by (auto simp: case_prod_beta)
  moreover have "\<forall>l. l \<notin> dv_loc v ` fst ` set ((p, old) # backups) \<longrightarrow> dv_contents v w2 l = dv_contents v w0 l"
    using b(3) assms(6) by simp
  ultimately show ?thesis unfolding backed_up_def using assms(5) by blast
qed

lemma write_staged_spec:
  assumes "file_laws fs v" "backed_up fs v w0 backups w" "\<forall>(raw, q, content) \<in> set staged. restorable fs v w0 q"
  shows "case write_staged fs staged backups w of
      (Inl e, w') \<Rightarrow> \<exists>raw p content io. (raw, p, content) \<in> set staged \<and> e = Rollback raw io \<and>
        (\<forall>l. l \<noteq> dv_loc v p \<longrightarrow> dv_contents v w' l = dv_contents v w0 l)
    | (Inr _, w') \<Rightarrow> dv_contents v w' = put_all (dv_loc v) staged (dv_contents v w)"
  using assms(2,3)
proof (induction staged arbitrary: backups w)
  case (Cons st staged)
  obtain raw p content where st: "st = (raw, p, content)" by (cases st)
  have lay: "dv_layout v w" using Cons.prems(1) by (simp add: backed_up_def)
  have fail: "\<exists>raw' p' content' io'. (raw', p', content') \<in> set (st # staged) \<and> Rollback raw io = Rollback raw' io' \<and>
      (\<forall>l. l \<noteq> dv_loc v p' \<longrightarrow> dv_contents v (rollback fs backups u) l = dv_contents v w0 l)"
    if "dv_layout v u" "\<And>l. l \<noteq> dv_loc v p \<Longrightarrow> dv_contents v u l = dv_contents v w l" for u io
    by (rule exI [of _ raw], rule exI [of _ p], rule exI [of _ content], rule exI [of _ io])
      (auto simp: st failed_write_restores [OF assms(1) Cons.prems(1) that(1), of p] that(2))
  let ?old = "case fs_read fs p w of Inr bytes \<Rightarrow> Inr (Some bytes) | Inl io \<Rightarrow> if io_not_found io then Inr None else Inl io"
  obtain r1 w1 where c: "create_parent fs p w = (r1, w1)" by (rule prod.exhaust)
  obtain r2 w2 where wr: "fs_write fs p content w1 = (r2, w2)" by (rule prod.exhaust)
  have c1: "dv_contents v w1 = dv_contents v w" "dv_layout v w1"
    using create_parent_frame [OF assms(1) lay, of p] c by simp_all
  have c2: "dv_layout v w2" "\<And>l. l \<noteq> dv_loc v p \<Longrightarrow> dv_contents v w2 l = dv_contents v w l"
    using write_layout [OF assms(1) c1(2), of p content] write_frame [OF assms(1) c1(2), of _ p content] wr c1(1) by simp_all
  show ?case
  proof (cases ?old)
    case (Inl io)
    then have "write_staged fs (st # staged) backups w = (Inl (Rollback raw io), rollback fs backups w)" by (simp add: st)
    with fail [OF lay, of io] show ?thesis by (simp only: prod.case sum.case)
  next
    case old: (Inr old)
    then have here: "old = dv_contents v w (dv_loc v p)"
      using read_ok [OF assms(1) lay, of p] read_missing [OF assms(1) lay, of p] by (auto split: sum.splits if_splits)
    show ?thesis
    proof (cases r1)
      case (Inl io)
      with old c have "write_staged fs (st # staged) backups w = (Inl (Rollback raw io), rollback fs backups w1)" by (simp add: st)
      with fail [OF c1(2), of io] c1(1) show ?thesis by (simp only: prod.case sum.case)
    next
      case r1: (Inr u)
      show ?thesis
      proof (cases r2)
        case (Inl io)
        with old c wr r1 have "write_staged fs (st # staged) backups w = (Inl (Rollback raw io), rollback fs backups w2)" by (simp add: st)
        then show ?thesis by (simp only: prod.case sum.case) (rule fail [OF c2(1)], rule c2(2))
      next
        case (Inr u')
        with old c wr r1 have step: "write_staged fs (st # staged) backups w = write_staged fs staged ((p, old) # backups) w2" by (simp add: st)
        have "fst (fs_write fs p content w1) = Inr ()" using wr Inr by simp
        from write_done [OF assms(1) c1(2) this] wr c2(2)
        have w2: "dv_contents v w2 = (dv_contents v w)(dv_loc v p := Some content)" by (auto simp: fun_eq_iff)
        have "backed_up fs v w0 ((p, old) # backups) w2"
          using write_backed_up [OF assms(1) Cons.prems(1) _ here c2(1) w2] Cons.prems(2) st by simp
        moreover have "\<forall>(raw, q, content) \<in> set staged. restorable fs v w0 q" using Cons.prems(2) by simp
        ultimately have IH: "case write_staged fs staged ((p, old) # backups) w2 of
            (Inl e, w') \<Rightarrow> \<exists>raw p content io. (raw, p, content) \<in> set staged \<and> e = Rollback raw io \<and>
              (\<forall>l. l \<noteq> dv_loc v p \<longrightarrow> dv_contents v w' l = dv_contents v w0 l)
          | (Inr _, w') \<Rightarrow> dv_contents v w' = put_all (dv_loc v) staged (dv_contents v w2)"
          by (rule Cons.IH)
        show ?thesis
        proof (cases "write_staged fs staged ((p, old) # backups) w2")
          case (Pair res w')
          with IH step w2 show ?thesis by (cases res) (auto simp: st put_all_def)
        qed
      qed
    qed
  qed
qed (simp add: put_all_def)

lemma stage_file_path: "stage_file fs x w file = Inr (raw, p, content) \<Longrightarrow> resolve_path fs x raw w = Inr p"
  by (auto simp: stage_file_def)

lemma resolve_path_error: "resolve_path fs x raw w = Inl e \<Longrightarrow> e \<noteq> Rollback raw' io"
  by (auto simp: resolve_path_def check_containment_def Let_def res_bind_eq_Inl map_err_eq_Inl
      split: if_splits sum.splits option.splits)

lemma stage_file_error: "stage_file fs x w file = Inl e \<Longrightarrow> e \<noteq> Rollback raw io"
  by (auto simp: stage_file_def fs_required_str_def ok_or_def res_bind_eq_Inl dest: resolve_path_error split: option.splits)

lemma as_array_Some: "as_array v = Some xs \<longleftrightarrow> v = JArr xs"
  by (cases v) (simp_all add: as_array_def)

lemma res_map_Inr_mem: "res_map f xs = Inr ys \<Longrightarrow> y \<in> set ys \<Longrightarrow> \<exists>x \<in> set xs. f x = Inr y"
  by (induction xs arbitrary: ys) auto

text \<open>
  C38. Writing several files is a transaction up to the file at hand, when what was there can be put
  back: assuming that no write or removal of the rollback fails, and that no path given is a
  dangling link (\<open>restorable\<close>), a call that fails while writing leaves every file other than the one
  it failed on as it was before; when it fails earlier nothing has changed; and when it succeeds
  the files hold the new contents, the last one given for each file. The file it failed on, and
  one behind a dangling link, are not restored (\<open>failing_file_not_restored\<close>, \<open>dangling_link_not_restored\<close>).
\<close>

theorem write_files_transaction:
  assumes "file_laws fs v" "dv_layout v w" "\<And>raw p. resolve_path fs x raw w = Inr p \<Longrightarrow> restorable fs v w p"
  shows "case write_files fs x input w of
      (Inl (Rollback raw io), w') \<Rightarrow> \<exists>p. resolve_path fs x raw w = Inr p \<and>
        (\<forall>l. l \<noteq> dv_loc v p \<longrightarrow> dv_contents v w' l = dv_contents v w l)
    | (Inl _, w') \<Rightarrow> w' = w
    | (Inr _, w') \<Rightarrow> \<exists>files staged. json_get input ''files'' = Some (JArr files) \<and>
        res_map (stage_file fs x w) files = Inr staged \<and> dv_contents v w' = put_all (dv_loc v) staged (dv_contents v w)"
proof (cases "res_bind (ok_or (FsMissingField ''files'') (Option.bind (json_get input ''files'') as_array)) (res_map (stage_file fs x w))")
  case (Inl e)
  have "e \<noteq> Rollback raw io" for raw io
    using Inl by (auto simp: res_bind_eq_Inl ok_or_def dest: res_map_Inl stage_file_error split: option.splits)
  with Inl show ?thesis by (simp add: write_files_def split: fs_error.split)
next
  case (Inr staged)
  then obtain files where f: "json_get input ''files'' = Some (JArr files)" "res_map (stage_file fs x w) files = Inr staged"
    by (auto simp: as_array_Some Option.bind_eq_Some_conv)
  have paths: "resolve_path fs x raw w = Inr p" if "(raw, p, content) \<in> set staged" for raw p content
  proof -
    from res_map_Inr_mem [OF f(2) that] obtain f0 where "stage_file fs x w f0 = Inr (raw, p, content)" by (rule bexE)
    then show ?thesis by (rule stage_file_path)
  qed
  then have r: "\<forall>(raw, q, content) \<in> set staged. restorable fs v w q" using assms(3) by blast
  have "backed_up fs v w [] w" using assms(2) by (simp add: backed_up_def)
  note ws = write_staged_spec [OF assms(1) this r]
  obtain res w' where r: "write_staged fs staged [] w = (res, w')" by (rule prod.exhaust)
  show ?thesis
  proof (cases res)
    case (Inl e)
    with ws r obtain raw p content io where e: "(raw, p, content) \<in> set staged" "e = Rollback raw io"
      "\<forall>l. l \<noteq> dv_loc v p \<longrightarrow> dv_contents v w' l = dv_contents v w l" by auto
    have "write_files fs x input w = (Inl e, w')" unfolding write_files_def Inr sum.case r Inl by simp
    with e paths [OF e(1)] show ?thesis by auto
  next
    case u: (Inr u)
    with ws r have "dv_contents v w' = put_all (dv_loc v) staged (dv_contents v w)" by simp
    moreover have "write_files fs x input w = (Inr (JObj [(''written'', json_num (length staged))]), w')"
      unfolding write_files_def Inr sum.case r u by simp
    ultimately show ?thesis using f by simp
  qed
qed

section \<open>Batches of reads\<close>

lemma fs_batch_loop_reads:
  assumes "\<And>v. call v w = Some (r v, w)"
  shows "\<exists>res. fs_batch_loop call picks queue window outputs w = Some (res, w) \<and>
    (case res of
       Inl e \<Rightarrow> \<exists>i \<in> set (queue @ window). r (bi_input i) = Inl e
     | Inr outs \<Rightarrow> {#(bo_node b, Inr (bo_output b)). b \<in># mset outs#} =
         {#(bo_node b, Inr (bo_output b)). b \<in># mset outputs#} + {#(bi_node i, r (bi_input i)). i \<in># mset (queue @ window)#})"
  using assms
proof (induction call picks queue window outputs w rule: fs_batch_loop.induct)
  case (1 call picks queue window outputs w)
  define free where "free = 16 - length window"
  define running where "running = window @ take free queue"
  have all: "mset (queue @ window) = mset (drop free queue) + mset running"
    unfolding running_def mset_append by (metis append_take_drop_id mset_append union_assoc union_commute)
  then have sub: "set (queue @ window) = set (drop free queue) \<union> set running"
    by (metis set_mset_mset set_mset_union)
  show ?case
  proof (cases "running = []")
    case True
    moreover from this have "queue = [] \<and> window = []" unfolding running_def free_def by (auto split: if_splits)
    ultimately show ?thesis
      by (subst fs_batch_loop.simps) simp
  next
    case False
    define i where "i = (case picks of [] \<Rightarrow> 0 | p # _ \<Rightarrow> p mod length running)"
    have i: "i < length running" using False by (auto simp: i_def split: list.splits)
    let ?b = "running ! i" and ?rest = "take i running @ drop (Suc i) running"
    have split: "mset running = add_mset ?b (mset ?rest)"
      using i by (metis id_take_nth_drop mset.simps(2) mset_append union_mset_add_mset_right)
    have mem: "?b \<in> set (queue @ window)" using i sub by simp
    note unf = fs_batch_loop.simps [of call picks queue window outputs w, folded free_def, unfolded Let_def,
        folded free_def running_def, folded i_def]
    show ?thesis
    proof (cases "r (bi_input ?b)")
      case (Inl e)
      then have "fs_batch_loop call picks queue window outputs w = Some (Inl e, w)"
        using False by (subst unf) (simp add: 1(2))
      with Inl mem show ?thesis by auto
    next
      case (Inr v)
      let ?o = "outputs @ [\<lparr>bo_node = bi_node ?b, bo_output = v\<rparr>]"
      have step: "fs_batch_loop call picks queue window outputs w = fs_batch_loop call (tl picks) (drop free queue) ?rest ?o w"
        using False Inr by (subst unf) (simp add: 1(2))
      have IH: "\<exists>res. fs_batch_loop call (tl picks) (drop free queue) ?rest ?o w = Some (res, w) \<and>
        (case res of
           Inl e \<Rightarrow> \<exists>i \<in> set (drop free queue @ ?rest). r (bi_input i) = Inl e
         | Inr outs \<Rightarrow> {#(bo_node b, Inr (bo_output b)). b \<in># mset outs#} =
             {#(bo_node b, Inr (bo_output b)). b \<in># mset ?o#} +
             {#(bi_node i, r (bi_input i)). i \<in># mset (drop free queue @ ?rest)#})"
        by (rule 1(1) [OF free_def running_def False i_def refl, of "(Inr v, w)" "Inr v" w v]) (simp_all add: 1(2) Inr)
      have "set (drop free queue @ ?rest) \<subseteq> set (queue @ window)"
        using sub set_take_subset [of i running] set_drop_subset [of "Suc i" running] by auto
      moreover have "mset (queue @ window) = add_mset ?b (mset (drop free queue @ ?rest))"
        unfolding all split by simp
      ultimately show ?thesis using IH Inr unfolding step by (fastforce split: sum.splits)
    qed
  qed
qed

text \<open>
  A batch of reads always returns and changes nothing: it fails only with the failure of one
  of its reads, and otherwise answers each input once, under the input's node, with what that read
  alone would give, in whatever order the reads complete.
\<close>

theorem read_batch_spec:
  "\<exists>res. fs_call_batch fs glob x picks ''read_file'' inputs w = Some (res, w) \<and>
    (case res of
       Inl e \<Rightarrow> \<exists>i \<in> set inputs. map_err fs_tool_error (read_file fs x (bi_input i) w) = Inl e
     | Inr outs \<Rightarrow> {#(bo_node b, Inr (bo_output b)). b \<in># mset outs#} =
         {#(bi_node i, map_err fs_tool_error (read_file fs x (bi_input i) w)). i \<in># mset inputs#})"
proof -
  have "fs_call fs glob x ''read_file'' v w = Some (map_err fs_tool_error (read_file fs x v w), w)" for v
    by (simp add: fs_call_def fs_execute_def)
  from fs_batch_loop_reads [of "fs_call fs glob x ''read_file''" w, OF this, of picks inputs "[]" "[]"]
  show ?thesis unfolding fs_call_batch_def append_Nil2 mset.simps(1) image_mset_empty add_0 .
qed

section \<open>Listing directories\<close>

definition subdirs :: "(io_error, dir_entry) result list \<Rightarrow> string list" where
  "subdirs es = concat (map (\<lambda>e. case e of Inr (name, Inr DirEntry) \<Rightarrow> [name] | _ \<Rightarrow> []) es)"

text \<open>The tree below every directory is finite: \<open>weight\<close> counts it.\<close>

definition finite_tree :: "'w file_system \<Rightarrow> 'w \<Rightarrow> (path \<Rightarrow> nat) \<Rightarrow> bool" where
  "finite_tree fs w weight \<longleftrightarrow> (\<forall>dir es. fs_read_dir fs dir w = Inr es \<longrightarrow>
     sum_list (map (\<lambda>name. weight (dir @ [Normal name])) (subdirs es)) < weight dir)"

definition queue_weight :: "(path \<Rightarrow> nat) \<Rightarrow> (path \<times> string) list \<Rightarrow> nat" where
  "queue_weight weight q = sum_list (map (\<lambda>d. weight (fst d)) q)"

definition listing_ok :: "(string \<Rightarrow> bool) \<Rightarrow> nat \<Rightarrow> (string \<times> file_kind) list \<Rightarrow> bool \<Rightarrow> bool" where
  "listing_ok matches max_entries entries truncated \<longleftrightarrow> length entries \<le> max_entries \<and>
     (\<forall>e \<in> set entries. matches (fst e)) \<and> (truncated \<longrightarrow> length entries = max_entries)"

lemma scan_dir_entry:
  assumes "scan_dir dir pre recursive matches max_entries (e # es) st = Inr st'"
  shows "\<exists>name kind. e = Inr (name, Inr kind)"
proof (cases e)
  case (Inr b)
  obtain name r where b: "b = (name, r)" by (cases b)
  with assms Inr show ?thesis by (cases r; cases st) auto
qed (use assms in \<open>cases st; simp\<close>)

lemma scan_dir_spec:
  assumes "scan_dir dir pre recursive matches max_entries es (q, entries, truncated) = Inr (q', entries', truncated')"
    and "listing_ok matches max_entries entries truncated"
  shows "listing_ok matches max_entries entries' truncated' \<and>
    queue_weight weight q' \<le> queue_weight weight q + sum_list (map (\<lambda>name. weight (dir @ [Normal name])) (subdirs es))"
  using assms
proof (induction es arbitrary: q entries truncated)
  case (Cons e es)
  from scan_dir_entry [OF Cons.prems(1)] obtain name kind where e: "e = Inr (name, Inr kind)" by blast
  let ?rel = "if pre = [] then utf8_lossy name else pre @ ''/'' @ utf8_lossy name"
  let ?q = "if kind = DirEntry \<and> recursive then (dir @ [Normal name], ?rel) # q else q"
  have w: "queue_weight weight ?q + sum_list (map (\<lambda>name. weight (dir @ [Normal name])) (subdirs es))
      \<le> queue_weight weight q + sum_list (map (\<lambda>name. weight (dir @ [Normal name])) (subdirs (e # es)))"
    by (cases kind) (simp_all add: e queue_weight_def subdirs_def)
  show ?case
  proof (cases "\<not> matches ?rel")
    case True
    then have "scan_dir dir pre recursive matches max_entries es (?q, entries, truncated) = Inr (q', entries', truncated')"
      using Cons.prems(1) by (simp add: e Let_def)
    from Cons.IH [OF this Cons.prems(2)] w show ?thesis by linarith
  next
    case m: False
    show ?thesis
    proof (cases "length entries \<ge> max_entries")
      case True
      then have "q' = []" "entries' = entries" "truncated'" using Cons.prems(1) m by (simp_all add: e Let_def)
      with True Cons.prems(2) show ?thesis by (simp add: listing_ok_def queue_weight_def)
    next
      case False
      then have "scan_dir dir pre recursive matches max_entries es (?q, entries @ [(?rel, kind)], truncated) = Inr (q', entries', truncated')"
        using Cons.prems(1) m by (simp add: e Let_def)
      moreover have "listing_ok matches max_entries (entries @ [(?rel, kind)]) truncated"
        using Cons.prems(2) m False by (auto simp: listing_ok_def)
      ultimately show ?thesis using Cons.IH w by (meson add_mono_thms_linordered_semiring(1) le_trans)
    qed
  qed
qed (simp add: subdirs_def)

lemma list_loop_spec:
  assumes "finite_tree fs w weight" "listing_ok matches max_entries entries truncated"
  shows "\<exists>res. list_loop fs w recursive matches max_entries (q, entries, truncated) = Some res \<and>
    (\<forall>es tr. res = Inr (es, tr) \<longrightarrow> listing_ok matches max_entries es tr)"
  using assms(2)
proof (induction "queue_weight weight q" arbitrary: q entries truncated rule: less_induct)
  case less
  show ?case
  proof (cases q)
    case Nil
    then show ?thesis using less.prems by (simp add: list_loop.simps)
  next
    case (Cons d rest)
    obtain dir pre where d: "d = (dir, pre)" by (cases d)
    show ?thesis
    proof (cases "fs_read_dir fs dir w")
      case (Inl io)
      then show ?thesis by (simp add: list_loop.simps Cons d)
    next
      case es: (Inr es)
      show ?thesis
      proof (cases "scan_dir dir pre recursive matches max_entries es (rest, entries, truncated)")
        case (Inl io)
        with es show ?thesis by (simp add: list_loop.simps Cons d)
      next
        case (Inr st)
        obtain q' entries' truncated' where st: "st = (q', entries', truncated')" by (cases st)
        from scan_dir_spec [OF Inr [unfolded st] less.prems, of weight]
        have ok: "listing_ok matches max_entries entries' truncated'"
          "queue_weight weight q' \<le> queue_weight weight rest + sum_list (map (\<lambda>name. weight (dir @ [Normal name])) (subdirs es))" by simp_all
        moreover have "sum_list (map (\<lambda>name. weight (dir @ [Normal name])) (subdirs es)) < weight dir"
          using assms(1) es by (simp add: finite_tree_def)
        ultimately have "queue_weight weight q' < queue_weight weight q" by (simp add: Cons d queue_weight_def)
        moreover have "list_loop fs w recursive matches max_entries (q, entries, truncated) =
            list_loop fs w recursive matches max_entries (q', entries', truncated')"
          by (subst list_loop.simps) (simp add: Cons d es Inr st)
        ultimately show ?thesis using less.hyps [OF _ ok(1)] by simp
      qed
    qed
  qed
qed

text \<open>
  Listing a directory of a finite tree returns; a listing is sorted by name, holds only
  entries the glob matches, never more than the cap, and is marked as truncated only when it is
  full.
\<close>

theorem list_dir_spec:
  assumes "finite_tree fs w weight"
  shows "\<exists>res. list_dir fs glob x input w = Some res \<and>
    (\<forall>v. res = Inr v \<longrightarrow> (\<exists>entries truncated matches. list_matcher glob input = Inr matches \<and>
       sorted (map fst entries) \<and> listing_ok matches (fx_max_entries x) entries truncated \<and>
       v = JObj ((''entries'', JArr (map entry_json entries)) # (if truncated then [(''truncated'', JBool True)] else []))))"
proof (cases "res_bind (fs_required_str input ''path'') (\<lambda>raw. resolve_path fs x raw w)")
  case (Inl e)
  then show ?thesis unfolding list_dir_def Inl by simp
next
  case base: (Inr base)
  show ?thesis
  proof (cases "list_matcher glob input")
    case (Inl e)
    then show ?thesis unfolding list_dir_def base Let_def by simp
  next
    case m: (Inr matches)
    let ?r = "Option.bind (json_get input ''recursive'') as_bool = Some True"
    have "listing_ok matches (fx_max_entries x) [] False" by (simp add: listing_ok_def)
    from list_loop_spec [OF assms this, of ?r "[(base, [])]"] obtain res where
      r: "list_loop fs w ?r matches (fx_max_entries x) ([(base, [])], [], False) = Some res"
        "\<forall>es tr. res = Inr (es, tr) \<longrightarrow> listing_ok matches (fx_max_entries x) es tr" by blast
    define out where "out = res_bind res (\<lambda>(entries, truncated).
                   Inr (JObj ((''entries'', JArr (map entry_json (sort_key fst entries))) #
                     (if truncated then [(''truncated'', JBool True)] else []))))"
    have eq: "list_dir fs glob x input w = Some out"
      unfolding list_dir_def base sum.case Let_def m r out_def by simp
    have "\<exists>entries truncated. sorted (map fst entries) \<and> listing_ok matches (fx_max_entries x) entries truncated \<and>
       v = JObj ((''entries'', JArr (map entry_json entries)) # (if truncated then [(''truncated'', JBool True)] else []))"
      if v: "out = Inr v" for v
    proof -
      from v obtain es tr where e: "res = Inr (es, tr)" "v = JObj ((''entries'', JArr (map entry_json (sort_key fst es))) #
                     (if tr then [(''truncated'', JBool True)] else []))" by (auto simp: out_def)
      with r(2) have "listing_ok matches (fx_max_entries x) (sort_key fst es) tr" by (simp add: listing_ok_def)
      with e(2) show ?thesis by (intro exI [of _ "sort_key fst es"] exI [of _ tr]) simp
    qed
    with eq m show ?thesis by blast
  qed
qed

section \<open>Concrete disks\<close>

text \<open>A flat disk whose writes fail, half done, beyond eight bytes.\<close>

definition flat_fs :: "(path \<Rightarrow> string option) file_system" where
  "flat_fs = \<lparr>fs_canonicalize = (\<lambda>p w. Inr p), fs_exists = (\<lambda>p w. True),
     fs_read = (\<lambda>p w. case w p of Some b \<Rightarrow> Inr b | None \<Rightarrow> Inl (IoError True ''not found'')),
     fs_write = (\<lambda>p b w. if length b \<le> 8 then (Inr (), w(p := Some b))
        else (Inl (IoError False ''disk full''), w(p := Some (take 8 b)))),
     fs_create_dir_all = (\<lambda>p w. (Inr (), w)),
     fs_remove_file = (\<lambda>p w. if w p = None then (Inl (IoError True ''not found''), w) else (Inr (), w(p := None))),
     fs_read_dir = (\<lambda>p w. if p = [RootDir] then Inr [Inr (''src'', Inr DirEntry), Inr (''b'', Inr FileEntry), Inr (''a'', Inr FileEntry)]
        else if p = [RootDir, Normal ''src''] then Inr [Inr (''c.rs'', Inr FileEntry)]
        else Inl (IoError True ''not found''))\<rparr>"

definition flat_view :: "(path \<Rightarrow> string option, path) disk_view" where
  "flat_view = \<lparr>dv_loc = (\<lambda>p. p), dv_contents = (\<lambda>w. w), dv_link = (\<lambda>_. False), dv_layout = (\<lambda>_. True)\<rparr>"

lemma flat_laws: "file_laws flat_fs flat_view"
  by (auto simp: file_laws_def flat_fs_def flat_view_def split: option.splits)

definition at_root :: "string \<Rightarrow> path" where "at_root name = [RootDir, Normal name]"

definition two_files :: "path \<Rightarrow> string option" where
  "two_files = (\<lambda>p. if p = at_root ''a'' then Some ''old'' else if p = at_root ''b'' then Some ''keep'' else None)"

definition small_executor :: "path \<Rightarrow> fs_executor" where
  "small_executor root = \<lparr>fx_root = root, fx_max_read_bytes = 100, fx_max_entries = 4\<rparr>"

definition two_writes :: json where
  "two_writes = JObj [(''files'', JArr [JObj [(''content'', JStr ''new''), (''path'', JStr ''a'')],
     JObj [(''content'', JStr ''much too long''), (''path'', JStr ''b'')]])]"

text \<open>The file the write failed on is not restored: its backup is taken but never used.\<close>

lemma failing_file_not_restored:
  "case write_files flat_fs (small_executor [RootDir]) two_writes two_files of
     (Inl (Rollback raw io), w') \<Rightarrow> raw = ''b'' \<and> w' (at_root ''a'') = Some ''old'' \<and> w' (at_root ''b'') = Some ''much too''
   | _ \<Rightarrow> False"
  by code_simp

theorem write_files_transaction_witness:
  "\<exists>w'. snd (write_files flat_fs (small_executor [RootDir]) two_writes two_files) = w' \<and> w' (at_root ''a'') = Some ''old''"
proof -
  have r: "restorable flat_fs flat_view two_files p" for p
    by (auto simp: restorable_def flat_fs_def flat_view_def two_files_def)
  have l: "dv_layout flat_view two_files" by (simp add: flat_view_def)
  obtain raw io w' where f: "write_files flat_fs (small_executor [RootDir]) two_writes two_files = (Inl (Rollback raw io), w')" "raw = ''b''"
    using failing_file_not_restored by (auto split: prod.splits sum.splits fs_error.splits)
  from write_files_transaction [OF flat_laws l r, where x = "small_executor [RootDir]" and input = two_writes]
  obtain p where p: "resolve_path flat_fs (small_executor [RootDir]) ''b'' two_files = Inr p" "\<forall>l. l \<noteq> p \<longrightarrow> w' l = two_files l"
    unfolding f by (auto simp: flat_view_def)
  have "resolve_path flat_fs (small_executor [RootDir]) ''b'' two_files = Inr (at_root ''b'')" by code_simp
  with p f(1) show ?thesis by (simp add: at_root_def two_files_def)
qed

theorem capped_content_spec_witness:
  "capped_content 2 [CHR ''h'', CHR 0xC3, CHR 0xA9] = JObj [(''bytes'', json_num 3), (''content'', JStr ''h''), (''truncated'', JBool True)]
   \<and> utf8_valid ''h''"
proof -
  have v: "utf8_valid [CHR ''h'', CHR 0xC3, CHR 0xA9]" and
    c: "capped_content 2 [CHR ''h'', CHR 0xC3, CHR 0xA9] = JObj [(''bytes'', json_num 3), (''content'', JStr ''h''), (''truncated'', JBool True)]"
    by code_simp+
  from capped_content_spec [OF v, of 2] c show ?thesis by (simp add: json_get_def)
qed

theorem list_dir_spec_witness:
  "\<exists>res. list_dir flat_fs (\<lambda>_. Inr (\<lambda>_. True)) (small_executor [RootDir])
     (JObj [(''path'', JStr ''.''), (''recursive'', JBool True)]) two_files = Some res"
proof -
  have "finite_tree flat_fs two_files (\<lambda>d. 3 - length d)"
    by (auto simp: finite_tree_def flat_fs_def subdirs_def)
  from list_dir_spec [OF this] show ?thesis by blast
qed

text \<open>
  A dangling link below the root: nothing exists behind it, so the deepest existing ancestor is the
  root itself, the path is accepted, and a write through the link creates a file outside.
\<close>

definition through_link :: "path \<Rightarrow> path" where
  "through_link p = (if p = [RootDir, Normal ''r'', Normal ''l''] then [RootDir, Normal ''x''] else p)"

definition link_exists :: "path \<Rightarrow> (path \<Rightarrow> string option) \<Rightarrow> bool" where
  "link_exists p w \<longleftrightarrow> through_link p = [RootDir] \<or> through_link p = [RootDir, Normal ''r''] \<or> w (through_link p) \<noteq> None"

definition link_fs :: "(path \<Rightarrow> string option) file_system" where
  "link_fs = flat_fs\<lparr>fs_exists := link_exists,
     fs_canonicalize := (\<lambda>p w. if link_exists p w then Inr (through_link p) else Inl (IoError True ''not found'')),
     fs_write := (\<lambda>p b w. (Inr (), w(through_link p := Some b)))\<rparr>"

lemma dangling_link_escapes:
  "case write_file link_fs (small_executor [RootDir, Normal ''r''])
     (JObj [(''content'', JStr ''c''), (''path'', JStr ''l'')]) (\<lambda>_. None) of
     (Inr v, w) \<Rightarrow> w [RootDir, Normal ''x''] = Some ''c''
   | _ \<Rightarrow> False"
  by code_simp

text \<open>
  The rollback of a write through a dangling link: the path had no file, so it is removed, which
  takes the link away and leaves the file that the write created. The state is whether the link
  is still there, and the files.
\<close>

definition behind :: "bool \<Rightarrow> path \<Rightarrow> path" where
  "behind linked p = (if linked then through_link p else p)"

definition unlink_fs :: "(bool \<times> (path \<Rightarrow> string option)) file_system" where
  "unlink_fs = \<lparr>fs_canonicalize = (\<lambda>p w. Inr p), fs_exists = (\<lambda>p w. True),
     fs_read = (\<lambda>p (linked, c). case c (behind linked p) of Some b \<Rightarrow> Inr b | None \<Rightarrow> Inl (IoError True ''not found'')),
     fs_write = (\<lambda>p b (linked, c). if length b \<le> 8 then (Inr (), (linked, c(behind linked p := Some b)))
        else (Inl (IoError False ''disk full''), (linked, c))),
     fs_create_dir_all = (\<lambda>p w. (Inr (), w)),
     fs_remove_file = (\<lambda>p (linked, c). if linked \<and> through_link p \<noteq> p then (Inr (), (False, c)) else (Inr (), (linked, c(p := None)))),
     fs_read_dir = (\<lambda>p w. Inl (IoError True ''not found''))\<rparr>"

lemma dangling_link_not_restored:
  "case write_files unlink_fs (small_executor [RootDir, Normal ''r''])
     (JObj [(''files'', JArr [JObj [(''content'', JStr ''new''), (''path'', JStr ''l'')],
        JObj [(''content'', JStr ''much too long''), (''path'', JStr ''b'')]])]) (True, \<lambda>_. None) of
     (Inl (Rollback raw io), (linked, c)) \<Rightarrow> raw = ''b'' \<and> \<not> linked \<and> c [RootDir, Normal ''x''] = Some ''new''
   | _ \<Rightarrow> False"
  by code_simp

theorem resolve_path_spec_witness:
  "resolve_path link_fs (small_executor [RootDir, Normal ''r'']) ''l''
     (\<lambda>p. if p = [RootDir, Normal ''x''] then Some ''secret'' else None) = Inl (EscapesRoot ''l'')"
proof -
  let ?w = "\<lambda>p. if p = [RootDir, Normal ''x''] then Some ''secret'' else None"
  let ?x = "small_executor [RootDir, Normal ''r'']"
  have "leaves_root link_fs ?w (fx_root ?x) (path_join (fx_root ?x) (path_components ''l''))"
    unfolding leaves_root_probe by code_simp
  with resolve_path_spec [of link_fs ?x "''l''" ?w] show ?thesis by blast
qed

end
