(* ===== verification/HttpAdapter.thy ===== *)
theory HttpAdapter
  imports AdapterApi Ir
begin

text \<open>
  The HTTP adapter, \<^verbatim>\<open>crates/tool-compiler-adapter-http\<close>: requests from inputs and the fixed
  response contract (\<^verbatim>\<open>lib.rs\<close>), and what the batteries-included client makes of them
  (\<^verbatim>\<open>reqwest_client.rs\<close>). The transport, the JSON parser and Unicode case mapping are parameters.
\<close>

section \<open>Requests and responses\<close>

record http_request =
  hr_method :: string
  hr_url :: string
  hr_headers :: "(string, string) btree"
  hr_body :: "string option"

record http_response =
  hp_status :: "16 word"
  hp_headers :: "(string, string) btree"
  hp_body :: json

datatype http_error = HttpMissingField string | InvalidHeaders | InvalidMethod string | HttpTimeout | HttpClientError string

definition http_error_to_string :: "http_error \<Rightarrow> string" where
  "http_error_to_string e = (case e of
       HttpMissingField f \<Rightarrow> ''missing string field '' @ [CHR 0x27] @ f @ [CHR 0x27]
     | InvalidHeaders \<Rightarrow> ''headers must be an object of string values''
     | InvalidMethod m \<Rightarrow> ''invalid http method '' @ [CHR 0x27] @ m @ [CHR 0x27]
     | HttpTimeout \<Rightarrow> ''http request timed out''
     | HttpClientError m \<Rightarrow> ''http client error: '' @ m)"

definition http_tool_error :: "http_error \<Rightarrow> tool_execution_error" where
  "http_tool_error e =
     (let (code, retryable) = (case e of
          HttpTimeout \<Rightarrow> (''timeout'', Some True) | HttpClientError _ \<Rightarrow> (''http'', None)
        | _ \<Rightarrow> (''invalid_input'', Some False));
          err = with_code code (error_new (http_error_to_string e))
      in case retryable of None \<Rightarrow> err | Some r \<Rightarrow> with_retryable r err)"

type_synonym case_map = "string \<Rightarrow> string"

fun request_headers :: "case_map \<Rightarrow> (string \<times> json) list \<Rightarrow> (string, string) btree \<Rightarrow> (http_error, (string, string) btree) result" where
  "request_headers lower [] headers = Inr headers"
| "request_headers lower ((name, v) # rest) headers =
     (case as_str v of
        None \<Rightarrow> Inl InvalidHeaders
      | Some text \<Rightarrow> request_headers lower rest (bt_insert (lower name) text headers))"

definition headers_of :: "case_map \<Rightarrow> json \<Rightarrow> (http_error, (string, string) btree) result" where
  "headers_of lower input = (case json_get input ''headers'' of
     None \<Rightarrow> Inr []
   | Some (JObj kvs) \<Rightarrow> request_headers lower kvs []
   | Some _ \<Rightarrow> Inl InvalidHeaders)"

text \<open>A body that is not a string is sent as JSON and says so, unless the input names a type.\<close>

definition body_of :: "json \<Rightarrow> (string, string) btree \<Rightarrow> string option \<times> (string, string) btree" where
  "body_of input headers = (case json_get input ''body'' of
     None \<Rightarrow> (None, headers)
   | Some JNull \<Rightarrow> (None, headers)
   | Some (JStr text) \<Rightarrow> (Some text, headers)
   | Some other \<Rightarrow> (Some (json_to_string other),
       if bt_mem ''content-type'' headers then headers else bt_insert ''content-type'' ''application/json'' headers))"

definition build_request :: "case_map \<Rightarrow> case_map \<Rightarrow> json \<Rightarrow> (http_error, http_request) result" where
  "build_request upper lower input =
     res_bind (ok_or (HttpMissingField ''url'') (Option.bind (json_get input ''url'') as_str)) (\<lambda>url.
     let http_method = upper (case Option.bind (json_get input ''method'') as_str of None \<Rightarrow> ''GET'' | Some m \<Rightarrow> m) in
     res_bind (headers_of lower input) (\<lambda>headers.
       case body_of input headers of (body, headers') \<Rightarrow>
         Inr \<lparr>hr_method = http_method, hr_url = url, hr_headers = headers', hr_body = body\<rparr>))"

definition headers_json :: "(string, string) btree \<Rightarrow> json" where
  "headers_json headers = JObj (map (\<lambda>(k, v). (k, JStr v)) headers)"

definition response_json :: "http_response \<Rightarrow> json" where
  "response_json r = JObj [(''body'', hp_body r), (''headers'', headers_json (hp_headers r)),
     (''ok'', JBool (200 \<le> unat (hp_status r) \<and> unat (hp_status r) < 300)), (''status'', json_num (unat (hp_status r)))]"

type_synonym 'w http_client = "http_request \<Rightarrow> 'w \<Rightarrow> (http_error, http_response) result \<times> 'w"

definition http_call :: "case_map \<Rightarrow> case_map \<Rightarrow> 'w http_client \<Rightarrow> string \<Rightarrow> json \<Rightarrow> 'w
    \<Rightarrow> (tool_execution_error, json) result \<times> 'w" where
  "http_call upper lower client tool input w =
     (if tool \<noteq> ''request''
      then (Inl (with_code ''unknown_tool'' (error_new (''unknown http tool '' @ [CHR 0x27] @ tool @ [CHR 0x27]))), w)
      else case build_request upper lower input of
          Inl e \<Rightarrow> (Inl (http_tool_error e), w)
        | Inr request \<Rightarrow>
            (case client request w of
               (Inl e, w1) \<Rightarrow> (Inl (http_tool_error e), w1)
             | (Inr response, w1) \<Rightarrow> (Inr (response_json response), w1)))"

definition read_endpoint :: "resource list \<Rightarrow> tool_spec" where
  "read_endpoint resources = (tool_spec_new ''http'')\<lparr>spec_effects := Some (effects_read_only resources)\<rparr>"

definition pure_endpoint :: tool_spec where
  "pure_endpoint = (tool_spec_new ''http'')\<lparr>spec_effects := Some effects_pure\<rparr>"

definition write_endpoint :: "bool \<Rightarrow> resource list \<Rightarrow> tool_spec" where
  "write_endpoint idempotent resources = (tool_spec_new ''http'')\<lparr>spec_effects :=
     Some (effects_default\<lparr>eff_writes := bs_of_list resources, eff_idempotent := idempotent, eff_cacheable := False\<rparr>)\<rparr>"

section \<open>The reqwest client\<close>

record reqwest_client =
  rc_base_url :: "string option"
  rc_default_headers :: "(string, string) btree"

definition reqwest_new :: reqwest_client where
  "reqwest_new = \<lparr>rc_base_url = None, rc_default_headers = []\<rparr>"

definition with_base_url :: "string \<Rightarrow> reqwest_client \<Rightarrow> reqwest_client" where
  "with_base_url base c = c\<lparr>rc_base_url := Some base\<rparr>"

definition with_default_header :: "case_map \<Rightarrow> string \<Rightarrow> string \<Rightarrow> reqwest_client \<Rightarrow> reqwest_client" where
  "with_default_header lower name v c = c\<lparr>rc_default_headers := bt_insert (lower name) v (rc_default_headers c)\<rparr>"

definition trim_end_slashes :: "string \<Rightarrow> string" where
  "trim_end_slashes s = rev (dropWhile (\<lambda>c. c = CHR ''/'') (rev s))"

definition full_url :: "reqwest_client \<Rightarrow> string \<Rightarrow> string" where
  "full_url c url = (case (rc_base_url c, prefix ''http'' url) of
     (Some base, False) \<Rightarrow> trim_end_slashes base @ ''/'' @ dropWhile (\<lambda>c. c = CHR ''/'') url
   | _ \<Rightarrow> url)"

text \<open>The headers in the order they are added: the defaults the request does not set, then its own.\<close>

definition sent_headers :: "reqwest_client \<Rightarrow> http_request \<Rightarrow> (string \<times> string) list" where
  "sent_headers c q =
     filter (\<lambda>(name, v). \<not> bt_mem name (hr_headers q)) (rc_default_headers c) @ hr_headers q"

text \<open>
  The transport: what a method, a URL, headers and a body bring back. Header values that are not
  visible ASCII are \<open>None\<close>; reading the body may fail.
\<close>

datatype send_error = SendTimeout | SendFailed string

record raw_response =
  rw_status :: "16 word"
  rw_headers :: "(string \<times> string option) list"
  rw_text :: "(string, string) result"

type_synonym 'w transport = "string \<Rightarrow> string \<Rightarrow> (string \<times> string) list \<Rightarrow> string option \<Rightarrow> 'w
  \<Rightarrow> (send_error, raw_response) result \<times> 'w"

definition response_headers :: "case_map \<Rightarrow> (string \<times> string option) list \<Rightarrow> (string, string) btree" where
  "response_headers lower hs = foldl (\<lambda>m (name, v). case v of None \<Rightarrow> m | Some text \<Rightarrow> bt_insert (lower name) text m) [] hs"

definition response_body :: "(string \<Rightarrow> json option) \<Rightarrow> (string, string) btree \<Rightarrow> string \<Rightarrow> json" where
  "response_body parse headers text =
     (if (case map_of headers ''content-type'' of None \<Rightarrow> False | Some v \<Rightarrow> str_contains ''json'' v)
      then (case parse text of Some v \<Rightarrow> v | None \<Rightarrow> JStr text) else JStr text)"

definition reqwest_request :: "(string \<Rightarrow> bool) \<Rightarrow> (string \<Rightarrow> json option) \<Rightarrow> case_map \<Rightarrow> 'w transport \<Rightarrow> reqwest_client
    \<Rightarrow> 'w http_client" where
  "reqwest_request valid_method parse lower transport c q w =
     (if \<not> valid_method (hr_method q) then (Inl (InvalidMethod (hr_method q)), w)
      else case transport (hr_method q) (full_url c (hr_url q)) (sent_headers c q) (hr_body q) w of
          (Inl SendTimeout, w1) \<Rightarrow> (Inl HttpTimeout, w1)
        | (Inl (SendFailed m), w1) \<Rightarrow> (Inl (HttpClientError m), w1)
        | (Inr raw, w1) \<Rightarrow>
            (let headers = response_headers lower (rw_headers raw) in
             case rw_text raw of
               Inl m \<Rightarrow> (Inl (HttpClientError m), w1)
             | Inr text \<Rightarrow> (Inr \<lparr>hp_status = rw_status raw, hp_headers = headers,
                 hp_body = response_body parse headers text\<rparr>, w1)))"

section \<open>The headers that leave\<close>

lemma request_headers_spec:
  "request_headers lower kvs hs = Inr hs' \<Longrightarrow> bt_ok hs \<Longrightarrow>
     bt_ok hs' \<and> fst ` set hs' = fst ` set hs \<union> (lower \<circ> fst) ` set kvs"
proof (induction lower kvs hs rule: request_headers.induct)
  case (2 lower name v rest headers)
  then show ?case by (auto split: option.splits)
qed auto

lemma headers_of_ok: "headers_of lower input = Inr hs \<Longrightarrow> bt_ok hs"
  using request_headers_spec [of lower _ "[]"] by (auto simp: headers_of_def split: option.splits json.splits)

lemma body_of_ok: "bt_ok hs \<Longrightarrow> body_of input hs = (b, hs') \<Longrightarrow> bt_ok hs'"
  by (auto simp: body_of_def split: option.splits json.splits if_splits)

lemma body_of_headers:
  "body_of input hs = (b, hs') \<Longrightarrow> map_of hs' name =
     (if name = ''content-type'' \<and> map_of hs name = None \<and> (\<exists>v. json_get input ''body'' = Some v \<and> v \<noteq> JNull \<and> as_str v = None)
      then Some ''application/json'' else map_of hs name)"
  by (auto simp: body_of_def bt_mem_def as_str_def split: option.splits json.splits if_splits)

lemma build_request_headers:
  assumes "build_request upper lower input = Inr q"
  obtains hs where "headers_of lower input = Inr hs" "bt_ok hs" "bt_ok (hr_headers q)"
    "body_of input hs = (hr_body q, hr_headers q)"
proof -
  obtain hs where hs: "headers_of lower input = Inr hs" "body_of input hs = (hr_body q, hr_headers q)"
    using assms by (cases "headers_of lower input")
      (auto simp: build_request_def Let_def case_prod_unfold prod_eq_iff elim!: meta_mp)
  then show thesis using that headers_of_ok body_of_ok by blast
qed

lemma sent_headers_get:
  "map_of (sent_headers c q) name =
     (case map_of (hr_headers q) name of Some v \<Rightarrow> Some v | None \<Rightarrow> map_of (rc_default_headers c) name)"
proof -
  have "map_of (filter (\<lambda>(k, v). \<not> bt_mem k m) xs) name = (if bt_mem name m then None else map_of xs name)"
    for m :: "(string, string) btree" and xs :: "(string \<times> string) list"
    by (induction xs) auto
  then show ?thesis
    by (auto simp: sent_headers_def map_add_def bt_mem_def split: option.splits)
qed

lemma sent_headers_distinct:
  assumes "bt_ok (rc_default_headers c)" "bt_ok (hr_headers q)"
  shows "distinct (map fst (sent_headers c q))"
proof -
  have "distinct (map fst (filter P xs))" if "distinct (map fst xs)" for P and xs :: "(string \<times> string) list"
    using that by (simp add: distinct_map_filter)
  then show ?thesis
    using bt_ok_distinct [OF assms(1)] bt_ok_distinct [OF assms(2)]
    by (auto simp: sent_headers_def bt_mem_iff) (force simp: image_iff)?
qed

text \<open>
  The request built from an input and sent by the client carries every header at most once:
  those of the input under their lower-case names, JSON as content type exactly when the body is
  a JSON value and the input names no type, and a default header of the client exactly when the
  request does not set it.
\<close>

theorem sent_headers_spec:
  assumes "build_request upper lower input = Inr q" "bt_ok (rc_default_headers c)"
  shows "distinct (map fst (sent_headers c q)) \<and>
    (\<exists>hs. headers_of lower input = Inr hs \<and>
       (\<forall>name. map_of (sent_headers c q) name =
         (case map_of hs name of
            Some v \<Rightarrow> Some v
          | None \<Rightarrow> if name = ''content-type'' \<and> (\<exists>v. json_get input ''body'' = Some v \<and> v \<noteq> JNull \<and> as_str v = None)
              then Some ''application/json'' else map_of (rc_default_headers c) name)))"
proof -
  obtain hs where hs: "headers_of lower input = Inr hs" "bt_ok (hr_headers q)"
      "body_of input hs = (hr_body q, hr_headers q)"
    using build_request_headers [OF assms(1)] by blast
  then show ?thesis
    using sent_headers_distinct [OF assms(2) hs(2)]
    by (auto simp: sent_headers_get body_of_headers [OF hs(3)] split: option.splits)
qed

definition example_request :: json where
  "example_request = JObj [(''body'', JObj []), (''headers'', JObj [(''x'', JStr ''1'')]), (''url'', JStr ''u'')]"

definition example_client :: reqwest_client where
  "example_client = \<lparr>rc_base_url = None, rc_default_headers = [(''accept'', ''*''), (''x'', ''0'')]\<rparr>"

theorem sent_headers_spec_witness:
  "\<exists>q. build_request id id example_request = Inr q \<and> distinct (map fst (sent_headers example_client q)) \<and>
     map_of (sent_headers example_client q) ''x'' = Some ''1''"
proof -
  let ?q = "\<lparr>hr_method = ''GET'', hr_url = ''u'', hr_headers = [(''content-type'', ''application/json''), (''x'', ''1'')],
    hr_body = Some ''{}''\<rparr>"
  have b: "build_request id id example_request = Inr ?q" by code_simp
  have "headers_of id example_request = Inr [(''x'', ''1'')]" by code_simp
  moreover have "bt_ok (rc_default_headers example_client)" by code_simp
  ultimately show ?thesis using sent_headers_spec [OF b, of example_client] b by auto
qed

end
