(* ===== verification/McpProto.thy ===== *)
theory McpProto
  imports AdapterApi Graph
begin

text \<open>
  The MCP adapter without its transports: the JSON-RPC messages (\<^verbatim>\<open>adapter-mcp/src/proto.rs\<close>), the
  executor over a client, and the capabilities derived from a server's annotations
  (\<^verbatim>\<open>lib.rs\<close>). The client is a record of functions over the state \<open>'w\<close> of the world; the version
  of the package is a parameter.
\<close>

section \<open>Errors\<close>

datatype mcp_client_error =
    McpTransportError string
  | McpProtocolError string
  | UnsupportedVersion string
  | McpServerError int string
  | McpTimeout nat
  | McpToolError string

definition int_dec :: "int \<Rightarrow> string" where
  "int_dec i = (if i < 0 then ''-'' @ dec (nat (- i)) else dec (nat i))"

definition mcp_error_to_string :: "mcp_client_error \<Rightarrow> string" where
  "mcp_error_to_string e = (case e of
       McpTransportError m \<Rightarrow> ''mcp transport error: '' @ m
     | McpProtocolError m \<Rightarrow> ''mcp protocol error: '' @ m
     | UnsupportedVersion v \<Rightarrow> ''mcp server negotiated unsupported protocol version '' @ [CHR 0x27] @ v @ [CHR 0x27]
     | McpServerError code m \<Rightarrow> ''mcp server error '' @ int_dec code @ '': '' @ m
     | McpTimeout ms \<Rightarrow> ''mcp request timed out after '' @ dec ms @ ''ms''
     | McpToolError m \<Rightarrow> ''mcp tool failed: '' @ m)"

definition mcp_tool_error :: "mcp_client_error \<Rightarrow> tool_execution_error" where
  "mcp_tool_error e =
     (let (code, retryable) = (case e of
          McpTransportError _ \<Rightarrow> (''mcp_transport'', Some True)
        | McpTimeout _ \<Rightarrow> (''timeout'', Some True)
        | McpProtocolError _ \<Rightarrow> (''mcp_protocol'', Some False)
        | UnsupportedVersion _ \<Rightarrow> (''mcp_protocol'', Some False)
        | McpServerError _ _ \<Rightarrow> (''mcp_server'', None)
        | McpToolError _ \<Rightarrow> (''mcp_tool_error'', None));
          mapped = with_code code (error_new (mcp_error_to_string e))
      in case retryable of None \<Rightarrow> mapped | Some r \<Rightarrow> with_retryable r mapped)"

section \<open>Messages\<close>

definition PROTOCOL_VERSION :: string where
  "PROTOCOL_VERSION = ''2025-06-18''"

definition jsonrpc_request :: "nat \<Rightarrow> string \<Rightarrow> json \<Rightarrow> json" where
  "jsonrpc_request rid method params =
     JObj [(''id'', json_num rid), (''jsonrpc'', JStr ''2.0''), (''method'', JStr method), (''params'', params)]"

definition initialize_request :: "string \<Rightarrow> nat \<Rightarrow> json" where
  "initialize_request version rid = jsonrpc_request rid ''initialize'' (JObj
     [(''capabilities'', JObj []),
      (''clientInfo'', JObj [(''name'', JStr ''tool-call-compiler''), (''version'', JStr version)]),
      (''protocolVersion'', JStr PROTOCOL_VERSION)])"

definition initialized_notification :: json where
  "initialized_notification = JObj [(''jsonrpc'', JStr ''2.0''), (''method'', JStr ''notifications/initialized'')]"

definition tool_call_request :: "nat \<Rightarrow> string \<Rightarrow> json \<Rightarrow> json" where
  "tool_call_request rid name arguments =
     jsonrpc_request rid ''tools/call'' (JObj [(''arguments'', arguments), (''name'', JStr name)])"

definition tools_list_request :: "nat \<Rightarrow> string option \<Rightarrow> json" where
  "tools_list_request rid cursor = jsonrpc_request rid ''tools/list''
     (JObj (case cursor of None \<Rightarrow> [] | Some c \<Rightarrow> [(''cursor'', JStr c)]))"

text \<open>Ten bytes with two dashes: the test of client and server alike.\<close>

definition dated_revision :: "string \<Rightarrow> bool" where
  "dated_revision version \<longleftrightarrow> length version = 10 \<and> length (filter (\<lambda>c. c = CHR ''-'') version) = 2"

definition check_protocol_version :: "json \<Rightarrow> (mcp_client_error, unit) result" where
  "check_protocol_version result = (case Option.bind (json_get result ''protocolVersion'') as_str of
     None \<Rightarrow> Inl (McpProtocolError ''initialize result missing protocolVersion'')
   | Some version \<Rightarrow> if dated_revision version then Inr () else Inl (UnsupportedVersion version))"

record mcp_tool_info =
  ti_name :: string
  ti_description :: "string option"
  ti_input_schema :: "json option"
  ti_annotations :: json

definition parse_tool_info :: "json \<Rightarrow> mcp_tool_info" where
  "parse_tool_info tool =
     \<lparr>ti_name = (case Option.bind (json_get tool ''name'') as_str of None \<Rightarrow> [] | Some n \<Rightarrow> n),
      ti_description = Option.bind (json_get tool ''description'') as_str,
      ti_input_schema = json_get tool ''inputSchema'',
      ti_annotations = (case json_get tool ''annotations'' of None \<Rightarrow> JNull | Some v \<Rightarrow> v)\<rparr>"

definition parse_tools_list :: "json \<Rightarrow> mcp_tool_info list \<times> string option" where
  "parse_tools_list result =
     ((case Option.bind (json_get result ''tools'') as_array of None \<Rightarrow> [] | Some tools \<Rightarrow> map parse_tool_info tools),
      Option.bind (json_get result ''nextCursor'') as_str)"

definition text_items :: "json \<Rightarrow> string" where
  "text_items result = (case Option.bind (json_get result ''content'') as_array of
     None \<Rightarrow> []
   | Some content \<Rightarrow> join_with [CHR 0x0A] (List.map_filter (\<lambda>item. Option.bind (json_get item ''text'') as_str) content))"

definition normalize_tool_result :: "json \<Rightarrow> (mcp_client_error, json) result" where
  "normalize_tool_result result =
     (if Option.bind (json_get result ''isError'') as_bool = Some True
      then Inl (McpToolError (if text_items result = [] then ''tool reported an error'' else text_items result))
      else (case json_get result ''structuredContent'' of Some v \<Rightarrow> Inr v | None \<Rightarrow> Inr result))"

text \<open>A response: its error, or its result (\<^verbatim>\<open>parse_response\<close>, \<^verbatim>\<open>parse_jsonrpc\<close>).\<close>

definition parse_response :: "json \<Rightarrow> (mcp_client_error, json) result" where
  "parse_response message = (case json_get message ''error'' of
     Some error \<Rightarrow> Inl (McpServerError
        (case Option.bind (json_get error ''code'') as_i64 of None \<Rightarrow> -32000 | Some code \<Rightarrow> code)
        (case Option.bind (json_get error ''message'') as_str of None \<Rightarrow> ''unknown MCP error'' | Some m \<Rightarrow> m))
   | None \<Rightarrow> ok_or (McpProtocolError ''response missing result'') (json_get message ''result''))"

section \<open>Clients\<close>

record mcp_tool_call =
  mtc_node :: string
  mtc_name :: string
  mtc_arguments :: json

record mcp_tool_result =
  mtr_node :: string
  mtr_result :: json

type_synonym 'w call_tool_fn = "string \<Rightarrow> json \<Rightarrow> 'w \<Rightarrow> (mcp_client_error, json) result \<times> 'w"

record 'w mcp_client =
  mc_call_tool :: "'w call_tool_fn"
  mc_call_tools :: "mcp_tool_call list \<Rightarrow> 'w \<Rightarrow> (mcp_client_error, mcp_tool_result list) result \<times> 'w"
  mc_list_tools :: "'w \<Rightarrow> (mcp_client_error, mcp_tool_info list) result \<times> 'w"

text \<open>The default \<^verbatim>\<open>call_tools\<close> of the trait: one call after the other.\<close>

fun default_call_tools :: "'w call_tool_fn \<Rightarrow> mcp_tool_call list \<Rightarrow> 'w
    \<Rightarrow> (mcp_client_error, mcp_tool_result list) result \<times> 'w" where
  "default_call_tools call [] w = (Inr [], w)"
| "default_call_tools call (c # cs) w =
     (case call (mtc_name c) (mtc_arguments c) w of
        (Inl e, w1) \<Rightarrow> (Inl e, w1)
      | (Inr v, w1) \<Rightarrow>
          (case default_call_tools call cs w1 of
             (Inl e, w2) \<Rightarrow> (Inl e, w2)
           | (Inr vs, w2) \<Rightarrow> (Inr (\<lparr>mtr_node = mtc_node c, mtr_result = v\<rparr> # vs), w2)))"

definition mcp_call :: "'w mcp_client \<Rightarrow> string \<Rightarrow> json \<Rightarrow> 'w \<Rightarrow> (tool_execution_error, json) result \<times> 'w" where
  "mcp_call client tool input w = (case mc_call_tool client tool input w of
     (Inl e, w1) \<Rightarrow> (Inl (mcp_tool_error e), w1)
   | (Inr v, w1) \<Rightarrow> (map_err mcp_tool_error (normalize_tool_result v), w1))"

definition mcp_answer :: "mcp_tool_result \<Rightarrow> (tool_execution_error, batch_output) result" where
  "mcp_answer r = res_bind (map_err mcp_tool_error (normalize_tool_result (mtr_result r)))
     (\<lambda>v. Inr \<lparr>bo_node = mtr_node r, bo_output = v\<rparr>)"

definition mcp_call_batch :: "'w mcp_client \<Rightarrow> string \<Rightarrow> batch_input list \<Rightarrow> 'w
    \<Rightarrow> (tool_execution_error, batch_output list) result \<times> 'w" where
  "mcp_call_batch client tool inputs w =
     (case mc_call_tools client
             (map (\<lambda>i. \<lparr>mtc_node = bi_node i, mtc_name = tool, mtc_arguments = bi_input i\<rparr>) inputs) w of
        (Inl e, w1) \<Rightarrow> (Inl (mcp_tool_error e), w1)
      | (Inr results, w1) \<Rightarrow> (res_map mcp_answer results, w1))"

section \<open>Capabilities\<close>

definition hint :: "json \<Rightarrow> string \<Rightarrow> bool" where
  "hint annotations name \<longleftrightarrow> Option.bind (json_get annotations name) as_bool = Some True"

definition effects_from_annotations :: "string \<Rightarrow> json \<Rightarrow> effects" where
  "effects_from_annotations server annotations =
     (let idempotent = hint annotations ''idempotentHint''; resource = ''mcp:'' @ server in
      if hint annotations ''readOnlyHint''
      then effects_default\<lparr>eff_reads := [resource], eff_idempotent := True, eff_cacheable := idempotent\<rparr>
      else effects_default\<lparr>eff_writes := [resource], eff_idempotent := idempotent, eff_cacheable := False\<rparr>)"

record derived_capability =
  dc_tool :: string
  dc_effects :: effects
  dc_input_schema :: "json option"
  dc_description :: "string option"

definition derived_capability_of :: "string \<Rightarrow> mcp_tool_info \<Rightarrow> derived_capability" where
  "derived_capability_of server tool =
     \<lparr>dc_tool = ti_name tool, dc_effects = effects_from_annotations server (ti_annotations tool),
      dc_input_schema = (if ti_input_schema tool = Some JNull then None else ti_input_schema tool),
      dc_description = ti_description tool\<rparr>"

definition derive_capabilities :: "string \<Rightarrow> 'w mcp_client \<Rightarrow> 'w
    \<Rightarrow> (mcp_client_error, derived_capability list) result \<times> 'w" where
  "derive_capabilities server client w = (case mc_list_tools client w of
     (Inl e, w1) \<Rightarrow> (Inl e, w1)
   | (Inr tools, w1) \<Rightarrow> (Inr (map (derived_capability_of server) tools), w1))"

definition mcp_read_tool :: "resource list \<Rightarrow> tool_spec" where
  "mcp_read_tool resources = (tool_spec_new ''mcp'')\<lparr>spec_effects :=
     Some ((effects_read_only resources)\<lparr>eff_batchable := True\<rparr>)\<rparr>"

section \<open>Batches\<close>

text \<open>The batch as single calls, one after the other up to the first failure.\<close>

fun mcp_calls :: "'w mcp_client \<Rightarrow> string \<Rightarrow> batch_input list \<Rightarrow> 'w
    \<Rightarrow> (tool_execution_error, batch_output list) result \<times> 'w" where
  "mcp_calls client tool [] w = (Inr [], w)"
| "mcp_calls client tool (i # inputs) w =
     (case mcp_call client tool (bi_input i) w of
        (Inl e, w1) \<Rightarrow> (Inl e, w1)
      | (Inr v, w1) \<Rightarrow>
          (case mcp_calls client tool inputs w1 of
             (Inl e, w2) \<Rightarrow> (Inl e, w2)
           | (Inr outs, w2) \<Rightarrow> (Inr (\<lparr>bo_node = bi_node i, bo_output = v\<rparr> # outs), w2)))"

definition sequential :: "'w mcp_client \<Rightarrow> 'w mcp_client" where
  "sequential client = client\<lparr>mc_call_tools := default_call_tools (mc_call_tool client)\<rparr>"

lemma mcp_call_sequential [simp]: "mcp_call (sequential client) = mcp_call client"
  by (simp add: fun_eq_iff mcp_call_def sequential_def)

lemma mcp_answer_Inr: "mcp_answer \<lparr>mtr_node = n, mtr_result = v\<rparr> = Inr b \<longleftrightarrow>
    (\<exists>x. normalize_tool_result v = Inr x \<and> b = \<lparr>bo_node = n, bo_output = x\<rparr>)"
  by (cases "normalize_tool_result v") (auto simp: mcp_answer_def map_err_def)

lemma sequential_batch:
  "(\<exists>rs. default_call_tools (mc_call_tool client)
        (map (\<lambda>i. \<lparr>mtc_node = bi_node i, mtc_name = tool, mtc_arguments = bi_input i\<rparr>) inputs) w = (Inr rs, w') \<and>
      res_map mcp_answer rs = Inr outs) \<longleftrightarrow> mcp_calls client tool inputs w = (Inr outs, w')"
proof (induction inputs arbitrary: w outs)
  case (Cons i inputs)
  show ?case
  proof (cases "mc_call_tool client tool (bi_input i) w")
    case (Pair r w1)
    show ?thesis
    proof (cases r)
      case (Inr v)
      let ?rest = "default_call_tools (mc_call_tool client)
        (map (\<lambda>i. \<lparr>mtc_node = bi_node i, mtc_name = tool, mtc_arguments = bi_input i\<rparr>) inputs) w1"
      have "(\<exists>rs. default_call_tools (mc_call_tool client)
          (map (\<lambda>i. \<lparr>mtc_node = bi_node i, mtc_name = tool, mtc_arguments = bi_input i\<rparr>) (i # inputs)) w = (Inr rs, w') \<and>
          res_map mcp_answer rs = Inr outs) \<longleftrightarrow>
        (\<exists>x outs'. normalize_tool_result v = Inr x \<and> outs = \<lparr>bo_node = bi_node i, bo_output = x\<rparr> # outs' \<and>
          (\<exists>rs. ?rest = (Inr rs, w') \<and> res_map mcp_answer rs = Inr outs'))"
        using Pair Inr by (cases ?rest; cases "fst ?rest") (auto simp: mcp_answer_Inr)
      also have "\<dots> \<longleftrightarrow> (\<exists>x outs'. normalize_tool_result v = Inr x \<and>
          outs = \<lparr>bo_node = bi_node i, bo_output = x\<rparr> # outs' \<and> mcp_calls client tool inputs w1 = (Inr outs', w'))"
        by (simp only: Cons.IH)
      also have "\<dots> \<longleftrightarrow> mcp_calls client tool (i # inputs) w = (Inr outs, w')"
        using Pair Inr by (cases "normalize_tool_result v"; cases "mcp_calls client tool inputs w1"; cases "fst (mcp_calls client tool inputs w1)")
          (auto simp: mcp_call_def map_err_def)
      finally show ?thesis .
    qed (use Pair in \<open>simp add: mcp_call_def\<close>)
  qed
qed auto

text \<open>
  Over the default \<^verbatim>\<open>call_tools\<close> a batch succeeds exactly when the single calls in the same
  order succeed, with the same outputs under the same nodes and the same state of the server.
\<close>

theorem mcp_batch_is_calls:
  "mcp_call_batch (sequential client) tool inputs w = (Inr outs, w') \<longleftrightarrow>
   mcp_calls (sequential client) tool inputs w = (Inr outs, w')"
proof -
  let ?calls = "map (\<lambda>i. \<lparr>mtc_node = bi_node i, mtc_name = tool, mtc_arguments = bi_input i\<rparr>) inputs"
  have m: "mc_call_tools (sequential client) = default_call_tools (mc_call_tool (sequential client))"
    by (simp add: sequential_def)
  have "mcp_call_batch (sequential client) tool inputs w = (Inr outs, w') \<longleftrightarrow>
      (\<exists>rs. default_call_tools (mc_call_tool (sequential client)) ?calls w = (Inr rs, w') \<and> res_map mcp_answer rs = Inr outs)"
    unfolding mcp_call_batch_def m
    by (cases "default_call_tools (mc_call_tool (sequential client)) ?calls w";
        cases "fst (default_call_tools (mc_call_tool (sequential client)) ?calls w)") auto
  then show ?thesis by (simp only: sequential_batch)
qed

section \<open>Tools of one server\<close>

text \<open>
  C28. Two tools of a server whose name holds no opening brace, with the effects derived from their
  annotations, may run at the same time exactly when both are declared read-only; and a tool that
  is not read-only is never cacheable, nor is a read the server does not call idempotent. A name
  with a brace makes the derived resource a template (\<open>braced_server_overlaps\<close>).
\<close>

theorem derived_effects_conflict:
  assumes "CHR ''{'' \<notin> set server"
  shows "(can_run_with (for_node n (Some (effects_from_annotations server a))) (for_node m (Some (effects_from_annotations server b)))
      \<longleftrightarrow> hint a ''readOnlyHint'' \<and> hint b ''readOnlyHint'') \<and>
    (eff_cacheable (effects_from_annotations server a) \<longleftrightarrow> hint a ''readOnlyHint'' \<and> hint a ''idempotentHint'')"
proof -
  have r: "resolve_resources k [''mcp:'' @ server] = [''mcp:'' @ server]" for k
    using resolve_static [of "''mcp:'' @ server"] assms by (simp add: resolve_resources_def bs_of_list_def)
  show ?thesis
    using r [of n] r [of m]
    by (auto simp: effects_from_annotations_def Let_def for_node_def effects_default_def can_run_with_def
        bs_disjoint_iff declares_side_effects_def resolve_resources_def bs_of_list_def)
qed

text \<open>Two writers of a server named \<^verbatim>\<open>{k}\<close> run together when their inputs differ in the field \<^verbatim>\<open>k\<close>.\<close>

definition keyed_call :: "string \<Rightarrow> string \<Rightarrow> node" where
  "keyed_call i value = \<lparr>node_id = i, node_tool = i, node_input = JObj [(''k'', JStr value)], node_depends_on = [],
     node_for_each = None, node_when = None\<rparr>"

lemma braced_server_overlaps:
  "can_run_with (for_node (keyed_call ''a'' ''x'') (Some (effects_from_annotations ''{k}'' JNull)))
     (for_node (keyed_call ''b'' ''y'') (Some (effects_from_annotations ''{k}'' JNull)))"
  by code_simp

definition server_call :: "string \<Rightarrow> node" where
  "server_call name = \<lparr>node_id = name, node_tool = name, node_input = JNull, node_depends_on = [], node_for_each = None, node_when = None\<rparr>"

theorem derived_effects_conflict_witness:
  "\<not> can_run_with (for_node (server_call ''a'') (Some (effects_from_annotations ''git'' (JObj [(''readOnlyHint'', JBool True)]))))
     (for_node (server_call ''b'') (Some (effects_from_annotations ''git'' JNull)))"
proof -
  have s: "CHR ''{'' \<notin> set ''git''" by simp
  have "\<not> hint JNull ''readOnlyHint''" by (simp add: hint_def json_get_def)
  with derived_effects_conflict [OF s] show ?thesis by blast
qed

end
