(* ===== verification/Lines.thy ===== *)
theory Lines
  imports Text
begin

text \<open>
  \<^verbatim>\<open>str::lines\<close>, \<^verbatim>\<open>str::trim\<close> and \<^verbatim>\<open>parse::<u32>()\<close> of Rust's standard library, on UTF-8 bytes:
  what the line protocols of the program use.
\<close>

section \<open>White space\<close>

text \<open>How many bytes the white-space character at the head takes, zero when there is none.\<close>

fun space_width :: "string \<Rightarrow> nat" where
  "space_width [] = 0"
| "space_width (c # cs) =
     (let n = of_char c :: nat in
      if n = 32 \<or> (9 \<le> n \<and> n \<le> 13) then 1
      else (case cs of
         [] \<Rightarrow> 0
       | d # ds \<Rightarrow>
           (let m = of_char d :: nat in
            if n = 194 \<and> (m = 133 \<or> m = 160) then 2
            else (case ds of
               [] \<Rightarrow> 0
             | e # _ \<Rightarrow>
                 (let k = of_char e :: nat in
                  if (n = 225 \<and> m = 154 \<and> k = 128) \<or>
                     (n = 226 \<and> m = 128 \<and> ((128 \<le> k \<and> k \<le> 138) \<or> k = 168 \<or> k = 169 \<or> k = 175)) \<or>
                     (n = 226 \<and> m = 129 \<and> k = 159) \<or> (n = 227 \<and> m = 128 \<and> k = 128)
                  then 3 else 0)))))"

lemma space_width_le: "space_width s \<le> length s"
  by (cases s rule: space_width.cases) (auto simp: Let_def split: list.split)

function trim_start :: "string \<Rightarrow> string" where
  "trim_start s = (if space_width s = 0 then s else trim_start (drop (space_width s) s))"
  by pat_completeness auto
termination
proof (relation "measure length", goal_cases)
  case (2 s)
  with space_width_le [of s] show ?case by simp
qed simp

declare trim_start.simps [simp del]

definition is_blank :: "string \<Rightarrow> bool" where
  "is_blank s \<longleftrightarrow> trim_start s = []"

text \<open>
  The end of a string is trimmed one character at a time: the byte where the last character
  starts is the last one that is not a continuation byte.
\<close>

definition last_char_start :: "string \<Rightarrow> nat" where
  "last_char_start s = length s - Suc (length (takeWhile is_continuation (rev s)))"

function trim_end :: "string \<Rightarrow> string" where
  "trim_end s =
     (if s = [] \<or> space_width (drop (last_char_start s) s) = 0 then s else trim_end (take (last_char_start s) s))"
  by pat_completeness auto
termination
  by (relation "measure length") (auto simp: last_char_start_def)

declare trim_end.simps [simp del]

definition str_trim :: "string \<Rightarrow> string" where
  "str_trim s = trim_end (trim_start s)"

section \<open>Lines\<close>

definition strip_cr :: "string \<Rightarrow> string" where
  "strip_cr s = (if s \<noteq> [] \<and> last s = CHR 0x0D then butlast s else s)"

text \<open>The text after the last newline is a line only when it is not empty, and keeps a carriage return.\<close>

definition str_lines :: "string \<Rightarrow> string list" where
  "str_lines s = (let parts = split_on (CHR 0x0A) s in
     map strip_cr (butlast parts) @ (if last parts = [] then [] else [last parts]))"

section \<open>32-bit numbers\<close>

definition parse_u32 :: "string \<Rightarrow> nat option" where
  "parse_u32 s =
     (let ds = (case s of [] \<Rightarrow> [] | c # cs \<Rightarrow> if c = CHR ''+'' then cs else s)
      in if ds = [] then None
         else (case parse_digits 0 ds of
                 None \<Rightarrow> None
               | Some n \<Rightarrow> if n < 2 ^ 32 then Some n else None))"

lemma parse_u32_dec: "n < 2 ^ 32 \<Longrightarrow> parse_u32 (dec n) = Some n"
  using hd_dec_not_plus [of n] parse_digits_dec [of n]
  by (auto simp: parse_u32_def split: list.splits)

lemma parse_u32_bound: "parse_u32 s = Some n \<Longrightarrow> n < 2 ^ 32"
  by (auto simp: parse_u32_def Let_def split: if_splits option.splits list.splits)

end
