(* ===== verification/ShellAdapter.thy ===== *)
theory ShellAdapter
  imports AdapterApi Ir Utf8 Paths
begin

text \<open>
  The process adapter, \<^verbatim>\<open>crates/tool-compiler-adapter-shell/src/lib.rs\<close>, with the program names
  of \<^verbatim>\<open>adapter-api/src/process.rs\<close>: from the input to the command that is spawned, its
  environment, and the output. Processes are a record of functions over the state \<open>'w\<close> of the
  system, the variables of the parent a map.
\<close>

section \<open>Configuration\<close>

record shell_executor =
  sh_cwd :: "path option"
  sh_env :: "(string, string) btree"
  sh_env_clear :: bool
  sh_inherit :: "string list"
  sh_default_timeout :: "nat option"
  sh_max_output_bytes :: nat

definition shell_executor_new :: shell_executor where
  "shell_executor_new = \<lparr>sh_cwd = None, sh_env = [], sh_env_clear = False, sh_inherit = [],
     sh_default_timeout = None, sh_max_output_bytes = 1024 * 1024\<rparr>"

definition with_cwd :: "path \<Rightarrow> shell_executor \<Rightarrow> shell_executor" where
  "with_cwd p x = x\<lparr>sh_cwd := Some p\<rparr>"

definition with_default_timeout_ms :: "nat \<Rightarrow> shell_executor \<Rightarrow> shell_executor" where
  "with_default_timeout_ms ms x = x\<lparr>sh_default_timeout := Some ms\<rparr>"

definition with_env :: "string \<Rightarrow> string \<Rightarrow> shell_executor \<Rightarrow> shell_executor" where
  "with_env k v x = x\<lparr>sh_env := bt_insert k v (sh_env x)\<rparr>"

definition with_env_clear :: "bool \<Rightarrow> shell_executor \<Rightarrow> shell_executor" where
  "with_env_clear b x = x\<lparr>sh_env_clear := b\<rparr>"

definition with_inherited_var :: "string \<Rightarrow> shell_executor \<Rightarrow> shell_executor" where
  "with_inherited_var k x = x\<lparr>sh_inherit := sh_inherit x @ [k]\<rparr>"

definition with_max_output_bytes :: "nat \<Rightarrow> shell_executor \<Rightarrow> shell_executor" where
  "with_max_output_bytes n x = x\<lparr>sh_max_output_bytes := max n 1\<rparr>"

datatype shell_error = ShMissingField string | ShInvalidArgs | ShTimedOut nat | ShIo io_error

definition shell_error_to_string :: "shell_error \<Rightarrow> string" where
  "shell_error_to_string e = (case e of
       ShMissingField f \<Rightarrow> ''missing string field '' @ [CHR 0x27] @ f @ [CHR 0x27]
     | ShInvalidArgs \<Rightarrow> ''args must be an array of strings''
     | ShTimedOut ms \<Rightarrow> ''command timed out after '' @ dec ms @ ''ms''
     | ShIo io \<Rightarrow> io_message io)"

definition shell_tool_error :: "shell_error \<Rightarrow> tool_execution_error" where
  "shell_tool_error e = with_code (case e of
       ShMissingField _ \<Rightarrow> ''invalid_input'' | ShInvalidArgs \<Rightarrow> ''invalid_input''
     | ShTimedOut _ \<Rightarrow> ''timeout'' | ShIo _ \<Rightarrow> ''io'') (error_new (shell_error_to_string e))"

section \<open>Commands\<close>

record command =
  cm_program :: string
  cm_args :: "string list"
  cm_env_clear :: bool
  cm_env :: "(string \<times> string) list"
  cm_cwd :: "path option"
  cm_piped_stdin :: bool

text \<open>\<^verbatim>\<open>std::process::Command\<close>: the parent's variables unless cleared, then the ones set, in order.\<close>

definition child_environment :: "(string \<rightharpoonup> string) \<Rightarrow> command \<Rightarrow> (string \<rightharpoonup> string)" where
  "child_environment parent c =
     foldl (\<lambda>m (k, v). m(k \<mapsto> v)) (if cm_env_clear c then Map.empty else parent) (cm_env c)"

definition ascii_lower_char :: "char \<Rightarrow> char" where
  "ascii_lower_char c = (let n = of_char c :: nat in if 65 \<le> n \<and> n \<le> 90 then char_of (n + 32) else c)"

definition has_launcher_extension :: "string \<Rightarrow> bool" where
  "has_launcher_extension command =
     (let lowered = map ascii_lower_char command
      in suffix ''.cmd'' lowered \<or> suffix ''.exe'' lowered \<or> suffix ''.bat'' lowered)"

definition command_candidates :: "bool \<Rightarrow> string \<Rightarrow> string list" where
  "command_candidates windows command =
     (if windows \<and> \<not> has_launcher_extension command
      then [command, command @ ''.cmd'', command @ ''.exe'', command @ ''.bat''] else [command])"

definition inherited_vars :: "(string \<rightharpoonup> string) \<Rightarrow> string list \<Rightarrow> (string \<times> string) list" where
  "inherited_vars parent keys = concat (map (\<lambda>k. case parent k of None \<Rightarrow> [] | Some v \<Rightarrow> [(k, v)]) keys)"

definition command_for :: "(string \<rightharpoonup> string) \<Rightarrow> shell_executor \<Rightarrow> string list \<Rightarrow> path option \<Rightarrow> bool \<Rightarrow> string \<Rightarrow> command" where
  "command_for parent x args cwd piped candidate =
     \<lparr>cm_program = candidate, cm_args = args, cm_env_clear = sh_env_clear x,
      cm_env = (if sh_env_clear x then inherited_vars parent (sh_inherit x) else []) @ sh_env x,
      cm_cwd = cwd, cm_piped_stdin = piped\<rparr>"

section \<open>Processes\<close>

record child_output =
  co_status :: "int option"
  co_success :: bool
  co_stdout :: string
  co_stderr :: string

datatype wait_outcome = WaitTimedOut | WaitFailed io_error | Waited child_output

record ('w, 'c) processes =
  pr_spawn :: "command \<Rightarrow> 'w \<Rightarrow> (io_error, 'c) result \<times> 'w"
  pr_write_stdin :: "'c \<Rightarrow> string \<Rightarrow> 'w \<Rightarrow> (io_error, unit) result \<times> 'w"
  pr_wait :: "'c \<Rightarrow> nat option \<Rightarrow> 'w \<Rightarrow> wait_outcome \<times> 'w"

text \<open>The candidates in turn, on to the next one only while the program is not found.\<close>

fun spawn_first :: "('w, 'c) processes \<Rightarrow> string \<Rightarrow> command list \<Rightarrow> io_error option \<Rightarrow> 'w
    \<Rightarrow> (shell_error, 'c) result \<times> 'w" where
  "spawn_first ps program [] last_error w =
     (Inl (ShIo (case last_error of Some io \<Rightarrow> io | None \<Rightarrow> IoError False (''program not found: '' @ program))), w)"
| "spawn_first ps program (c # cs) last_error w =
     (case pr_spawn ps c w of
        (Inr child, w1) \<Rightarrow> (Inr child, w1)
      | (Inl io, w1) \<Rightarrow>
          if io_not_found io then spawn_first ps program cs (Some io) w1 else (Inl (ShIo io), w1))"

definition shell_required_str :: "json \<Rightarrow> string \<Rightarrow> (shell_error, string) result" where
  "shell_required_str input key = ok_or (ShMissingField key) (Option.bind (json_get input key) as_str)"

definition string_array :: "json \<Rightarrow> string \<Rightarrow> (shell_error, string list) result" where
  "string_array input key = (case Option.bind (json_get input key) as_array of
     None \<Rightarrow> Inr []
   | Some items \<Rightarrow> res_map (\<lambda>item. ok_or ShInvalidArgs (as_str item)) items)"

definition call_cwd :: "shell_executor \<Rightarrow> json \<Rightarrow> path option" where
  "call_cwd x input = (case Option.bind (json_get input ''cwd'') as_str of
     None \<Rightarrow> sh_cwd x
   | Some raw \<Rightarrow> Some (case (sh_cwd x, path_is_absolute raw) of
         (Some base, False) \<Rightarrow> path_join base (path_components raw)
       | _ \<Rightarrow> path_components raw))"

definition cap_output :: "string \<Rightarrow> nat \<Rightarrow> string \<times> bool" where
  "cap_output bytes max_bytes =
     (if length bytes \<le> max_bytes then (utf8_lossy bytes, False) else (utf8_lossy (take max_bytes bytes), True))"

definition output_json :: "nat \<Rightarrow> child_output \<Rightarrow> json" where
  "output_json max_bytes out =
     (case (cap_output (co_stdout out) max_bytes, cap_output (co_stderr out) max_bytes) of
        ((stdout, stdout_truncated), (stderr, stderr_truncated)) \<Rightarrow>
        JObj ([(''status'', case co_status out of None \<Rightarrow> JNull | Some code \<Rightarrow> json_int code), (''stderr'', JStr stderr)] @
          (if stderr_truncated then [(''stderr_truncated'', JBool True)] else []) @ [(''stdout'', JStr stdout)] @
          (if stdout_truncated then [(''stdout_truncated'', JBool True)] else []) @
          [(''success'', JBool (co_success out))]))"

text \<open>What the input asks for; nothing is started when it is invalid.\<close>

record run_request =
  rq_program :: string
  rq_args :: "string list"
  rq_stdin :: "string option"
  rq_timeout :: "nat option"
  rq_cwd :: "path option"

definition parse_run :: "shell_executor \<Rightarrow> json \<Rightarrow> (shell_error, run_request) result" where
  "parse_run x input =
     res_bind (shell_required_str input ''program'') (\<lambda>program.
     res_bind (string_array input ''args'') (\<lambda>args.
       Inr \<lparr>rq_program = program, rq_args = args, rq_stdin = Option.bind (json_get input ''stdin'') as_str,
         rq_timeout = (case Option.bind (json_get input ''timeout_ms'') as_u64 of
            Some ms \<Rightarrow> Some ms | None \<Rightarrow> sh_default_timeout x),
         rq_cwd = call_cwd x input\<rparr>))"

definition wait_child :: "('w, 'c) processes \<Rightarrow> shell_executor \<Rightarrow> run_request \<Rightarrow> 'c \<Rightarrow> 'w
    \<Rightarrow> (shell_error, json) result \<times> 'w" where
  "wait_child ps x q child w =
     (case pr_wait ps child (rq_timeout q) w of
        (WaitTimedOut, w1) \<Rightarrow> (Inl (ShTimedOut (case rq_timeout q of None \<Rightarrow> 0 | Some ms \<Rightarrow> ms)), w1)
      | (WaitFailed io, w1) \<Rightarrow> (Inl (ShIo io), w1)
      | (Waited out, w1) \<Rightarrow> (Inr (output_json (sh_max_output_bytes x) out), w1))"

text \<open>The write to stdin comes before the wait and outside its timeout.\<close>

definition run_command :: "bool \<Rightarrow> (string \<rightharpoonup> string) \<Rightarrow> ('w, 'c) processes \<Rightarrow> shell_executor \<Rightarrow> json \<Rightarrow> 'w
    \<Rightarrow> (shell_error, json) result \<times> 'w" where
  "run_command windows parent ps x input w =
     (case parse_run x input of
        Inl e \<Rightarrow> (Inl e, w)
      | Inr q \<Rightarrow>
          (case spawn_first ps (rq_program q)
                  (map (command_for parent x (rq_args q) (rq_cwd q) (rq_stdin q \<noteq> None))
                    (command_candidates windows (rq_program q))) None w of
             (Inl e, w1) \<Rightarrow> (Inl e, w1)
           | (Inr child, w1) \<Rightarrow>
               (case rq_stdin q of
                  None \<Rightarrow> wait_child ps x q child w1
                | Some payload \<Rightarrow>
                    (case pr_write_stdin ps child payload w1 of
                       (Inl io, w2) \<Rightarrow> (Inl (ShIo io), w2)
                     | (Inr _, w2) \<Rightarrow> wait_child ps x q child w2))))"

definition shell_call :: "bool \<Rightarrow> (string \<rightharpoonup> string) \<Rightarrow> ('w, 'c) processes \<Rightarrow> shell_executor \<Rightarrow> string \<Rightarrow> json \<Rightarrow> 'w
    \<Rightarrow> (tool_execution_error, json) result \<times> 'w" where
  "shell_call windows parent ps x tool input w =
     (if tool = ''run'' then apfst (map_err shell_tool_error) (run_command windows parent ps x input w)
      else (Inl (with_code ''unknown_tool''
        (error_new (''unknown shell tool '' @ [CHR 0x27] @ tool @ [CHR 0x27]))), w))"

definition run_tool :: tool_spec where
  "run_tool = (tool_spec_new ''shell'')\<lparr>spec_effects :=
     Some (effects_default\<lparr>eff_writes := [''shell:world''], eff_idempotent := False, eff_cacheable := False\<rparr>)\<rparr>"

section \<open>The environment of a child\<close>

lemma foldl_env: "foldl (\<lambda>m (k, v). m(k \<mapsto> v)) m kvs k = (case map_of (rev kvs) k of None \<Rightarrow> m k | Some v \<Rightarrow> Some v)"
  by (induction kvs rule: rev_induct) auto

lemma map_of_inherited: "map_of (rev (inherited_vars parent keys)) k = (if k \<in> set keys then parent k else None)"
  unfolding inherited_vars_def by (induction keys) (auto simp: map_add_def split: option.splits)

text \<open>
  C39. A child sees the variables the executor was given, and besides them the whole environment
  of the parent, or, when the environment is cleared, only the allowlisted variables of the
  parent: no other variable of the parent reaches a command.
\<close>

theorem child_environment_spec:
  assumes "bt_ok (sh_env x)"
  shows "child_environment parent (command_for parent x args cwd piped candidate) k =
    (case map_of (sh_env x) k of
       Some v \<Rightarrow> Some v
     | None \<Rightarrow> if sh_env_clear x \<and> k \<notin> set (sh_inherit x) then None else parent k)"
proof -
  have d: "distinct (map fst (sh_env x))" "distinct (map fst (rev (sh_env x)))"
    using bt_ok_distinct [OF assms] by (simp_all add: rev_map [symmetric])
  have "map_of (rev (sh_env x)) k = Some v \<longleftrightarrow> map_of (sh_env x) k = Some v" for v
    unfolding map_of_eq_Some_iff [OF d(1)] map_of_eq_Some_iff [OF d(2)] by simp
  then have "map_of (rev (sh_env x)) k = map_of (sh_env x) k" by (metis not_None_eq)
  then show ?thesis
    by (auto simp: child_environment_def command_for_def foldl_env map_of_inherited map_add_def split: option.splits)
qed

definition confined_shell :: shell_executor where
  "confined_shell = with_inherited_var ''PATH'' (with_env_clear True (with_env ''MODE'' ''ci'' shell_executor_new))"

definition parent_vars :: "string \<rightharpoonup> string" where
  "parent_vars = map_of [(''PATH'', ''/bin''), (''TOKEN'', ''secret'')]"

theorem child_environment_spec_witness:
  "child_environment parent_vars (command_for parent_vars confined_shell [] None False ''ls'') ''TOKEN'' = None \<and>
   child_environment parent_vars (command_for parent_vars confined_shell [] None False ''ls'') ''PATH'' = Some ''/bin''"
proof -
  have "bt_ok (sh_env confined_shell)"
    by (simp add: confined_shell_def with_inherited_var_def with_env_clear_def with_env_def shell_executor_new_def bt_ok_def)
  note env = child_environment_spec [OF this, of parent_vars "[]" None False "''ls''"]
  show ?thesis unfolding env
    by (simp add: confined_shell_def with_inherited_var_def with_env_clear_def with_env_def shell_executor_new_def parent_vars_def)
qed

text \<open>
  The cap counts bytes of the captured stream, not of the text returned: a character cut in two
  becomes a replacement character of three bytes.
\<close>

lemma capped_output_exceeds_cap:
  "let (text, truncated) = cap_output [CHR ''a'', CHR 0xC3, CHR 0xA9] 2 in truncated \<and> length text = 4"
  by code_simp

end
