(* ===== verification/McpStdio.thy ===== *)
theory McpStdio
  imports McpProto Lines ShellAdapter
begin

text \<open>
  The persistent stdio session, \<^verbatim>\<open>crates/tool-compiler-adapter-mcp/src/stdio.rs\<close>: the table of
  requests in flight, the background reader that routes the lines of the server, and the life
  of a request from its number to its answer, as a state machine over events. A oneshot channel
  is the request that waits at its receiver; the JSON parser and the operating system are
  parameters.
\<close>

section \<open>The session\<close>

record stdio_session =
  ss_pending :: "(nat, nat) btree"
  ss_mail :: "nat \<Rightarrow> (mcp_client_error, json) result option"
  ss_stderr_tail :: "string list"
  ss_dead :: bool
  ss_reader :: bool
  ss_written :: "json list"

definition session_new :: stdio_session where
  "session_new = \<lparr>ss_pending = [], ss_mail = (\<lambda>_. None), ss_stderr_tail = [], ss_dead = False,
     ss_reader = True, ss_written = []\<rparr>"

text \<open>\<^verbatim>\<open>register\<close> puts the sender of the request \<open>c\<close> under the number \<open>i\<close>.\<close>

definition register_request :: "nat \<Rightarrow> nat \<Rightarrow> stdio_session \<Rightarrow> stdio_session" where
  "register_request i c s = s\<lparr>ss_pending := bt_insert i c (ss_pending s)\<rparr>"

definition unregister_request :: "nat \<Rightarrow> stdio_session \<Rightarrow> stdio_session" where
  "unregister_request i s = s\<lparr>ss_pending := bt_remove i (ss_pending s)\<rparr>"

definition STDERR_TAIL_LINES :: nat where
  "STDERR_TAIL_LINES = 40"

definition stderr_push :: "string \<Rightarrow> string list \<Rightarrow> string list" where
  "stderr_push line lines = (if length lines \<ge> STDERR_TAIL_LINES then tl lines else lines) @ [line]"

definition stderr_suffix :: "stdio_session \<Rightarrow> string" where
  "stderr_suffix s = (if ss_stderr_tail s = [] then []
     else ''; server stderr tail:'' @ [CHR 0x0A] @ join_with [CHR 0x0A] (ss_stderr_tail s))"

text \<open>A write to the child's stdin, with the I/O error it ends in, if any.\<close>

definition session_write :: "string option \<Rightarrow> json \<Rightarrow> stdio_session \<Rightarrow> (mcp_client_error, unit) result \<times> stdio_session" where
  "session_write fault message s = (case fault of
     None \<Rightarrow> (Inr (), s\<lparr>ss_written := ss_written s @ [message]\<rparr>)
   | Some io \<Rightarrow> (Inl (McpTransportError (io @ stderr_suffix s)), s\<lparr>ss_dead := True\<rparr>))"

definition send_mail :: "nat \<Rightarrow> (mcp_client_error, json) result \<Rightarrow> stdio_session \<Rightarrow> stdio_session" where
  "send_mail c r s = s\<lparr>ss_mail := (ss_mail s)(c := Some r)\<rparr>"

text \<open>Waiting for the answer: the mail, a closed channel, or the timeout, in this order.\<close>

definition await_response :: "bool \<Rightarrow> nat \<Rightarrow> nat \<Rightarrow> nat \<Rightarrow> stdio_session
    \<Rightarrow> ((mcp_client_error, json) result \<times> stdio_session) option" where
  "await_response elapsed timeout_ms c i s = (case ss_mail s c of
     Some r \<Rightarrow> Some (r, s)
   | None \<Rightarrow>
       if c \<notin> snd ` set (ss_pending s)
       then Some (Inl (McpTransportError (''server closed the connection'' @ stderr_suffix s)), s)
       else if elapsed then Some (Inl (McpTimeout timeout_ms), unregister_request i s)
       else None)"

section \<open>The reader\<close>

definition method_not_found :: "nat \<Rightarrow> json" where
  "method_not_found i = JObj
     [(''error'', JObj [(''code'', json_int (-32601)), (''message'', JStr ''client handles no server requests'')]),
      (''id'', json_num i), (''jsonrpc'', JStr ''2.0'')]"

definition message_id :: "json \<Rightarrow> nat option" where
  "message_id m = Option.bind (json_get m ''id'') as_u64"

definition route_message :: "string option \<Rightarrow> json \<Rightarrow> stdio_session \<Rightarrow> stdio_session" where
  "route_message fault m s = (case message_id m of
     None \<Rightarrow> s
   | Some i \<Rightarrow>
       if json_get m ''method'' \<noteq> None then snd (session_write fault (method_not_found i) s)
       else (case map_of (ss_pending s) i of
               None \<Rightarrow> s
             | Some c \<Rightarrow> send_mail c (parse_response m) (unregister_request i s)))"

definition route_line :: "(string \<Rightarrow> json option) \<Rightarrow> string option \<Rightarrow> string \<Rightarrow> stdio_session \<Rightarrow> stdio_session" where
  "route_line parse fault line s =
     (if is_blank line then s
      else (case parse line of None \<Rightarrow> s | Some m \<Rightarrow> route_message fault m s))"

text \<open>The end of the server's stdout: the session is dead and every request in the table fails.\<close>

definition reader_end :: "stdio_session \<Rightarrow> stdio_session" where
  "reader_end s = s\<lparr>ss_dead := True, ss_reader := False, ss_pending := [],
     ss_mail := (\<lambda>c. if c \<in> snd ` set (ss_pending s)
       then Some (Inl (McpTransportError (''server closed stdout'' @ stderr_suffix s))) else ss_mail s c)\<rparr>"

section \<open>Requests\<close>

datatype request_phase =
    Unsent
  | Numbered nat
  | Registered nat
  | Waiting nat
  | Answered nat "(mcp_client_error, json) result"

record stdio_client =
  cl_next_id :: nat
  cl_session :: stdio_session
  cl_requests :: "nat \<Rightarrow> request_phase"

definition client_new :: stdio_client where
  "client_new = \<lparr>cl_next_id = 0, cl_session = session_new, cl_requests = (\<lambda>_. Unsent)\<rparr>"

definition next_id :: "nat \<Rightarrow> nat" where
  "next_id n = (n + 1) mod 2 ^ 64"

datatype stdio_event =
    TakeNumber nat
  | NextNumber nat
  | PutSender nat
  | WriteRequest nat json "string option"
  | ReadLine string "string option"
  | ReadStderr string
  | ReaderEnds
  | AwaitAnswer nat bool

definition set_phase :: "nat \<Rightarrow> request_phase \<Rightarrow> stdio_client \<Rightarrow> stdio_client" where
  "set_phase c p cl = cl\<lparr>cl_requests := (cl_requests cl)(c := p)\<rparr>"

text \<open>
  One event. A request takes its number and the session while the session is alive, registers,
  writes, and waits; other requests, the reader and the end of the server come in between.
  \<open>NextNumber\<close> is the number of a call of a batch, which holds its session already, alive or not.
\<close>

fun stdio_step :: "(string \<Rightarrow> json option) \<Rightarrow> nat \<Rightarrow> stdio_event \<Rightarrow> stdio_client \<Rightarrow> stdio_client option" where
  "stdio_step parse timeout_ms (TakeNumber c) cl =
     (if cl_requests cl c = Unsent \<and> \<not> ss_dead (cl_session cl)
      then Some (set_phase c (Numbered (next_id (cl_next_id cl))) (cl\<lparr>cl_next_id := next_id (cl_next_id cl)\<rparr>))
      else None)"
| "stdio_step parse timeout_ms (NextNumber c) cl =
     (if cl_requests cl c = Unsent
      then Some (set_phase c (Numbered (next_id (cl_next_id cl))) (cl\<lparr>cl_next_id := next_id (cl_next_id cl)\<rparr>))
      else None)"
| "stdio_step parse timeout_ms (PutSender c) cl = (case cl_requests cl c of
     Numbered i \<Rightarrow> Some (set_phase c (Registered i) (cl\<lparr>cl_session := register_request i c (cl_session cl)\<rparr>))
   | _ \<Rightarrow> None)"
| "stdio_step parse timeout_ms (WriteRequest c m fault) cl = (case cl_requests cl c of
     Registered i \<Rightarrow>
       (case session_write fault m (cl_session cl) of
          (Inr _, s) \<Rightarrow> Some (set_phase c (Waiting i) (cl\<lparr>cl_session := s\<rparr>))
        | (Inl e, s) \<Rightarrow> Some (set_phase c (Answered i (Inl e)) (cl\<lparr>cl_session := s\<rparr>)))
   | _ \<Rightarrow> None)"
| "stdio_step parse timeout_ms (ReadLine line fault) cl =
     (if ss_reader (cl_session cl)
      then Some (cl\<lparr>cl_session := route_line parse fault line (cl_session cl)\<rparr>) else None)"
| "stdio_step parse timeout_ms (ReadStderr line) cl =
     Some (cl\<lparr>cl_session := (cl_session cl)\<lparr>ss_stderr_tail := stderr_push line (ss_stderr_tail (cl_session cl))\<rparr>\<rparr>)"
| "stdio_step parse timeout_ms ReaderEnds cl =
     (if ss_reader (cl_session cl) then Some (cl\<lparr>cl_session := reader_end (cl_session cl)\<rparr>) else None)"
| "stdio_step parse timeout_ms (AwaitAnswer c elapsed) cl = (case cl_requests cl c of
     Waiting i \<Rightarrow> map_option (\<lambda>(r, s). set_phase c (Answered i r) (cl\<lparr>cl_session := s\<rparr>))
       (await_response elapsed timeout_ms c i (cl_session cl))
   | _ \<Rightarrow> None)"

inductive stdio_run :: "(string \<Rightarrow> json option) \<Rightarrow> nat \<Rightarrow> stdio_event list \<Rightarrow> stdio_client \<Rightarrow> bool"
  for parse timeout_ms where
  run_start: "stdio_run parse timeout_ms [] client_new"
| run_event: "stdio_run parse timeout_ms (events @ [e]) cl'"
    if "stdio_run parse timeout_ms events cl" "stdio_step parse timeout_ms e cl = Some cl'"

inductive_cases stdio_run_snocE: "stdio_run parse timeout_ms (events @ [e]) cl'"

section \<open>Whose answer it is\<close>

definition number_of :: "request_phase \<Rightarrow> nat option" where
  "number_of p = (case p of Unsent \<Rightarrow> None | Numbered i \<Rightarrow> Some i | Registered i \<Rightarrow> Some i | Waiting i \<Rightarrow> Some i
     | Answered i r \<Rightarrow> Some i)"

lemma number_of_simps [simp]:
  "number_of Unsent = None" "number_of (Numbered i) = Some i" "number_of (Registered i) = Some i"
  "number_of (Waiting i) = Some i" "number_of (Answered i r) = Some i"
  by (simp_all add: number_of_def)

text \<open>How many numbers were handed out; after \<open>2 ^ 64\<close> of them the counter starts again.\<close>

definition takes_number :: "stdio_event \<Rightarrow> bool" where
  "takes_number e \<longleftrightarrow> (\<exists>c. e = TakeNumber c \<or> e = NextNumber c)"

definition numbers_taken :: "stdio_event list \<Rightarrow> nat" where
  "numbers_taken events = length (filter takes_number events)"

lemma numbers_taken_snoc [simp]:
  "numbers_taken [] = 0"
  "numbers_taken (events @ [e]) = numbers_taken events + (if takes_number e then 1 else 0)"
  by (simp_all add: numbers_taken_def)

text \<open>
  What an answer may be: what a response says that the reader read under the number of the request,
  after the request had registered; the timeout of the request itself, when its time was over; or
  a failure of the transport, when the request could not be written, the output of the server had
  ended, or the numbers had started again.
\<close>

definition explained :: "(string \<Rightarrow> json option) \<Rightarrow> nat \<Rightarrow> stdio_event list \<Rightarrow> nat \<Rightarrow> nat option
    \<Rightarrow> (mcp_client_error, json) result \<Rightarrow> bool" where
  "explained parse timeout_ms events c n r \<longleftrightarrow>
     (\<exists>before later line fault m. events = before @ ReadLine line fault # later \<and> PutSender c \<in> set before \<and>
        parse line = Some m \<and> json_get m ''method'' = None \<and> n \<noteq> None \<and> message_id m = n \<and> r = parse_response m) \<or>
     (r = Inl (McpTimeout timeout_ms) \<and> AwaitAnswer c True \<in> set events) \<or>
     (\<exists>s. r = Inl (McpTransportError s) \<and>
        (ReaderEnds \<in> set events \<or> (\<exists>m io. WriteRequest c m (Some io) \<in> set events) \<or> 2 ^ 64 \<le> numbers_taken events))"

lemma explained_later: "explained parse timeout_ms events c n r \<Longrightarrow> explained parse timeout_ms (events @ [e]) c n r"
  unfolding explained_def by fastforce

lemma explained_renumbered: "explained parse timeout_ms events c None r \<Longrightarrow> explained parse timeout_ms events c n r"
  by (auto simp: explained_def)

text \<open>
  The state of the table and the mail: a request is in the table under its own number and only
  until it has mail, mail comes after registration, and mail and answers are explained.
\<close>

definition request_inv :: "(string \<Rightarrow> json option) \<Rightarrow> nat \<Rightarrow> stdio_event list \<Rightarrow> stdio_session \<Rightarrow> nat \<Rightarrow> request_phase \<Rightarrow> bool" where
  "request_inv parse timeout_ms events s c p \<longleftrightarrow>
     (\<forall>i. map_of (ss_pending s) i = Some c \<longrightarrow> number_of p = Some i \<and> PutSender c \<in> set events \<and> ss_mail s c = None) \<and>
     (p = Unsent \<or> (\<exists>i. p = Numbered i) \<longrightarrow> ss_mail s c = None \<and> c \<notin> snd ` set (ss_pending s)) \<and>
     (\<forall>r. ss_mail s c = Some r \<longrightarrow> explained parse timeout_ms events c (number_of p) r) \<and>
     (\<forall>i r. p = Answered i r \<longrightarrow> explained parse timeout_ms events c (Some i) r)"

definition session_inv :: "(string \<Rightarrow> json option) \<Rightarrow> nat \<Rightarrow> stdio_event list \<Rightarrow> stdio_client \<Rightarrow> bool" where
  "session_inv parse timeout_ms events cl \<longleftrightarrow> bt_ok (ss_pending (cl_session cl)) \<and>
     (\<forall>c. request_inv parse timeout_ms events (cl_session cl) c (cl_requests cl c))"

lemma session_inv_new: "session_inv parse timeout_ms [] client_new"
  by (simp add: session_inv_def request_inv_def client_new_def session_new_def)

lemma pending_values: "bt_ok m \<Longrightarrow> c \<in> snd ` set m \<longleftrightarrow> (\<exists>i. map_of m i = Some c)"
  using bt_ok_distinct [of m] by (force simp: map_of_eq_Some_iff)

text \<open>Requests an event does not concern keep the invariant.\<close>

lemma request_inv_frame:
  assumes "request_inv parse timeout_ms events s c p" "bt_ok (ss_pending s)" "bt_ok (ss_pending s')"
    and "\<And>i. map_of (ss_pending s') i = Some c \<longleftrightarrow> map_of (ss_pending s) i = Some c" "ss_mail s' c = ss_mail s c"
  shows "request_inv parse timeout_ms (events @ [e]) s' c p"
  using assms unfolding request_inv_def pending_values [OF assms(2)] pending_values [OF assms(3)]
  by (auto intro: explained_later)

lemma session_write_same:
  "session_write fault m s = (r, s') \<Longrightarrow> ss_pending s' = ss_pending s \<and> ss_mail s' = ss_mail s"
  by (auto simp: session_write_def split: option.splits)

text \<open>A step that leaves table and mail alone and takes requests on in their phase.\<close>

lemma session_inv_same:
  assumes inv: "session_inv parse timeout_ms events cl"
    and same: "ss_pending (cl_session cl') = ss_pending (cl_session cl)" "ss_mail (cl_session cl') = ss_mail (cl_session cl)"
    and phases: "\<And>d. cl_requests cl' d = cl_requests cl d \<or>
      (number_of (cl_requests cl' d) = number_of (cl_requests cl d) \<and>
       (case cl_requests cl' d of Waiting i \<Rightarrow> True | Answered i r \<Rightarrow> explained parse timeout_ms (events @ [e]) d (Some i) r | _ \<Rightarrow> False))"
  shows "session_inv parse timeout_ms (events @ [e]) cl'"
proof -
  have ok: "bt_ok (ss_pending (cl_session cl))" using inv by (simp add: session_inv_def)
  have "request_inv parse timeout_ms (events @ [e]) (cl_session cl') d (cl_requests cl' d)" for d
  proof -
    have old: "request_inv parse timeout_ms (events @ [e]) (cl_session cl') d (cl_requests cl d)"
      using inv ok same by (intro request_inv_frame) (auto simp: session_inv_def)
    from phases [of d] show ?thesis
    proof
      assume "cl_requests cl' d = cl_requests cl d"
      with old show ?thesis by simp
    next
      assume a: "number_of (cl_requests cl' d) = number_of (cl_requests cl d) \<and>
       (case cl_requests cl' d of Waiting i \<Rightarrow> True | Answered i r \<Rightarrow> explained parse timeout_ms (events @ [e]) d (Some i) r | _ \<Rightarrow> False)"
      with old same(2) show ?thesis unfolding request_inv_def by (auto split: request_phase.splits)
    qed
  qed
  with ok same(1) show ?thesis by (simp add: session_inv_def)
qed

text \<open>A step that touches the table or the mail for one request only.\<close>

lemma session_inv_one:
  assumes inv: "session_inv parse timeout_ms events cl"
    and ok: "bt_ok (ss_pending (cl_session cl'))"
    and one: "request_inv parse timeout_ms (events @ [e]) (cl_session cl') c (cl_requests cl' c)"
    and rest: "\<And>d. d \<noteq> c \<Longrightarrow> cl_requests cl' d = cl_requests cl d \<and> ss_mail (cl_session cl') d = ss_mail (cl_session cl) d \<and>
      (\<forall>i. map_of (ss_pending (cl_session cl')) i = Some d \<longleftrightarrow> map_of (ss_pending (cl_session cl)) i = Some d)"
  shows "session_inv parse timeout_ms (events @ [e]) cl'"
proof -
  have ok0: "bt_ok (ss_pending (cl_session cl))" using inv by (simp add: session_inv_def)
  have "request_inv parse timeout_ms (events @ [e]) (cl_session cl') d (cl_requests cl' d)" for d
  proof (cases "d = c")
    case False
    have "request_inv parse timeout_ms (events @ [e]) (cl_session cl') d (cl_requests cl d)"
      by (rule request_inv_frame [OF _ ok0 ok]) (use inv rest [OF False] in \<open>auto simp: session_inv_def\<close>)
    with rest [OF False] show ?thesis by simp
  qed (use one in simp)
  with ok show ?thesis by (simp add: session_inv_def)
qed

text \<open>
  Putting a sender in takes the place of an older request under the same number: that one loses
  its entry and nothing else.
\<close>

lemma request_inv_less:
  assumes "request_inv parse timeout_ms events s c p" "bt_ok (ss_pending s)" "bt_ok (ss_pending s')"
    and "\<And>i. map_of (ss_pending s') i = Some c \<Longrightarrow> map_of (ss_pending s) i = Some c" "ss_mail s' c = ss_mail s c"
  shows "request_inv parse timeout_ms (events @ [e]) s' c p"
  using assms unfolding request_inv_def pending_values [OF assms(2)] pending_values [OF assms(3)]
  by (auto intro: explained_later)

lemma put_sender_inv:
  assumes inv: "session_inv parse timeout_ms events cl" and n: "cl_requests cl c = Numbered i"
  shows "session_inv parse timeout_ms (events @ [PutSender c]) (set_phase c (Registered i) (cl\<lparr>cl_session := register_request i c (cl_session cl)\<rparr>))"
proof -
  let ?s = "register_request i c (cl_session cl)"
  have ok: "bt_ok (ss_pending (cl_session cl))" "bt_ok (ss_pending ?s)"
    using inv by (simp_all add: session_inv_def register_request_def)
  have c: "request_inv parse timeout_ms events (cl_session cl) c (Numbered i)" using inv n unfolding session_inv_def by metis
  then have "c \<notin> snd ` set (ss_pending (cl_session cl))" "ss_mail (cl_session cl) c = None" by (auto simp: request_inv_def)
  then have "request_inv parse timeout_ms (events @ [PutSender c]) ?s c (Registered i)"
    unfolding request_inv_def pending_values [OF ok(1)] by (auto simp: register_request_def)
  moreover have "request_inv parse timeout_ms (events @ [PutSender c]) ?s d (cl_requests cl d)" if "d \<noteq> c" for d
    by (rule request_inv_less [OF _ ok]) (use inv that in \<open>auto simp: session_inv_def register_request_def split: if_splits\<close>)
  ultimately show ?thesis using ok(2) by (simp add: session_inv_def set_phase_def)
qed

lemma take_number_inv:
  assumes inv: "session_inv parse timeout_ms events cl" and u: "cl_requests cl c = Unsent"
  shows "session_inv parse timeout_ms (events @ [e]) (set_phase c (Numbered i) (cl\<lparr>cl_next_id := i\<rparr>))"
proof -
  let ?cl = "set_phase c (Numbered i) (cl\<lparr>cl_next_id := i\<rparr>)"
  have ok: "bt_ok (ss_pending (cl_session cl))" using inv by (simp add: session_inv_def)
  have c: "request_inv parse timeout_ms events (cl_session cl) c Unsent" using inv u unfolding session_inv_def by metis
  then have none: "c \<notin> snd ` set (ss_pending (cl_session cl))" "ss_mail (cl_session cl) c = None" by (auto simp: request_inv_def)
  show ?thesis
  proof (rule session_inv_one [OF inv, of ?cl e c])
    show "bt_ok (ss_pending (cl_session ?cl))" using ok by (simp add: set_phase_def)
    show "request_inv parse timeout_ms (events @ [e]) (cl_session ?cl) c (cl_requests ?cl c)"
      using none unfolding request_inv_def pending_values [OF ok] by (auto simp: set_phase_def pending_values [OF ok])
  qed (simp add: set_phase_def)
qed

lemma routed_inv:
  assumes inv: "session_inv parse timeout_ms events cl"
    and m: "parse line = Some m" "message_id m = Some i" "json_get m ''method'' = None"
    and c: "map_of (ss_pending (cl_session cl)) i = Some c"
  shows "session_inv parse timeout_ms (events @ [ReadLine line fault])
    (cl\<lparr>cl_session := send_mail c (parse_response m) (unregister_request i (cl_session cl))\<rparr>)"
    (is "session_inv _ _ (events @ [?e]) ?cl")
proof -
  have ok: "bt_ok (ss_pending (cl_session cl))" using inv by (simp add: session_inv_def)
  have old: "request_inv parse timeout_ms events (cl_session cl) c (cl_requests cl c)" using inv by (simp add: session_inv_def)
  with c have n: "number_of (cl_requests cl c) = Some i" "PutSender c \<in> set events" "ss_mail (cl_session cl) c = None"
    by (simp_all add: request_inv_def)
  have only: "map_of (ss_pending (cl_session cl)) j = Some c \<Longrightarrow> j = i" for j
    using old n(1) by (simp add: request_inv_def)
  have ph: "cl_requests cl c \<noteq> Unsent \<and> (\<forall>j. cl_requests cl c \<noteq> Numbered j)"
    using old c n(3) ok unfolding request_inv_def pending_values [OF ok] by force
  have ans: "cl_requests cl c = Answered j r \<Longrightarrow> explained parse timeout_ms (events @ [?e]) c (Some j) r" for j r
    using old by (auto simp: request_inv_def intro: explained_later)
  have ex: "explained parse timeout_ms (events @ [?e]) c (Some i) (parse_response m)"
    unfolding explained_def using m n(2) by fastforce
  show ?thesis
  proof (rule session_inv_one [OF inv, of ?cl ?e c])
    show "bt_ok (ss_pending (cl_session ?cl))" using ok by (simp add: send_mail_def unregister_request_def)
    show "request_inv parse timeout_ms (events @ [?e]) (cl_session ?cl) c (cl_requests ?cl c)"
      using ex n(1) ph only ans unfolding request_inv_def by (auto simp: send_mail_def unregister_request_def)
  next
    fix d assume "d \<noteq> c"
    then show "cl_requests ?cl d = cl_requests cl d \<and> ss_mail (cl_session ?cl) d = ss_mail (cl_session cl) d \<and>
        (\<forall>j. map_of (ss_pending (cl_session ?cl)) j = Some d \<longleftrightarrow> map_of (ss_pending (cl_session cl)) j = Some d)"
      using c by (auto simp: send_mail_def unregister_request_def)
  qed
qed

lemma reader_end_inv:
  assumes inv: "session_inv parse timeout_ms events cl"
  shows "session_inv parse timeout_ms (events @ [ReaderEnds]) (cl\<lparr>cl_session := reader_end (cl_session cl)\<rparr>)"
proof -
  have ex: "explained parse timeout_ms (events @ [ReaderEnds]) c n (Inl (McpTransportError m))" for c n m
    by (simp add: explained_def)
  have ok: "bt_ok (ss_pending (cl_session cl))" using inv by (simp add: session_inv_def)
  have "request_inv parse timeout_ms (events @ [ReaderEnds]) (reader_end (cl_session cl)) c (cl_requests cl c)" for c
  proof -
    have old: "request_inv parse timeout_ms events (cl_session cl) c (cl_requests cl c)" using inv by (simp add: session_inv_def)
    show ?thesis
    proof (cases "c \<in> snd ` set (ss_pending (cl_session cl))")
      case True
      with old ok have "cl_requests cl c \<noteq> Unsent" "\<forall>i. cl_requests cl c \<noteq> Numbered i"
        unfolding request_inv_def pending_values [OF ok] by fastforce+
      with True old ex show ?thesis by (auto simp: request_inv_def reader_end_def intro: explained_later)
    next
      case False
      with old show ?thesis by (auto simp: request_inv_def reader_end_def intro: explained_later)
    qed
  qed
  then show ?thesis by (simp add: session_inv_def reader_end_def)
qed

lemma timed_out_inv:
  assumes inv: "session_inv parse timeout_ms events cl" and w: "cl_requests cl c = Waiting i" "ss_mail (cl_session cl) c = None"
    and e: "explained parse timeout_ms (events @ [e]) c (Some i) (Inl err)"
  shows "session_inv parse timeout_ms (events @ [e])
    (set_phase c (Answered i (Inl err)) (cl\<lparr>cl_session := unregister_request i (cl_session cl)\<rparr>))" (is "session_inv _ _ _ ?cl")
proof -
  have ok: "bt_ok (ss_pending (cl_session cl))" "bt_ok (ss_pending (unregister_request i (cl_session cl)))"
    using inv by (simp_all add: session_inv_def unregister_request_def)
  have "request_inv parse timeout_ms (events @ [e]) (unregister_request i (cl_session cl)) d (cl_requests ?cl d)" for d
  proof (cases "d = c")
    case True
    have "request_inv parse timeout_ms events (cl_session cl) c (Waiting i)" using inv w(1) unfolding session_inv_def by metis
    with True w(2) e show ?thesis by (auto simp: request_inv_def set_phase_def unregister_request_def)
  next
    case False
    have "request_inv parse timeout_ms (events @ [e]) (unregister_request i (cl_session cl)) d (cl_requests cl d)"
      by (rule request_inv_less [OF _ ok]) (use inv in \<open>auto simp: session_inv_def unregister_request_def split: if_splits\<close>)
    with False show ?thesis by (simp add: set_phase_def)
  qed
  with ok(2) show ?thesis by (simp add: session_inv_def set_phase_def)
qed

lemma await_inv:
  assumes inv: "session_inv parse timeout_ms events cl" and w: "cl_requests cl c = Waiting i"
    and there: "numbers_taken events < 2 ^ 64 \<Longrightarrow> ss_mail (cl_session cl) c \<noteq> None \<or> c \<in> snd ` set (ss_pending (cl_session cl))"
    and a: "await_response elapsed timeout_ms c i (cl_session cl) = Some (r, s)"
  shows "session_inv parse timeout_ms (events @ [AwaitAnswer c elapsed]) (set_phase c (Answered i r) (cl\<lparr>cl_session := s\<rparr>))"
proof -
  let ?e = "AwaitAnswer c elapsed"
  have old: "request_inv parse timeout_ms events (cl_session cl) c (Waiting i)"
    using inv w unfolding session_inv_def by metis
  consider (mail) "ss_mail (cl_session cl) c = Some r" "s = cl_session cl"
    | (closed) m where "ss_mail (cl_session cl) c = None" "c \<notin> snd ` set (ss_pending (cl_session cl))"
        "r = Inl (McpTransportError m)" "s = cl_session cl"
    | (elapsed) "ss_mail (cl_session cl) c = None" "elapsed" "r = Inl (McpTimeout timeout_ms)" "s = unregister_request i (cl_session cl)"
    using a by (auto simp: await_response_def split: option.splits if_splits)
  then show ?thesis
  proof cases
    case mail
    with old have "explained parse timeout_ms (events @ [?e]) c (Some i) r"
      by (auto simp: request_inv_def intro: explained_later)
    with mail w show ?thesis by (intro session_inv_same [OF inv]) (auto simp: set_phase_def)
  next
    case closed
    with there have "2 ^ 64 \<le> numbers_taken events" by force
    with closed have "explained parse timeout_ms (events @ [?e]) c (Some i) r"
      by (simp add: explained_def takes_number_def)
    with closed w show ?thesis by (intro session_inv_same [OF inv]) (auto simp: set_phase_def)
  next
    case elapsed
    with timed_out_inv [OF inv w, of ?e] show ?thesis by (simp add: explained_def)
  qed
qed

lemma route_line_cases:
  "(\<exists>m i c. parse line = Some m \<and> message_id m = Some i \<and> json_get m ''method'' = None \<and> map_of (ss_pending s) i = Some c \<and>
     route_line parse fault line s = send_mail c (parse_response m) (unregister_request i s)) \<or>
   (ss_pending (route_line parse fault line s) = ss_pending s \<and> ss_mail (route_line parse fault line s) = ss_mail s)"
  using session_write_same [of fault _ s]
  by (auto simp: route_line_def route_message_def split: option.splits)
    (metis prod.collapse)+

text \<open>
  Until the counter starts again, the numbers are distinct, and a request that is waiting or about
  to be written has mail or its own entry in the table.
\<close>

definition numbers_inv :: "stdio_event list \<Rightarrow> stdio_client \<Rightarrow> bool" where
  "numbers_inv events cl \<longleftrightarrow> (numbers_taken events < 2 ^ 64 \<longrightarrow>
     cl_next_id cl = numbers_taken events \<and>
     (\<forall>c i. number_of (cl_requests cl c) = Some i \<longrightarrow> i \<le> cl_next_id cl) \<and>
     (\<forall>c d i. number_of (cl_requests cl c) = Some i \<longrightarrow> number_of (cl_requests cl d) = Some i \<longrightarrow> c = d) \<and>
     (\<forall>c i. cl_requests cl c \<in> {Registered i, Waiting i} \<longrightarrow>
        ss_mail (cl_session cl) c \<noteq> None \<or> map_of (ss_pending (cl_session cl)) i = Some c))"

lemma numbers_invI:
  assumes "numbers_taken events < 2 ^ 64 \<Longrightarrow> cl_next_id cl = numbers_taken events"
    and "\<And>c i. numbers_taken events < 2 ^ 64 \<Longrightarrow> number_of (cl_requests cl c) = Some i \<Longrightarrow> i \<le> cl_next_id cl"
    and "\<And>c d i. numbers_taken events < 2 ^ 64 \<Longrightarrow> number_of (cl_requests cl c) = Some i \<Longrightarrow>
      number_of (cl_requests cl d) = Some i \<Longrightarrow> c = d"
    and "\<And>c i. numbers_taken events < 2 ^ 64 \<Longrightarrow> cl_requests cl c \<in> {Registered i, Waiting i} \<Longrightarrow>
      ss_mail (cl_session cl) c \<noteq> None \<or> map_of (ss_pending (cl_session cl)) i = Some c"
  shows "numbers_inv events cl"
  using assms unfolding numbers_inv_def by blast

lemma numbers_invD:
  assumes "numbers_inv events cl" "numbers_taken events < 2 ^ 64"
  shows "cl_next_id cl = numbers_taken events"
    "number_of (cl_requests cl c) = Some i \<Longrightarrow> i \<le> cl_next_id cl"
    "number_of (cl_requests cl c) = Some i \<Longrightarrow> number_of (cl_requests cl d) = Some i \<Longrightarrow> c = d"
    "cl_requests cl c \<in> {Registered i, Waiting i} \<Longrightarrow>
      ss_mail (cl_session cl) c \<noteq> None \<or> map_of (ss_pending (cl_session cl)) i = Some c"
  using assms unfolding numbers_inv_def by blast+

lemma numbers_inv_fresh:
  assumes inv: "numbers_inv events cl" and e: "takes_number e" and u: "cl_requests cl c = Unsent"
  shows "numbers_inv (events @ [e])
    (set_phase c (Numbered (next_id (cl_next_id cl))) (cl\<lparr>cl_next_id := next_id (cl_next_id cl)\<rparr>))" (is "numbers_inv _ ?cl")
proof (rule numbers_invI)
  assume "numbers_taken (events @ [e]) < 2 ^ 64"
  with e have n: "numbers_taken events < 2 ^ 64" "numbers_taken events + 1 < 2 ^ 64" by auto
  note D = numbers_invD [OF inv n(1)]
  have nx: "next_id (cl_next_id cl) = cl_next_id cl + 1" using n D(1) by (simp add: next_id_def)
  have ph: "cl_requests ?cl d = (if d = c then Numbered (cl_next_id cl + 1) else cl_requests cl d)" for d
    by (simp add: set_phase_def nx)
  have nid: "cl_next_id ?cl = cl_next_id cl + 1" by (simp add: set_phase_def nx)
  show "cl_next_id ?cl = numbers_taken (events @ [e])" using D(1) e nid by simp
  show "i \<le> cl_next_id ?cl" if "number_of (cl_requests ?cl d) = Some i" for d i
    using that D(2) [of d i] unfolding ph nid by (simp split: if_splits)
  show "d = d'" if "number_of (cl_requests ?cl d) = Some i" "number_of (cl_requests ?cl d') = Some i" for d d' i
    using that D(2) [of d i] D(2) [of d' i] D(3) [of d i d'] unfolding ph by (simp split: if_splits)
  show "ss_mail (cl_session ?cl) d \<noteq> None \<or> map_of (ss_pending (cl_session ?cl)) i = Some d"
    if "cl_requests ?cl d \<in> {Registered i, Waiting i}" for d i
  proof -
    from that have "cl_requests cl d \<in> {Registered i, Waiting i}" unfolding ph by (simp split: if_splits)
    from D(4) [OF this] show ?thesis by (simp add: set_phase_def)
  qed
qed

text \<open>A step without a new number keeps every number; what waits must keep its entry or get mail.\<close>

lemma numbers_inv_keep:
  assumes inv: "numbers_inv events cl" and e: "\<not> takes_number e" and n: "cl_next_id cl' = cl_next_id cl"
    and ph: "\<And>c. number_of (cl_requests cl' c) = number_of (cl_requests cl c)"
    and there: "\<And>c i. numbers_taken events < 2 ^ 64 \<Longrightarrow> cl_requests cl' c \<in> {Registered i, Waiting i} \<Longrightarrow>
        ss_mail (cl_session cl') c \<noteq> None \<or> map_of (ss_pending (cl_session cl')) i = Some c"
  shows "numbers_inv (events @ [e]) cl'"
proof (rule numbers_invI)
  assume "numbers_taken (events @ [e]) < 2 ^ 64"
  with e have lt: "numbers_taken events < 2 ^ 64" by simp
  note D = numbers_invD [OF inv lt]
  show "cl_next_id cl' = numbers_taken (events @ [e])" using D(1) e n by simp
  show "i \<le> cl_next_id cl'" if "number_of (cl_requests cl' c) = Some i" for c i
    using that D(2) unfolding ph n by blast
  show "c = d" if "number_of (cl_requests cl' c) = Some i" "number_of (cl_requests cl' d) = Some i" for c d i
    using that D(3) unfolding ph by blast
  show "ss_mail (cl_session cl') c \<noteq> None \<or> map_of (ss_pending (cl_session cl')) i = Some c"
    if "cl_requests cl' c \<in> {Registered i, Waiting i}" for c i by (rule there [OF lt that])
qed

lemma numbers_inv_step:
  assumes inv: "numbers_inv events cl" and step: "stdio_step parse timeout_ms e cl = Some cl'"
  shows "numbers_inv (events @ [e]) cl'"
proof (cases "takes_number e")
  case True
  with step numbers_inv_fresh [OF inv True] show ?thesis
    by (auto simp: takes_number_def split: if_splits)
next
  case False
  note keep = numbers_inv_keep [OF inv False] and D = numbers_invD [OF inv]
  have same: ?thesis if "cl_next_id cl' = cl_next_id cl" "\<And>c. number_of (cl_requests cl' c) = number_of (cl_requests cl c)"
      "ss_pending (cl_session cl') = ss_pending (cl_session cl)" "ss_mail (cl_session cl') = ss_mail (cl_session cl)"
      "\<And>c i. cl_requests cl' c \<in> {Registered i, Waiting i} \<Longrightarrow> cl_requests cl c \<in> {Registered i, Waiting i}"
    by (rule keep [OF that(1,2)]) (use that(3-5) D(4) in metis)
  show ?thesis
  proof (cases e)
    case (PutSender c)
    with step obtain i where i: "cl_requests cl c = Numbered i"
      "cl' = set_phase c (Registered i) (cl\<lparr>cl_session := register_request i c (cl_session cl)\<rparr>)"
      by (auto split: request_phase.splits)
    show ?thesis
    proof (rule keep)
      fix d k assume lt: "numbers_taken events < 2 ^ 64" and k: "cl_requests cl' d \<in> {Registered k, Waiting k}"
      show "ss_mail (cl_session cl') d \<noteq> None \<or> map_of (ss_pending (cl_session cl')) k = Some d"
      proof (cases "d = c")
        case True
        with k i(2) show ?thesis by (auto simp: set_phase_def register_request_def)
      next
        case False
        with k i(2) have dk: "cl_requests cl d \<in> {Registered k, Waiting k}" by (auto simp: set_phase_def)
        with D(3) [OF lt, of d k c] i(1) False have "k \<noteq> i" by auto
        with D(4) [OF lt dk] i(2) show ?thesis by (simp add: set_phase_def register_request_def)
      qed
    qed (use i in \<open>simp_all add: set_phase_def\<close>)
  next
    case (WriteRequest c m fault)
    obtain r s where w: "session_write fault m (cl_session cl) = (r, s)" by (rule prod.exhaust)
    from WriteRequest step w obtain i p where "cl_requests cl c = Registered i" "p = Waiting i \<or> (\<exists>r. p = Answered i r)"
      "cl' = set_phase c p (cl\<lparr>cl_session := s\<rparr>)"
      by (auto split: request_phase.splits sum.splits)
    then show ?thesis using session_write_same [OF w] by (intro same) (auto simp: set_phase_def split: if_splits)
  next
    case (ReadLine line fault)
    with step have cl': "cl' = cl\<lparr>cl_session := route_line parse fault line (cl_session cl)\<rparr>" by (auto split: if_splits)
    from route_line_cases [of parse line "cl_session cl" fault] show ?thesis
    proof
      assume "\<exists>m i c. parse line = Some m \<and> message_id m = Some i \<and> json_get m ''method'' = None \<and>
          map_of (ss_pending (cl_session cl)) i = Some c \<and>
          route_line parse fault line (cl_session cl) = send_mail c (parse_response m) (unregister_request i (cl_session cl))"
      then obtain m i c where r: "map_of (ss_pending (cl_session cl)) i = Some c"
        "route_line parse fault line (cl_session cl) = send_mail c (parse_response m) (unregister_request i (cl_session cl))" by blast
      show ?thesis
      proof (rule keep)
        fix d k assume lt: "numbers_taken events < 2 ^ 64" and k: "cl_requests cl' d \<in> {Registered k, Waiting k}"
        then have "cl_requests cl d \<in> {Registered k, Waiting k}" by (simp add: cl')
        from D(4) [OF lt this] r(1) show "ss_mail (cl_session cl') d \<noteq> None \<or> map_of (ss_pending (cl_session cl')) k = Some d"
          by (cases "k = i") (auto simp: cl' r(2) send_mail_def unregister_request_def)
      qed (simp_all add: cl')
    qed (rule same; simp add: cl')
  next
    case ReaderEnds
    with step have cl': "cl' = cl\<lparr>cl_session := reader_end (cl_session cl)\<rparr>" by (auto split: if_splits)
    show ?thesis
    proof (rule keep)
      fix d k assume lt: "numbers_taken events < 2 ^ 64" and k: "cl_requests cl' d \<in> {Registered k, Waiting k}"
      then have "cl_requests cl d \<in> {Registered k, Waiting k}" by (simp add: cl')
      from D(4) [OF lt this] show "ss_mail (cl_session cl') d \<noteq> None \<or> map_of (ss_pending (cl_session cl')) k = Some d"
        by (auto simp: cl' reader_end_def dest: map_of_SomeD intro: rev_image_eqI)
    qed (simp_all add: cl')
  next
    case (AwaitAnswer c elapsed)
    with step obtain i r s where i: "cl_requests cl c = Waiting i" "await_response elapsed timeout_ms c i (cl_session cl) = Some (r, s)"
      "cl' = set_phase c (Answered i r) (cl\<lparr>cl_session := s\<rparr>)" by (auto split: request_phase.splits)
    from i(2) have s: "ss_mail s = ss_mail (cl_session cl)" "\<And>k. k \<noteq> i \<Longrightarrow> map_of (ss_pending s) k = map_of (ss_pending (cl_session cl)) k"
      by (auto simp: await_response_def unregister_request_def split: option.splits if_splits)
    show ?thesis
    proof (rule keep)
      fix d k assume lt: "numbers_taken events < 2 ^ 64" and k: "cl_requests cl' d \<in> {Registered k, Waiting k}"
      then have d: "d \<noteq> c" "cl_requests cl d \<in> {Registered k, Waiting k}" by (auto simp: i(3) set_phase_def split: if_splits)
      with D(3) [OF lt, of d k c] i(1) have "k \<noteq> i" by auto
      with D(4) [OF lt d(2)] s show "ss_mail (cl_session cl') d \<noteq> None \<or> map_of (ss_pending (cl_session cl')) k = Some d"
        by (simp add: i(3) set_phase_def)
    qed (use i in \<open>simp_all add: set_phase_def\<close>)
  next
    case (ReadStderr line)
    with step show ?thesis by (intro same) auto
  qed (use False in \<open>simp_all add: takes_number_def\<close>)
qed

lemma session_inv_step:
  assumes inv: "session_inv parse timeout_ms events cl" and numbers: "numbers_inv events cl"
    and step: "stdio_step parse timeout_ms e cl = Some cl'"
  shows "session_inv parse timeout_ms (events @ [e]) cl'"
proof (cases e)
  case (WriteRequest c m fault)
  with step obtain i where n: "cl_requests cl c = Registered i" by (auto split: request_phase.splits)
  obtain r s where w: "session_write fault m (cl_session cl) = (r, s)" by (rule prod.exhaust)
  have "explained parse timeout_ms (events @ [e]) c (Some i) (Inl err)" if "r = Inl err" for err
    using w that by (auto simp: session_write_def explained_def WriteRequest split: option.splits)
  then show ?thesis
    by (intro session_inv_same [OF inv])
      (use step n w session_write_same [OF w] in \<open>auto simp: WriteRequest set_phase_def split: sum.splits\<close>)
next
  case (ReadLine line fault)
  with step have cl': "cl' = cl\<lparr>cl_session := route_line parse fault line (cl_session cl)\<rparr>" by (auto split: if_splits)
  from route_line_cases [of parse line "cl_session cl" fault] show ?thesis
  proof
    assume "ss_pending (route_line parse fault line (cl_session cl)) = ss_pending (cl_session cl) \<and>
      ss_mail (route_line parse fault line (cl_session cl)) = ss_mail (cl_session cl)"
    then show ?thesis by (intro session_inv_same [OF inv]) (simp_all add: cl')
  qed (use routed_inv [OF inv] in \<open>auto simp: cl' ReadLine\<close>)
next
  case (ReadStderr line)
  with step show ?thesis by (intro session_inv_same [OF inv]) auto
next
  case (AwaitAnswer c elapsed)
  with step obtain i where w: "cl_requests cl c = Waiting i" by (auto split: request_phase.splits)
  have "ss_mail (cl_session cl) c \<noteq> None \<or> c \<in> snd ` set (ss_pending (cl_session cl))" if "numbers_taken events < 2 ^ 64"
    using numbers_invD(4) [OF numbers that, of c i] w by (force dest: map_of_SomeD)
  from await_inv [OF inv w this] step w show ?thesis by (auto simp: AwaitAnswer)
next
  case (TakeNumber c)
  with step take_number_inv [OF inv] show ?thesis by (auto split: if_splits)
next
  case (NextNumber c)
  with step take_number_inv [OF inv] show ?thesis by (auto split: if_splits)
next
  case (PutSender c)
  with step put_sender_inv [OF inv] show ?thesis by (auto split: request_phase.splits)
next
  case ReaderEnds
  with step reader_end_inv [OF inv] show ?thesis by (auto split: if_splits)
qed

lemma run_invariants:
  "stdio_run parse timeout_ms events cl \<Longrightarrow> session_inv parse timeout_ms events cl \<and> numbers_inv events cl"
proof (induction rule: stdio_run.induct)
  case run_start
  show ?case by (simp add: session_inv_new) (simp add: numbers_inv_def client_new_def)
qed (blast intro: session_inv_step numbers_inv_step)

lemmas run_session_inv = run_invariants [THEN conjunct1]
  and run_numbers_inv = run_invariants [THEN conjunct2]

lemma answer_explained:
  assumes "stdio_run parse timeout_ms events cl" "cl_requests cl c = Answered i r"
  shows "explained parse timeout_ms events c (Some i) r"
proof -
  have "request_inv parse timeout_ms events (cl_session cl) c (Answered i r)"
    using run_session_inv [OF assms(1)] assms(2) unfolding session_inv_def by metis
  then show ?thesis by (simp add: request_inv_def)
qed

text \<open>
  C26. However the requests, the lines of the server, its end and the timeouts interleave, every
  answer a request gets, good or bad, is what a response says that the server sent under the
  request's number, on a line read after the request had registered: never another request's
  answer, a notification, a request of the server or noise. The only other answers are the
  request's own timeout, after its time was over, and a failure of the transport, which needs a
  failed write of this request, the end of the server's output, or \<open>2 ^ 64\<close> numbers handed out.
\<close>

theorem answers_come_from_responses:
  assumes "stdio_run parse timeout_ms events cl" "cl_requests cl c = Answered i r"
  shows "(\<exists>before later line fault m. events = before @ ReadLine line fault # later \<and> PutSender c \<in> set before \<and>
      parse line = Some m \<and> message_id m = Some i \<and> json_get m ''method'' = None \<and> r = parse_response m) \<or>
    (r = Inl (McpTimeout timeout_ms) \<and> AwaitAnswer c True \<in> set events) \<or>
    (\<exists>s. r = Inl (McpTransportError s) \<and>
       (ReaderEnds \<in> set events \<or> (\<exists>m io. WriteRequest c m (Some io) \<in> set events) \<or> 2 ^ 64 \<le> numbers_taken events))"
  using answer_explained [OF assms] unfolding explained_def by fastforce

text \<open>
  C27. When the server's stdout ends, every request that has registered by then is answered as
  soon as it waits, without its timeout: with the mail it already has, or with a failure of the
  transport that carries the end of the server's stderr.
\<close>

theorem reader_end_releases_requests:
  assumes "stdio_run parse timeout_ms events cl" "cl_requests cl c \<in> {Registered i, Waiting i}"
    and "stdio_step parse timeout_ms ReaderEnds cl = Some cl'"
  shows "\<exists>r. await_response False timeout_ms c i (cl_session cl') = Some (r, cl_session cl') \<and>
    (case ss_mail (cl_session cl) c of Some r' \<Rightarrow> r = r'
     | None \<Rightarrow> \<exists>m. r = Inl (McpTransportError (m @ stderr_suffix (cl_session cl))))"
proof -
  have cl': "cl' = cl\<lparr>cl_session := reader_end (cl_session cl)\<rparr>" using assms(3) by (auto split: if_splits)
  have ok: "bt_ok (ss_pending (cl_session cl))"
    and inv: "request_inv parse timeout_ms events (cl_session cl) c (cl_requests cl c)"
    using run_session_inv [OF assms(1)] by (simp_all add: session_inv_def)
  have suf: "stderr_suffix (reader_end s) = stderr_suffix s" for s by (simp add: stderr_suffix_def reader_end_def)
  show ?thesis
  proof (cases "c \<in> snd ` set (ss_pending (cl_session cl))")
    case True
    with inv ok have "ss_mail (cl_session cl) c = None" unfolding request_inv_def pending_values [OF ok] by blast
    with True show ?thesis by (auto simp: await_response_def cl' reader_end_def)
  next
    case False
    then show ?thesis using suf [of "cl_session cl"]
      by (cases "ss_mail (cl_session cl) c") (auto simp: await_response_def cl' reader_end_def stderr_suffix_def)
  qed
qed

section \<open>A run\<close>

definition demo_parse :: "string \<Rightarrow> json option" where
  "demo_parse line =
     (if line = ''r1'' then Some (JObj [(''id'', json_num 1), (''result'', JStr ''one'')])
      else if line = ''n'' then Some (JObj [(''method'', JStr ''progress'')]) else None)"

definition demo_events :: "stdio_event list" where
  "demo_events = [TakeNumber 7, PutSender 7, WriteRequest 7 JNull None, ReadLine ''n'' None, ReadLine ''r1'' None,
     AwaitAnswer 7 False]"

fun run_events :: "(string \<Rightarrow> json option) \<Rightarrow> nat \<Rightarrow> stdio_event list \<Rightarrow> stdio_client \<Rightarrow> stdio_client option" where
  "run_events parse timeout_ms [] cl = Some cl"
| "run_events parse timeout_ms (e # es) cl = Option.bind (stdio_step parse timeout_ms e cl) (run_events parse timeout_ms es)"

lemma run_events_run:
  "stdio_run parse timeout_ms events cl \<Longrightarrow> run_events parse timeout_ms es cl = Some cl' \<Longrightarrow>
     stdio_run parse timeout_ms (events @ es) cl'"
proof (induction es arbitrary: events cl)
  case (Cons e es)
  then obtain cl1 where "stdio_step parse timeout_ms e cl = Some cl1" "run_events parse timeout_ms es cl1 = Some cl'"
    by (auto simp: Option.bind_eq_Some_conv)
  with Cons.IH [of "events @ [e]" cl1] Cons.prems(1) show ?case by (auto intro: stdio_run.intros)
qed simp

lemma run_events_append:
  "run_events parse timeout_ms (es @ fs) cl = Option.bind (run_events parse timeout_ms es cl) (run_events parse timeout_ms fs)"
proof (induction es arbitrary: cl)
  case (Cons e es)
  then show ?case by (cases "stdio_step parse timeout_ms e cl") simp_all
qed simp

lemma demo_blank [simp]: "\<not> is_blank ''r1''" "\<not> is_blank ''n''"
  by (simp_all add: is_blank_def trim_start.simps)

lemmas session_defs = client_new_def session_new_def set_phase_def register_request_def unregister_request_def
  session_write_def send_mail_def await_response_def reader_end_def route_line_def route_message_def
  message_id_def as_u64_def json_num_def json_get_def parse_response_def next_id_def demo_parse_def

lemma demo_run: "\<exists>cl. stdio_run demo_parse 9 demo_events cl \<and> cl_requests cl 7 = Answered 1 (Inr (JStr ''one''))"
proof -
  have "case run_events demo_parse 9 demo_events client_new of
      None \<Rightarrow> False | Some cl \<Rightarrow> cl_requests cl 7 = Answered 1 (Inr (JStr ''one''))"
    by (simp add: demo_events_def session_defs ok_or_def)
  then obtain cl where "run_events demo_parse 9 demo_events client_new = Some cl" "cl_requests cl 7 = Answered 1 (Inr (JStr ''one''))"
    by (auto split: option.splits)
  with run_events_run [OF run_start, of demo_parse 9 demo_events cl] show ?thesis by auto
qed

theorem answers_come_from_responses_witness:
  "\<exists>line fault m. ReadLine line fault \<in> set demo_events \<and> demo_parse line = Some m \<and>
     message_id m = Some 1 \<and> parse_response m = Inr (JStr ''one'')"
proof -
  obtain cl where "stdio_run demo_parse 9 demo_events cl" "cl_requests cl 7 = Answered 1 (Inr (JStr ''one''))"
    using demo_run by blast
  from answers_come_from_responses [OF this] obtain before later line fault m where
    "demo_events = before @ ReadLine line fault # later" "demo_parse line = Some m" "message_id m = Some 1"
    "parse_response m = Inr (JStr ''one'')" by auto
  then show ?thesis by (metis in_set_conv_decomp)
qed

theorem reader_end_releases_requests_witness:
  "\<exists>cl r. run_events demo_parse 9 [TakeNumber 7, PutSender 7, WriteRequest 7 JNull None, ReaderEnds] client_new = Some cl \<and>
     await_response False 9 7 1 (cl_session cl) = Some (Inl r, cl_session cl)"
proof -
  let ?es = "[TakeNumber 7, PutSender 7, WriteRequest 7 JNull None]"
  have "case run_events demo_parse 9 ?es client_new of
      None \<Rightarrow> False | Some cl \<Rightarrow> cl_requests cl 7 = Waiting 1 \<and> ss_reader (cl_session cl) \<and> ss_mail (cl_session cl) 7 = None"
    by (simp add: session_defs)
  then obtain cl where e: "run_events demo_parse 9 ?es client_new = Some cl" "cl_requests cl 7 = Waiting 1" "ss_reader (cl_session cl)"
    "ss_mail (cl_session cl) 7 = None" by (auto split: option.splits)
  have run: "stdio_run demo_parse 9 ?es cl" using run_events_run [OF run_start e(1)] by simp
  from e obtain cl' where s: "stdio_step demo_parse 9 ReaderEnds cl = Some cl'" by simp
  have w: "cl_requests cl 7 \<in> {Registered 1, Waiting 1}" using e(2) by simp
  from reader_end_releases_requests [OF run w s] e(4)
  obtain r where "await_response False 9 7 1 (cl_session cl') = Some (Inl r, cl_session cl')" by auto
  moreover have "run_events demo_parse 9 (?es @ [ReaderEnds]) client_new = Some cl'"
    unfolding run_events_append e(1) using s by simp
  ultimately show ?thesis by (auto simp only: append_Cons append_Nil)
qed

text \<open>
  A request that took the session before its end but registers after it is left in the table of a
  dead session: nothing but its timeout answers it.
\<close>

lemma late_registration_waits_for_timeout:
  "case run_events demo_parse 9 [TakeNumber 7, ReaderEnds, PutSender 7, WriteRequest 7 JNull None] client_new of
     None \<Rightarrow> False
   | Some cl \<Rightarrow> ss_dead (cl_session cl) \<and> cl_requests cl 7 = Waiting 1 \<and>
       await_response False 9 7 1 (cl_session cl) = None \<and> stdio_step demo_parse 9 (AwaitAnswer 7 False) cl = None"
  by (simp add: session_defs)

end
