(* ===== verification/McpClients.thy ===== *)
theory McpClients
  imports McpStdio
begin

text \<open>
  The rest of the MCP transports: finding or starting a session, the command and environment of a
  stdio server with the composition depth, the pages of a tool list (\<^verbatim>\<open>stdio.rs\<close>), and the
  streamable-HTTP client (\<^verbatim>\<open>http.rs\<close>).
\<close>

section \<open>Sessions\<close>

text \<open>The slot of the client: a live session is used again, a dead one is dropped and replaced.\<close>

definition acquire_session :: "('w \<Rightarrow> (mcp_client_error, stdio_session) result \<times> 'w) \<Rightarrow> stdio_session option \<Rightarrow> 'w
    \<Rightarrow> (mcp_client_error, stdio_session) result \<times> stdio_session option \<times> 'w" where
  "acquire_session start slot w =
     (if (case slot of Some s \<Rightarrow> \<not> ss_dead s | None \<Rightarrow> False) then (Inr (the slot), slot, w)
      else (case start w of
              (Inl e, w1) \<Rightarrow> (Inl e, None, w1)
            | (Inr s, w1) \<Rightarrow> (Inr s, Some s, w1)))"

definition DEPTH_ENV_VAR :: string where
  "DEPTH_ENV_VAR = ''TOOL_COMPILER_DEPTH''"

text \<open>The depth a process reads from its environment: zero when unset or not a number.\<close>

definition env_depth :: "(string \<rightharpoonup> string) \<Rightarrow> nat" where
  "env_depth vars = (case Option.bind (vars DEPTH_ENV_VAR) parse_u32 of None \<Rightarrow> 0 | Some n \<Rightarrow> n)"

record stdio_transport =
  st_command :: string
  st_args :: "string list"
  st_env :: "(string, string) btree"
  st_env_clear :: bool
  st_inherit :: "string list"

text \<open>The addition is that of a release build, which wraps.\<close>

definition stdio_command :: "(string \<rightharpoonup> string) \<Rightarrow> stdio_transport \<Rightarrow> string \<Rightarrow> command" where
  "stdio_command parent t candidate =
     \<lparr>cm_program = candidate, cm_args = st_args t, cm_env_clear = st_env_clear t,
      cm_env = (if st_env_clear t then inherited_vars parent (st_inherit t) else []) @ st_env t @
        [(DEPTH_ENV_VAR, dec ((env_depth parent + 1) mod 2 ^ 32))],
      cm_cwd = None, cm_piped_stdin = True\<rparr>"

fun spawn_candidates :: "(command \<Rightarrow> 'w \<Rightarrow> (io_error, 'c) result \<times> 'w) \<Rightarrow> string \<Rightarrow> command list \<Rightarrow> io_error option \<Rightarrow> 'w
    \<Rightarrow> (mcp_client_error, 'c) result \<times> 'w" where
  "spawn_candidates spawn program [] last_error w =
     (Inl (McpTransportError (case last_error of Some io \<Rightarrow> io_message io | None \<Rightarrow> ''program not found: '' @ program)), w)"
| "spawn_candidates spawn program (c # cs) last_error w =
     (case spawn c w of
        (Inr child, w1) \<Rightarrow> (Inr child, w1)
      | (Inl io, w1) \<Rightarrow>
          if io_not_found io then spawn_candidates spawn program cs (Some io) w1
          else (Inl (McpTransportError (io_message io)), w1))"

definition spawn_stdio :: "(command \<Rightarrow> 'w \<Rightarrow> (io_error, 'c) result \<times> 'w) \<Rightarrow> bool \<Rightarrow> (string \<rightharpoonup> string) \<Rightarrow> stdio_transport \<Rightarrow> 'w
    \<Rightarrow> (mcp_client_error, 'c) result \<times> 'w" where
  "spawn_stdio spawn windows parent t w =
     spawn_candidates spawn (st_command t) (map (stdio_command parent t) (command_candidates windows (st_command t))) None w"

lemma child_variable:
  "child_environment parent (stdio_command parent t candidate) DEPTH_ENV_VAR = Some (dec ((env_depth parent + 1) mod 2 ^ 32))"
  by (simp add: child_environment_def stdio_command_def foldl_env)

text \<open>
  A stdio server always finds itself one level deeper than its parent, whatever the
  configuration puts into its environment or keeps out of it.
\<close>

theorem child_depth:
  "env_depth (child_environment parent (stdio_command parent t candidate)) = (env_depth parent + 1) mod 2 ^ 32"
proof -
  have "(env_depth parent + 1) mod 2 ^ 32 < 2 ^ 32" by simp
  from parse_u32_dec [OF this] show ?thesis
    unfolding env_depth_def [of "child_environment _ _"] child_variable bind.bind_lunit by simp
qed

section \<open>Pages\<close>

text \<open>
  The tool list, page by page, for either transport. \<open>request\<close> takes the next number, sends the
  message made of it and waits for the result.
\<close>

type_synonym 'w mcp_request = "(nat \<Rightarrow> json) \<Rightarrow> 'w \<Rightarrow> (mcp_client_error, json) result \<times> 'w"

partial_function (option) list_pages :: "'w mcp_request \<Rightarrow> string option \<Rightarrow> mcp_tool_info list \<Rightarrow> 'w
    \<Rightarrow> ((mcp_client_error, mcp_tool_info list) result \<times> 'w) option" where
  "list_pages request cursor tools w =
     (case request (\<lambda>i. tools_list_request i cursor) w of
        (Inl e, w1) \<Rightarrow> Some (Inl e, w1)
      | (Inr result, w1) \<Rightarrow>
          (case parse_tools_list result of
             (page, None) \<Rightarrow> Some (Inr (tools @ page), w1)
           | (page, Some c) \<Rightarrow> list_pages request (Some c) (tools @ page) w1))"

definition list_tools :: "'w mcp_request \<Rightarrow> 'w \<Rightarrow> ((mcp_client_error, mcp_tool_info list) result \<times> 'w) option" where
  "list_tools request w = list_pages request None [] w"

definition call_tool_over :: "'w mcp_request \<Rightarrow> 'w call_tool_fn" where
  "call_tool_over request name arguments w = request (\<lambda>i. tool_call_request i name arguments) w"

text \<open>The pages as the server gives them.\<close>

inductive page_run :: "'w mcp_request \<Rightarrow> string option \<Rightarrow> 'w \<Rightarrow> mcp_tool_info list \<Rightarrow> 'w \<Rightarrow> bool" for request where
  last_page: "page_run request cursor w page w1"
    if "request (\<lambda>i. tools_list_request i cursor) w = (Inr result, w1)" "parse_tools_list result = (page, None)"
| next_page: "page_run request cursor w (page @ pages) w2"
    if "request (\<lambda>i. tools_list_request i cursor) w = (Inr result, w1)" "parse_tools_list result = (page, Some c)"
      "page_run request (Some c) w1 pages w2"

definition finite_pages :: "'w mcp_request \<Rightarrow> (string option \<Rightarrow> nat) \<Rightarrow> bool" where
  "finite_pages request weight \<longleftrightarrow> (\<forall>cursor w result w1 c. request (\<lambda>i. tools_list_request i cursor) w = (Inr result, w1) \<longrightarrow>
     snd (parse_tools_list result) = Some c \<longrightarrow> weight (Some c) < weight cursor)"

lemma list_pages_returns:
  assumes "finite_pages request weight"
  shows "\<exists>res w'. list_pages request cursor tools w = Some (res, w') \<and>
    (\<forall>all. res = Inr all \<longrightarrow> (\<exists>pages. all = tools @ pages \<and> page_run request cursor w pages w'))"
proof (induction "weight cursor" arbitrary: cursor tools w rule: less_induct)
  case less
  obtain r w1 where q: "request (\<lambda>i. tools_list_request i cursor) w = (r, w1)" by (rule prod.exhaust)
  show ?case
  proof (cases r)
    case (Inl e)
    with q show ?thesis by (simp add: list_pages.simps)
  next
    case (Inr result)
    obtain page nxt where p: "parse_tools_list result = (page, nxt)" by (rule prod.exhaust)
    show ?thesis
    proof (cases nxt)
      case None
      with q Inr p show ?thesis by (auto simp: list_pages.simps intro: last_page)
    next
      case (Some c)
      have "weight (Some c) < weight cursor" using assms q Inr p Some unfolding finite_pages_def by (metis snd_conv)
      from less [OF this, of "tools @ page" w1] obtain res w' where
        r: "list_pages request (Some c) (tools @ page) w1 = Some (res, w')"
          "\<forall>all. res = Inr all \<longrightarrow> (\<exists>pages. all = (tools @ page) @ pages \<and> page_run request (Some c) w1 pages w')" by blast
      have "list_pages request cursor tools w = Some (res, w')"
        by (subst list_pages.simps) (simp add: q Inr p Some r(1))
      with r(2) next_page [of request cursor w result w1 page c] q Inr p Some show ?thesis by fastforce
    qed
  qed
qed

text \<open>
  Listing the tools of a server returns when the cursors it hands out cannot go on for ever,
  and a successful listing is all its pages in order.
\<close>

theorem list_tools_returns:
  assumes "finite_pages request weight"
  shows "\<exists>res w'. list_tools request w = Some (res, w') \<and> (\<forall>tools. res = Inr tools \<longrightarrow> page_run request None w tools w')"
  using list_pages_returns [OF assms, of None "[]" w] by (auto simp: list_tools_def)

text \<open>A server that always names a next page is asked for ever.\<close>

lemma list_pages_diverges:
  assumes "\<And>f w. request f w = (Inr (JObj [(''nextCursor'', JStr ''more'')]), w)"
  shows "list_pages request cursor tools w = None"
proof -
  have "list_pages request cursor tools w = Some r \<Longrightarrow> request = request \<longrightarrow> False" for r
  proof (erule list_pages.raw_induct [where P = "\<lambda>q c t w r. q = request \<longrightarrow> False", rotated 1], intro impI)
    fix lp q c t w r
    assume ih: "\<And>q c t w r. lp q c t w = Some r \<Longrightarrow> q = request \<longrightarrow> False"
      and e: "(case q (\<lambda>i. tools_list_request i c) w of (Inl e, w1) \<Rightarrow> Some (Inl e, w1)
        | (Inr result, w1) \<Rightarrow> (case parse_tools_list result of
             (page, None) \<Rightarrow> Some (Inr (t @ page), w1) | (page, Some c) \<Rightarrow> lp q (Some c) (t @ page) w1)) = Some r"
      and q: "q = request"
    have "lp q (Some ''more'') t w = Some r"
      using e unfolding q assms by (simp add: parse_tools_list_def json_get_def as_str_def)
    from ih [OF this] q show False by simp
  qed
  then show ?thesis by (cases "list_pages request cursor tools w") auto
qed

section \<open>Streamable HTTP\<close>

datatype post_error = PostTimeout | PostFailed string

text \<open>What a POST brings back: status, the two headers the client reads, the body or why it failed.\<close>

record http_reply =
  rp_status :: "16 word"
  rp_status_text :: string
  rp_session :: "string option"
  rp_content_type :: "string option"
  rp_body :: "(string, string) result"

type_synonym 'w poster = "json \<Rightarrow> string option \<Rightarrow> 'w \<Rightarrow> (post_error, http_reply) result \<times> 'w"

text \<open>The response in an event stream: the first event whose number is the request's.\<close>

fun sse_find :: "(string \<Rightarrow> (string, json) result) \<Rightarrow> nat \<Rightarrow> string list \<Rightarrow> (mcp_client_error, json) result" where
  "sse_find parse i [] = Inl (McpProtocolError ''event stream carried no response for the request'')"
| "sse_find parse i (line # lines) =
     (if \<not> prefix ''data:'' line then sse_find parse i lines
      else (case parse (str_trim (drop 5 line)) of
              Inl _ \<Rightarrow> sse_find parse i lines
            | Inr m \<Rightarrow> if message_id m = Some i then Inr m else sse_find parse i lines))"

definition sse_response_for :: "(string \<Rightarrow> (string, json) result) \<Rightarrow> string \<Rightarrow> nat \<Rightarrow> (mcp_client_error, json) result" where
  "sse_response_for parse body i = sse_find parse i (str_lines body)"

definition mcp_post :: "(string \<Rightarrow> (string, json) result) \<Rightarrow> nat \<Rightarrow> 'w poster \<Rightarrow> json \<Rightarrow> nat \<Rightarrow> string option \<Rightarrow> 'w
    \<Rightarrow> (mcp_client_error, json \<times> string option) result \<times> 'w" where
  "mcp_post parse timeout_ms send message i session w = (case send message session w of
     (Inl PostTimeout, w1) \<Rightarrow> (Inl (McpTimeout timeout_ms), w1)
   | (Inl (PostFailed m), w1) \<Rightarrow> (Inl (McpTransportError m), w1)
   | (Inr reply, w1) \<Rightarrow>
       (if \<not> (200 \<le> unat (rp_status reply) \<and> unat (rp_status reply) < 300)
        then (Inl (McpTransportError (''http status '' @ rp_status_text reply)), w1)
        else (case rp_body reply of
                Inl m \<Rightarrow> (Inl (McpTransportError m), w1)
              | Inr body \<Rightarrow>
                  (res_bind (if str_contains ''text/event-stream'' (case rp_content_type reply of None \<Rightarrow> [] | Some t \<Rightarrow> t)
                       then sse_response_for parse body i else map_err McpProtocolError (parse body))
                     (\<lambda>m. res_bind (parse_response m) (\<lambda>result. Inr (result, rp_session reply))), w1))))"

record http_client_state =
  hc_next_id :: nat
  hc_session :: "string option"

definition session_header :: "http_client_state \<Rightarrow> string option" where
  "session_header st = (case hc_session st of Some s \<Rightarrow> if s = [] then None else Some s | None \<Rightarrow> None)"

definition ensure_session :: "string \<Rightarrow> (string \<Rightarrow> (string, json) result) \<Rightarrow> nat \<Rightarrow> 'w poster \<Rightarrow> http_client_state \<times> 'w
    \<Rightarrow> (mcp_client_error, unit) result \<times> http_client_state \<times> 'w" where
  "ensure_session version parse timeout_ms send sw = (case sw of (st, w) \<Rightarrow>
     if hc_session st \<noteq> None then (Inr (), st, w)
     else (let i = next_id (hc_next_id st); st1 = st\<lparr>hc_next_id := i\<rparr> in
       case mcp_post parse timeout_ms send (initialize_request version i) i None w of
         (Inl e, w1) \<Rightarrow> (Inl e, st1, w1)
       | (Inr (result, new_session), w1) \<Rightarrow>
           (case check_protocol_version result of
              Inl e \<Rightarrow> (Inl e, st1, w1)
            | Inr _ \<Rightarrow>
                (let st2 = st1\<lparr>hc_session := Some (case new_session of None \<Rightarrow> [] | Some s \<Rightarrow> s)\<rparr>
                 in (Inr (), st2, snd (send initialized_notification (session_header st2) w1))))))"

text \<open>A request takes its number before the session is established.\<close>

definition http_request_over :: "string \<Rightarrow> (string \<Rightarrow> (string, json) result) \<Rightarrow> nat \<Rightarrow> 'w poster
    \<Rightarrow> (http_client_state \<times> 'w) mcp_request" where
  "http_request_over version parse timeout_ms send message sw = (case sw of (st, w) \<Rightarrow>
     let i = next_id (hc_next_id st) in
     case ensure_session version parse timeout_ms send (st\<lparr>hc_next_id := i\<rparr>, w) of
       (Inl e, st1, w1) \<Rightarrow> (Inl e, st1, w1)
     | (Inr _, st1, w1) \<Rightarrow>
         (case mcp_post parse timeout_ms send (message i) i (session_header st1) w1 of
            (Inl e, w2) \<Rightarrow> (Inl e, st1, w2)
          | (Inr (result, _), w2) \<Rightarrow> (Inr result, st1, w2)))"

lemma ensure_session_done:
  "ensure_session version parse timeout_ms send (st, w) = (Inr u, st1, w1) \<Longrightarrow> hc_session st1 \<noteq> None"
  by (auto simp: ensure_session_def Let_def split: if_splits prod.splits sum.splits)

lemma ensure_session_keeps:
  "hc_session st \<noteq> None \<Longrightarrow> ensure_session version parse timeout_ms send (st, w) = (Inr (), st, w)"
  by (simp add: ensure_session_def)

lemma sse_find_Inr:
  "sse_find parse i lines = Inr m \<Longrightarrow> \<exists>line \<in> set lines. prefix ''data:'' line \<and> parse (str_trim (drop 5 line)) = Inr m \<and> message_id m = Some i"
  by (induction parse i lines rule: sse_find.induct) (auto split: if_splits sum.splits)

text \<open>
  A request of the server to the client that happens to carry the number of the request is taken
  for its response.
\<close>

lemma sse_takes_server_request:
  assumes "parse (str_trim ''Q'') = Inr (JObj [(''id'', json_num 2), (''method'', JStr ''ping'')])"
  shows "res_bind (sse_find parse 2 [''data:Q'', ''data:R'']) parse_response = Inl (McpProtocolError ''response missing result'')"
  using assms by (simp add: message_id_def json_get_def as_u64_def json_num_def parse_response_def ok_or_def)

text \<open>
  A tool call over HTTP that succeeds has a session, was posted under its own number with the
  session the server assigned, and returns the result of the message in a successful reply; for an
  event stream, of an event under that number.
\<close>

theorem http_call_result:
  assumes "call_tool_over (http_request_over version parse timeout_ms send) name arguments (st, w) = (Inr v, st', w')"
  shows "\<exists>w1 reply body m. hc_session st' \<noteq> None \<and>
    send (tool_call_request (next_id (hc_next_id st)) name arguments) (session_header st') w1 = (Inr reply, w') \<and>
    200 \<le> unat (rp_status reply) \<and> unat (rp_status reply) < 300 \<and> rp_body reply = Inr body \<and> parse_response m = Inr v \<and>
    (if str_contains ''text/event-stream'' (case rp_content_type reply of None \<Rightarrow> [] | Some t \<Rightarrow> t)
     then message_id m = Some (next_id (hc_next_id st)) \<and>
       (\<exists>line \<in> set (str_lines body). prefix ''data:'' line \<and> parse (str_trim (drop 5 line)) = Inr m)
     else parse body = Inr m)"
proof -
  let ?i = "next_id (hc_next_id st)"
  obtain r st1 w1 where e: "ensure_session version parse timeout_ms send (st\<lparr>hc_next_id := ?i\<rparr>, w) = (r, st1, w1)"
    by (metis prod.exhaust)
  with assms obtain u where u: "r = Inr u" by (cases r) (auto simp: call_tool_over_def http_request_over_def Let_def)
  obtain p w2 where p: "mcp_post parse timeout_ms send (tool_call_request ?i name arguments) ?i (session_header st1) w1 = (p, w2)"
    by (rule prod.exhaust)
  with assms e u obtain s where s: "p = Inr (v, s)" "st' = st1" "w' = w2"
    by (cases p) (auto simp: call_tool_over_def http_request_over_def Let_def)
  have session: "hc_session st1 \<noteq> None" using e u ensure_session_done by metis
  obtain q w3 where q: "send (tool_call_request ?i name arguments) (session_header st1) w1 = (q, w3)" by (rule prod.exhaust)
  with p s obtain reply body where reply: "q = Inr reply" "w3 = w2" "rp_body reply = Inr body"
      "200 \<le> unat (rp_status reply)" "unat (rp_status reply) < 300"
    by (auto simp: mcp_post_def split: sum.splits post_error.splits if_splits)
  let ?message = "if str_contains ''text/event-stream'' (case rp_content_type reply of None \<Rightarrow> [] | Some t \<Rightarrow> t)
                       then sse_response_for parse body ?i else map_err McpProtocolError (parse body)"
  have "p = res_bind ?message (\<lambda>m. res_bind (parse_response m) (\<lambda>result. Inr (result, rp_session reply)))"
    using p unfolding mcp_post_def q prod.case reply(1) sum.case reply(3) using reply(4,5) by simp
  with s(1) obtain m where m: "?message = Inr m" "parse_response m = Inr v" by auto
  have "if str_contains ''text/event-stream'' (case rp_content_type reply of None \<Rightarrow> [] | Some t \<Rightarrow> t)
     then message_id m = Some ?i \<and>
       (\<exists>line \<in> set (str_lines body). prefix ''data:'' line \<and> parse (str_trim (drop 5 line)) = Inr m)
     else parse body = Inr m"
    using m(1) sse_find_Inr [of parse ?i "str_lines body" m]
    by (auto simp: sse_response_for_def map_err_def split: if_splits sum.splits)
  with session s q reply m(2) show ?thesis by blast
qed

section \<open>A small server\<close>

text \<open>Two pages: the first names the second by a cursor.\<close>

definition paged_server :: "unit mcp_request" where
  "paged_server message w =
     (Inr (if message 0 = tools_list_request 0 None
        then JObj [(''nextCursor'', JStr ''p2''), (''tools'', JArr [JObj [(''name'', JStr ''a'')]])]
        else JObj [(''tools'', JArr [JObj [(''name'', JStr ''b'')]])]), w)"

theorem list_tools_returns_witness: "\<exists>res. list_tools paged_server () = Some res"
proof -
  have "finite_pages paged_server (\<lambda>c. if c = None then 1 else 0)"
    by (auto simp: finite_pages_def paged_server_def parse_tools_list_def json_get_def as_str_def
        tools_list_request_def jsonrpc_request_def split: if_splits option.splits)
  from list_tools_returns [OF this, of "()"] show ?thesis by blast
qed

text \<open>A server that accepts the handshake and answers a call with the number it was asked under.\<close>

definition echo_reply :: "string \<Rightarrow> http_reply" where
  "echo_reply body = \<lparr>rp_status = 200, rp_status_text = ''200 OK'', rp_session = Some ''s1'',
     rp_content_type = Some ''application/json'', rp_body = Inr body\<rparr>"

definition echo_poster :: "unit poster" where
  "echo_poster message session w = (Inr (echo_reply (if session = None then ''init'' else ''call'')), w)"

definition echo_parse :: "string \<Rightarrow> (string, json) result" where
  "echo_parse body = (if body = ''init'' then Inr (JObj [(''result'', JObj [(''protocolVersion'', JStr ''2025-06-18'')])])
     else Inr (JObj [(''result'', JStr ''done'')]))"

lemma echo_call:
  "call_tool_over (http_request_over ''1'' echo_parse 9 echo_poster) ''t'' JNull (\<lparr>hc_next_id = 0, hc_session = None\<rparr>, ()) =
     (Inr (JStr ''done''), \<lparr>hc_next_id = 2, hc_session = Some ''s1''\<rparr>, ())"
  by (simp add: call_tool_over_def http_request_over_def Let_def ensure_session_def mcp_post_def echo_poster_def echo_reply_def
      echo_parse_def parse_response_def json_get_def ok_or_def check_protocol_version_def dated_revision_def as_str_def
      session_header_def next_id_def)

theorem http_call_result_witness:
  "\<exists>w1 reply. echo_poster (tool_call_request 1 ''t'' JNull) (Some ''s1'') w1 = (Inr reply, ()) \<and> rp_body reply = Inr ''call''"
proof -
  obtain w1 reply body where
    "echo_poster (tool_call_request (next_id (hc_next_id \<lparr>hc_next_id = 0, hc_session = None\<rparr>)) ''t'' JNull)
       (session_header \<lparr>hc_next_id = 2, hc_session = Some ''s1''\<rparr>) w1 = (Inr reply, ())" "rp_body reply = Inr body"
    using http_call_result [OF echo_call] by blast
  then show ?thesis by (auto simp: next_id_def session_header_def echo_poster_def echo_reply_def)
qed

end
