(* ===== verification/LocalAdapter.thy ===== *)
theory LocalAdapter
  imports AdapterApi
begin

text \<open>
  The deterministic local adapter of the command line, \<^verbatim>\<open>crates/tool-compiler-cli/src/local.rs\<close>: a call
  sleeps as long as its input says and then computes its output; a batch sleeps once, as long as
  its slowest item.
\<close>

definition local_output :: "string \<Rightarrow> json \<Rightarrow> (tool_execution_error, json) result" where
  "local_output tool input =
     (if tool = ''const''
      then ok_or (with_code ''invalid_input'' (error_new ''const requires input.value'')) (json_get input ''value'')
      else if tool = ''echo'' \<or> tool = ''write'' then Inr input
      else if tool = ''fail'' then Inl (error_new ''local fail tool was called'')
      else Inl (with_code ''unknown_tool'' (error_new (''unknown local tool '' @ [CHR 0x27] @ tool @ [CHR 0x27]))))"

definition sleep_ms :: "json \<Rightarrow> nat" where
  "sleep_ms input = (case Option.bind (json_get input ''sleep_ms'') as_u64 of None \<Rightarrow> 0 | Some ms \<Rightarrow> ms)"

definition local_call :: "'w tool_call" where
  "local_call tool input w = \<lparr>tr_result = local_output tool input, tr_time = sleep_ms input, tr_world = (\<lambda>_. w)\<rparr>"

definition local_answer :: "string \<Rightarrow> batch_input \<Rightarrow> (tool_execution_error, batch_output) result" where
  "local_answer tool i = res_bind (local_output tool (bi_input i)) (\<lambda>v. Inr \<lparr>bo_node = bi_node i, bo_output = v\<rparr>)"

definition local_call_batch :: "'w tool_batch" where
  "local_call_batch tool inputs w =
     \<lparr>tr_result = res_map (local_answer tool) inputs,
      tr_time = foldr max (map (\<lambda>i. sleep_ms (bi_input i)) inputs) 0, tr_world = (\<lambda>_. w)\<rparr>"

definition local_executor :: "'w executor" where
  "local_executor = \<lparr>ex_call = local_call, ex_call_batch = local_call_batch\<rparr>"

lemma local_call_simps [simp]:
  "tr_result (local_call tool input w) = local_output tool input" "tr_time (local_call tool input w) = sleep_ms input"
  "tr_world (local_call tool input w) t = w"
  by (simp_all add: local_call_def)

section \<open>The batch against single calls\<close>

lemma local_answers: "res_map (local_answer tool) inputs = Inr outs \<Longrightarrow> map bo_node outs = map bi_node inputs"
  by (induction inputs arbitrary: outs) (auto simp: local_answer_def)

interpretation local_batch: batch_executor local_call_batch
  by unfold_locales (simp add: local_call_batch_def local_answers)

lemma foldr_max_le: "foldr max (xs :: nat list) 0 \<le> sum_list xs"
  by (induction xs) auto

text \<open>What a run gives: its result, the world it leaves, and the time of a success.\<close>

definition run_gives :: "('w, 'a) timed_run \<Rightarrow> (tool_execution_error, 'a) result \<Rightarrow> 'w \<Rightarrow> nat \<Rightarrow> bool" where
  "run_gives r res w t \<longleftrightarrow> tr_result r = res \<and> tr_final r = w \<and> (\<forall>x. res = Inr x \<longrightarrow> tr_time r = t)"

lemma run_gives_return: "run_gives (tr_return x w) (Inr x) w 0"
  by (simp add: run_gives_def)

lemma run_gives_local: "run_gives (local_call tool input w) (local_output tool input) w (sleep_ms input)"
  by (simp add: run_gives_def)

lemma run_gives_error: "run_gives r (Inl e) w t \<Longrightarrow> run_gives (tr_bind r f) (Inl e) w t'"
  by (simp add: run_gives_def tr_bind_def)

lemma run_gives_bind: "run_gives r (Inr x) w t \<Longrightarrow> run_gives (f x w) res w' t' \<Longrightarrow> run_gives (tr_bind r f) res w' (t + t')"
  by (auto simp: run_gives_def tr_bind_def Let_def)

lemma local_answer_cases:
  "local_output tool (bi_input i) = Inl e \<Longrightarrow> local_answer tool i = Inl e"
  "local_output tool (bi_input i) = Inr v \<Longrightarrow> local_answer tool i = Inr \<lparr>bo_node = bi_node i, bo_output = v\<rparr>"
  by (simp_all add: local_answer_def)

lemma default_local_run:
  "run_gives (default_call_batch local_call tool inputs w) (res_map (local_answer tool) inputs) w
     (sum_list (map (\<lambda>i. sleep_ms (bi_input i)) inputs))"
proof (induction inputs)
  case Nil
  show ?case using run_gives_return by simp
next
  case (Cons i inputs)
  note head = run_gives_local [of tool "bi_input i" w]
  show ?case
  proof (cases "local_output tool (bi_input i)")
    case (Inl e)
    with head show ?thesis using local_answer_cases(1) [OF Inl] by (auto intro: run_gives_error)
  next
    case (Inr v)
    let ?o = "\<lparr>bo_node = bi_node i, bo_output = v\<rparr>"
    have "run_gives (tr_bind (default_call_batch local_call tool inputs w) (\<lambda>outputs w2. tr_return (?o # outputs) w2))
        (res_map (local_answer tool) (i # inputs)) w (sum_list (map (\<lambda>i. sleep_ms (bi_input i)) inputs))"
    proof (cases "res_map (local_answer tool) inputs")
      case (Inl e)
      with Cons.IH show ?thesis using local_answer_cases(2) [OF Inr] by (auto intro: run_gives_error)
    next
      case outs: (Inr outs)
      from run_gives_bind [OF Cons.IH [unfolded outs] run_gives_return] outs show ?thesis
        using local_answer_cases(2) [OF Inr] by simp
    qed
    from run_gives_bind [OF head [unfolded Inr], of "\<lambda>output w1. tr_bind (default_call_batch local_call tool inputs w1)
       (\<lambda>outputs w2. tr_return (\<lparr>bo_node = bi_node i, bo_output = output\<rparr> # outputs) w2)", OF this]
    show ?thesis by simp
  qed
qed

text \<open>
  The native batch of the local adapter gives what the default batch, one call after the
  other, gives, failures included, and changes as little; when it succeeds it takes the time of
  its slowest item, never more than the calls take one by one.
\<close>

theorem local_batch_is_calls:
  "tr_result (local_call_batch tool inputs w) = tr_result (default_call_batch local_call tool inputs w) \<and>
   tr_final (local_call_batch tool inputs w) = tr_final (default_call_batch local_call tool inputs w) \<and>
   (tr_result (local_call_batch tool inputs w) = Inr outs \<longrightarrow>
      tr_time (local_call_batch tool inputs w) \<le> tr_time (default_call_batch local_call tool inputs w))"
  using default_local_run [of tool inputs w]
    foldr_max_le [of "map (\<lambda>i. sleep_ms (bi_input i)) inputs"]
  by (auto simp: local_call_batch_def run_gives_def)

definition slow_echo :: "string \<Rightarrow> nat \<Rightarrow> batch_input" where
  "slow_echo name ms = \<lparr>bi_node = name, bi_input = JObj [(''sleep_ms'', json_num ms)]\<rparr>"

theorem local_batch_is_calls_witness:
  "tr_time (local_call_batch ''echo'' [slow_echo ''a'' 5, slow_echo ''b'' 3] ()) = 5 \<and>
   5 \<le> tr_time (default_call_batch local_call ''echo'' [slow_echo ''a'' 5, slow_echo ''b'' 3] ())"
proof -
  let ?is = "[slow_echo ''a'' 5, slow_echo ''b'' 3]"
  have t: "tr_time (local_call_batch ''echo'' ?is ()) = 5"
    by (simp add: local_call_batch_def slow_echo_def sleep_ms_def json_get_def as_u64_def json_num_def)
  have "tr_result (local_call_batch ''echo'' ?is ()) =
      Inr (map (\<lambda>i. \<lparr>bo_node = bi_node i, bo_output = bi_input i\<rparr>) ?is)"
    by (simp add: local_call_batch_def local_answer_def local_output_def)
  with t local_batch_is_calls [of "''echo''" ?is "()"] show ?thesis by metis
qed

end
