(* ===== verification/Config.thy ===== *)
theory Config
  imports Scheduler EngineSpec Recipes McpClients FsAdapter HttpAdapter LocalAdapter
begin

text \<open>
  The runtime configuration of the command line, \<^verbatim>\<open>crates/tool-compiler-cli/src/config.rs\<close>: the
  registry a configuration file builds. The file system, the JSON deserializer and the wrapping
  of an adapter into a timed executor are parameters.
\<close>

section \<open>Errors and files\<close>

datatype cli_error =
    CliIo string io_error
  | CliParse string string
  | CliConfig string string
  | CliInput string
  | CliGraph graph_error
  | CliPlanner planner_error
  | CliRuntime runtime_error
  | CliSerialize string

record 'w input_files =
  if_stdin :: "'w \<Rightarrow> (io_error, string) result \<times> 'w"
  if_read :: "string \<Rightarrow> 'w \<Rightarrow> (io_error, string) result \<times> 'w"

definition read_input :: "'w input_files \<Rightarrow> string \<Rightarrow> 'w \<Rightarrow> (cli_error, string) result \<times> 'w" where
  "read_input files p w =
     (if p = ''-'' then apfst (map_err (CliIo ''<stdin>'')) (if_stdin files w)
      else apfst (map_err (CliIo p)) (if_read files p w))"

section \<open>The configuration file\<close>

record mcp_binding =
  mb_adapter :: string
  mb_name :: string
  mb_transport :: stdio_transport
  mb_request_timeout_ms :: "nat option"
  mb_hydrate :: bool

record fs_binding =
  fb_adapter :: string
  fb_root :: path
  fb_max_read_bytes :: "nat option"
  fb_max_entries :: "nat option"

record shell_binding =
  sb_adapter :: string
  sb_cwd :: "path option"
  sb_env :: "(string, string) btree"
  sb_env_clear :: bool
  sb_inherit :: "string list"
  sb_default_timeout_ms :: "nat option"
  sb_max_output_bytes :: "nat option"

record http_binding =
  hb_adapter :: string
  hb_base_url :: "string option"
  hb_default_headers :: "(string, string) btree"
  hb_timeout_ms :: "nat option"

record capability_binding =
  kb_tool :: string
  kb_adapter :: "string option"
  kb_capabilities :: tool_capabilities

record runtime_bindings =
  rb_mcp :: "mcp_binding list"
  rb_fs :: "fs_binding list"
  rb_shell :: "shell_binding list"
  rb_http :: "http_binding list"
  rb_capabilities :: "capability_binding list"

section \<open>Executors\<close>

definition apply_opt :: "('a \<Rightarrow> 'b \<Rightarrow> 'b) \<Rightarrow> 'a option \<Rightarrow> 'b \<Rightarrow> 'b" where
  "apply_opt f a x = (case a of None \<Rightarrow> x | Some v \<Rightarrow> f v x)"

definition fs_binding_executor :: "fs_binding \<Rightarrow> fs_executor" where
  "fs_binding_executor b = apply_opt with_max_entries (fb_max_entries b)
     (apply_opt with_max_read_bytes (fb_max_read_bytes b) (fs_executor_new (fb_root b)))"

definition shell_binding_executor :: "shell_binding \<Rightarrow> shell_executor" where
  "shell_binding_executor b =
     (let x = apply_opt with_cwd (sb_cwd b) (with_env_clear (sb_env_clear b) shell_executor_new);
          x = foldl (\<lambda>x (k, v). with_env k v x) x (sb_env b);
          x = foldl (\<lambda>x k. with_inherited_var k x) x (sb_inherit b)
      in apply_opt with_max_output_bytes (sb_max_output_bytes b)
           (apply_opt with_default_timeout_ms (sb_default_timeout_ms b) x))"

definition http_binding_client :: "case_map \<Rightarrow> http_binding \<Rightarrow> reqwest_client" where
  "http_binding_client lower b =
     foldl (\<lambda>c (name, v). with_default_header lower name v c)
       (apply_opt with_base_url (hb_base_url b) reqwest_new) (hb_default_headers b)"

text \<open>
  How an adapter becomes an executor of the registry. \<open>mk_http_build\<close> is the construction of the
  reqwest client, which can fail.
\<close>

record 'w makers =
  mk_client :: "mcp_binding \<Rightarrow> 'w mcp_client"
  mk_mcp :: "mcp_binding \<Rightarrow> 'w executor"
  mk_fs :: "fs_executor \<Rightarrow> 'w executor"
  mk_shell :: "shell_executor \<Rightarrow> 'w executor"
  mk_http :: "reqwest_client \<Rightarrow> 'w executor"
  mk_http_build :: "nat option \<Rightarrow> (http_error, unit) result"
  mk_lower :: case_map

section \<open>The registry\<close>

definition SERVED_TOOLS :: "string list" where
  "SERVED_TOOLS = [''run_compiled_tool_graph'', ''run_compiled_tool_intent'', ''run_compiled_tool_recipe'', ''explain_tool_plan'']"

definition base_registry :: "('w, 'v) tool_registry" where
  "base_registry = foldl (\<lambda>r tool. block_tool tool r) (register_adapter ''local'' local_executor registry_new) SERVED_TOOLS"

definition register_derived :: "string \<Rightarrow> derived_capability list \<Rightarrow> ('w, 'v) tool_registry \<Rightarrow> ('w, 'v) tool_registry" where
  "register_derived adapter derived r =
     foldl (\<lambda>r c. register_adapter_tool_capabilities adapter (dc_tool c)
        (capabilities_new\<lparr>tc_effects := Some (dc_effects c), tc_input_schema := dc_input_schema c\<rparr>) r) r derived"

fun configure_mcp :: "'w makers \<Rightarrow> string \<Rightarrow> mcp_binding list \<Rightarrow> ('w, 'v) tool_registry \<Rightarrow> 'w
    \<Rightarrow> (cli_error, ('w, 'v) tool_registry) result \<times> 'w" where
  "configure_mcp mk p [] r w = (Inr r, w)"
| "configure_mcp mk p (b # bs) r w =
     (case (if mb_hydrate b
            then apfst (map_err (\<lambda>e. CliConfig p (''hydrating '' @ quoted (mb_adapter b) @ '': '' @ mcp_error_to_string e)))
                   (derive_capabilities (mb_name b) (mk_client mk b) w)
            else (Inr [], w)) of
        (Inl e, w1) \<Rightarrow> (Inl e, w1)
      | (Inr derived, w1) \<Rightarrow>
          configure_mcp mk p bs (register_adapter (mb_adapter b) (mk_mcp mk b) (register_derived (mb_adapter b) derived r)) w1)"

definition configure_fs :: "'w makers \<Rightarrow> fs_binding list \<Rightarrow> ('w, 'v) tool_registry \<Rightarrow> ('w, 'v) tool_registry" where
  "configure_fs mk bs r = foldl (\<lambda>r b. register_adapter (fb_adapter b) (mk_fs mk (fs_binding_executor b)) r) r bs"

definition configure_shell :: "'w makers \<Rightarrow> shell_binding list \<Rightarrow> ('w, 'v) tool_registry \<Rightarrow> ('w, 'v) tool_registry" where
  "configure_shell mk bs r = foldl (\<lambda>r b. register_adapter (sb_adapter b) (mk_shell mk (shell_binding_executor b)) r) r bs"

fun configure_http :: "'w makers \<Rightarrow> string \<Rightarrow> http_binding list \<Rightarrow> ('w, 'v) tool_registry
    \<Rightarrow> (cli_error, ('w, 'v) tool_registry) result" where
  "configure_http mk p [] r = Inr r"
| "configure_http mk p (b # bs) r =
     (case mk_http_build mk (hb_timeout_ms b) of
        Inl e \<Rightarrow> Inl (CliConfig p (http_error_to_string e))
      | Inr _ \<Rightarrow> configure_http mk p bs (register_adapter (hb_adapter b) (mk_http mk (http_binding_client (mk_lower mk) b)) r))"

definition configure_capabilities :: "capability_binding list \<Rightarrow> ('w, 'v) tool_registry \<Rightarrow> ('w, 'v) tool_registry" where
  "configure_capabilities bs r = foldl (\<lambda>r b. case kb_adapter b of
       Some adapter \<Rightarrow> register_adapter_tool_capabilities adapter (kb_tool b) (kb_capabilities b) r
     | None \<Rightarrow> register_tool_capabilities (kb_tool b) (kb_capabilities b) r) r bs"

definition configured_registry :: "'w makers \<Rightarrow> string \<Rightarrow> runtime_bindings \<Rightarrow> 'w
    \<Rightarrow> (cli_error, ('w, 'v) tool_registry) result \<times> 'w" where
  "configured_registry mk p c w =
     (case configure_mcp mk p (rb_mcp c) base_registry w of
        (Inl e, w1) \<Rightarrow> (Inl e, w1)
      | (Inr r, w1) \<Rightarrow>
          (res_bind (configure_http mk p (rb_http c) (configure_shell mk (rb_shell c) (configure_fs mk (rb_fs c) r)))
             (\<lambda>r. Inr (configure_capabilities (rb_capabilities c) r)), w1))"

definition configured_runtime :: "'w makers \<Rightarrow> 'w input_files \<Rightarrow> (string \<Rightarrow> (string, runtime_bindings) result) \<Rightarrow> string option
    \<Rightarrow> 'w \<Rightarrow> (cli_error, ('w, 'v) tool_registry) result \<times> 'w" where
  "configured_runtime mk files parse config_path w = (case config_path of
     None \<Rightarrow> (Inr base_registry, w)
   | Some p \<Rightarrow>
       (case read_input files p w of
          (Inl e, w1) \<Rightarrow> (Inl e, w1)
        | (Inr content, w1) \<Rightarrow>
            (case parse content of
               Inl m \<Rightarrow> (Inl (CliConfig p m), w1)
             | Inr c \<Rightarrow> configured_registry mk p c w1)))"

text \<open>\<^verbatim>\<open>--param key=value\<close>: JSON where it parses, a string otherwise.\<close>

fun parse_params :: "(string \<Rightarrow> json option) \<Rightarrow> string list \<Rightarrow> (string, json) btree \<Rightarrow> (cli_error, (string, json) btree) result" where
  "parse_params parse [] params = Inr params"
| "parse_params parse (pair # pairs) params =
     (if CHR ''='' \<notin> set pair then Inl (CliInput (''--param expects key=value, got '' @ quoted pair))
      else (let key = takeWhile (\<lambda>c. c \<noteq> CHR ''='') pair; v = drop (Suc (length key)) pair in
            parse_params parse pairs (bt_insert key (case parse v of Some j \<Rightarrow> j | None \<Rightarrow> JStr v) params)))"

end
