(* ===== verification/Gate.thy ===== *)
theory Gate
  imports Ledger
begin

text \<open>
  What is handed to the adapters: in every reachable state, of any engine that is well built,
  whether or not the lock table panics later, a unit in flight is a unit of the engine, some of its
  members passed the gate of \<^verbatim>\<open>prepare_members\<close>, and the tool of none of them is blocked.
\<close>

section \<open>Gated units\<close>

definition gated :: "('w, 'v) engine \<Rightarrow> nat \<Rightarrow> prepared_member list \<Rightarrow> bool" where
  "gated E u ms \<longleftrightarrow> ms \<noteq> [] \<and> (\<forall>m \<in> set ms. pm_node m \<in> set (un_members (en_units E ! u)) \<and> admissible E (pm_node m))"

definition gate_inv :: "('w, 'v) engine \<Rightarrow> ('w, 'v) sched \<Rightarrow> bool" where
  "gate_inv E s \<longleftrightarrow> statics (sc_engine s) = statics E \<and> set (open_units s) \<subseteq> {..<length (en_units E)} \<and>
     (\<forall>(u, ms) \<in> set (sc_running s). gated E u ms)"

lemma gate_inv_engine: "gate_inv E s \<Longrightarrow> statics e = statics E \<Longrightarrow> gate_inv E (s\<lparr>sc_engine := e\<rparr>)"
  by (simp add: gate_inv_def open_units_def)

lemma unblock_opens:
  "snd ` set (snd (foldl (\<lambda>(remaining, ready) d. let r = remaining ! d - 1 in
       (remaining[d := r], if r = 0 then ready_push (keys ! d, d) ready else ready)) rr ds)) \<subseteq> snd ` set (snd rr) \<union> set ds"
proof (induction ds arbitrary: rr)
  case (Cons d ds)
  obtain remaining ready where rr: "rr = (remaining, ready)" by (rule prod.exhaust)
  let ?rr = "(remaining[d := remaining ! d - 1], if remaining ! d - 1 = 0 then ready_push (keys ! d, d) ready else ready)"
  from Cons.IH [of ?rr] show ?case by (auto simp: rr Let_def split: if_splits)
qed simp

lemma gate_inv_unblock:
  assumes "engine_ok E" "gate_inv E s" "u < length (en_units E)"
  shows "gate_inv E (unblock_unit u s)"
proof -
  have st: "statics (sc_engine s) = statics E" using assms(2) by (simp add: gate_inv_def)
  obtain r q where ub: "unblock (en_unit_dependents (sc_engine s)) (en_ready_keys (sc_engine s)) u (sc_remaining s, sc_ready s) = (r, q)"
    by (rule prod.exhaust)
  have "set (en_unit_dependents E ! u) \<subseteq> {..<length (en_units E)}"
    using assms(1,3) by (auto simp: engine_ok_def wired_def)
  moreover have "snd ` set q \<subseteq> snd ` set (sc_ready s) \<union> set (en_unit_dependents E ! u)"
    using unblock_opens [of "en_ready_keys (sc_engine s)" "(sc_remaining s, sc_ready s)" "en_unit_dependents (sc_engine s) ! u"] ub
    unfolding unblock_def same_statics(8) [OF st] by simp
  ultimately show ?thesis using assms(2) ub by (auto simp: gate_inv_def unblock_unit_def open_units_def)
qed

lemma gate_inv_settle:
  assumes "engine_ok E" "gate_inv E s" "u < length (en_units E)"
  shows "gate_inv E (settle_unit clock u r s)"
  unfolding settle_unit_def
  by (rule gate_inv_unblock [OF assms(1) _ assms(3)], rule gate_inv_engine [OF assms(2)])
    (use assms(2) in \<open>simp add: gate_inv_def conjunct1 [OF settle_members_spec]\<close>)

lemma gate_inv_settle_all:
  "engine_ok E \<Longrightarrow> gate_inv E s \<Longrightarrow> set us \<subseteq> {..<length (en_units E)} \<Longrightarrow>
     gate_inv E (foldl (\<lambda>s u. settle_unit clock u r s) s us)"
  by (induction us arbitrary: s) (simp_all add: gate_inv_settle)

text \<open>Preparing a unit lets only members through that are not blocked.\<close>

lemma prepare_members_gated:
  assumes "engine_ok E" "gate_inv E s" "u < length (en_units E)" "prepare_members clock check u s = (res, s')"
  shows "gate_inv E s' \<and> (\<forall>ms. res = Some ms \<longrightarrow> gated E u ms)"
proof -
  have st: "statics (sc_engine s) = statics E" using assms(2) by (simp add: gate_inv_def)
  obtain ps e where p: "prepare_loop clock check (un_members (en_units E ! u)) [] (sc_engine s) = (ps, e)" by (rule prod.exhaust)
  have known: "set (un_members (en_units E ! u)) \<subseteq> set (node_ids (en_plan E))"
    using assms(1,3) members_known [OF assms(1)] by (auto simp: engine_ok_def)
  from prepare_loop_spec [OF p st assms(1) known] have e: "statics e = statics E"
    and new: "subseq (map pm_node ps) (un_members (en_units E ! u))" "\<forall>m \<in> set ps. admissible E (pm_node m)" by auto
  have "gated E u ps" if "ps \<noteq> []"
    unfolding gated_def
  proof (intro conjI ballI that)
    fix m assume m: "m \<in> set ps"
    then show "admissible E (pm_node m)" using new(2) by blast
    show "pm_node m \<in> set (un_members (en_units E ! u))" using list_emb_set [OF new(1), of "pm_node m"] m by auto
  qed
  moreover have "gate_inv E (s\<lparr>sc_engine := e\<rparr>)" by (rule gate_inv_engine [OF assms(2) e])
  moreover from gate_inv_unblock [OF assms(1) this assms(3)] have "gate_inv E (unblock_unit u (s\<lparr>sc_engine := e\<rparr>))" .
  ultimately show ?thesis using assms(4) p
    unfolding prepare_members_def same_statics(6) [OF st] by (cases ps) auto
qed

lemma schedule_one_gated:
  assumes "engine_ok E" "gate_inv E s" "sc_ready s \<noteq> []" "schedule_one clock check s = Some s'"
  shows "gate_inv E s'"
proof -
  let ?u = "snd (hd (sc_ready s))" and ?s = "s\<lparr>sc_ready := tl (sc_ready s)\<rparr>"
  have u: "?u < length (en_units E)" using assms(2,3) by (cases "sc_ready s") (auto simp: gate_inv_def open_units_def)
  have s: "gate_inv E ?s" using assms(2,3) by (cases "sc_ready s") (auto simp: gate_inv_def open_units_def)
  show ?thesis
  proof (cases "en_stop (sc_engine s)")
    case (Some r)
    with assms(4) have "s' = settle_unit clock ?u r ?s" by (simp add: schedule_one_def Let_def)
    with gate_inv_settle [OF assms(1) s u] show ?thesis by blast
  next
    case None
    obtain ms s2 where p: "prepare_members clock check ?u ?s = (ms, s2)" by (rule prod.exhaust)
    note g = prepare_members_gated [OF assms(1) s u p]
    show ?thesis
    proof (cases ms)
      case None2: None
      with None p assms(4) g show ?thesis by (simp add: schedule_one_def Let_def)
    next
      case (Some members)
      with None p assms(4) obtain b e where a: "try_admit ?u (sc_engine s2) = Some (b, e)"
        "s' = (if b then s2\<lparr>sc_engine := e, sc_running := sc_running s2 @ [(?u, members)]\<rparr>
             else s2\<lparr>sc_engine := e, sc_blocked := sc_blocked s2 @ [?u]\<rparr>)"
        by (auto simp: schedule_one_def Let_def)
      have "statics e = statics E" using statics_try_admit [OF a(1)] g by (simp add: gate_inv_def)
      with g u Some show ?thesis by (auto simp: a(2) gate_inv_def open_units_def)
    qed
  qed
qed

lemma schedule_gated:
  assumes "engine_ok E" "schedule clock check s = Some s'" "gate_inv E s"
  shows "gate_inv E s'"
proof -
  from schedule_is_finite [OF assms(2)] obtain n where "schedule_times n clock check s = Some s'" by blast
  then show ?thesis using assms(3)
  proof (induction n arbitrary: s)
    case (Suc n)
    then show ?case by (auto simp: Option.bind_eq_Some_conv schedule_one_gated [OF assms(1)] split: if_splits)
  qed (simp split: if_splits)
qed

lemma open_requeue: "set (open_units (requeue s)) = set (open_units s)"
proof -
  have "snd ` set (foldl (\<lambda>ready u. ready_push (k ! u, u) ready) q us) = snd ` set q \<union> set us" for q us and k :: "64 word list"
    by (induction us arbitrary: q) auto
  then show ?thesis by (auto simp: open_units_def requeue_def)
qed

lemma gate_inv_requeue: "gate_inv E s \<Longrightarrow> gate_inv E (requeue s)"
  unfolding gate_inv_def open_requeue by (simp add: requeue_def)

lemma loop_turn_gated:
  assumes "engine_ok E" "loop_turn clock check s = Some t" "gate_inv E s"
  shows "gate_inv E (turn_state t)"
proof -
  note sched = schedule_gated [OF assms(1)]
  from assms(2) obtain s1 where s1: "schedule clock check s = Some s1" by (auto simp: loop_turn_def Option.bind_eq_Some_conv)
  note p1 = sched [OF s1 assms(3)]
  have p2: "gate_inv E s2" if "schedule clock check (requeue s1) = Some s2" for s2
    by (rule sched [OF that gate_inv_requeue [OF p1]])
  have p3: "gate_inv E (settle_leftovers clock s2)" if "gate_inv E s2" for s2
    unfolding settle_leftovers_def
    by (rule gate_inv_settle_all [OF assms(1)]) (use that in \<open>auto simp: gate_inv_def open_units_def\<close>)
  show ?thesis using assms(2) s1 p1 p2 p3
    by (auto simp: loop_turn_def Option.bind_eq_Some_conv turn_state_def Let_def split: if_splits)
qed

definition gated_state :: "('w, 'v) engine \<Rightarrow> ('w, 'v) run_state \<Rightarrow> bool" where
  "gated_state E t = (case t of Looping s \<Rightarrow> gate_inv E s | Ended s \<Rightarrow> gate_inv E s | Crashed \<Rightarrow> True)"

lemma join_gated:
  assumes "engine_ok E" "gate_inv E s" "r \<in> set (sc_running s)"
  shows "gate_inv E (join_task (fst r) out s)"
proof -
  have u: "fst r < length (en_units E)" using assms(2,3) by (auto simp: gate_inv_def open_units_def)
  have "gate_inv E (s\<lparr>sc_engine := fst (absorb_outcome out (release_unit (fst r) (sc_engine s))),
      sc_running := filter (\<lambda>q. fst q \<noteq> fst r) (sc_running s)\<rparr>)"
    using assms(2) by (auto simp: gate_inv_def open_units_def)
  from gate_inv_requeue [OF gate_inv_unblock [OF assms(1) this u]] show ?thesis by (simp add: join_task_def Let_def)
qed

lemma step_gated:
  assumes "engine_ok E" "sched_step clock check t t'" "gated_state E t"
  shows "gated_state E t'"
  using assms(2)
proof (cases rule: sched_step.cases)
  case (step_join s s' r out)
  with loop_turn_gated [OF assms(1) step_join(3)] assms(3) have "gate_inv E s'" by (simp add: gated_state_def turn_state_def)
  from join_gated [OF assms(1) this step_join(4)] step_join show ?thesis by (simp add: gated_state_def)
next
  case (step_cancel s s')
  with loop_turn_gated [OF assms(1) step_cancel(3)] assms(3) have "gate_inv E s'" by (simp add: gated_state_def turn_state_def)
  then have "gate_inv E (cancel_run s')" unfolding cancel_run_def by (intro gate_inv_engine) (simp_all add: gate_inv_def)
  with step_cancel show ?thesis by (simp add: gated_state_def)
qed (use loop_turn_gated [OF assms(1)] assms(3) in \<open>force simp: gated_state_def turn_state_def\<close>)+

lemma start_gated:
  assumes "engine_ok E"
  shows "gate_inv E (sched_start E)"
proof -
  have "length (en_unit_deps E) = length (en_units E)" using assms by (simp add: engine_ok_def wired_def)
  moreover have "snd ` set (foldl (\<lambda>ready u. ready_push (k ! u, u) ready) q us) = snd ` set q \<union> set us" for q us and k :: "64 word list"
    by (induction us arbitrary: q) auto
  ultimately show ?thesis by (auto simp: gate_inv_def sched_start_def open_units_def Let_def)
qed

lemma run_gated:
  assumes "engine_ok E" "(sched_step clock check)\<^sup>*\<^sup>* (Looping (sched_start E)) t"
  shows "gated_state E t"
  using assms(2)
proof induction
  case base
  show ?case using start_gated [OF assms(1)] by (simp add: gated_state_def)
qed (rule step_gated [OF assms(1)])

text \<open>The tool of a unit in flight is a tool of the plan and not blocked.\<close>

lemma in_flight_not_blocked:
  assumes "engine_ok E" "(sched_step clock check)\<^sup>*\<^sup>* (Looping (sched_start E)) (Looping s)"
    and "loop_turn clock check s = Some (Wait s')" "(u, ms) \<in> set (sc_running s')"
  shows "un_tool (en_units E ! u) \<notin> set (en_blocked_tools E) \<and> un_tool (en_units E ! u) \<in> set (map fst (plan_tools (en_plan E)))"
proof -
  have "gate_inv E s'" using loop_turn_gated [OF assms(1,3)] run_gated [OF assms(1,2)] by (simp add: gated_state_def turn_state_def)
  with assms(4) have u: "u < length (en_units E)" and ms: "gated E u ms"
    by (auto simp: gate_inv_def open_units_def)
  define m where "m = hd ms"
  have m: "pm_node m \<in> set (un_members (en_units E ! u))" "admissible E (pm_node m)"
    using ms by (auto simp: gated_def m_def)
  have "unit_ok (en_plan E) (en_graph E) (en_units E ! u)" using assms(1) u by (auto simp: engine_ok_def)
  with m(1) obtain n where n: "n \<in> set (plan_nodes (en_plan E))" "node_id n = pm_node m" "node_tool n = un_tool (en_units E ! u)"
    by (auto simp: unit_ok_def)
  have val: "validate (en_plan E) = Inr (en_graph E)" using assms(1) by (simp add: engine_ok_def)
  have "pm_node m \<in> set (node_ids (en_plan E))" unfolding n(2) [symmetric] node_ids_def using n(1) by simp
  from en_node_known [OF refl assms(1) this] have k: "en_node E (pm_node m) \<in> set (plan_nodes (en_plan E))"
    "node_id (en_node E (pm_node m)) = node_id n" using n(2) by simp_all
  have "distinct (map node_id (plan_nodes (en_plan E)))" using graph_of_validate(7) [OF val] by (simp add: node_ids_def)
  with k n(1) have "en_node E (pm_node m) = n" by (simp add: distinct_map inj_on_def)
  with m(2) n(3) have "un_tool (en_units E ! u) \<notin> set (en_blocked_tools E)" by (simp add: admissible_def)
  moreover have "node_tool n \<in> set (map fst (plan_tools (en_plan E)))"
    using graph_of_validate(1) [OF val] n(1) by (auto simp: structural_def nodes_wf_def bt_mem_iff)
  ultimately show ?thesis using n(3) by simp
qed

end
