(* ===== verification/ConfigSpec.thy ===== *)
theory ConfigSpec
  imports Config Finish Gate
begin

text \<open>
  What the configured registry promises, whatever the configuration file says: the tools of the
  compiler's own server stay blocked, so no run started from it ever hands one of them to an
  adapter; the executor of an adapter name is the last one bound to it.
\<close>

section \<open>Blocked tools\<close>

lemma blocked_registrations [simp]:
  "reg_blocked_tools (register_adapter a ex r) = reg_blocked_tools r"
  "reg_blocked_tools (register_tool_capabilities t c r) = reg_blocked_tools r"
  "reg_blocked_tools (register_adapter_tool_capabilities a t c r) = reg_blocked_tools r"
  by (simp_all add: register_adapter_def register_tool_capabilities_def register_adapter_tool_capabilities_def)

lemma foldl_keeps: "(\<And>r x. f (g r x) = f r) \<Longrightarrow> f (foldl g r xs) = f r"
  by (induction xs arbitrary: r) simp_all

lemma blocked_derived [simp]: "reg_blocked_tools (register_derived a derived r) = reg_blocked_tools r"
  unfolding register_derived_def by (rule foldl_keeps) simp

lemma blocked_configured [simp]:
  "reg_blocked_tools (configure_fs mk fs r) = reg_blocked_tools r"
  "reg_blocked_tools (configure_shell mk sh r) = reg_blocked_tools r"
  "reg_blocked_tools (configure_capabilities caps r) = reg_blocked_tools r"
  unfolding configure_fs_def configure_shell_def configure_capabilities_def
  by (rule foldl_keeps; simp split: option.split)+

lemma blocked_configure_mcp:
  "configure_mcp mk p bs r w = (Inr r', w') \<Longrightarrow> reg_blocked_tools r' = reg_blocked_tools r"
proof (induction mk p bs r w rule: configure_mcp.induct)
  case (2 mk p b bs r w)
  from "2.prems" obtain derived w1 where d: "(if mb_hydrate b
      then apfst (map_err (\<lambda>e. CliConfig p (''hydrating '' @ quoted (mb_adapter b) @ '': '' @ mcp_error_to_string e)))
             (derive_capabilities (mb_name b) (mk_client mk b) w)
      else (Inr [], w)) = (Inr derived, w1)"
    "configure_mcp mk p bs (register_adapter (mb_adapter b) (mk_mcp mk b) (register_derived (mb_adapter b) derived r)) w1 = (Inr r', w')"
    unfolding configure_mcp.simps(2) by (auto split: prod.splits sum.splits simp del: configure_mcp.simps)
  from "2.IH" [OF d(1)[symmetric] refl d(2)] show ?case by simp
qed simp

lemma blocked_configure_http:
  "configure_http mk p bs r = Inr r' \<Longrightarrow> reg_blocked_tools r' = reg_blocked_tools r"
  by (induction mk p bs r rule: configure_http.induct) (auto split: sum.splits)

lemma base_blocks: "set (reg_blocked_tools (base_registry :: ('w, 'v) tool_registry)) = set SERVED_TOOLS"
proof -
  have "reg_blocked_tools (registry_new :: ('w, 'v) tool_registry) = []"
    unfolding registry_new_def register_builtin_capabilities_def by (subst foldl_keeps [where f = reg_blocked_tools]) simp_all
  then show ?thesis by (auto simp: base_registry_def SERVED_TOOLS_def block_tool_def)
qed

lemma configured_blocks:
  assumes "configured_runtime mk files parse path w = (Inr r, w')"
  shows "set (reg_blocked_tools (r :: ('w, 'v) tool_registry)) = set SERVED_TOOLS"
proof (cases path)
  case None
  with assms show ?thesis by (simp add: configured_runtime_def base_blocks)
next
  case (Some p)
  with assms obtain c w1 where "configured_registry mk p c w1 = (Inr r, w')"
    by (auto simp: configured_runtime_def split: prod.splits sum.splits)
  then have "reg_blocked_tools r = reg_blocked_tools (base_registry :: ('w, 'v) tool_registry)"
    by (auto simp: configured_registry_def res_bind_eq_Inr dest!: blocked_configure_mcp blocked_configure_http
        split: prod.splits sum.splits)
  then show ?thesis by (simp add: base_blocks)
qed

section \<open>The engine refuses blocked tools\<close>

lemma validators_keep_blocked:
  "engine_validators compile tools vs r = (res, r') \<Longrightarrow> reg_blocked_tools r' = reg_blocked_tools r"
proof (induction tools arbitrary: vs r)
  case (Cons t tools)
  have c: "reg_blocked_tools (snd (compiled_validator compile schema r)) = reg_blocked_tools r" for schema
    by (simp add: compiled_validator_def Let_def split: option.split sum.split)
  obtain tool spec where t: "t = (tool, spec)" by (rule prod.exhaust)
  show ?case
  proof (cases "Option.bind (capabilities_for r (spec_adapter spec) tool) tc_input_schema")
    case None
    with Cons t show ?thesis by simp
  next
    case (Some schema)
    obtain v r1 where v: "compiled_validator compile schema r = (v, r1)" by (rule prod.exhaust)
    with c [of schema] have r1: "reg_blocked_tools r1 = reg_blocked_tools r" by simp
    from Cons.prems Some v r1 Cons.IH [of _ r1] show ?thesis by (cases v) (auto simp: t)
  qed
qed simp

lemma engine_new_blocked:
  assumes "engine_new compile r p g dd report config serial = Some (Inr e, r')"
  shows "en_plan e = p \<and> en_graph e = g \<and> set (en_blocked_tools e) = set (map fst (plan_tools p)) \<inter> set (reg_blocked_tools r)"
proof -
  from assms obtain validators r1 where v: "engine_validators compile (plan_tools p) [] r = (Inr validators, r1)"
    and e: "en_plan e = p \<and> en_graph e = g \<and> en_blocked_tools e = filter (is_blocked r1) (map fst (plan_tools p))"
    unfolding engine_new_def
    by (auto simp: Let_def Option.bind_eq_Some_conv split: sum.splits prod.splits if_splits)
  show ?thesis using e validators_keep_blocked [OF v] by (auto simp: is_blocked_def)
qed

text \<open>
  The engines the entry points of the runtime build on the registry \<open>r\<close>: from a plan with the
  optimizer, from a plan prepared before (on whatever registry), and without the optimizer, in
  parallel or serially. One unit may read and write the same resource: such a run can panic, but
  what it has dispatched until then is not blocked.
\<close>

inductive started_engine :: "debug_format \<Rightarrow> (json \<Rightarrow> (string, 'v) result) \<Rightarrow> ('w, 'v) tool_registry \<Rightarrow> ('w, 'v) engine \<Rightarrow> bool"
  for dbg compile r where
  from_plan: "engine_optimized dbg compile r p config = Some (Inr E, r') \<Longrightarrow> started_engine dbg compile r E"
| from_prepared: "prepare dbg (r0 :: ('w, 'v) tool_registry) p = Some (Inr prepared) \<Longrightarrow> engine_prepared compile r prepared config = Some (Inr E, r') \<Longrightarrow>
    started_engine dbg compile r E"
| without_optimizer: "engine_unoptimized compile r p config serial = Some (Inr E, r') \<Longrightarrow> started_engine dbg compile r E"

lemma engine_prepared_ok:
  assumes "prepare dbg (r0 :: ('w, 'v) tool_registry) p = Some (Inr prepared)" "engine_prepared compile r prepared config = Some (Inr E, r')"
  shows "engine_ok E"
proof -
  obtain opt :: optimized_plan and dd where p: "prepared = (opt, dd)" by (rule prod.exhaust)
  from assms(1) have o: "optimize dbg (apply_capabilities r0 p) = Some (Inr opt)" "dd = collect_data_deps (op_plan opt)"
    by (auto simp: p prepare_def res_bind_eq_Inr map_err_eq_Inr)
  from engine_built [OF optimized_groups_ok [OF o(1)], of compile r config False] assms(2) o(2)
  show ?thesis by (auto simp: p engine_prepared_def)
qed

lemma started_engine_blocked:
  assumes "started_engine dbg compile r E"
  shows "engine_ok E \<and> set (en_blocked_tools E) = set (map fst (plan_tools (en_plan E))) \<inter> set (reg_blocked_tools r)"
  using assms
proof (cases rule: started_engine.cases)
  case (from_plan p config r')
  then obtain opt :: optimized_plan and dd where "engine_new compile r (op_plan opt) (op_graph opt) dd (op_report opt) config False = Some (Inr E, r')"
    by (auto simp: engine_optimized_def engine_prepared_def split: option.splits sum.splits)
  from engine_new_blocked [OF this] engine_optimized_ok [OF from_plan] show ?thesis by simp
next
  case (from_prepared r0 p prepared config r')
  then obtain opt :: optimized_plan and dd where "engine_new compile r (op_plan opt) (op_graph opt) dd (op_report opt) config False = Some (Inr E, r')"
    by (auto simp: engine_prepared_def split: prod.splits)
  from engine_new_blocked [OF this] engine_prepared_ok [OF from_prepared] show ?thesis by simp
next
  case (without_optimizer p config serial r')
  then obtain g where "engine_new compile r (apply_capabilities r p) g (collect_data_deps (apply_capabilities r p)) report_default config serial = Some (Inr E, r')"
    by (auto simp: engine_unoptimized_def Let_def split: sum.splits)
  from engine_new_blocked [OF this] engine_unoptimized_ok [OF without_optimizer] show ?thesis by simp
qed

text \<open>
  C9. No served tool is ever dispatched: in every run of every plan on a registry that the
  configuration built, from any configuration file, whichever entry point of the runtime started
  it (with the optimizer, prepared, without it, serially), a unit in flight is never one of the
  tools this server offers, so an adapter bound to the compiler itself cannot make it recurse.
\<close>

theorem served_tools_never_dispatched:
  assumes "configured_runtime mk files parse path w = (Inr r, w')" "started_engine dbg compile r E"
    and "(sched_step clock check)\<^sup>*\<^sup>* (Looping (sched_start E)) (Looping s)" "loop_turn clock check s = Some (Wait s')"
    and "(u, ms) \<in> set (sc_running s')"
  shows "un_tool (en_units E ! u) \<notin> set SERVED_TOOLS"
proof -
  note E = started_engine_blocked [OF assms(2)]
  from in_flight_not_blocked [OF conjunct1 [OF E] assms(3-5)] E configured_blocks [OF assms(1)] show ?thesis by blast
qed

text \<open>The witness: the runtime without a configuration file and a plan on the builtin adapter.\<close>

definition served_plan :: plan where
  "served_plan = apply_capabilities (base_registry :: (unit, unit) tool_registry) output_plan"

definition served_opt :: optimized_plan where
  "served_opt = (case optimize_validated (map node_tool (plan_nodes served_plan))
      (removals json_debug served_plan) (deduplicated_plan json_debug served_plan) of Inr opt \<Rightarrow> opt)"

lemma served_optimize: "optimize json_debug served_plan = Some (Inr served_opt)"
proof -
  have "optimize_validated (map node_tool (plan_nodes served_plan))
      (removals json_debug served_plan) (deduplicated_plan json_debug served_plan) = Inr served_opt"
    by code_simp
  moreover have "distinct (node_ids served_plan)" by code_simp
  ultimately show ?thesis by (simp add: optimize_distinct)
qed

definition served_built :: "(runtime_error, (unit, unit) engine) result \<times> (unit, unit) tool_registry" where
  "served_built = the (engine_new (\<lambda>_. Inr ()) base_registry (op_plan served_opt) (op_graph served_opt)
     (collect_data_deps (op_plan served_opt)) (op_report served_opt) run_config_new False)"

definition served_engine :: "(unit, unit) engine" where
  "served_engine = (case fst served_built of Inr e \<Rightarrow> e)"

lemma served_engine_started:
  "engine_optimized json_debug (\<lambda>_. Inr ()) base_registry output_plan run_config_new = Some (Inr served_engine, snd served_built)"
proof -
  have "prepare json_debug (base_registry :: (unit, unit) tool_registry) output_plan = Some (Inr (served_opt, collect_data_deps (op_plan served_opt)))"
    by (simp add: prepare_def served_plan_def [symmetric] served_optimize)
  moreover have "\<not> Option.is_none (engine_new (\<lambda>_. Inr () :: (string, unit) result) (base_registry :: (unit, unit) tool_registry) (op_plan served_opt) (op_graph served_opt)
     (collect_data_deps (op_plan served_opt)) (op_report served_opt) run_config_new False)" by code_simp
  moreover have "\<not> isl (fst served_built)" by code_simp
  then have "fst served_built = Inr served_engine" by (auto simp: served_engine_def isl_def split: sum.splits)
  then have "served_built = (Inr served_engine, snd served_built)" by (metis prod.collapse)
  ultimately show ?thesis
    by (auto simp: engine_optimized_def engine_prepared_def served_built_def Option.is_none_def)
qed

definition served_first :: "(unit, unit) sched option" where
  "served_first = schedule_times 4 example_clock example_check (sched_start served_engine)"

lemma served_first_running: "map_option (map fst \<circ> sc_running) served_first = Some [0]"
  by code_simp

theorem served_tools_never_dispatched_witness:
  "started_engine json_debug (\<lambda>_. Inr ()) base_registry served_engine \<and> un_tool (en_units served_engine ! 0) \<notin> set SERVED_TOOLS"
proof -
  fix mk :: "unit makers" and files :: "unit input_files" and parse :: "string \<Rightarrow> (string, runtime_bindings) result"
  have c: "configured_runtime mk files parse None () = (Inr (base_registry :: (unit, unit) tool_registry), ())"
    by (simp add: configured_runtime_def)
  have n: "started_engine json_debug (\<lambda>_. Inr ()) base_registry served_engine"
    by (rule from_plan [OF served_engine_started])
  from served_first_running obtain s ms rest where s: "served_first = Some s" "sc_running s = (0, ms) # rest"
    by (auto simp: map_eq_Cons_conv)
  have "loop_turn example_clock example_check (sched_start served_engine) = Some (Wait s)"
    using schedule_times [OF s(1) [unfolded served_first_def]] s(2) by (simp add: loop_turn_def)
  moreover have "(0, ms) \<in> set (sc_running s)" using s(2) by simp
  ultimately show ?thesis
    using served_tools_never_dispatched [OF c n rtranclp.rtrancl_refl] n by blast
qed

section \<open>Adapters\<close>

text \<open>The bindings of a configuration, in the order they are registered.\<close>

definition adapter_bindings :: "'w makers \<Rightarrow> runtime_bindings \<Rightarrow> (string \<times> 'w executor) list" where
  "adapter_bindings mk c =
     map (\<lambda>b. (mb_adapter b, mk_mcp mk b)) (rb_mcp c) @
     map (\<lambda>b. (fb_adapter b, mk_fs mk (fs_binding_executor b))) (rb_fs c) @
     map (\<lambda>b. (sb_adapter b, mk_shell mk (shell_binding_executor b))) (rb_shell c) @
     map (\<lambda>b. (hb_adapter b, mk_http mk (http_binding_client (mk_lower mk) b))) (rb_http c)"

lemma executors_register: "registry_executor (register_adapter a ex r) = (registry_executor r)(a \<mapsto> ex)"
  by (rule ext) (simp add: executor_after_register)

lemma executors_capabilities [simp]:
  "registry_executor (register_tool_capabilities t c r) = registry_executor r"
  "registry_executor (register_adapter_tool_capabilities a t c r) = registry_executor r"
  "registry_executor (block_tool t r) = registry_executor r"
  by (simp_all add: fun_eq_iff registry_executor_def register_tool_capabilities_def register_adapter_tool_capabilities_def block_tool_def)

lemma executors_fold:
  "registry_executor (foldl (\<lambda>r b. register_adapter (f b) (g b) r) r bs)
   = registry_executor r ++ map_of (rev (map (\<lambda>b. (f b, g b)) bs))"
  by (induction bs arbitrary: r) (simp_all add: executors_register map_add_upd_left map_add_def fun_eq_iff split: option.split)

lemma executors_derived [simp]: "registry_executor (register_derived a derived r) = registry_executor r"
  unfolding register_derived_def by (rule foldl_keeps) simp

lemma executors_capability_bindings [simp]: "registry_executor (configure_capabilities caps r) = registry_executor r"
  unfolding configure_capabilities_def by (rule foldl_keeps) (simp split: option.split)

lemma executors_mcp:
  "configure_mcp mk p bs r w = (Inr r', w') \<Longrightarrow>
    registry_executor r' = registry_executor r ++ map_of (rev (map (\<lambda>b. (mb_adapter b, mk_mcp mk b)) bs))"
proof (induction mk p bs r w rule: configure_mcp.induct)
  case (2 mk p b bs r w)
  from "2.prems" obtain derived w1 where d: "(if mb_hydrate b
      then apfst (map_err (\<lambda>e. CliConfig p (''hydrating '' @ quoted (mb_adapter b) @ '': '' @ mcp_error_to_string e)))
             (derive_capabilities (mb_name b) (mk_client mk b) w)
      else (Inr [], w)) = (Inr derived, w1)"
    "configure_mcp mk p bs (register_adapter (mb_adapter b) (mk_mcp mk b) (register_derived (mb_adapter b) derived r)) w1 = (Inr r', w')"
    unfolding configure_mcp.simps(2) by (auto split: prod.splits sum.splits simp del: configure_mcp.simps)
  from "2.IH" [OF d(1)[symmetric] refl d(2)] show ?case
    by (simp add: executors_register map_add_def fun_eq_iff split: option.split)
qed simp

lemma executors_http:
  "configure_http mk p bs r = Inr r' \<Longrightarrow>
    registry_executor r' = registry_executor r ++ map_of (rev (map (\<lambda>b. (hb_adapter b, mk_http mk (http_binding_client (mk_lower mk) b))) bs))"
proof (induction mk p bs r rule: configure_http.induct)
  case (2 mk p b bs r)
  then show ?case by (auto simp: executors_register map_add_def fun_eq_iff split: option.split sum.splits)
qed simp

lemma executors_base: "registry_executor (base_registry :: ('w, 'v) tool_registry) = [BUILTIN_ADAPTER \<mapsto> builtin_executor, ''local'' \<mapsto> local_executor]"
proof -
  have "registry_executor (registry_new :: ('w, 'v) tool_registry) = [BUILTIN_ADAPTER \<mapsto> builtin_executor]"
    unfolding registry_new_def register_builtin_capabilities_def
    by (subst foldl_keeps [where f = registry_executor]) (simp_all add: executors_register registry_executor_def fun_eq_iff)
  then show ?thesis unfolding base_registry_def
    by (subst foldl_keeps [where f = registry_executor]) (simp_all add: executors_register)
qed

text \<open>
  A configured adapter name runs the executor bound to it last: a later section (mcp, fs,
  shell, http) or a later entry of the same section replaces an earlier one, even the builtin
  and the local adapter; a name the file does not bind keeps the builtin or local executor.
\<close>

theorem last_binding_wins:
  assumes "configured_registry mk p c w = (Inr (r :: ('w, 'v) tool_registry), w')"
  shows "registry_executor r name = (case map_of (rev (adapter_bindings mk c)) name of
     Some ex \<Rightarrow> Some ex
   | None \<Rightarrow> if name = ''local'' then Some local_executor
       else if name = BUILTIN_ADAPTER then Some builtin_executor else None)"
proof -
  from assms obtain r1 w1 r2 where m: "configure_mcp mk p (rb_mcp c) base_registry w = (Inr r1, w1)"
    and h: "configure_http mk p (rb_http c) (configure_shell mk (rb_shell c) (configure_fs mk (rb_fs c) r1)) = Inr r2"
    and r: "r = configure_capabilities (rb_capabilities c) r2"
    by (auto simp: configured_registry_def res_bind_eq_Inr split: prod.splits sum.splits)
  have "registry_executor r = registry_executor (base_registry :: ('w, 'v) tool_registry) ++ map_of (rev (adapter_bindings mk c))"
    unfolding r executors_capability_bindings executors_http [OF h] configure_shell_def configure_fs_def executors_fold
      executors_mcp [OF m] adapter_bindings_def by simp
  then show ?thesis by (simp add: executors_base map_add_def BUILTIN_ADAPTER_def split: option.split)
qed

definition example_bindings :: runtime_bindings where
  "example_bindings = \<lparr>rb_mcp = [], rb_fs = [\<lparr>fb_adapter = ''disk'', fb_root = [RootDir, Normal ''srv''], fb_max_read_bytes = Some 10, fb_max_entries = None\<rparr>],
     rb_shell = [], rb_http = [], rb_capabilities = []\<rparr>"

theorem last_binding_wins_witness:
  "\<exists>(mk :: unit makers) r w'. configured_registry mk ''cfg'' example_bindings () = (Inr (r :: (unit, unit) tool_registry), w') \<and>
    registry_executor r ''disk'' = Some (mk_fs mk (fs_binding_executor (hd (rb_fs example_bindings)))) \<and>
    registry_executor r ''local'' = Some local_executor"
proof -
  fix mk :: "unit makers"
  obtain r :: "(unit, unit) tool_registry" and w' where r: "configured_registry mk ''cfg'' example_bindings () = (Inr r, w')"
    by (simp add: configured_registry_def example_bindings_def)
  have "adapter_bindings mk example_bindings = [(''disk'', mk_fs mk (fs_binding_executor (hd (rb_fs example_bindings))))]"
    by (simp add: adapter_bindings_def example_bindings_def)
  with last_binding_wins [OF r, of "''disk''"] last_binding_wins [OF r, of "''local''"] r show ?thesis by auto
qed

end
