(* ===== verification/Report.thy ===== *)
theory Report
  imports RunResult Engine Recipes
begin

text \<open>
  How the program's reports read as JSON: the derived serializations of the explain report
  (\<^verbatim>\<open>optimizer/src/lib.rs\<close>, \<^verbatim>\<open>explain.rs\<close>) and of a run result (\<^verbatim>\<open>runtime/src/result.rs\<close>), which
  the server puts into \<^verbatim>\<open>structuredContent\<close>, and the text of the planner's errors. An object is
  built field by field as the struct lists them; the map keeps its keys sorted.
\<close>

section \<open>Fields\<close>

definition json_object :: "(string \<times> json) list \<Rightarrow> json" where
  "json_object kvs = JObj (bt_of_list kvs)"

text \<open>\<^verbatim>\<open>skip_serializing_if\<close>: a field that is left out when there is nothing in it.\<close>

definition opt_field :: "string \<Rightarrow> ('a \<Rightarrow> json) \<Rightarrow> 'a option \<Rightarrow> (string \<times> json) list" where
  "opt_field k f v = (case v of None \<Rightarrow> [] | Some x \<Rightarrow> [(k, f x)])"

definition json_strs :: "string list \<Rightarrow> json" where
  "json_strs xs = JArr (map JStr xs)"

definition json_word :: "64 word \<Rightarrow> json" where
  "json_word x = JNum (PosInt x)"

definition json_map :: "('a \<Rightarrow> json) \<Rightarrow> (string, 'a) btree \<Rightarrow> json" where
  "json_map f kvs = JObj (map (map_prod (\<lambda>k. k) f) kvs)"

lemma get_json_object: "json_get (json_object kvs) k = map_of (rev kvs) k"
  by (simp add: json_object_def json_get_def bt_get_of_list)

section \<open>The optimizer's reports\<close>

definition deduplicated_json :: "deduplicated_node \<Rightarrow> json" where
  "deduplicated_json d = json_object [(''removed'', JStr (dd_removed d)), (''canonical'', JStr (dd_canonical d))]"

definition batch_group_json :: "batch_group \<Rightarrow> json" where
  "batch_group_json b = json_object [(''adapter'', JStr (bg_adapter b)), (''tool'', JStr (bg_tool b)), (''nodes'', json_strs (bg_nodes b))]"

definition summary_json :: "optimization_summary \<Rightarrow> json" where
  "summary_json s = json_object
     ([(''estimated_tool_calls_before'', json_num (os_tool_calls_before s)),
       (''estimated_tool_calls_after'', json_num (os_tool_calls_after s)),
       (''estimated_llm_turns_before'', json_num (os_llm_turns_before s)),
       (''estimated_llm_turns_after'', json_num (os_llm_turns_after s))] @
      opt_field ''estimated_serial_ms'' json_word (os_serial_ms s) @
      opt_field ''estimated_compiled_ms'' json_word (os_compiled_ms s) @
      opt_field ''estimated_tokens_before'' json_word (os_tokens_before s) @
      opt_field ''estimated_tokens_after'' json_word (os_tokens_after s))"

definition optimization_json :: "optimization_report \<Rightarrow> json" where
  "optimization_json r = json_object
     [(''passes'', json_strs (rep_passes r)),
      (''deduplicated'', JArr (map deduplicated_json (rep_deduplicated r))),
      (''eliminated'', json_strs (rep_eliminated r)),
      (''batch_groups'', JArr (map batch_group_json (rep_batch_groups r))),
      (''summary'', summary_json (rep_summary r))]"

definition diagnostic_json :: "diagnostic \<Rightarrow> json" where
  "diagnostic_json d = json_object
     ([(''kind'', JStr (case dg_kind d of MissingEffects \<Rightarrow> ''missing_effects'' | ResourceConflict \<Rightarrow> ''resource_conflict'')),
       (''nodes'', json_strs (dg_nodes d))] @
      opt_field ''resource'' JStr (dg_resource d) @
      [(''message'', JStr (dg_message d))])"

definition explain_json :: "node_id list list \<Rightarrow> optimization_report \<Rightarrow> diagnostic list \<Rightarrow> json" where
  "explain_json layers report diagnostics = json_object
     [(''layers'', JArr (map json_strs layers)), (''optimization'', optimization_json report),
      (''diagnostics'', JArr (map diagnostic_json diagnostics))]"

section \<open>Run results\<close>

definition error_json :: "tool_execution_error \<Rightarrow> json" where
  "error_json e = json_object ([(''message'', JStr (err_message e))] @
     opt_field ''code'' JStr (err_code e) @ opt_field ''retryable'' JBool (err_retryable e))"

fun run_status_name :: "run_status \<Rightarrow> string" where
  "run_status_name RunSuccess = ''success''"
| "run_status_name RunFailed = ''failed''"
| "run_status_name RunCancelled = ''cancelled''"

fun skip_reason_name :: "skip_reason \<Rightarrow> string" where
  "skip_reason_name SkipCondition = ''condition''"
| "skip_reason_name SkipFailedDependency = ''failed_dependency''"
| "skip_reason_name SkipCancelled = ''cancelled''"
| "skip_reason_name SkipNotRun = ''not_run''"

fun trace_status_name :: "trace_status \<Rightarrow> string" where
  "trace_status_name Started = ''started''"
| "trace_status_name Finished = ''finished''"
| "trace_status_name CacheHit = ''cache_hit''"
| "trace_status_name Failed = ''failed''"
| "trace_status_name Retried = ''retried''"
| "trace_status_name Skipped = ''skipped''"

definition metrics_json :: "run_metrics \<Rightarrow> json" where
  "metrics_json m = json_object
     [(''wall_ms'', json_word (rm_wall_ms m)), (''nodes_total'', json_num (rm_nodes_total m)),
      (''nodes_succeeded'', json_num (rm_nodes_succeeded m)), (''nodes_failed'', json_num (rm_nodes_failed m)),
      (''nodes_skipped'', json_num (rm_nodes_skipped m)), (''cache_hits'', json_num (rm_cache_hits m)),
      (''batch_dispatches'', json_num (rm_batch_dispatches m)), (''retries'', json_num (rm_retries m))]"

definition trace_json :: "trace_event \<Rightarrow> json" where
  "trace_json t = json_object
     ([(''node'', JStr (te_node t)), (''tool'', JStr (te_tool t)), (''status'', JStr (trace_status_name (te_status t))),
       (''at_ms'', json_word (te_at_ms t))] @
      opt_field ''duration_ms'' json_word (te_duration_ms t) @ opt_field ''error'' JStr (te_error t) @
      opt_field ''batch_id'' json_word (te_batch_id t) @
      opt_field ''attempt'' (\<lambda>a. json_word (ucast a)) (te_attempt t))"

definition result_json :: "run_result \<Rightarrow> json" where
  "result_json r = json_object
     ([(''status'', JStr (run_status_name (rr_status r))), (''outputs'', JObj (rr_outputs r)),
       (''node_outputs'', JObj (rr_node_outputs r))] @
      (if rr_errors r = [] then [] else [(''errors'', json_map error_json (rr_errors r))]) @
      (if rr_skipped r = [] then [] else [(''skipped'', json_map (\<lambda>s. JStr (skip_reason_name s)) (rr_skipped r))]) @
      [(''trace'', JArr (map trace_json (rr_trace r))), (''optimization'', optimization_json (rr_optimization r)),
       (''metrics'', metrics_json (rr_metrics r))])"

section \<open>Planner errors\<close>

definition planner_error_to_string :: "planner_error \<Rightarrow> string" where
  "planner_error_to_string e = (case e of
       UnsupportedVersion' v \<Rightarrow> ''unsupported intent version '' @ quoted v
     | DuplicateStep i \<Rightarrow> ''duplicate step id '' @ quoted i
     | InvalidStepId i m \<Rightarrow> ''step '' @ quoted i @ '' has an invalid id: '' @ m
     | UnknownTool' i t \<Rightarrow> ''step '' @ quoted i @ '' uses unknown tool '' @ quoted t
     | SelfReference' i \<Rightarrow> ''step '' @ quoted i @ '' references itself''
     | InvalidRef i m \<Rightarrow> ''invalid reference in step '' @ quoted i @ '': '' @ m
     | EmptyFanOut \<Rightarrow> ''fan_out recipe needs a non-empty '' @ quoted ''items'' @ '' array or an '' @ quoted ''items_ref''
     | EmptyPipeline \<Rightarrow> ''pipeline recipe needs at least one step''
     | UnknownParam p \<Rightarrow> ''recipe references undeclared parameter '' @ quoted p
     | MissingParam p \<Rightarrow> ''recipe parameter '' @ quoted p @ '' is required but was not supplied'')"

end
