(* ===== verification/Serve.thy ===== *)
theory Serve
  imports Report Config
begin

text \<open>
  The compiler as an MCP stdio server, \<^verbatim>\<open>crates/tool-compiler-cli/src/serve.rs\<close>. A record holds what
  lies outside: the JSON parser and the derived deserializers, the bundled schemas, the derived
  Debug rendering of the optimizer's keys, and the run of a plan on the configured runtime. A
  handler is an option, \<open>None\<close> where it does not return or panics: the task of that line is
  then lost and the line gets no response.
\<close>

section \<open>The server state\<close>

definition MAX_DEPTH :: nat where
  "MAX_DEPTH = 2"

record 'w server =
  sv_depth :: nat
  sv_run :: "plan \<Rightarrow> run_config \<Rightarrow> 'w \<Rightarrow> ((runtime_error, run_result) result \<times> 'w) option"
  sv_version :: string
  sv_parse :: "string \<Rightarrow> (string, json) result"
  sv_plan :: "json \<Rightarrow> (string, plan) result"
  sv_intent :: "json \<Rightarrow> (string, intent_plan) result"
  sv_recipe :: "json \<Rightarrow> (string, recipe_plan) result"
  sv_schemas :: "json \<times> json \<times> json"
  sv_debug :: debug_format

definition serve_state_new :: "(string \<rightharpoonup> string) \<Rightarrow> 'w server \<Rightarrow> 'w server" where
  "serve_state_new vars sv = sv\<lparr>sv_depth := env_depth vars\<rparr>"

section \<open>Messages\<close>

text \<open>A dated revision is what the client's \<open>dated_revision\<close> (\<open>McpProto\<close>) takes for one: the two tests are the same.\<close>

definition jsonrpc_result :: "json \<Rightarrow> json \<Rightarrow> json" where
  "jsonrpc_result rid r = json_object [(''jsonrpc'', JStr ''2.0''), (''id'', rid), (''result'', r)]"

definition jsonrpc_error :: "json \<Rightarrow> int \<Rightarrow> string \<Rightarrow> json" where
  "jsonrpc_error rid code message = json_object [(''jsonrpc'', JStr ''2.0''), (''id'', rid),
     (''error'', json_object [(''code'', json_int code), (''message'', JStr message)])]"

definition text_content :: "string \<Rightarrow> json" where
  "text_content s = JArr [json_object [(''type'', JStr ''text''), (''text'', JStr s)]]"

definition tool_failure :: "string \<Rightarrow> json" where
  "tool_failure message = json_object [(''content'', text_content message), (''isError'', JBool True)]"

definition initialize_result :: "string \<Rightarrow> json option \<Rightarrow> json" where
  "initialize_result version params =
     (let requested = Option.bind (Option.bind (Option.bind params (\<lambda>p. json_get p ''protocolVersion'')) as_str)
            (\<lambda>v. if dated_revision v then Some v else None)
      in json_object
        [(''protocolVersion'', JStr (case requested of Some v \<Rightarrow> v | None \<Rightarrow> PROTOCOL_VERSION)),
         (''capabilities'', json_object [(''tools'', json_object [(''listChanged'', JBool False)])]),
         (''serverInfo'', json_object [(''name'', JStr ''tool-call-compiler''), (''version'', JStr version)])])"

definition run_options_properties :: "(string \<times> json) list" where
  "run_options_properties =
     [(''result_mode'', json_object [(''description'', JStr ''How much detail the result carries.''),
         (''enum'', json_strs [''full'', ''compact''])]),
      (''on_error'', json_object [(''description'', JStr ''Failure handling: stop scheduling (fail_fast) or keep independent branches running (continue).''),
         (''enum'', json_strs [''fail_fast'', ''continue''])])]"

definition with_options :: "string \<Rightarrow> json \<Rightarrow> json" where
  "with_options required schema = json_object [(''type'', JStr ''object''), (''required'', json_strs [required]),
     (''properties'', json_object ((required, schema) # run_options_properties))]"

definition served_tool :: "string \<Rightarrow> string \<Rightarrow> string \<Rightarrow> json \<Rightarrow> json" where
  "served_tool name title description schema = json_object [(''name'', JStr name), (''title'', JStr title),
     (''description'', JStr description), (''inputSchema'', schema)]"

definition tools_list :: "json \<times> json \<times> json \<Rightarrow> json" where
  "tools_list schemas = (case schemas of (plan_schema, intent_schema, recipe_schema) \<Rightarrow>
     json_object [(''tools'', JArr
       [served_tool ''run_compiled_tool_graph'' ''Run compiled tool graph''
          ''Execute a tool-call-compiler Plan as one composite tool call; partial results survive node failures.''
          (with_options ''plan'' plan_schema),
        served_tool ''run_compiled_tool_intent'' ''Run compiled tool intent''
          ''Compile an agent intent (refs + after ordering) into a Plan and execute it as one composite tool call.''
          (with_options ''intent'' intent_schema),
        served_tool ''run_compiled_tool_recipe'' ''Run compiled tool recipe''
          ''Compile a high-level recipe (fan_out, map_reduce, pipeline; optional params) into a Plan and execute it.''
          (json_object [(''type'', JStr ''object''), (''required'', json_strs [''recipe'']),
             (''properties'', json_object [(''recipe'', recipe_schema),
                (''params'', json_object [(''type'', JStr ''object''), (''description'', JStr ''Values for declared recipe parameters.'')]),
                (''result_mode'', json_object [(''enum'', json_strs [''full'', ''compact''])]),
                (''on_error'', json_object [(''enum'', json_strs [''fail_fast'', ''continue''])])])]),
        served_tool ''explain_tool_plan'' ''Explain a tool plan''
          ''Validate and optimize a Plan WITHOUT executing it: layers, optimization report, and why nodes were not parallelized.''
          (json_object [(''type'', JStr ''object''), (''required'', json_strs [''plan'']),
             (''properties'', json_object [(''plan'', plan_schema)])])])])"

section \<open>Tool calls\<close>

definition run_config_from :: "json \<Rightarrow> run_config" where
  "run_config_from arguments =
     (let config = run_config_new;
          config = (if Option.bind (json_get arguments ''result_mode'') as_str = Some ''compact''
                    then config\<lparr>rc_result_mode := ResultCompact\<rparr> else config)
      in if Option.bind (json_get arguments ''on_error'') as_str = Some ''continue''
         then config\<lparr>rc_on_error := Continue\<rparr> else config)"

text \<open>The arguments of a call: its plan, its intent or recipe compiled into one, or a message.\<close>

definition call_plan :: "'w server \<Rightarrow> string \<Rightarrow> json \<Rightarrow> (string, plan) result" where
  "call_plan sv name arguments =
     (if name = ''run_compiled_tool_graph'' \<or> name = ''explain_tool_plan'' then
        (case json_get arguments ''plan'' of
           None \<Rightarrow> Inl (name @ '' requires arguments.plan'')
         | Some p \<Rightarrow> sv_plan sv p)
      else if name = ''run_compiled_tool_intent'' then
        (case json_get arguments ''intent'' of
           None \<Rightarrow> Inl ''run_compiled_tool_intent requires arguments.intent''
         | Some i \<Rightarrow> res_bind (sv_intent sv i) (\<lambda>i. map_err planner_error_to_string (compile_intent i)))
      else if name = ''run_compiled_tool_recipe'' then
        (case json_get arguments ''recipe'' of
           None \<Rightarrow> Inl ''run_compiled_tool_recipe requires arguments.recipe''
         | Some r \<Rightarrow> res_bind (sv_recipe sv r) (\<lambda>r. map_err planner_error_to_string (compile_recipe_with_params r
             (case json_get arguments ''params'' of Some (JObj kvs) \<Rightarrow> kvs | _ \<Rightarrow> []))))
      else Inl (''unknown tool '' @ quoted name))"

definition explain_result :: "'w server \<Rightarrow> plan \<Rightarrow> (string, json) result option" where
  "explain_result sv p =
     Option.bind (explain (sv_debug sv) p) (\<lambda>res. case res of
        Inl e \<Rightarrow> Some (Inl (graph_error_to_string e))
      | Inr r \<Rightarrow> map_option (\<lambda>diagnostics. Inr (json_object
           [(''content'', text_content (dec (length (er_layers r)) @ '' layers; '' @ dec (length diagnostics) @ '' diagnostics'')),
            (''structuredContent'', explain_json (er_layers r) (er_optimization r) diagnostics),
            (''isError'', JBool False)])) (er_diagnostics r))"

fun run_status_debug :: "run_status \<Rightarrow> string" where
  "run_status_debug RunSuccess = ''Success''"
| "run_status_debug RunFailed = ''Failed''"
| "run_status_debug RunCancelled = ''Cancelled''"

definition run_summary :: "run_result \<Rightarrow> string" where
  "run_summary r = ''status='' @ run_status_debug (rr_status r) @ '' nodes='' @ dec (rm_nodes_total (rr_metrics r)) @
     '' ok='' @ dec (rm_nodes_succeeded (rr_metrics r)) @ '' failed='' @ dec (rm_nodes_failed (rr_metrics r)) @
     '' skipped='' @ dec (rm_nodes_skipped (rr_metrics r)) @ '' wall='' @ dec (unat (rm_wall_ms (rr_metrics r))) @ ''ms''"

definition run_answer :: "run_result \<Rightarrow> json" where
  "run_answer r = json_object [(''content'', text_content (run_summary r)), (''structuredContent'', result_json r),
     (''isError'', JBool (rr_status r = RunFailed))]"

definition try_call_tool :: "'w server \<Rightarrow> json \<Rightarrow> 'w \<Rightarrow> ((string, json) result \<times> 'w) option" where
  "try_call_tool sv message w =
     (case json_get message ''params'' of
        None \<Rightarrow> Some (Inl ''tools/call missing params'', w)
      | Some params \<Rightarrow>
          (case Option.bind (json_get params ''name'') as_str of
             None \<Rightarrow> Some (Inl ''tools/call missing name'', w)
           | Some name \<Rightarrow>
               (let arguments = (case json_get params ''arguments'' of Some a \<Rightarrow> a | None \<Rightarrow> JObj []) in
                case call_plan sv name arguments of
                  Inl m \<Rightarrow> Some (Inl m, w)
                | Inr p \<Rightarrow>
                    if name = ''explain_tool_plan'' then map_option (\<lambda>res. (res, w)) (explain_result sv p)
                    else map_option (\<lambda>(res, w1). case res of
                             Inl e \<Rightarrow> (Inl (runtime_error_to_string e), w1)
                           | Inr r \<Rightarrow> (Inr (run_answer r), w1))
                      (sv_run sv p (run_config_from arguments) w))))"

definition depth_message :: string where
  "depth_message = ''maximum compiler composition depth ('' @ dec MAX_DEPTH @ '') exceeded; flatten the plan instead of nesting compilers''"

definition call_tool :: "'w server \<Rightarrow> json \<Rightarrow> 'w \<Rightarrow> (json \<times> 'w) option" where
  "call_tool sv message w =
     (if sv_depth sv \<ge> MAX_DEPTH then Some (tool_failure depth_message, w)
      else map_option (\<lambda>(res, w1). (case res of Inr r \<Rightarrow> r | Inl m \<Rightarrow> tool_failure m, w1)) (try_call_tool sv message w))"

section \<open>Lines\<close>

definition handle_message :: "'w server \<Rightarrow> json \<Rightarrow> 'w \<Rightarrow> (json option \<times> 'w) option" where
  "handle_message sv message w =
     (case json_get message ''id'' of
        None \<Rightarrow> Some (None, w)
      | Some rid \<Rightarrow>
          (let method = (case Option.bind (json_get message ''method'') as_str of Some m \<Rightarrow> m | None \<Rightarrow> []) in
           if method = ''initialize'' then Some (Some (jsonrpc_result rid (initialize_result (sv_version sv) (json_get message ''params''))), w)
           else if method = ''ping'' then Some (Some (jsonrpc_result rid (JObj [])), w)
           else if method = ''tools/list'' then Some (Some (jsonrpc_result rid (tools_list (sv_schemas sv))), w)
           else if method = ''tools/call'' then
             map_option (\<lambda>(r, w1). (Some (jsonrpc_result rid r), w1)) (call_tool sv message w)
           else Some (Some (jsonrpc_error rid (- 32601) (''unknown method '' @ quoted method)), w)))"

definition handle_line :: "'w server \<Rightarrow> string \<Rightarrow> 'w \<Rightarrow> (json option \<times> 'w) option" where
  "handle_line sv line w = (case sv_parse sv line of
     Inr message \<Rightarrow> handle_message sv message w
   | Inl m \<Rightarrow> Some (Some (jsonrpc_error JNull (- 32700) (''parse error: '' @ m)), w))"

text \<open>
  The serving loop: the lines still to come, up to the end of the input or the first one that is not
  UTF-8, the tasks of the lines read and not yet answered, the responses sent, and the world. Tasks run concurrently, so any pending one may end next; what a
  task does to the world is taken as done when it ends.
\<close>

record 'w serving =
  sg_input :: "string list"
  sg_tasks :: "string list"
  sg_sent :: "json list"
  sg_world :: 'w

inductive serve_step :: "'w server \<Rightarrow> 'w serving \<Rightarrow> 'w serving \<Rightarrow> bool" for sv where
  skip_blank: "serve_step sv g (g\<lparr>sg_input := lines\<rparr>)"
    if "sg_input g = line # lines" "is_blank line"
| spawn_task: "serve_step sv g (g\<lparr>sg_input := lines, sg_tasks := sg_tasks g @ [line]\<rparr>)"
    if "sg_input g = line # lines" "\<not> is_blank line"
| task_ends: "serve_step sv g (g\<lparr>sg_tasks := before @ after, sg_sent := sg_sent g @ (case response of Some r \<Rightarrow> [r] | None \<Rightarrow> []), sg_world := w\<rparr>)"
    if "sg_tasks g = before @ line # after" "handle_line sv line (sg_world g) = Some (response, w)"

end
