(* ===== verification/ServeSpec.thy ===== *)
theory ServeSpec
  imports Serve
begin

text \<open>
  What the served compiler promises: every request line gets one response with its id,
  notifications none; a server two levels deep runs nothing, so a chain of compilers that start
  each other ends; and what the server writes is what the MCP client of this repository reads.
\<close>

lemmas json_object_get = get_json_object

lemma json_word_num [simp]: "json_num n = json_word (of_nat n)"
  by (simp add: json_num_def json_word_def)

lemma result_fields [simp]:
  "json_get (jsonrpc_result rid r) ''id'' = Some rid" "json_get (jsonrpc_result rid r) ''jsonrpc'' = Some (JStr ''2.0'')"
  "json_get (jsonrpc_result rid r) ''result'' = Some r" "json_get (jsonrpc_result rid r) ''error'' = None"
  "json_get (jsonrpc_result rid r) ''method'' = None"
  by (simp_all add: jsonrpc_result_def json_object_get)

lemma error_fields [simp]:
  "json_get (jsonrpc_error rid c m) ''id'' = Some rid" "json_get (jsonrpc_error rid c m) ''jsonrpc'' = Some (JStr ''2.0'')"
  "json_get (jsonrpc_error rid c m) ''result'' = None"
  "json_get (jsonrpc_error rid c m) ''error'' = Some (json_object [(''code'', json_int c), (''message'', JStr m)])"
  by (simp_all add: jsonrpc_error_def json_object_get)

text \<open>The test for a dated revision is shallow; the server then echoes what passed it.\<close>

lemma odd_revision_accepted:
  "initialize_result version (Some (JObj [(''protocolVersion'', JStr ''--abcdefgh'')])) =
     json_object [(''protocolVersion'', JStr ''--abcdefgh''),
        (''capabilities'', json_object [(''tools'', json_object [(''listChanged'', JBool False)])]),
        (''serverInfo'', json_object [(''name'', JStr ''tool-call-compiler''), (''version'', JStr version)])]"
  "check_protocol_version (JObj [(''protocolVersion'', JStr ''--abcdefgh'')]) = Inr ()"
  by (simp_all add: initialize_result_def check_protocol_version_def dated_revision_def json_get_def as_str_def)

section \<open>One response per request\<close>

text \<open>The ids a line is answered with: its own, null when it is not JSON, none for a notification.\<close>

definition answer_ids :: "'w server \<Rightarrow> string \<Rightarrow> json list" where
  "answer_ids sv line = (case sv_parse sv line of
     Inl m \<Rightarrow> [JNull]
   | Inr message \<Rightarrow> (case json_get message ''id'' of None \<Rightarrow> [] | Some rid \<Rightarrow> [rid]))"

definition is_response :: "json \<Rightarrow> bool" where
  "is_response m \<longleftrightarrow> json_get m ''jsonrpc'' = Some (JStr ''2.0'') \<and>
     (json_get m ''result'' = None \<longleftrightarrow> json_get m ''error'' \<noteq> None)"

definition response_ids :: "json list \<Rightarrow> json list" where
  "response_ids ms = map (\<lambda>m. the (json_get m ''id'')) ms"

lemma handle_message_response:
  "handle_message sv message w = Some (response, w') \<Longrightarrow> (case json_get message ''id'' of
      None \<Rightarrow> response = None \<and> w' = w
    | Some rid \<Rightarrow> \<exists>m. response = Some m \<and> json_get m ''id'' = Some rid \<and> is_response m)"
  by (auto simp: handle_message_def Let_def is_response_def split: option.splits if_splits)

lemma handle_line_response:
  assumes "handle_line sv line w = Some (response, w')"
  shows "(case response of None \<Rightarrow> answer_ids sv line = []
    | Some m \<Rightarrow> is_response m \<and> answer_ids sv line = [the (json_get m ''id'')])"
proof (cases "sv_parse sv line")
  case (Inl e)
  with assms show ?thesis by (auto simp: handle_line_def answer_ids_def is_response_def)
next
  case (Inr message)
  with assms have "handle_message sv message w = Some (response, w')" by (simp add: handle_line_def)
  from handle_message_response [OF this] Inr show ?thesis
    by (auto simp: answer_ids_def split: option.splits)
qed

definition unanswered :: "'w server \<Rightarrow> 'w serving \<Rightarrow> string list" where
  "unanswered sv g = sg_tasks g @ filter (\<lambda>line. \<not> is_blank line) (sg_input g)"

definition answer_multiset :: "'w server \<Rightarrow> 'w serving \<Rightarrow> json multiset" where
  "answer_multiset sv g = mset (response_ids (sg_sent g)) + mset (concat (map (answer_ids sv) (unanswered sv g)))"

lemma serve_step_answers:
  assumes "serve_step sv g g'"
  shows "answer_multiset sv g' = answer_multiset sv g \<and> (list_all is_response (sg_sent g) \<longrightarrow> list_all is_response (sg_sent g'))"
  using assms
proof cases
  case (task_ends before line "after" response w)
  from handle_line_response [OF task_ends(3)] task_ends show ?thesis
    by (auto simp: answer_multiset_def unanswered_def response_ids_def split: option.splits)
qed (auto simp: answer_multiset_def unanswered_def)

lemma serve_run_answers:
  "(serve_step sv)\<^sup>*\<^sup>* g g' \<Longrightarrow> answer_multiset sv g' = answer_multiset sv g \<and>
    (list_all is_response (sg_sent g) \<longrightarrow> list_all is_response (sg_sent g'))"
  by (induction rule: rtranclp_induct) (auto dest: serve_step_answers)

definition serving_start :: "string list \<Rightarrow> 'w \<Rightarrow> 'w serving" where
  "serving_start input w = \<lparr>sg_input = input, sg_tasks = [], sg_sent = [], sg_world = w\<rparr>"

text \<open>
  C23. When the server has read its input and every task has ended, in whatever order the
  tasks ran, the responses sent are exactly one for each line that is a request, with that
  request's id, one with a null id for each line that is not JSON, and none for notifications and
  blank lines; each of them is a JSON-RPC message with either a result or an error.
\<close>

theorem every_request_answered_once:
  assumes "(serve_step sv)\<^sup>*\<^sup>* (serving_start input w) g" "sg_input g = []" "sg_tasks g = []"
  shows "mset (response_ids (sg_sent g)) = mset (concat (map (answer_ids sv) (filter (\<lambda>line. \<not> is_blank line) input))) \<and>
    list_all is_response (sg_sent g)"
  using serve_run_answers [OF assms(1)] assms(2,3)
  by (simp add: answer_multiset_def unanswered_def serving_start_def response_ids_def)

section \<open>Nested compilers\<close>

lemma deep_server_runs_nothing:
  assumes "MAX_DEPTH \<le> sv_depth sv" "handle_line sv line w = Some (response, w')"
  shows "w' = w"
  using assms by (auto simp: handle_line_def handle_message_def call_tool_def Let_def split: sum.splits option.splits if_splits)

text \<open>The environment of a server at the end of a chain of processes, each started by the one before.\<close>

definition nested_vars :: "(string \<rightharpoonup> string) \<Rightarrow> (stdio_transport \<times> string) list \<Rightarrow> (string \<rightharpoonup> string)" where
  "nested_vars parent chain = foldl (\<lambda>vars (t, candidate). child_environment vars (stdio_command vars t candidate)) parent chain"

lemma one_level_deeper:
  "env_depth vars + 1 < 2 ^ 32 \<Longrightarrow> env_depth (child_environment vars (stdio_command vars t candidate)) = env_depth vars + 1"
  by (simp add: child_depth)

lemma nested_depth:
  "env_depth parent + length chain < 2 ^ 32 \<Longrightarrow> env_depth (nested_vars parent chain) = env_depth parent + length chain"
proof (induction chain arbitrary: parent)
  case (Cons c chain)
  obtain t candidate where c: "c = (t, candidate)" by (rule prod.exhaust)
  let ?vars = "child_environment parent (stdio_command parent t candidate)"
  have d: "env_depth ?vars = env_depth parent + 1" by (rule one_level_deeper) (use Cons.prems in simp)
  have "nested_vars parent (c # chain) = nested_vars ?vars chain" by (simp add: nested_vars_def c)
  with Cons.IH [of ?vars] Cons.prems d show ?case by simp
qed (simp add: nested_vars_def)

text \<open>
  C24. Compilers that start each other as stdio servers stop at the second level: a server
  with two or more starts between it and a process that finds no depth in its environment runs
  nothing, whatever line it gets and whatever the transports put into its environment, and it
  answers a tool call with an error result. So depth 2 is refused already, although the README
  and the module say that calls are refused beyond depth 2, and the constant names 2 as the
  maximum depth that is allowed.
\<close>

theorem nested_compilers_stop:
  assumes "parent DEPTH_ENV_VAR = None" "2 \<le> length chain" "length chain < 2 ^ 32"
    and "handle_line (serve_state_new (nested_vars parent chain) sv) line w = Some (response, w')"
  shows "w' = w \<and> (\<forall>message rid m. sv_parse sv line = Inr message \<longrightarrow> json_get message ''id'' = Some rid \<longrightarrow>
    json_get message ''method'' = Some (JStr ''tools/call'') \<longrightarrow> response = Some m \<longrightarrow>
    json_get m ''result'' = Some (tool_failure depth_message))"
proof -
  have "env_depth parent = 0" using assms(1) by (simp add: env_depth_def)
  then have d: "MAX_DEPTH \<le> sv_depth (serve_state_new (nested_vars parent chain) sv)"
    using nested_depth [of parent chain] assms(2,3) by (simp add: serve_state_new_def MAX_DEPTH_def)
  have p: "sv_parse (serve_state_new (nested_vars parent chain) sv) = sv_parse sv" by (simp add: serve_state_new_def)
  from deep_server_runs_nothing [OF d assms(4)] assms(4) d show ?thesis
    by (auto simp: handle_line_def handle_message_def call_tool_def Let_def as_str_def p)
qed

section \<open>The server and the client\<close>

lemma run_answer_fields:
  "json_get (run_answer r) ''isError'' = Some (JBool (rr_status r = RunFailed))"
  "json_get (run_answer r) ''structuredContent'' = Some (result_json r)"
  "json_get (run_answer r) ''content'' = Some (text_content (run_summary r))"
  by (simp_all add: run_answer_def json_object_get)

lemma text_of_content: "json_get r ''content'' = Some (text_content s) \<Longrightarrow> text_items r = s"
  by (simp add: text_items_def text_content_def as_array_def json_object_get as_str_def List.map_filter_def)

text \<open>
  The client of this repository accepts the server: the revision in any answer to
  \<^verbatim>\<open>initialize\<close> passes its version check, and the tool list it reads is one page with exactly the
  tools a configured runtime blocks.
\<close>

theorem client_accepts_server:
  "check_protocol_version (initialize_result version params) = Inr () \<and>
   map ti_name (fst (parse_tools_list (tools_list schemas))) = SERVED_TOOLS \<and>
   snd (parse_tools_list (tools_list schemas)) = None"
proof -
  have "dated_revision PROTOCOL_VERSION" by code_simp
  then have "check_protocol_version (initialize_result version params) = Inr ()"
    by (auto simp: check_protocol_version_def initialize_result_def Let_def json_object_get as_str_def bind_eq_Some_conv
        split: option.splits if_splits)
  moreover obtain a b c where "schemas = (a, b, c)" by (rule prod_cases3)
  ultimately show ?thesis
    by (simp add: tools_list_def parse_tools_list_def json_object_get as_array_def served_tool_def parse_tool_info_def
        as_str_def SERVED_TOOLS_def)
qed

text \<open>
  C25. A compiler called through MCP gives its caller the result of the run: the response to
  the client's request carries the request's id, and what the client makes of it is the serialized
  run result, or for a failed run a tool error with the run's summary.
\<close>

theorem served_run_reaches_caller:
  assumes "sv_depth sv < MAX_DEPTH" "sv_plan sv pj = Inr p" "rid < 2 ^ 64"
    and "sv_run sv p run_config_new w = Some (Inr res, w')"
  shows "\<exists>m r. handle_message sv (tool_call_request rid ''run_compiled_tool_graph'' (JObj [(''plan'', pj)])) w = Some (Some m, w') \<and>
    message_id m = Some rid \<and> json_get m ''method'' = None \<and> parse_response m = Inr r \<and>
    normalize_tool_result r = (if rr_status res = RunFailed then Inl (McpToolError (run_summary res)) else Inr (result_json res))"
proof -
  let ?req = "tool_call_request rid ''run_compiled_tool_graph'' (JObj [(''plan'', pj)])"
  have req: "json_get ?req ''id'' = Some (json_num rid)" "json_get ?req ''method'' = Some (JStr ''tools/call'')"
    "json_get ?req ''params'' = Some (JObj [(''arguments'', JObj [(''plan'', pj)]), (''name'', JStr ''run_compiled_tool_graph'')])"
    by (simp_all add: tool_call_request_def jsonrpc_request_def json_get_def)
  have cfg: "run_config_from (JObj [(''plan'', pj)]) = run_config_new" by (simp add: run_config_from_def json_get_def)
  have "try_call_tool sv ?req w = Some (Inr (run_answer res), w')"
    using assms(2,4) cfg by (simp add: try_call_tool_def req json_get_def [of "JObj _"] as_str_def call_plan_def)
  then have "handle_message sv ?req w = Some (Some (jsonrpc_result (json_num rid) (run_answer res)), w')"
    using assms(1) by (simp add: handle_message_def req as_str_def call_tool_def)
  moreover have "normalize_tool_result (run_answer res) =
      (if rr_status res = RunFailed then Inl (McpToolError (run_summary res)) else Inr (result_json res))"
    using text_of_content [OF run_answer_fields(3)]
    by (simp add: normalize_tool_result_def run_answer_fields as_bool_def) (simp add: run_summary_def)
  moreover have "message_id (jsonrpc_result (json_num rid) (run_answer res)) = Some rid"
    using assms(3) by (simp add: message_id_def as_u64_def json_word_def unat_of_nat take_bit_nat_eq_self)
  ultimately show ?thesis
    by (intro exI [of _ "jsonrpc_result (json_num rid) (run_answer res)"] exI [of _ "run_answer res"])
      (simp add: parse_response_def ok_or_def)
qed

section \<open>Witnesses\<close>

definition example_message :: "string \<Rightarrow> json" where
  "example_message method = JObj [(''id'', json_num 7), (''method'', JStr method)]"

definition example_result :: run_result where
  "example_result = \<lparr>rr_status = RunSuccess, rr_outputs = [], rr_node_outputs = [], rr_errors = [], rr_skipped = [],
     rr_trace = [], rr_optimization = report_default, rr_metrics = run_metrics_default\<rparr>"

text \<open>A server over a counter of its runs, with a parser that knows two lines.\<close>

definition example_server :: "nat server" where
  "example_server = \<lparr>sv_depth = 0, sv_run = (\<lambda>p c w. Some (Inr example_result, Suc w)), sv_version = ''0.2.0'',
     sv_parse = (\<lambda>line. if line = ''ping'' \<or> line = ''tools/call'' then Inr (example_message line) else Inl ''expected value''),
     sv_plan = (\<lambda>_. Inr plan_new), sv_intent = (\<lambda>_. Inl ''no''), sv_recipe = (\<lambda>_. Inl ''no''),
     sv_schemas = (JNull, JNull, JNull), sv_debug = json_debug\<rparr>"

lemma example_answers:
  "handle_line example_server ''ping'' w = Some (Some (jsonrpc_result (json_num 7) (JObj [])), w)"
  "handle_line example_server ''x'' w = Some (Some (jsonrpc_error JNull (- 32700) ''parse error: expected value''), w)"
  by (simp_all add: handle_line_def handle_message_def example_server_def example_message_def json_get_def as_str_def)

theorem every_request_answered_once_witness:
  "\<exists>g :: nat serving. sg_input g = [] \<and> sg_tasks g = [] \<and>
    mset (response_ids (sg_sent g)) = {#json_num 7, JNull#} \<and> length (sg_sent g) = 2"
proof -
  let ?input = "[''ping'', '' '', ''x'']"
  have blank: "\<not> is_blank ''ping''" "is_blank '' ''" "\<not> is_blank ''x''" by code_simp+
  let ?ping = "jsonrpc_result (json_num 7) (JObj [])"
  let ?err = "jsonrpc_error JNull (- 32700) ''parse error: expected value''"
  let ?g = "\<lambda>input tasks sent. \<lparr>sg_input = input, sg_tasks = tasks, sg_sent = sent, sg_world = 0\<rparr> :: nat serving"
  have s1: "serve_step example_server (?g ?input [] []) (?g ['' '', ''x''] [''ping''] [])"
    using spawn_task [of "?g ?input [] []" "''ping''" "['' '', ''x'']"] blank(1) by simp
  have s2: "serve_step example_server (?g ['' '', ''x''] [''ping''] []) (?g [''x''] [''ping''] [])"
    using skip_blank [of "?g ['' '', ''x''] [''ping''] []" "'' ''" "[''x'']"] blank(2) by simp
  have s3: "serve_step example_server (?g [''x''] [''ping''] []) (?g [] [''ping'', ''x''] [])"
    using spawn_task [of "?g [''x''] [''ping''] []" "''x''" "[]"] blank(3) by simp
  have s4: "serve_step example_server (?g [] [''ping'', ''x''] []) (?g [] [''ping''] [?err])"
    using task_ends [of "?g [] [''ping'', ''x''] []" "[''ping'']" "''x''" "[]" example_server "Some ?err" 0] example_answers(2) by simp
  have s5: "serve_step example_server (?g [] [''ping''] [?err]) (?g [] [] [?err, ?ping])"
    using task_ends [of "?g [] [''ping''] [?err]" "[]" "''ping''" "[]" example_server "Some ?ping" 0] example_answers(1) by simp
  note more = converse_rtranclp_into_rtranclp [of "serve_step example_server"]
  have run: "(serve_step example_server)\<^sup>*\<^sup>* (serving_start ?input 0) (?g [] [] [?err, ?ping])"
    unfolding serving_start_def by (rule more [OF s1 more [OF s2 more [OF s3 more [OF s4 r_into_rtranclp [of "serve_step example_server", OF s5]]]]])
  have "answer_ids example_server ''ping'' = [json_num 7]" "answer_ids example_server ''x'' = [JNull]"
    by (simp_all add: answer_ids_def example_server_def example_message_def json_get_def)
  with every_request_answered_once [OF run] blank show ?thesis
    by (intro exI [of _ "?g [] [] [?err, ?ping]"]) simp
qed

definition example_transport :: stdio_transport where
  "example_transport = \<lparr>st_command = ''tool-compiler'', st_args = [''serve-mcp''], st_env = [(DEPTH_ENV_VAR, ''0'')],
     st_env_clear = True, st_inherit = []\<rparr>"

theorem nested_compilers_stop_witness:
  "\<exists>m. handle_line (serve_state_new (nested_vars Map.empty [(example_transport, ''a''), (example_transport, ''b'')]) example_server)
      ''tools/call'' 0 = Some (Some m, 0) \<and> json_get m ''result'' = Some (tool_failure depth_message)"
proof -
  let ?chain = "[(example_transport, ''a''), (example_transport, ''b'')]"
  let ?sv = "serve_state_new (nested_vars Map.empty ?chain) example_server"
  have p: "sv_parse example_server ''tools/call'' = Inr (example_message ''tools/call'')" by (simp add: example_server_def)
  have e: "json_get (example_message ''tools/call'') ''id'' = Some (json_num 7)"
    "json_get (example_message ''tools/call'') ''method'' = Some (JStr ''tools/call'')"
    by (simp_all add: example_message_def json_get_def)
  have "env_depth Map.empty = 0" by (simp add: env_depth_def)
  then have d: "MAX_DEPTH \<le> sv_depth ?sv"
    using nested_depth [of Map.empty ?chain] by (simp add: serve_state_new_def MAX_DEPTH_def)
  have "sv_parse ?sv ''tools/call'' = Inr (example_message ''tools/call'')" by (simp add: serve_state_new_def p)
  then obtain m where m: "handle_line ?sv ''tools/call'' 0 = Some (Some m, 0)"
    using d e by (simp add: handle_line_def handle_message_def call_tool_def as_str_def)
  have "2 \<le> length ?chain" "length ?chain < 2 ^ 32" by simp_all
  from nested_compilers_stop [OF _ this m] p e m show ?thesis by simp
qed

theorem served_run_reaches_caller_witness:
  "\<exists>m r. handle_message example_server (tool_call_request 3 ''run_compiled_tool_graph'' (JObj [(''plan'', JNull)])) 4 = Some (Some m, 5) \<and>
    message_id m = Some 3 \<and> parse_response m = Inr r \<and> normalize_tool_result r = Inr (result_json example_result)"
proof -
  have h: "sv_depth example_server < MAX_DEPTH" "sv_plan example_server JNull = Inr plan_new" "(3 :: nat) < 2 ^ 64"
    "sv_run example_server plan_new run_config_new 4 = Some (Inr example_result, 5)"
    by (simp_all add: example_server_def MAX_DEPTH_def)
  have "rr_status example_result \<noteq> RunFailed" by (simp add: example_result_def)
  with served_run_reaches_caller [OF h] show ?thesis by auto
qed

end
