(* ===== verification/Conformance.thy ===== *)
theory Conformance
  imports LocalAdapter
begin

text \<open>
  The conformance suite for adapters, \<^verbatim>\<open>crates/tool-compiler-runtime/src/conformance.rs\<close>: probes that
  check the echo round trip, the mapping of a batch to its nodes, and error propagation. The
  rendering of a value and of an error in a message is a parameter.
\<close>

record conformance_options =
  co_echo_tool :: string
  co_failing_tool :: "string option"

definition conformance_options_default :: conformance_options where
  "conformance_options_default = \<lparr>co_echo_tool = ''echo'', co_failing_tool = None\<rparr>"

record conformance_check =
  cc_name :: string
  cc_passed :: bool
  cc_message :: string

record conformance_report =
  cr_adapter :: string
  cr_passed :: bool
  cr_checks :: "conformance_check list"

definition check_pass :: "string \<Rightarrow> conformance_check" where
  "check_pass name = \<lparr>cc_name = name, cc_passed = True, cc_message = ''passed''\<rparr>"

definition check_fail :: "string \<Rightarrow> string \<Rightarrow> conformance_check" where
  "check_fail name message = \<lparr>cc_name = name, cc_passed = False, cc_message = message\<rparr>"

definition check_echo_round_trip :: "(tool_execution_error \<Rightarrow> string) \<Rightarrow> 'w executor \<Rightarrow> string \<Rightarrow> 'w \<Rightarrow> conformance_check \<times> 'w" where
  "check_echo_round_trip show_error ex tool w =
     (let input = JObj [(''ok'', JBool True)]; run = ex_call ex tool input w
      in (case tr_result run of
            Inr v \<Rightarrow> if v = input then check_pass ''echo_round_trip''
              else check_fail ''echo_round_trip'' (''echo output did not match input: '' @ json_to_string v)
          | Inl e \<Rightarrow> check_fail ''echo_round_trip'' (show_error e), tr_final run))"

definition probe_input :: "string \<Rightarrow> batch_input" where
  "probe_input node = \<lparr>bi_node = node, bi_input = JObj [(''id'', JStr node)]\<rparr>"

definition batch_mapped :: "batch_output list \<Rightarrow> bool" where
  "batch_mapped outputs \<longleftrightarrow> length outputs = 2 \<and>
     list_ex (\<lambda>b. bo_node b = ''a'' \<and> bo_output b = JObj [(''id'', JStr ''a'')]) outputs \<and>
     list_ex (\<lambda>b. bo_node b = ''b'' \<and> bo_output b = JObj [(''id'', JStr ''b'')]) outputs"

definition check_batch_contract :: "(tool_execution_error \<Rightarrow> string) \<Rightarrow> 'w executor \<Rightarrow> string \<Rightarrow> 'w \<Rightarrow> conformance_check \<times> 'w" where
  "check_batch_contract show_error ex tool w =
     (let run = ex_call_batch ex tool [probe_input ''a'', probe_input ''b''] w
      in (case tr_result run of
            Inr outputs \<Rightarrow> if batch_mapped outputs then check_pass ''batch_contract''
              else check_fail ''batch_contract'' ''batch outputs were not mapped back to their node ids''
          | Inl e \<Rightarrow> check_fail ''batch_contract'' (show_error e), tr_final run))"

definition check_error_propagation :: "'w executor \<Rightarrow> string \<Rightarrow> 'w \<Rightarrow> conformance_check \<times> 'w" where
  "check_error_propagation ex tool w =
     (let run = ex_call ex tool (JObj []) w
      in (case tr_result run of
            Inl _ \<Rightarrow> check_pass ''error_propagation''
          | Inr _ \<Rightarrow> check_fail ''error_propagation'' ''failing tool returned success'', tr_final run))"

definition check_conformance :: "(tool_execution_error \<Rightarrow> string) \<Rightarrow> string \<Rightarrow> 'w executor \<Rightarrow> conformance_options \<Rightarrow> 'w
    \<Rightarrow> conformance_report \<times> 'w" where
  "check_conformance show_error adapter ex options w =
     (case check_echo_round_trip show_error ex (co_echo_tool options) w of (c1, w1) \<Rightarrow>
      case check_batch_contract show_error ex (co_echo_tool options) w1 of (c2, w2) \<Rightarrow>
      case (case co_failing_tool options of
              None \<Rightarrow> ([], w2) | Some tool \<Rightarrow> apfst (\<lambda>c. [c]) (check_error_propagation ex tool w2)) of (cs, w3) \<Rightarrow>
        (\<lparr>cr_adapter = adapter, cr_passed = list_all cc_passed ([c1, c2] @ cs), cr_checks = [c1, c2] @ cs\<rparr>, w3))"

text \<open>What an adapter has to do for a tool to be a faithful echo, in a call and in a batch.\<close>

definition echoes :: "'w executor \<Rightarrow> string \<Rightarrow> bool" where
  "echoes ex tool \<longleftrightarrow> (\<forall>v w. tr_result (ex_call ex tool v w) = Inr v) \<and>
     (\<forall>inputs w. \<exists>outputs. tr_result (ex_call_batch ex tool inputs w) = Inr outputs \<and>
        mset (map (\<lambda>b. (bo_node b, bo_output b)) outputs) = mset (map (\<lambda>i. (bi_node i, bi_input i)) inputs))"

lemma echoes_batch:
  assumes "echoes ex tool"
  shows "\<exists>outputs. tr_result (ex_call_batch ex tool [probe_input ''a'', probe_input ''b''] w) = Inr outputs \<and> batch_mapped outputs"
proof -
  obtain outputs where o: "tr_result (ex_call_batch ex tool [probe_input ''a'', probe_input ''b''] w) = Inr outputs"
    "mset (map (\<lambda>b. (bo_node b, bo_output b)) outputs) = mset (map (\<lambda>i. (bi_node i, bi_input i)) [probe_input ''a'', probe_input ''b''])"
    using assms unfolding echoes_def by blast
  have len: "length outputs = 2" using arg_cong [OF o(2), of size] by simp
  have "set (map (\<lambda>b. (bo_node b, bo_output b)) outputs) =
      {(''a'', JObj [(''id'', JStr ''a'')]), (''b'', JObj [(''id'', JStr ''b'')])}"
    using arg_cong [OF o(2), of set_mset] by (simp add: probe_input_def)
  then have "(''a'', JObj [(''id'', JStr ''a'')]) \<in> (\<lambda>b. (bo_node b, bo_output b)) ` set outputs"
    "(''b'', JObj [(''id'', JStr ''b'')]) \<in> (\<lambda>b. (bo_node b, bo_output b)) ` set outputs" by auto
  then have "batch_mapped outputs" using len unfolding batch_mapped_def list_ex_iff by auto
  with o(1) show ?thesis by blast
qed

lemma default_batch_echoes:
  assumes "\<And>v w. tr_result (call tool v w) = Inr v"
  shows "tr_result (default_call_batch call tool inputs w) = Inr (map (\<lambda>i. \<lparr>bo_node = bi_node i, bo_output = bi_input i\<rparr>) inputs)"
  by (induction inputs arbitrary: w) (simp_all add: tr_bind_def Let_def assms)

text \<open>
  The suite accepts exactly the right adapters on what it probes: an adapter whose echo tool
  is faithful in calls and batches, in whatever order the batch answers, passes if and only if
  its failing tool, where one is named, fails on the empty object; an adapter that reports
  success there does not pass.
\<close>

theorem conformance_accepts_echo:
  assumes "echoes ex (co_echo_tool options)"
    and "\<And>w w' tool. co_failing_tool options = Some tool \<Longrightarrow>
      isl (tr_result (ex_call ex tool (JObj []) w)) = isl (tr_result (ex_call ex tool (JObj []) w'))"
  shows "cr_passed (fst (check_conformance show_error adapter ex options w)) \<longleftrightarrow>
    (case co_failing_tool options of None \<Rightarrow> True | Some tool \<Rightarrow> isl (tr_result (ex_call ex tool (JObj []) w)))"
proof -
  have echo: "tr_result (ex_call ex (co_echo_tool options) v u) = Inr v" for v u
    using assms(1) by (simp add: echoes_def)
  have c1: "cc_passed (fst (check_echo_round_trip show_error ex (co_echo_tool options) u))" for u
    by (simp add: check_echo_round_trip_def echo check_pass_def Let_def)
  have c2: "cc_passed (fst (check_batch_contract show_error ex (co_echo_tool options) u))" for u
    using echoes_batch [OF assms(1), of u] by (auto simp: check_batch_contract_def check_pass_def Let_def)
  have c3: "cc_passed (fst (check_error_propagation ex tool u)) \<longleftrightarrow> isl (tr_result (ex_call ex tool (JObj []) u))" for tool u
    by (cases "tr_result (ex_call ex tool (JObj []) u)") (auto simp: check_error_propagation_def check_pass_def check_fail_def Let_def)
  show ?thesis
  proof (cases "co_failing_tool options")
    case None
    then show ?thesis using c1 [of w] c2 by (simp add: check_conformance_def case_prod_unfold)
  next
    case (Some tool)
    then show ?thesis using c1 [of w] c2 c3 assms(2) [OF Some] by (simp add: check_conformance_def case_prod_unfold)
  qed
qed

lemma local_echoes: "echoes local_executor ''echo''"
proof -
  have "res_map (local_answer ''echo'') inputs = Inr (map (\<lambda>i. \<lparr>bo_node = bi_node i, bo_output = bi_input i\<rparr>) inputs)" for inputs
    by (induction inputs) (simp_all add: local_answer_def local_output_def)
  then show ?thesis
    by (simp add: echoes_def local_executor_def local_call_def local_call_batch_def local_output_def image_mset.compositionality comp_def)
qed

text \<open>The suite passes the local adapter, and every executor that echoes over the default batch.\<close>

theorem conformance_accepts_echo_witness:
  "cr_passed (fst (check_conformance err_message ''local'' local_executor
     \<lparr>co_echo_tool = ''echo'', co_failing_tool = Some ''fail''\<rparr> ()))"
proof -
  let ?o = "\<lparr>co_echo_tool = ''echo'', co_failing_tool = Some ''fail''\<rparr>"
  have e: "echoes local_executor (co_echo_tool ?o)" using local_echoes by simp
  have "isl (tr_result (ex_call local_executor tool (JObj []) (w :: unit))) = isl (tr_result (ex_call local_executor tool (JObj []) w'))" for w w' tool
    by (simp add: local_executor_def local_call_def)
  from conformance_accepts_echo [OF e this, of err_message "''local''" "()"] show ?thesis
    by (simp add: local_executor_def local_call_def local_output_def)
qed

end
