(* ===== verification/Commands.thy ===== *)
theory Commands
  imports ServeSpec ConfigSpec Conformance Mining
begin

text \<open>
  The commands of the binary, \<^verbatim>\<open>crates/tool-compiler-cli/src/lib.rs\<close>: each reads its input, calls
  the library and prints. A record holds what lies outside: the deserializers and serializers,
  the standard output, the run of a plan on a registry, the benchmark and the server. \<open>None\<close> is a
  command that does not return.
\<close>

section \<open>Arguments\<close>

datatype result_mode_arg = ArgFull | ArgCompact

datatype on_error_arg = ArgFailFast | ArgContinue

record run_args =
  ra_runtime_config :: "string option"
  ra_result_mode :: result_mode_arg
  ra_on_error :: on_error_arg
  ra_timeout_ms :: "64 word option"
  ra_max_output_bytes :: "nat option"

definition run_args_config :: "run_args \<Rightarrow> run_config" where
  "run_args_config ra =
     (let config = run_config_new;
          config = (if ra_result_mode ra = ArgCompact then config\<lparr>rc_result_mode := ResultCompact\<rparr> else config);
          config = (if ra_on_error ra = ArgContinue then config\<lparr>rc_on_error := Continue\<rparr> else config);
          config = (case ra_timeout_ms ra of Some t \<Rightarrow> config\<lparr>rc_default_timeout_ms := Some t\<rparr> | None \<Rightarrow> config)
      in (case ra_max_output_bytes ra of Some n \<Rightarrow> config\<lparr>rc_max_output_bytes := Some n\<rparr> | None \<Rightarrow> config))"

datatype cli_command =
    CmdValidate string
  | CmdLayers string
  | CmdOptimize string
  | CmdExplain string
  | CmdCompileIntent string
  | CmdCompileRecipe string "string list"
  | CmdRunIntent string run_args
  | CmdRunRecipe string "string list" run_args
  | CmdRun string run_args
  | CmdBench string nat nat "string option"
  | CmdConformance string string "string option" "string option"
  | CmdSuggest string nat
  | CmdServeMcp "string option"

section \<open>Steps of a command\<close>

record ('w, 'v) cli_env =
  ce_files :: "'w input_files"
  ce_makers :: "'w makers"
  ce_bindings :: "string \<Rightarrow> (string, runtime_bindings) result"
  ce_plan :: "string \<Rightarrow> (string, plan) result"
  ce_intent :: "string \<Rightarrow> (string, intent_plan) result"
  ce_recipe :: "string \<Rightarrow> (string, recipe_plan) result"
  ce_calls :: "string \<Rightarrow> (string, observed_call list) result"
  ce_param :: "string \<Rightarrow> json option"
  ce_pretty :: "json \<Rightarrow> (string, string) result"
  ce_plan_json :: "plan \<Rightarrow> json"
  ce_suggestions_json :: "suggestion list \<Rightarrow> json"
  ce_debug :: debug_format
  ce_show_error :: "tool_execution_error \<Rightarrow> string"
  ce_println :: "string \<Rightarrow> 'w \<Rightarrow> 'w"
  ce_run :: "('w, 'v) tool_registry \<Rightarrow> plan \<Rightarrow> run_config \<Rightarrow> 'w \<Rightarrow> ((runtime_error, run_result) result \<times> 'w) option"
  ce_bench :: "('w, 'v) tool_registry \<Rightarrow> plan \<Rightarrow> nat \<Rightarrow> nat \<Rightarrow> 'w \<Rightarrow> ((runtime_error, json) result \<times> 'w) option"
  ce_serve :: "('w, 'v) tool_registry \<Rightarrow> 'w \<Rightarrow> ((cli_error, unit) result \<times> 'w) option"

type_synonym ('w, 'a) cli = "'w \<Rightarrow> ((cli_error, 'a) result \<times> 'w) option"

definition cli_bind :: "('w, 'a) cli \<Rightarrow> ('a \<Rightarrow> ('w, 'b) cli) \<Rightarrow> ('w, 'b) cli" where
  "cli_bind m f w = (case m w of None \<Rightarrow> None | Some (Inl e, w1) \<Rightarrow> Some (Inl e, w1) | Some (Inr x, w1) \<Rightarrow> f x w1)"

definition cli_try :: "(cli_error, 'a) result \<Rightarrow> ('w, 'a) cli" where
  "cli_try r w = Some (r, w)"

text \<open>A computation that may not return, and one that may not return and touches the world.\<close>

definition cli_pure :: "(cli_error, 'a) result option \<Rightarrow> ('w, 'a) cli" where
  "cli_pure r w = map_option (\<lambda>r. (r, w)) r"

definition cli_lift :: "('e \<Rightarrow> cli_error) \<Rightarrow> ('w \<Rightarrow> (('e, 'a) result \<times> 'w) option) \<Rightarrow> ('w, 'a) cli" where
  "cli_lift g m w = map_option (apfst (map_err g)) (m w)"

definition read_json :: "(string \<Rightarrow> (string, 'a) result) \<Rightarrow> 'w input_files \<Rightarrow> string \<Rightarrow> ('w, 'a) cli" where
  "read_json parse files p w =
     Some (apfst (\<lambda>r. res_bind r (\<lambda>content. map_err (CliParse p) (parse content))) (read_input files p w))"

definition println :: "('w, 'v) cli_env \<Rightarrow> string \<Rightarrow> ('w, unit) cli" where
  "println ce s w = Some (Inr (), ce_println ce s w)"

definition print_json :: "('w, 'v) cli_env \<Rightarrow> json \<Rightarrow> ('w, unit) cli" where
  "print_json ce v = cli_bind (cli_try (map_err CliSerialize (ce_pretty ce v))) (println ce)"

definition runtime_for :: "('w, 'v) cli_env \<Rightarrow> string option \<Rightarrow> ('w, ('w, 'v) tool_registry) cli" where
  "runtime_for ce config_path w = Some (configured_runtime (ce_makers ce) (ce_files ce) (ce_bindings ce) config_path w)"

definition run_and_print :: "('w, 'v) cli_env \<Rightarrow> run_args \<Rightarrow> plan \<Rightarrow> ('w, unit) cli" where
  "run_and_print ce ra p = cli_bind (runtime_for ce (ra_runtime_config ra)) (\<lambda>r.
     cli_bind (cli_lift CliRuntime (ce_run ce r p (run_args_config ra))) (\<lambda>res. print_json ce (result_json res)))"

section \<open>The commands\<close>

definition conformance_check_json :: "conformance_check \<Rightarrow> json" where
  "conformance_check_json c = json_object [(''name'', JStr (cc_name c)), (''passed'', JBool (cc_passed c)), (''message'', JStr (cc_message c))]"

definition conformance_json :: "conformance_report \<Rightarrow> json" where
  "conformance_json r = json_object [(''adapter'', JStr (cr_adapter r)), (''passed'', JBool (cr_passed r)),
     (''checks'', JArr (map conformance_check_json (cr_checks r)))]"

definition explain_report_json :: "explain_report \<Rightarrow> json option" where
  "explain_report_json r = map_option (explain_json (er_layers r) (er_optimization r)) (er_diagnostics r)"

definition explain_command :: "('w, 'v) cli_env \<Rightarrow> plan \<Rightarrow> ('w, unit) cli" where
  "explain_command ce p =
     cli_bind (cli_pure (map_option (map_err CliGraph) (explain (ce_debug ce) p))) (\<lambda>r.
       cli_bind (cli_pure (map_option Inr (explain_report_json r))) (print_json ce))"

definition conformance_command :: "('w, 'v) cli_env \<Rightarrow> string \<Rightarrow> string \<Rightarrow> string option \<Rightarrow> ('w, 'v) tool_registry \<Rightarrow> ('w, unit) cli" where
  "conformance_command ce adapter echo_tool failing_tool r =
     cli_bind (cli_try (ok_or (CliInput (''unknown adapter '' @ quoted adapter)) (registry_executor r adapter))) (\<lambda>ex.
       cli_bind (\<lambda>w. Some (apfst Inr (check_conformance (ce_show_error ce) adapter ex
           (conformance_options_default\<lparr>co_echo_tool := echo_tool, co_failing_tool := failing_tool\<rparr>) w))) (\<lambda>report.
         cli_bind (print_json ce (conformance_json report)) (\<lambda>_.
           cli_try (if cr_passed report then Inr () else Inl (CliInput (''adapter '' @ quoted adapter @ '' failed conformance''))))))"

fun execute :: "('w, 'v) cli_env \<Rightarrow> cli_command \<Rightarrow> ('w, unit) cli" where
  "execute ce (CmdValidate path) = cli_bind (read_json (ce_plan ce) (ce_files ce) path) (\<lambda>p.
     cli_bind (cli_try (map_err CliGraph (validate p))) (\<lambda>_. println ce ''valid''))"
| "execute ce (CmdLayers path) = cli_bind (read_json (ce_plan ce) (ce_files ce) path) (\<lambda>p.
     cli_bind (cli_try (map_err CliGraph (validate p))) (\<lambda>g. print_json ce (JArr (map json_strs (g_layers g)))))"
| "execute ce (CmdOptimize path) = cli_bind (read_json (ce_plan ce) (ce_files ce) path) (\<lambda>p.
     cli_bind (cli_pure (map_option (map_err CliGraph) (optimize (ce_debug ce) p))) (\<lambda>opt.
       print_json ce (ce_plan_json ce (op_plan opt))))"
| "execute ce (CmdExplain path) = cli_bind (read_json (ce_plan ce) (ce_files ce) path) (explain_command ce)"
| "execute ce (CmdCompileIntent path) = cli_bind (read_json (ce_intent ce) (ce_files ce) path) (\<lambda>i.
     cli_bind (cli_try (map_err CliPlanner (compile_intent i))) (\<lambda>p. print_json ce (ce_plan_json ce p)))"
| "execute ce (CmdCompileRecipe path pairs) = cli_bind (read_json (ce_recipe ce) (ce_files ce) path) (\<lambda>r.
     cli_bind (cli_try (parse_params (ce_param ce) pairs [])) (\<lambda>params.
       cli_bind (cli_try (map_err CliPlanner (compile_recipe_with_params r params))) (\<lambda>p. print_json ce (ce_plan_json ce p))))"
| "execute ce (CmdRunIntent path ra) = cli_bind (read_json (ce_intent ce) (ce_files ce) path) (\<lambda>i.
     cli_bind (cli_try (map_err CliPlanner (compile_intent i))) (run_and_print ce ra))"
| "execute ce (CmdRunRecipe path pairs ra) = cli_bind (read_json (ce_recipe ce) (ce_files ce) path) (\<lambda>r.
     cli_bind (cli_try (parse_params (ce_param ce) pairs [])) (\<lambda>params.
       cli_bind (cli_try (map_err CliPlanner (compile_recipe_with_params r params))) (run_and_print ce ra)))"
| "execute ce (CmdRun path ra) = cli_bind (read_json (ce_plan ce) (ce_files ce) path) (run_and_print ce ra)"
| "execute ce (CmdBench path iterations warmup config_path) = cli_bind (read_json (ce_plan ce) (ce_files ce) path) (\<lambda>p.
     cli_bind (runtime_for ce config_path) (\<lambda>r.
       cli_bind (cli_lift CliRuntime (ce_bench ce r p iterations warmup)) (print_json ce)))"
| "execute ce (CmdConformance adapter echo_tool failing_tool config_path) =
     cli_bind (runtime_for ce config_path) (conformance_command ce adapter echo_tool failing_tool)"
| "execute ce (CmdSuggest path min_occurrences) = cli_bind (read_json (ce_calls ce) (ce_files ce) path) (\<lambda>calls.
     print_json ce (ce_suggestions_json ce (suggest_recipes calls min_occurrences)))"
| "execute ce (CmdServeMcp config_path) = cli_bind (runtime_for ce config_path) (ce_serve ce)"

section \<open>What the commands do\<close>

lemma cli_bind_Inr: "m w = Some (Inr x, w1) \<Longrightarrow> cli_bind m f w = f x w1"
  by (simp add: cli_bind_def)

lemma cli_bind_Inl: "m w = Some (Inl e, w1) \<Longrightarrow> cli_bind m f w = Some (Inl e, w1)"
  by (simp add: cli_bind_def)

lemma cli_bind_try: "cli_bind (cli_try r) f w = (case r of Inl e \<Rightarrow> Some (Inl e, w) | Inr x \<Rightarrow> f x w)"
  by (simp add: cli_bind_def cli_try_def split: sum.split)

text \<open>
  The validate command prints \<^verbatim>\<open>valid\<close> and ends well exactly when the plan it reads is a
  valid plan by the specification: known tools, unique ids, coherent effects, resolvable
  references and no cycle; otherwise it ends with a graph error and prints nothing.
\<close>

theorem validate_command_decides:
  assumes "read_json (ce_plan ce) (ce_files ce) path w = Some (Inr p, w1)"
  shows "if valid_plan p then execute ce (CmdValidate path) w = Some (Inr (), ce_println ce ''valid'' w1)
    else \<exists>e. execute ce (CmdValidate path) w = Some (Inl (CliGraph e), w1)"
  using validate_ok_iff [of p] by (cases "validate p") (auto simp: cli_bind_Inr [of "read_json (ce_plan ce) (ce_files ce) path" w p w1, OF assms] cli_bind_try println_def)

definition example_cli :: "(string list, unit) cli_env" where
  "example_cli = \<lparr>ce_files = \<lparr>if_stdin = (\<lambda>w. (Inr ''plan'', w)), if_read = (\<lambda>_ w. (Inr ''plan'', w))\<rparr>,
     ce_makers = \<lparr>mk_client = (\<lambda>_. \<lparr>mc_call_tool = (\<lambda>_ _ w. (Inl (McpTimeout 1), w)), mc_call_tools = (\<lambda>_ w. (Inl (McpTimeout 1), w)),
         mc_list_tools = (\<lambda>w. (Inr [], w))\<rparr>),
       mk_mcp = (\<lambda>_. local_executor), mk_fs = (\<lambda>_. local_executor), mk_shell = (\<lambda>_. local_executor),
       mk_http = (\<lambda>_. local_executor), mk_http_build = (\<lambda>_. Inr ()), mk_lower = (\<lambda>s. s)\<rparr>,
     ce_bindings = (\<lambda>_. Inl ''no''), ce_plan = (\<lambda>_. Inr run_plan), ce_intent = (\<lambda>_. Inl ''no''), ce_recipe = (\<lambda>_. Inl ''no''),
     ce_calls = (\<lambda>_. Inr []), ce_param = (\<lambda>_. None), ce_pretty = (\<lambda>v. Inr (json_to_string v)), ce_plan_json = (\<lambda>_. JNull),
     ce_suggestions_json = (\<lambda>_. JNull), ce_debug = json_debug, ce_show_error = err_message, ce_println = (\<lambda>s w. w @ [s]),
     ce_run = (\<lambda>_ _ _ w. None), ce_bench = (\<lambda>_ _ _ _ w. None), ce_serve = (\<lambda>_ w. None)\<rparr>"

theorem validate_command_decides_witness:
  "execute example_cli (CmdValidate ''-'') [] = Some (Inr (), [''valid''])"
proof -
  have "read_json (ce_plan example_cli) (ce_files example_cli) ''-'' [] = Some (Inr run_plan, [])"
    by (simp add: read_json_def read_input_def example_cli_def apfst_def map_prod_def)
  from validate_command_decides [of example_cli, OF this] run_plan_valid validate_ok_iff [of run_plan]
  show ?thesis by (auto simp: example_cli_def)
qed

lemma local_conformance:
  "check_conformance show_error ''local'' local_executor (conformance_options_default\<lparr>co_echo_tool := ''echo'', co_failing_tool := Some ''fail''\<rparr>) w =
     (\<lparr>cr_adapter = ''local'', cr_passed = True,
        cr_checks = [check_pass ''echo_round_trip'', check_pass ''batch_contract'', check_pass ''error_propagation'']\<rparr>, w)"
  by (simp add: check_conformance_def check_echo_round_trip_def check_batch_contract_def check_error_propagation_def
      Let_def local_executor_def local_call_batch_def local_answer_def local_output_def probe_input_def batch_mapped_def
      check_pass_def)

text \<open>
  The conformance command, without a configuration file, finds the local adapter
  conforming: its echo tool returns its input in a call and in a batch and its failing tool
  fails, so the command prints a passing report and its outcome is that of the printing.
\<close>

theorem local_adapter_conforms:
  "\<exists>report. cr_passed report \<and> length (cr_checks report) = 3 \<and>
    execute ce (CmdConformance ''local'' ''echo'' (Some ''fail'') None) w = print_json ce (conformance_json report) w"
proof -
  let ?report = "\<lparr>cr_adapter = ''local'', cr_passed = True,
        cr_checks = [check_pass ''echo_round_trip'', check_pass ''batch_contract'', check_pass ''error_propagation'']\<rparr>"
  have "runtime_for ce None w = Some (Inr base_registry, w)" by (simp add: runtime_for_def configured_runtime_def)
  then have "execute ce (CmdConformance ''local'' ''echo'' (Some ''fail'') None) w =
      conformance_command ce ''local'' ''echo'' (Some ''fail'') base_registry w"
    by (simp add: cli_bind_def)
  also have "\<dots> = print_json ce (conformance_json ?report) w"
    by (simp add: conformance_command_def executors_base cli_bind_def cli_try_def ok_or_def local_conformance
        split: option.split sum.split)
  finally show ?thesis by (intro exI [of _ ?report]) simp
qed

end
