(* ===== verification/Bench.thy ===== *)
theory Bench
  imports Commands
begin

text \<open>
  The benchmark command, \<^verbatim>\<open>crates/tool-compiler-cli/src/bench.rs\<close>: warm-up and measured iterations,
  the serial and the compiled side taking turns, and the statistics of a side. The runtime's
  entry points, the monotonic clock (in nanoseconds) and floating-point arithmetic are
  parameters.
\<close>

section \<open>Statistics\<close>

record 'f float_ops =
  fl_of_nat :: "nat \<Rightarrow> 'f"
  fl_sub :: "'f \<Rightarrow> 'f \<Rightarrow> 'f"
  fl_mul :: "'f \<Rightarrow> 'f \<Rightarrow> 'f"
  fl_div :: "'f \<Rightarrow> 'f \<Rightarrow> 'f"
  fl_sum :: "'f list \<Rightarrow> 'f"
  fl_sqrt :: "'f \<Rightarrow> 'f"
  fl_less :: "'f \<Rightarrow> 'f \<Rightarrow> bool"
  fl_round_i64 :: "'f \<Rightarrow> int"

record 'f bench_side =
  bsd_runs_ms :: "64 word list"
  bsd_mean_ms :: 'f
  bsd_min_ms :: "64 word"
  bsd_max_ms :: "64 word"
  bsd_stddev_ms :: 'f
  bsd_tool_calls :: nat
  bsd_llm_turns :: nat
  bsd_trace_events :: nat
  bsd_cache_hits :: nat

definition bench_side_default :: "'f float_ops \<Rightarrow> 'f bench_side" where
  "bench_side_default fl = \<lparr>bsd_runs_ms = [], bsd_mean_ms = fl_of_nat fl 0, bsd_min_ms = 0, bsd_max_ms = 0,
     bsd_stddev_ms = fl_of_nat fl 0, bsd_tool_calls = 0, bsd_llm_turns = 0, bsd_trace_events = 0, bsd_cache_hits = 0\<rparr>"

definition side_counts :: "run_result \<Rightarrow> bool \<Rightarrow> 'f bench_side \<Rightarrow> 'f bench_side" where
  "side_counts r compiled b =
     (let summary = rep_summary (rr_optimization r); ok = rm_nodes_succeeded (rr_metrics r) in
      b\<lparr>bsd_tool_calls := (if compiled then os_tool_calls_after summary else ok),
        bsd_llm_turns := (if compiled then os_llm_turns_after summary else ok),
        bsd_trace_events := length (rr_trace r),
        bsd_cache_hits := length (filter (\<lambda>t. te_status t = CacheHit) (rr_trace r))\<rparr>)"

definition side_times :: "'f float_ops \<Rightarrow> 'f bench_side \<Rightarrow> 'f bench_side" where
  "side_times fl b = (case bsd_runs_ms b of
     [] \<Rightarrow> b
   | r # rs \<Rightarrow>
       (let n = fl_of_nat fl (length (r # rs));
            mean = fl_div fl (fl_of_nat fl (unat (foldl (+) 0 (r # rs)))) n;
            squares = map (\<lambda>ms. let delta = fl_sub fl (fl_of_nat fl (unat ms)) mean in fl_mul fl delta delta) (r # rs)
        in b\<lparr>bsd_mean_ms := mean, bsd_min_ms := foldl min r rs, bsd_max_ms := foldl max r rs,
             bsd_stddev_ms := fl_sqrt fl (fl_div fl (fl_sum fl squares) n)\<rparr>))"

definition finish_side :: "'f float_ops \<Rightarrow> run_result option \<Rightarrow> bool \<Rightarrow> 'f bench_side \<Rightarrow> 'f bench_side" where
  "finish_side fl last_run compiled b = side_times fl (case last_run of None \<Rightarrow> b | Some r \<Rightarrow> side_counts r compiled b)"

record 'f bench_result =
  bm_iterations :: nat
  bm_warmup :: nat
  bm_compile_ms :: "64 word"
  bm_baseline :: "'f bench_side"
  bm_compiled :: "'f bench_side"
  bm_saved_ms :: int
  bm_speedup :: 'f

section \<open>The iterations\<close>

record ('w, 'p) bench_runtime =
  bt_clock :: "'w \<Rightarrow> nat"
  bt_prepare :: "plan \<Rightarrow> 'w \<Rightarrow> ((runtime_error, 'p) result \<times> 'w) option"
  bt_clear_cache :: "'w \<Rightarrow> 'w"
  bt_run_serial :: "plan \<Rightarrow> run_config \<Rightarrow> 'w \<Rightarrow> ((runtime_error, run_result) result \<times> 'w) option"
  bt_run_prepared :: "'p \<Rightarrow> run_config \<Rightarrow> 'w \<Rightarrow> ((runtime_error, run_result) result \<times> 'w) option"

definition bench_elapsed_ms :: "nat \<Rightarrow> nat \<Rightarrow> 64 word" where
  "bench_elapsed_ms started now = (let ms = (now - started) div 10 ^ 6 in if ms < 2 ^ 64 then of_nat ms else - 1)"

definition baseline_config :: run_config where
  "baseline_config = run_config_new\<lparr>rc_use_cache := False\<rparr>"

definition compiled_config :: run_config where
  "compiled_config = run_config_new\<lparr>rc_result_mode := ResultFull\<rparr>"

definition baseline_run :: "('w, 'p) bench_runtime \<Rightarrow> plan \<Rightarrow> ('w, run_result) cli" where
  "baseline_run rt p w = cli_lift CliRuntime (bt_run_serial rt p baseline_config) (bt_clear_cache rt w)"

definition compiled_run :: "('w, 'p) bench_runtime \<Rightarrow> 'p \<Rightarrow> ('w, run_result) cli" where
  "compiled_run rt prepared w = cli_lift CliRuntime (bt_run_prepared rt prepared compiled_config) (bt_clear_cache rt w)"

text \<open>A run with its time: the clock is read after the cache was cleared and after the run.\<close>

definition timed :: "('w, 'p) bench_runtime \<Rightarrow> ('w, run_result) cli \<Rightarrow> ('w, 64 word \<times> run_result) cli" where
  "timed rt m w = map_option (\<lambda>(r, w1). (map_sum id (Pair (bench_elapsed_ms (bt_clock rt (bt_clear_cache rt w)) (bt_clock rt w1))) r, w1)) (m w)"

fun warm_up :: "('w, 'p) bench_runtime \<Rightarrow> plan \<Rightarrow> 'p \<Rightarrow> nat \<Rightarrow> ('w, unit) cli" where
  "warm_up rt p prepared 0 w = Some (Inr (), w)"
| "warm_up rt p prepared (Suc n) w =
     cli_bind (baseline_run rt p) (\<lambda>_. cli_bind (compiled_run rt prepared) (\<lambda>_. warm_up rt p prepared n)) w"

fun measure_sides :: "('w, 'p) bench_runtime \<Rightarrow> plan \<Rightarrow> 'p \<Rightarrow> nat \<Rightarrow> (64 word \<times> run_result) list \<times> (64 word \<times> run_result) list
    \<Rightarrow> ('w, (64 word \<times> run_result) list \<times> (64 word \<times> run_result) list) cli" where
  "measure_sides rt p prepared 0 acc w = Some (Inr acc, w)"
| "measure_sides rt p prepared (Suc n) acc w =
     cli_bind (timed rt (baseline_run rt p)) (\<lambda>b. cli_bind (timed rt (compiled_run rt prepared)) (\<lambda>c.
       measure_sides rt p prepared n (fst acc @ [b], snd acc @ [c]))) w"

definition side_of :: "'f float_ops \<Rightarrow> bool \<Rightarrow> (64 word \<times> run_result) list \<Rightarrow> 'f bench_side" where
  "side_of fl compiled runs = finish_side fl (if runs = [] then None else Some (snd (last runs))) compiled
     ((bench_side_default fl)\<lparr>bsd_runs_ms := map fst runs\<rparr>)"

definition bench :: "'f float_ops \<Rightarrow> ('w, 'p) bench_runtime \<Rightarrow> plan \<Rightarrow> nat \<Rightarrow> nat \<Rightarrow> ('w, 'f bench_result) cli" where
  "bench fl rt p iterations warmup w =
     cli_bind (cli_lift CliRuntime (\<lambda>w. map_option (\<lambda>(r, w1). (map_sum id (\<lambda>x. (x, bench_elapsed_ms (bt_clock rt w) (bt_clock rt w1))) r, w1)) (bt_prepare rt p w)))
       (\<lambda>(prepared, compile_ms). cli_bind (warm_up rt p prepared warmup) (\<lambda>_.
          cli_bind (measure_sides rt p prepared (max iterations 1) ([], [])) (\<lambda>(bs, cs).
            let b = side_of fl False bs; c = side_of fl True cs in
            cli_try (Inr \<lparr>bm_iterations = max iterations 1, bm_warmup = warmup, bm_compile_ms = compile_ms,
              bm_baseline = b, bm_compiled = c, bm_saved_ms = fl_round_i64 fl (fl_sub fl (bsd_mean_ms b) (bsd_mean_ms c)),
              bm_speedup = (if fl_less fl (fl_of_nat fl 0) (bsd_mean_ms c) then fl_div fl (bsd_mean_ms b) (bsd_mean_ms c) else fl_of_nat fl 0)\<rparr>)))) w"

section \<open>The benchmark is fair\<close>

text \<open>What a benchmark does to the runtime, one call after the other.\<close>

datatype bench_op = ClearCache | SerialRun | CompiledRun

fun perform :: "('w, 'p) bench_runtime \<Rightarrow> plan \<Rightarrow> 'p \<Rightarrow> bench_op list \<Rightarrow> 'w \<Rightarrow> 'w option" where
  "perform rt p prepared [] w = Some w"
| "perform rt p prepared (ClearCache # ops) w = perform rt p prepared ops (bt_clear_cache rt w)"
| "perform rt p prepared (SerialRun # ops) w = (case bt_run_serial rt p baseline_config w of
     Some (Inr _, w1) \<Rightarrow> perform rt p prepared ops w1 | _ \<Rightarrow> None)"
| "perform rt p prepared (CompiledRun # ops) w = (case bt_run_prepared rt prepared compiled_config w of
     Some (Inr _, w1) \<Rightarrow> perform rt p prepared ops w1 | _ \<Rightarrow> None)"

definition round_ops :: "nat \<Rightarrow> bench_op list" where
  "round_ops n = concat (replicate n [ClearCache, SerialRun, ClearCache, CompiledRun])"

lemma round_ops_simps [simp]:
  "round_ops 0 = []" "round_ops (Suc n) = ClearCache # SerialRun # ClearCache # CompiledRun # round_ops n"
  by (simp_all add: round_ops_def)

lemma cli_bind_eq: "cli_bind m f w = Some (Inr y, w2) \<longleftrightarrow> (\<exists>x w1. m w = Some (Inr x, w1) \<and> f x w1 = Some (Inr y, w2))"
  by (auto simp: cli_bind_def split: option.splits sum.splits)

lemma map_sum_Inr: "map_sum id f r = Inr y \<longleftrightarrow> (\<exists>x. r = Inr x \<and> y = f x)"
  by (cases r) auto

lemma cli_lift_eq: "cli_lift g m w = Some (Inr x, w1) \<longleftrightarrow> m w = Some (Inr x, w1)"
  by (cases "m w") (auto simp: cli_lift_def map_err_eq_Inr apfst_def map_prod_def)

lemma baseline_run_eq: "baseline_run rt p w = Some (Inr r, w1) \<longleftrightarrow> bt_run_serial rt p baseline_config (bt_clear_cache rt w) = Some (Inr r, w1)"
  by (simp add: baseline_run_def cli_lift_eq)

lemma compiled_run_eq: "compiled_run rt q w = Some (Inr r, w1) \<longleftrightarrow> bt_run_prepared rt q compiled_config (bt_clear_cache rt w) = Some (Inr r, w1)"
  by (simp add: compiled_run_def cli_lift_eq)

lemma timed_eq: "timed rt m w = Some (Inr x, w1) \<Longrightarrow> m w = Some (Inr (snd x), w1)"
  by (auto simp: timed_def map_sum_Inr)

lemma warm_up_performs: "warm_up rt p q n w = Some (Inr (), w1) \<Longrightarrow> perform rt p q (round_ops n @ ops) w = perform rt p q ops w1"
  by (induction n arbitrary: w) (auto simp: cli_bind_eq baseline_run_eq compiled_run_eq)

lemma measure_performs:
  "measure_sides rt p q n acc w = Some (Inr (bs, cs), w1) \<Longrightarrow> perform rt p q (round_ops n) w = Some w1 \<and>
    length bs = length (fst acc) + n \<and> length cs = length (snd acc) + n"
  by (induction n arbitrary: acc w) (fastforce simp: cli_bind_eq baseline_run_eq compiled_run_eq dest: timed_eq)+

lemma foldl_min_max: "foldl min r rs \<le> r \<and> r \<le> foldl max r rs \<and> (\<forall>x \<in> set rs. foldl min r rs \<le> x \<and> x \<le> foldl max r rs)"
  for r :: "'a :: linorder"
proof (induction rs arbitrary: r)
  case (Cons x rs)
  have "min r x \<le> r \<and> min r x \<le> x \<and> r \<le> max r x \<and> x \<le> max r x" by simp
  with Cons [of "min r x"] Cons [of "max r x"] show ?case by (auto intro: order.trans)
qed simp

lemma side_of_times: "bsd_runs_ms (side_of fl compiled runs) = map fst runs \<and>
    (\<forall>ms \<in> set (map fst runs). bsd_min_ms (side_of fl compiled runs) \<le> ms \<and> ms \<le> bsd_max_ms (side_of fl compiled runs))"
proof (cases "map fst runs")
  case (Cons r rs)
  then show ?thesis using foldl_min_max [of r rs]
    by (auto simp: side_of_def finish_side_def side_times_def side_counts_def Let_def)
qed (simp add: side_of_def finish_side_def side_times_def)

text \<open>
  A benchmark that returns a result has treated both sides alike: it has run them in
  turn, warm-up rounds first, with the cache cleared before every single run, it holds as many
  measured runs of either side as it reports iterations, at least one, and the times of a side
  lie between its minimum and its maximum.
\<close>

theorem bench_is_fair:
  assumes "bench fl rt p iterations warmup w = Some (Inr res, w2)"
  shows "\<exists>prepared w1. bt_prepare rt p w = Some (Inr prepared, w1) \<and>
    perform rt p prepared (round_ops (warmup + bm_iterations res)) w1 = Some w2 \<and> bm_iterations res = max iterations 1 \<and>
    (\<forall>side \<in> {bm_baseline res, bm_compiled res}. length (bsd_runs_ms side) = bm_iterations res \<and>
       (\<forall>ms \<in> set (bsd_runs_ms side). bsd_min_ms side \<le> ms \<and> ms \<le> bsd_max_ms side))"
proof -
  from assms obtain q w1 u bs cs where p: "bt_prepare rt p w = Some (Inr q, w1)"
    and wu: "warm_up rt p q warmup w1 = Some (Inr (), u)"
    and ms: "measure_sides rt p q (max iterations 1) ([], []) u = Some (Inr (bs, cs), w2)"
    and res: "bm_iterations res = max iterations 1" "bm_baseline res = side_of fl False bs" "bm_compiled res = side_of fl True cs"
    unfolding bench_def by (auto simp: cli_bind_eq cli_lift_eq map_sum_Inr cli_try_def Let_def)
  have "round_ops (warmup + max iterations 1) = round_ops warmup @ round_ops (max iterations 1)"
    by (simp add: round_ops_def replicate_add)
  with warm_up_performs [OF wu] measure_performs [OF ms]
  have "perform rt p q (round_ops (warmup + max iterations 1)) w1 = Some w2" by simp
  with p res measure_performs [OF ms] side_of_times [of fl False bs] side_of_times [of fl True cs] show ?thesis by auto
qed

text \<open>A runtime whose world is the clock, in steps of a millisecond.\<close>

definition example_bench :: "(nat, unit) bench_runtime" where
  "example_bench = \<lparr>bt_clock = (\<lambda>w. w * 10 ^ 6), bt_prepare = (\<lambda>p w. Some (Inr (), w + 1)), bt_clear_cache = (\<lambda>w. w),
     bt_run_serial = (\<lambda>p c w. Some (Inr example_result, w + 5)), bt_run_prepared = (\<lambda>q c w. Some (Inr example_result, w + 2))\<rparr>"

definition nat_ops :: "nat float_ops" where
  "nat_ops = \<lparr>fl_of_nat = (\<lambda>n. n), fl_sub = (-), fl_mul = (*), fl_div = (div), fl_sum = sum_list, fl_sqrt = (\<lambda>n. n),
     fl_less = (<), fl_round_i64 = int\<rparr>"

lemma example_runs:
  "baseline_run example_bench p w = Some (Inr example_result, w + 5)"
  "compiled_run example_bench q w = Some (Inr example_result, w + 2)"
  by (simp_all add: baseline_run_def compiled_run_def cli_lift_def example_bench_def apfst_def)

lemma example_timed:
  "\<exists>t. timed example_bench (baseline_run example_bench p) w = Some (Inr (t, example_result), w + 5)"
  "\<exists>t. timed example_bench (compiled_run example_bench q) w = Some (Inr (t, example_result), w + 2)"
  by (simp_all add: timed_def example_runs)

lemma example_warm_up: "\<exists>w1. warm_up example_bench p q n w = Some (Inr (), w1)"
  by (induction n arbitrary: w) (simp_all add: cli_bind_def example_runs)

lemma example_measure: "\<exists>res w1. measure_sides example_bench p q n acc w = Some (Inr res, w1)"
proof (induction n arbitrary: acc w)
  case (Suc n)
  obtain t t' where "timed example_bench (baseline_run example_bench p) w = Some (Inr (t, example_result), w + 5)"
    "timed example_bench (compiled_run example_bench q) (w + 5) = Some (Inr (t', example_result), w + 5 + 2)"
    using example_timed by meson
  with Suc show ?case by (simp add: cli_bind_def)
qed simp

lemma example_bench_returns: "\<exists>res w2. bench nat_ops example_bench p n m w = Some (Inr res, w2)"
proof -
  obtain w1 where 1: "warm_up example_bench p () m (w + 1) = Some (Inr (), w1)" using example_warm_up by blast
  obtain res w2 where 2: "measure_sides example_bench p () (max n 1) ([], []) w1 = Some (Inr res, w2)" using example_measure by blast
  have 3: "bt_prepare example_bench p w = Some (Inr (), w + 1)" by (simp add: example_bench_def)
  show ?thesis unfolding bench_def using 1 2
    by (cases res) (simp add: cli_bind_def cli_lift_def 3 apfst_def cli_try_def Let_def)
qed

theorem bench_is_fair_witness:
  "\<exists>res w2. bench nat_ops example_bench plan_new 2 1 0 = Some (Inr res, w2) \<and> length (bsd_runs_ms (bm_compiled res)) = 2"
proof -
  obtain res w2 where b: "bench nat_ops example_bench plan_new 2 1 0 = Some (Inr res, w2)" using example_bench_returns by blast
  from bench_is_fair [OF this] b show ?thesis by auto
qed

end
