(* ===== verification/McpSession.thy ===== *)
theory McpSession
  imports McpClients
begin

text \<open>
  How the stdio client uses a session (\<^verbatim>\<open>adapter-mcp/src/stdio.rs\<close>): starting one with its
  handshake, a request and the shutdown; and how the HTTP client (\<^verbatim>\<open>http.rs\<close>) is built and
  addresses its posts. The operations of a session are a record over the state of the world, in
  which the session lives: \<open>McpStdio\<close> says what they do among the other events.
\<close>

section \<open>Configuration\<close>

datatype mcp_transport = McpStdioTransport stdio_transport | McpHttpTransport string "(string, string) btree"

record mcp_server_config =
  ms_name :: string
  ms_transport :: mcp_transport
  ms_request_timeout_ms :: "nat option"

definition DEFAULT_REQUEST_TIMEOUT_MS :: nat where
  "DEFAULT_REQUEST_TIMEOUT_MS = 60000"

definition SHUTDOWN_GRACE_MS :: nat where
  "SHUTDOWN_GRACE_MS = 2000"

definition request_timeout :: "mcp_server_config \<Rightarrow> nat" where
  "request_timeout c = (case ms_request_timeout_ms c of None \<Rightarrow> DEFAULT_REQUEST_TIMEOUT_MS | Some ms \<Rightarrow> ms)"

section \<open>A session in use\<close>

record 'w session_ops =
  so_number :: "'w \<Rightarrow> nat \<times> 'w"
  so_register :: "nat \<Rightarrow> 'w \<Rightarrow> 'w"
  so_write :: "json \<Rightarrow> 'w \<Rightarrow> (mcp_client_error, unit) result \<times> 'w"
  so_await :: "nat \<Rightarrow> nat \<Rightarrow> 'w \<Rightarrow> (mcp_client_error, json) result \<times> 'w"
  so_session :: "'w \<Rightarrow> stdio_session"

definition session_request :: "'w session_ops \<Rightarrow> nat \<Rightarrow> 'w mcp_request" where
  "session_request ops timeout_ms message w =
     (case so_number ops w of (i, w1) \<Rightarrow>
      case so_write ops (message i) (so_register ops i w1) of
        (Inl e, w2) \<Rightarrow> (Inl e, w2)
      | (Inr _, w2) \<Rightarrow> so_await ops timeout_ms i w2)"

definition handshake :: "'w session_ops \<Rightarrow> string \<Rightarrow> nat \<Rightarrow> 'w \<Rightarrow> (mcp_client_error, unit) result \<times> 'w" where
  "handshake ops version i w =
     (case so_write ops (initialize_request version i) (so_register ops i w) of
        (Inl e, w1) \<Rightarrow> (Inl e, w1)
      | (Inr _, w1) \<Rightarrow>
          (case so_await ops DEFAULT_REQUEST_TIMEOUT_MS i w1 of
             (Inl e, w2) \<Rightarrow> (Inl e, w2)
           | (Inr r, w2) \<Rightarrow>
               (case check_protocol_version r of
                  Inl e \<Rightarrow> (Inl e, w2)
                | Inr _ \<Rightarrow> so_write ops initialized_notification w2)))"

text \<open>
  The pipes a child was spawned with; the reader and the stderr task start before the handshake,
  and the session returned is the one the handshake went through.
\<close>

record child_pipes =
  cp_stdin :: bool
  cp_stdout :: bool
  cp_stderr :: bool

definition start_session :: "(command \<Rightarrow> 'w \<Rightarrow> (io_error, child_pipes) result \<times> 'w) \<Rightarrow> 'w session_ops \<Rightarrow> bool \<Rightarrow>
    (string \<rightharpoonup> string) \<Rightarrow> string \<Rightarrow> mcp_server_config \<Rightarrow> nat \<Rightarrow> 'w \<Rightarrow> (mcp_client_error, stdio_session) result \<times> 'w" where
  "start_session spawn ops windows parent version config i w = (case ms_transport config of
     McpHttpTransport url headers \<Rightarrow> (Inl (McpTransportError ''McpStdioClient requires a stdio transport''), w)
   | McpStdioTransport t \<Rightarrow>
       (case spawn_stdio spawn windows parent t w of
          (Inl e, w1) \<Rightarrow> (Inl e, w1)
        | (Inr child, w1) \<Rightarrow>
            (if \<not> cp_stdin child then (Inl (McpTransportError ''missing child stdin''), w1)
             else if \<not> cp_stdout child then (Inl (McpTransportError ''missing child stdout''), w1)
             else if \<not> cp_stderr child then (Inl (McpTransportError ''missing child stderr''), w1)
             else (case handshake ops version i w1 of
                     (Inl e, w2) \<Rightarrow> (Inl e, w2)
                   | (Inr _, w2) \<Rightarrow> (Inr (so_session ops w2), w2)))))"

text \<open>
  \<^verbatim>\<open>shutdown\<close> takes the session out of its slot, marks it dead, waits for the child for the grace
  period and kills it.
\<close>

definition stdio_shutdown :: "(nat \<Rightarrow> 'w \<Rightarrow> 'w) \<Rightarrow> ('w \<Rightarrow> 'w) \<Rightarrow> bool \<Rightarrow> stdio_session option \<Rightarrow> 'w
    \<Rightarrow> stdio_session option \<times> stdio_session option \<times> 'w" where
  "stdio_shutdown wait_for stop has_child slot w =
     (None, map_option (\<lambda>s. s\<lparr>ss_dead := True\<rparr>) slot,
      if slot \<noteq> None \<and> has_child then stop (wait_for SHUTDOWN_GRACE_MS w) else w)"

section \<open>The HTTP client\<close>

definition SESSION_HEADER :: string where
  "SESSION_HEADER = ''mcp-session-id''"

definition http_client_new :: "(nat \<Rightarrow> (string, unit) result) \<Rightarrow> mcp_server_config \<Rightarrow> (mcp_client_error, http_client_state) result" where
  "http_client_new build config = (case ms_transport config of
     McpStdioTransport t \<Rightarrow> Inl (McpTransportError ''McpHttpClient requires an http transport'')
   | McpHttpTransport url headers \<Rightarrow>
       res_bind (map_err McpTransportError (build (request_timeout config))) (\<lambda>_. Inr \<lparr>hc_next_id = 0, hc_session = None\<rparr>))"

definition post_headers :: "(string, string) btree \<Rightarrow> string option \<Rightarrow> (string \<times> string) list" where
  "post_headers headers session =
     [(''content-type'', ''application/json''), (''accept'', ''application/json, text/event-stream'')] @ headers @
     (case session of None \<Rightarrow> [] | Some s \<Rightarrow> [(SESSION_HEADER, s)])"

section \<open>A started session\<close>

text \<open>A session that was started has shaken hands: the server named a dated revision and was told so.\<close>

lemma started_session:
  assumes "start_session spawn ops windows parent version config i w = (Inr s, w')"
  shows "\<exists>w1 w2 w3 r t. ms_transport config = McpStdioTransport t \<and>
    so_write ops (initialize_request version i) (so_register ops i w1) = (Inr (), w2) \<and>
    so_await ops DEFAULT_REQUEST_TIMEOUT_MS i w2 = (Inr r, w3) \<and> check_protocol_version r = Inr () \<and>
    so_write ops initialized_notification w3 = (Inr (), w') \<and> s = so_session ops w'"
proof -
  from assms obtain t child w1 where t: "ms_transport config = McpStdioTransport t"
    "spawn_stdio spawn windows parent t w = (Inr child, w1)"
    "handshake ops version i w1 = (Inr (), w')" "s = so_session ops w'"
    by (auto simp: start_session_def split: mcp_transport.splits prod.splits sum.splits if_splits)
  from t(3) obtain w2 w3 r where "so_write ops (initialize_request version i) (so_register ops i w1) = (Inr (), w2)"
    "so_await ops DEFAULT_REQUEST_TIMEOUT_MS i w2 = (Inr r, w3)" "check_protocol_version r = Inr ()"
    "so_write ops initialized_notification w3 = (Inr (), w')"
    by (auto simp: handshake_def split: prod.splits sum.splits)
  with t show ?thesis by blast
qed

end
