(* ===== verification/McpPipeline.thy ===== *)
theory McpPipeline
  imports McpStdio
begin

text \<open>
  The pipelined \<^verbatim>\<open>call_tools\<close> of the stdio client (\<^verbatim>\<open>crates/tool-compiler-adapter-mcp/src/stdio.rs\<close>)
  as a process over the session of \<open>McpStdio\<close>: it numbers, registers and writes every call, then
  awaits them one after the other, while other requests, the reader, the end of the server and
  timeouts come in between. Each call of a batch comes with the name of its request.
\<close>

section \<open>The batch\<close>

type_synonym batch_call = "nat \<times> mcp_tool_call"

datatype batch_state =
    BatchSend "batch_call list" "(string \<times> nat) list"
  | BatchAwait "(string \<times> nat) list" "mcp_tool_result list"
  | BatchDone "(mcp_client_error, mcp_tool_result list) result"







section \<open>What the batch has done\<close>


definition call_written :: "stdio_event list \<Rightarrow> stdio_client \<Rightarrow> batch_call \<Rightarrow> bool" where
  "call_written events cl k \<longleftrightarrow> (\<exists>i. number_of (cl_requests cl (fst k)) = Some i \<and>
     WriteRequest (fst k) (tool_call_request i (mtc_name (snd k)) (mtc_arguments (snd k))) None \<in> set events)"

definition call_result :: "stdio_client \<Rightarrow> batch_call \<Rightarrow> mcp_tool_result \<Rightarrow> bool" where
  "call_result cl k r \<longleftrightarrow> mtr_node r = mtc_node (snd k) \<and> (\<exists>i. cl_requests cl (fst k) = Answered i (Inr (mtr_result r)))"

definition receiver_of :: "batch_call \<Rightarrow> string \<times> nat" where
  "receiver_of k = (mtc_node (snd k), fst k)"

definition batch_inv :: "batch_call list \<Rightarrow> stdio_event list \<Rightarrow> stdio_client \<Rightarrow> batch_state \<Rightarrow> bool" where
  "batch_inv calls events cl b = (case b of
     BatchSend todo receivers \<Rightarrow> (\<exists>past k rest. todo = k # rest \<and> calls = past @ k # rest \<and> receivers = map receiver_of past \<and>
       (\<forall>k \<in> set past. call_written events cl k \<and> (\<exists>i. cl_requests cl (fst k) = Waiting i)) \<and>
       (\<forall>k \<in> set rest. cl_requests cl (fst k) = Unsent) \<and>
       (\<exists>i. cl_requests cl (fst k) \<in> {Unsent, Numbered i, Registered i}))
   | BatchAwait receivers results \<Rightarrow> (\<exists>past k rest. calls = past @ k # rest \<and> receivers = map receiver_of (k # rest) \<and>
       (\<forall>k \<in> set calls. call_written events cl k) \<and>
       (\<forall>k \<in> set (k # rest). \<exists>i. cl_requests cl (fst k) = Waiting i) \<and> list_all2 (call_result cl) past results)
   | BatchDone (Inr results) \<Rightarrow> (\<forall>k \<in> set calls. call_written events cl k) \<and> list_all2 (call_result cl) calls results
   | BatchDone (Inl e) \<Rightarrow> (\<exists>k \<in> set calls. \<exists>i. cl_requests cl (fst k) = Answered i (Inl e)))"








lemma batch_inv_done [simp]:
  "batch_inv calls events cl (BatchDone (Inr results)) \<longleftrightarrow>
     (\<forall>k \<in> set calls. call_written events cl k) \<and> list_all2 (call_result cl) calls results"
  "batch_inv calls events cl (BatchDone (Inl e)) \<longleftrightarrow> (\<exists>k \<in> set calls. \<exists>i. cl_requests cl (fst k) = Answered i (Inl e))"
  by (simp_all add: batch_inv_def)








section \<open>A run\<close>







lemma pair_blank [simp]: "\<not> is_blank ''r1''" "\<not> is_blank ''r2''"
  by (simp_all add: is_blank_def trim_start.simps)



end
