(* ===== verification/Xtask.thy ===== *)
theory Xtask
  imports Lines Json
begin

text \<open>
  The repository gates of \<^verbatim>\<open>crates/xtask\<close>: the ceiling on production lines with its brace scanner
  (\<^verbatim>\<open>loc.rs\<close>), the release check (\<^verbatim>\<open>release.rs\<close>), the examples against their schemas
  (\<^verbatim>\<open>examples.rs\<close>) and the coverage threshold (\<^verbatim>\<open>main.rs\<close>). The directory tree, the contents of
  files, the JSON parser and the schema validators are parameters; the steps that only start
  \<^verbatim>\<open>cargo\<close> are not modelled.
\<close>

section \<open>The brace scanner\<close>

datatype literal_mode = InCode | InString | InChar | InRaw nat

record scan_state =
  sn_depth :: int
  sn_saw_open :: bool
  sn_block_comment :: bool

definition scan_start :: scan_state where
  "scan_start = \<lparr>sn_depth = 0, sn_saw_open = False, sn_block_comment = False\<rparr>"

fun scan_from :: "string \<Rightarrow> literal_mode \<Rightarrow> scan_state \<Rightarrow> scan_state" where
  "scan_from [] mode st = st"
| "scan_from (c # cs) mode st =
     (if sn_block_comment st then
        (if c = CHR ''*'' \<and> prefix ''/'' cs then scan_from (drop 1 cs) mode (st\<lparr>sn_block_comment := False\<rparr>)
         else scan_from cs mode st)
      else (case mode of
          InRaw hashes \<Rightarrow>
            (if c = CHR 0x22 \<and> prefix (replicate hashes (CHR ''#'')) cs then scan_from (drop hashes cs) InCode st
             else scan_from cs mode st)
        | InString \<Rightarrow>
            (if c = CHR 0x5C then scan_from (drop 1 cs) mode st
             else scan_from cs (if c = CHR 0x22 then InCode else mode) st)
        | InChar \<Rightarrow>
            (if c = CHR 0x5C then scan_from (drop 1 cs) mode st
             else scan_from cs (if c = CHR 0x27 then InCode else mode) st)
        | InCode \<Rightarrow>
            (if c = CHR ''/'' \<and> prefix ''/'' cs then st
             else if c = CHR ''/'' \<and> prefix ''*'' cs then scan_from (drop 1 cs) mode (st\<lparr>sn_block_comment := True\<rparr>)
             else if c = CHR ''r'' \<and> (prefix [CHR 0x22] cs \<or> prefix ''#'' cs) then
               (let hashes = length (takeWhile (\<lambda>b. b = CHR ''#'') cs) in
                if prefix [CHR 0x22] (drop hashes cs) then scan_from (drop (hashes + 1) cs) (InRaw hashes) st
                else scan_from cs mode st)
             else if c = CHR 0x22 then scan_from cs InString st
             else if c = CHR 0x27 then scan_from cs (if CHR 0x27 \<in> set (take_chars 4 cs) then InChar else mode) st
             else if c = CHR ''{'' then scan_from cs mode (st\<lparr>sn_depth := sn_depth st + 1, sn_saw_open := True\<rparr>)
             else if c = CHR ''}'' \<and> sn_saw_open st then scan_from cs mode (st\<lparr>sn_depth := sn_depth st - 1\<rparr>)
             else scan_from cs mode st)))"

definition scan_line :: "string \<Rightarrow> scan_state \<Rightarrow> scan_state" where
  "scan_line line st = scan_from line InCode st"

text \<open>How many lines the item takes.\<close>

fun skip_braced_item :: "string list \<Rightarrow> scan_state \<Rightarrow> nat" where
  "skip_braced_item [] st = 0"
| "skip_braced_item (line # lines) st =
     (let st1 = scan_line line st in
      if sn_saw_open st1 \<and> sn_depth st1 \<le> 0 then 1 else Suc (skip_braced_item lines st1))"

lemma skip_braced_item_le: "skip_braced_item lines st \<le> length lines"
  by (induction lines arbitrary: st) (auto simp: Let_def)

definition cfg_test :: string where
  "cfg_test = ''#[cfg(test)]''"

definition starts_cfg_test_item :: "string \<Rightarrow> bool" where
  "starts_cfg_test_item line \<longleftrightarrow> str_trim line = cfg_test"

text \<open>The lines after the attribute that belong to the item it gates.\<close>

definition skip_cfg_test_item :: "string list \<Rightarrow> nat" where
  "skip_cfg_test_item lines = (case lines of
     [] \<Rightarrow> 0
   | first # _ \<Rightarrow> if suffix '';'' (trim_end first) then 1 else skip_braced_item lines scan_start)"

lemma skip_cfg_test_item_le: "skip_cfg_test_item lines \<le> length lines"
  using skip_braced_item_le [of lines scan_start] by (auto simp: skip_cfg_test_item_def split: list.split)

fun count_lines :: "string list \<Rightarrow> nat" where
  "count_lines [] = 0"
| "count_lines (line # lines) =
     (if starts_cfg_test_item line then count_lines (drop (skip_cfg_test_item lines) lines)
      else Suc (count_lines lines))"

definition production_line_count :: "string \<Rightarrow> nat" where
  "production_line_count content = count_lines (str_lines content)"

section \<open>The line gate\<close>

datatype src_entry = DirEntry string "src_entry list" | FileEntry string

definition SKIPPED_DIRS :: "string list" where
  "SKIPPED_DIRS = [''.git'', ''.codegraph'', ''target'', ''node_modules'', ''dist'', ''dist-test'', ''tests'']"

definition rust_file :: "string \<Rightarrow> bool" where
  "rust_file name \<longleftrightarrow> suffix ''.rs'' name \<and> name \<noteq> ''.rs'' \<and> name \<noteq> ''tests.rs''"

fun collect_rust_files :: "string list \<Rightarrow> src_entry \<Rightarrow> string list list" where
  "collect_rust_files dir (FileEntry name) = (if rust_file name then [dir @ [name]] else [])"
| "collect_rust_files dir (DirEntry name entries) =
     (if name \<in> set SKIPPED_DIRS then [] else concat (map (collect_rust_files (dir @ [name])) entries))"

definition MAX_RUST_FILE_LINES :: nat where
  "MAX_RUST_FILE_LINES = 500"

definition check_loc :: "(string list \<Rightarrow> string) \<Rightarrow> (string list \<Rightarrow> (string, string) result) \<Rightarrow> src_entry list \<Rightarrow> (string, unit) result" where
  "check_loc show_path read entries =
     res_bind (res_map (\<lambda>file. res_bind (read file) (\<lambda>content. Inr (file, production_line_count content)))
         (concat (map (collect_rust_files []) entries)))
       (\<lambda>counts.
         (let errors = map (\<lambda>(file, n). show_path file @ '' has '' @ dec n @ '' production lines; max is '' @ dec MAX_RUST_FILE_LINES)
                (filter (\<lambda>(file, n). n > MAX_RUST_FILE_LINES) counts)
          in if errors = [] then Inr () else Inl (join_with [CHR 0x0A] errors)))"

section \<open>The release check\<close>

definition version_line :: "string \<Rightarrow> string option" where
  "version_line line =
     (let l = str_trim line; head = ''version = '' @ [CHR 0x22] in
      if prefix head l \<and> suffix [CHR 0x22] (drop (length head) l) then Some (butlast (drop (length head) l)) else None)"

definition workspace_version :: "string \<Rightarrow> (string, string) result" where
  "workspace_version manifest =
     ok_or ''workspace Cargo.toml has no version'' (case List.map_filter version_line (str_lines manifest) of [] \<Rightarrow> None | v # _ \<Rightarrow> Some v)"

definition sdk_version :: "json \<Rightarrow> (string, string) result" where
  "sdk_version package = ok_or ''sdk/node/package.json has no version'' (Option.bind (json_get package ''version'') as_str)"

definition release_check :: "(string, string) result \<Rightarrow> (string, string) result \<Rightarrow> (string \<Rightarrow> (string, json) result) \<Rightarrow> (string, string) result
    \<Rightarrow> (string, unit) result" where
  "release_check manifest package parse changelog =
     res_bind (res_bind manifest workspace_version) (\<lambda>workspace.
     res_bind (res_bind package (\<lambda>text. res_bind (map_err (\<lambda>m. ''sdk/node/package.json: '' @ m) (parse text)) sdk_version)) (\<lambda>sdk.
     res_bind changelog (\<lambda>text.
       (let heading = ''## '' @ workspace;
            errors = (if workspace \<noteq> sdk then [''version drift: Cargo workspace is '' @ workspace @ '', sdk/node package.json is '' @ sdk] else []) @
              (if str_contains heading text then [] else [''CHANGELOG.md has no '' @ [CHR 0x27] @ heading @ [CHR 0x27] @ '' section for the current version''])
        in if errors = [] then Inr () else Inl (join_with [CHR 0x0A] errors)))))"

section \<open>Examples and coverage\<close>

record schemas =
  sm_plan :: "json \<Rightarrow> (string, unit) result"
  sm_intent :: "json \<Rightarrow> (string, unit) result"
  sm_recipe :: "json \<Rightarrow> (string, unit) result"

definition for_document :: "schemas \<Rightarrow> json \<Rightarrow> string \<times> (json \<Rightarrow> (string, unit) result)" where
  "for_document s v =
     (if json_get v ''steps'' \<noteq> None then (''intent'', sm_intent s)
      else if json_get v ''recipe'' \<noteq> None then (''recipe'', sm_recipe s)
      else (''plan'', sm_plan s))"

definition example_file :: "string \<Rightarrow> bool" where
  "example_file name \<longleftrightarrow> suffix ''.json'' name \<and> name \<noteq> ''.json'' \<and> \<not> str_contains ''config'' name"

fun check_examples :: "schemas \<Rightarrow> (string \<Rightarrow> (string, string) result) \<Rightarrow> (string \<Rightarrow> (string, json) result) \<Rightarrow> string list
    \<Rightarrow> nat \<times> string list \<Rightarrow> (string, nat \<times> string list) result" where
  "check_examples s read parse [] acc = Inr acc"
| "check_examples s read parse (name # names) acc =
     (if \<not> example_file name then check_examples s read parse names acc
      else res_bind (read name) (\<lambda>text. res_bind (map_err (\<lambda>m. name @ '': invalid JSON: '' @ m) (parse text)) (\<lambda>v.
        case for_document s v of (label, validate_json) \<Rightarrow>
          check_examples s read parse names (fst acc + 1, snd acc @ (case validate_json v of
             Inr _ \<Rightarrow> [] | Inl m \<Rightarrow> [name @ '' does not match the '' @ label @ '' schema: '' @ m])))))"

definition validate_examples :: "(string, schemas) result \<Rightarrow> (string \<Rightarrow> (string, string) result) \<Rightarrow> (string \<Rightarrow> (string, json) result)
    \<Rightarrow> (string, string list) result \<Rightarrow> (string, nat) result" where
  "validate_examples loaded read parse names =
     res_bind loaded (\<lambda>s. res_bind names (\<lambda>names. res_bind (check_examples s read parse names (0, [])) (\<lambda>(checked, errors).
       if errors = [] then Inr checked else Inl (join_with [CHR 0x0A] errors))))"

definition DEFAULT_MIN_LINE_COVERAGE :: nat where
  "DEFAULT_MIN_LINE_COVERAGE = 95"

definition min_line_coverage :: "(string \<rightharpoonup> string) \<Rightarrow> (string, nat) result" where
  "min_line_coverage vars = (case vars ''TOOL_COMPILER_COVERAGE_MIN'' of
     None \<Rightarrow> Inr DEFAULT_MIN_LINE_COVERAGE
   | Some v \<Rightarrow> ok_or ''TOOL_COMPILER_COVERAGE_MIN must be 0..=100''
       (Option.bind (parse_u32 v) (\<lambda>n. if n \<le> 100 then Some n else None)))"

section \<open>What the line gate decides\<close>

lemma count_lines_le: "count_lines lines \<le> length lines"
proof (induction lines rule: count_lines.induct)
  case (2 line lines)
  then show ?case using skip_cfg_test_item_le [of lines] by (cases "starts_cfg_test_item line") auto
qed simp

lemma count_lines_all: "\<forall>line \<in> set lines. \<not> starts_cfg_test_item line \<Longrightarrow> count_lines lines = length lines"
  by (induction lines) auto

text \<open>The files the gate looks at, as a relation on the tree.\<close>

inductive gated :: "string list \<Rightarrow> src_entry \<Rightarrow> string list \<Rightarrow> bool" where
  gated_file: "rust_file name \<Longrightarrow> gated dir (FileEntry name) (dir @ [name])"
| gated_dir: "name \<notin> set SKIPPED_DIRS \<Longrightarrow> e \<in> set entries \<Longrightarrow> gated (dir @ [name]) e file \<Longrightarrow> gated dir (DirEntry name entries) file"

lemma collect_rust_files_iff: "file \<in> set (collect_rust_files dir e) \<longleftrightarrow> gated dir e file"
proof (induction dir e rule: collect_rust_files.induct)
  case (1 dir name)
  show ?case by (auto elim: gated.cases intro: gated.intros)
next
  case (2 dir name entries)
  have "gated dir (DirEntry name entries) file \<longleftrightarrow>
      name \<notin> set SKIPPED_DIRS \<and> (\<exists>e \<in> set entries. gated (dir @ [name]) e file)"
    by (auto elim: gated.cases intro: gated.intros)
  with 2 show ?case by auto
qed

text \<open>
  The gate passes exactly when it can read every Rust file outside the skipped directories
  and none of them has more than 500 production lines, which are never more than its lines.
\<close>

theorem check_loc_decides:
  "check_loc show_path read entries = Inr () \<longleftrightarrow>
    (\<forall>e file. e \<in> set entries \<longrightarrow> gated [] e file \<longrightarrow>
      (\<exists>content. read file = Inr content \<and> production_line_count content \<le> MAX_RUST_FILE_LINES))"
proof -
  let ?files = "concat (map (collect_rust_files []) entries)"
  let ?g = "\<lambda>file. res_bind (read file) (\<lambda>content. Inr (file, production_line_count content))"
  have files: "f \<in> set ?files \<longleftrightarrow> (\<exists>e \<in> set entries. gated [] e f)" for f
    by (auto simp: collect_rust_files_iff)
  have loop: "(\<exists>counts. res_map ?g fs = Inr counts \<and> filter (\<lambda>(file, n). n > MAX_RUST_FILE_LINES) counts = []) \<longleftrightarrow>
      (\<forall>file \<in> set fs. \<exists>content. read file = Inr content \<and> production_line_count content \<le> MAX_RUST_FILE_LINES)" for fs
  proof (induction fs)
    case (Cons f fs)
    then show ?case by (cases "read f"; cases "res_map ?g fs") (auto simp: res_bind_eq_Inr)
  qed simp
  have "check_loc show_path read entries = Inr () \<longleftrightarrow>
      (\<exists>counts. res_map ?g ?files = Inr counts \<and> filter (\<lambda>(file, n). n > MAX_RUST_FILE_LINES) counts = [])"
    by (cases "res_map ?g ?files") (auto simp: check_loc_def Let_def)
  also have "\<dots> \<longleftrightarrow> (\<forall>f \<in> set ?files. \<exists>content. read f = Inr content \<and> production_line_count content \<le> MAX_RUST_FILE_LINES)"
    by (rule loop)
  finally show ?thesis unfolding Ball_def files by blast
qed

text \<open>
  A string literal that goes over a line break loses its mode at the break, so a brace in it
  counts: the test module below closes too early and its last lines are counted.
\<close>

lemma multi_line_string_skews_count:
  "count_lines [cfg_test, ''mod tests {'', ''    const S: &str = '' @ [CHR 0x22] @ ''one'', ''}'' @ [CHR 0x22] @ '';'', ''}'', ''fn a() {}''] = 2"
  by code_simp

end
