(* ===== verification/Spec2Isabelle.thy ===== *)
theory Spec2Isabelle
  imports Optimizer Mining Flight Transparent Finish FsSpec HttpAdapter ConfigSpec ServeSpec Commands Bench McpSession McpPipeline Xtask
begin

text \<open>
  A verification development for the tool-call compiler, the Rust crates under
  \<^verbatim>\<open>src/crates/\<close>. The compiler takes a plan (a graph of tool calls with declared effects),
  validates it, optimizes it, runs it with as much parallelism as the effects allow, and gives
  one composite result. This theory holds the map of the development; the definitions and their
  lemmas are in the theories it imports. Each claim stands in the theory of the component it is
  about, after a text that starts with its number.

  \<^bold>\<open>The program's parts, in the order a plan goes through them.\<close>

  \<^item> The plan IR (\<open>Ir\<close>: \<^verbatim>\<open>tool-compiler-ir\<close>), JSON values and their canonical text (\<open>Json\<close>), strings as
    lists of bytes (\<open>Text\<close>, \<open>Utf8\<close>, \<open>Lines\<close>) and ordered maps, results and shared lemmas (\<open>Prelude\<close>).
    A \<^verbatim>\<open>BTreeMap\<close> is a list sorted by key, a \<^verbatim>\<open>Result\<close> a sum with the error on the left.
  \<^item> The planner (\<open>Planner\<close>, \<open>Recipes\<close>, \<open>Mining\<close>: \<^verbatim>\<open>tool-compiler-planner\<close>) compiles intents and recipes
    into plans and finds repeated calls in a transcript.
  \<^item> Validation and layering (\<open>Graph\<close>: \<^verbatim>\<open>tool-compiler-graph\<close>).
  \<^item> The optimizer (\<open>Passes\<close>, \<open>Cost\<close>, \<open>Explain\<close>, \<open>Optimizer\<close>: \<^verbatim>\<open>tool-compiler-optimizer\<close>): deduplication,
    dead-node elimination, batch groups, the cost estimates on 64-bit words and the diagnostics
    with their bit matrix.
  \<^item> The runtime (\<^verbatim>\<open>tool-compiler-runtime\<close>). \<open>Registry\<close> and \<open>Builtin\<close> hold the adapters and what is
    declared about tools; \<open>RuntimeRefs\<close> resolves inputs; \<open>Cache\<close>, \<open>Locks\<close>, \<open>Policy\<close> and \<open>Flight\<close> are the
    services of a call; \<open>Dispatch\<close> and \<open>Fanout\<close> run one unit, \<open>Transparent\<close> compares that with plain
    calls; \<open>RunResult\<close> shapes what comes out. \<open>Engine\<close> builds a run, \<open>Scheduler\<close> is its loop as a step
    relation, \<open>Finish\<close> its end. \<open>EngineSpec\<close>, \<open>SchedSpec\<close>, \<open>SchedRuns\<close>, \<open>SchedProps\<close>, \<open>Ledger\<close> and \<open>Gate\<close> are
    about these. \<open>Conformance\<close> is the suite that tests an adapter.
  \<^item> The adapters: their interface and child processes (\<open>AdapterApi\<close>, \<open>ShellAdapter\<close>), files (\<open>Paths\<close>,
    \<open>FsAdapter\<close>, \<open>FsSpec\<close>), HTTP (\<open>HttpAdapter\<close>), MCP (\<open>McpProto\<close>, \<open>McpStdio\<close>, \<open>McpPipeline\<close>,
    \<open>McpClients\<close>, \<open>McpSession\<close>) and the example adapter of the command line (\<open>LocalAdapter\<close>).
  \<^item> The command line (\<^verbatim>\<open>tool-compiler-cli\<close>): the registry a configuration file builds (\<open>Config\<close>,
    \<open>ConfigSpec\<close>), the reports as JSON (\<open>Report\<close>), the MCP server (\<open>Serve\<close>, \<open>ServeSpec\<close>), the commands
    (\<open>Commands\<close>) and the benchmark (\<open>Bench\<close>). The repository's own gates are in \<open>Xtask\<close>.

  \<^bold>\<open>How state and effects are modelled.\<close>

  \<^item> Pure code is a function. A panic (a missing map key, \<^verbatim>\<open>unreachable!\<close>) or a loop that does not
    end is \<open>None\<close> of an option around the result: \<open>deduplicate_nodes\<close>, \<open>optimize\<close>, \<open>order_index_new\<close>,
    \<open>acquire_lock\<close>, \<open>schedule\<close>, \<open>list_pages\<close>, \<open>handle_line\<close>. Theorems that the code returns are stated as
    such, and so is a case where it does not (\<open>dedup_diverges_on_repeated_id\<close>).
  \<^item> The world an adapter acts on is a type variable \<open>'w\<close> that is passed along; an executor is a
    record of two functions from tool and input to a timed run: its result, how long it takes and
    the world it leaves at a given time, so that a timeout can cut it short.
  \<^item> The run of a plan is the relation \<open>sched_step\<close> between \<open>Looping\<close>, \<open>Ended\<close> and \<open>Crashed\<close> states. A step is a
    turn of the loop that ends in a wait, followed by the task that ended or by a cancellation;
    every order in which tasks may end is a run. \<open>SchedSpec\<close> gives its invariant, \<open>SchedRuns\<close> shows
    that every step keeps it, \<open>run_measure\<close> decreases, and four steps for each unit and four more
    are enough (\<open>runs_end\<close>). These theorems assume \<open>no_self_conflict\<close>, that no unit both reads and writes
    one resource: for such a unit \<open>try_acquire\<close> can panic, as the program does. \<open>Ledger\<close> and \<open>Gate\<close>
    do without it.
  \<^item> The stdio session of the MCP client is a state machine over events (a request takes its
    number, registers, writes, waits; the reader reads a line or ends; a timeout), and a pipelined
    batch takes its own steps among the others of the same machine (\<open>McpPipeline\<close>); the server is a
    relation in which any pending task may end next, single flight a relation over callers.
  \<^item> Words have their width where it matters: costs, times and the counters that wrap are 64-bit,
    the backoff and the attempts are those of \<^verbatim>\<open>policy.rs\<close>, a bit row is a list of 64-bit words. A
    \<^verbatim>\<open>usize\<close> that counts elements in memory is a natural number.

  \<^bold>\<open>Interfaces.\<close> \<open>ordered_map\<close> (\<open>Prelude\<close>), \<open>batch_executor\<close> (\<open>AdapterApi\<close>, interpreted for the default
  batch, the built-in tools and the local adapter), \<open>lock_manager\<close> (\<open>Locks\<close>), \<open>tool_cache\<close> (\<open>Cache\<close>),
  \<open>ledger_law\<close> (\<open>Ledger\<close>) and \<open>pure_dispatch\<close> (\<open>Transparent\<close>) are locales, each interpreted on the
  program's own definitions.

  \<^bold>\<open>What the groups of lemmas show.\<close>

  \<^item> \<open>Graph\<close>: validation accepts exactly the valid plans of the specification \<open>valid_plan\<close>; the layers
    partition the nodes, respect the dependencies and hold only pairwise compatible nodes; the
    amortised admission test is the pairwise rule \<open>can_run_with\<close>; \<open>retain\<close> is revalidation.
  \<^item> \<open>Passes\<close>, \<open>Optimizer\<close>, \<open>Cost\<close>, \<open>Explain\<close>: what each pass keeps (elimination against the inductive
    \<open>needed\<close>), on which plans deduplication loops or makes a cycle, that the graph stays the validated
    graph of the final plan, that the pipeline returns on distinct ids, and that the diagnostics
    are those of a reference definition without bit sets.
  \<^item> \<open>EngineSpec\<close> to \<open>Finish\<close>: the engine is well wired; at every wait the units in flight are pairwise
    compatible, within the limits and behind settled dependencies; every run ends, settles every
    node, releases every lock, and its result accounts for every node and output.
  \<^item> \<open>Locks\<close>, \<open>Cache\<close>, \<open>Policy\<close>, \<open>Flight\<close>, \<open>Dispatch\<close>, \<open>Transparent\<close>: the lock table decides the pairwise
    rule, the cache refines an ideal store, retries are bounded and safe, the guard of a key is
    exclusive, a unit reports every member once, and caching, batching, retries and fan-out do not
    change the outputs of built-in calls.
  \<^item> Adapters: path containment against the deepest existing ancestor and the multi-file
    transaction (\<open>FsSpec\<close>), the environment of a child
    (\<open>ShellAdapter\<close>), the request and its headers (\<open>HttpAdapter\<close>), where every
    answer of a request comes from (\<open>McpStdio\<close>), that the calls of a pipelined batch get their own
    (\<open>McpPipeline\<close>), starting a session (\<open>McpSession\<close>), derived effects (\<open>McpProto\<close>), the pages of a tool list and
    the composition depth (\<open>McpClients\<close>).
  \<^item> \<open>ConfigSpec\<close>, \<open>ServeSpec\<close>: no run on a configured registry, by any entry point, dispatches one of the
    server's own tools, each request line is answered once, nested compilers stop, and the client reads what
    the server writes. \<open>ServeSpec\<close> puts \<open>McpClients\<close> (the depth a child finds), \<open>Serve\<close> (what it does with
    it) and \<open>McpProto\<close> (how the answer is read) together.

  \<^bold>\<open>What is a parameter.\<close> The file system, processes, sockets and clocks (records of functions; the laws
  a theorem needs are named, \<open>file_laws\<close> over a \<open>disk_view\<close> for instance); the JSON parser, the derived deserializers and
  the JSON Schema validators; lower-casing; the Debug rendering inside the deduplication key; the
  jitter of the backoff; floating-point arithmetic (\<open>float_ops\<close>); in \<open>Serve\<close>, \<open>Commands\<close> and \<open>Bench\<close> the run
  of a plan, whose model is \<open>Scheduler\<close> and \<open>Finish\<close>. Floats in JSON are carried by their text.

  \<^bold>\<open>Not modelled.\<close> The invalidation of the cache during a run (the cache is a component of its own,
  in the world of a dispatch); the wrap of the cache's 64-bit tick. Builder methods that only set a field and accessors; argument parsing by clap,
  standard error and tracing; ownership, so that \<^verbatim>\<open>Drop\<close>, \<^verbatim>\<open>kill_on_drop\<close> and what a dropped session
  closes are only noted; two things that happen at the same time inside one modelled action (a
  batch of file calls, a served request, a dispatch) take effect when the action completes; the
  gates of \<^verbatim>\<open>xtask\<close> that only start cargo; the Node SDK, the schemas, examples and scripts, which are
  not Rust code of the compiler.
\<close>

end
